(* ===== verification/Prelude.thy ===== *)
theory Prelude
  imports Main "HOL-Library.Word" "HOL-Library.Multiset" "HOL-Library.List_Lexorder" "HOL-Library.Log_Nat" "HOL-Library.Code_Target_Nat"
begin

text \<open>
  Shared ground of the development: the Rust result type as a sum, machine integers as bounded
  natural numbers, Rust strings as lists of Unicode scalar values, and the list facts the
  components share.

  Conventions. \<open>u64\<close>, \<open>u32\<close> and \<open>usize\<close> values (64-bit targets) are \<open>nat\<close> where the component
  proves or checks that they stay in range; the checked and saturating operations below write the
  width out. Bytes are \<open>8 word\<close>. A \<open>Result<T, String>\<close> is \<open>'e + 'a\<close> with \<open>Inl\<close> the error.
\<close>

section \<open>Named collections\<close>

named_theorems res_simps \<open>rewriting of result-valued programs\<close>
named_theorems inv_intros \<open>invariant preservation, one fact per operation\<close>

section \<open>Results\<close>

fun bind_res :: "'e + 'a \<Rightarrow> ('a \<Rightarrow> 'e + 'b) \<Rightarrow> 'e + 'b" where
  "bind_res (Inl e) f = Inl e"
| "bind_res (Inr x) f = f x"

definition require :: "bool \<Rightarrow> 'e \<Rightarrow> 'e + unit" where
  "require b e = (if b then Inr () else Inl e)"

lemma bind_res_Inr [res_simps]: "bind_res m f = Inr y \<longleftrightarrow> (\<exists>x. m = Inr x \<and> f x = Inr y)"
  by (cases m) auto

lemma bind_res_Inl: "bind_res m f = Inl e \<longleftrightarrow> m = Inl e \<or> (\<exists>x. m = Inr x \<and> f x = Inl e)"
  by (cases m) auto

lemma require_Inr [res_simps]: "require b e = Inr u \<longleftrightarrow> b"
  by (simp add: require_def)

lemma require_bind [res_simps]: "bind_res (require b e) f = Inr y \<longleftrightarrow> b \<and> f () = Inr y"
  by (simp add: require_def)

lemma if_Inl_Inr [res_simps]: "(if b then Inl e else m) = Inr y \<longleftrightarrow> \<not> b \<and> m = Inr y"
  by simp

fun opt_res :: "'e \<Rightarrow> 'a option \<Rightarrow> 'e + 'a" where
  "opt_res e None = Inl e"
| "opt_res e (Some x) = Inr x"

lemma opt_res_Inr [res_simps]: "opt_res e m = Inr x \<longleftrightarrow> m = Some x"
  by (cases m) auto

section \<open>Machine integers\<close>

definition u64_max :: nat where
  "u64_max = 18446744073709551615"

definition u32_max :: nat where
  "u32_max = 4294967295"

definition sat_add :: "nat \<Rightarrow> nat \<Rightarrow> nat" where
  "sat_add a b = min (a + b) u64_max"

definition sat_mul :: "nat \<Rightarrow> nat \<Rightarrow> nat" where
  "sat_mul a b = min (a * b) u64_max"

definition checked_add :: "nat \<Rightarrow> nat \<Rightarrow> nat option" where
  "checked_add a b = (if a + b \<le> u64_max then Some (a + b) else None)"

definition checked_mul :: "nat \<Rightarrow> nat \<Rightarrow> nat option" where
  "checked_mul a b = (if a * b \<le> u64_max then Some (a * b) else None)"

definition checked_sub :: "nat \<Rightarrow> nat \<Rightarrow> nat option" where
  "checked_sub a b = (if b \<le> a then Some (a - b) else None)"

lemma u64_max_eq: "u64_max = 2 ^ 64 - 1"
  by (simp add: u64_max_def)

lemma sat_add_le: "sat_add a b \<le> a + b"
  by (simp add: sat_add_def)

lemma sat_add_exact [simp]: "a + b \<le> u64_max \<Longrightarrow> sat_add a b = a + b"
  by (simp add: sat_add_def)

lemma checked_add_Some [simp]: "checked_add a b = Some c \<longleftrightarrow> c = a + b \<and> a + b \<le> u64_max"
  by (auto simp: checked_add_def)

lemma checked_add_None [simp]: "checked_add a b = None \<longleftrightarrow> u64_max < a + b"
  by (auto simp: checked_add_def)

lemma checked_sub_Some [simp]: "checked_sub a b = Some c \<longleftrightarrow> b \<le> a \<and> c = a - b"
  by (auto simp: checked_sub_def)

lemma foldl_sat_add_le: "foldl sat_add a xs \<le> a + sum_list xs"
proof (induction xs arbitrary: a)
  case (Cons x xs)
  have "foldl sat_add (sat_add a x) xs \<le> sat_add a x + sum_list xs" by (rule Cons.IH)
  also have "\<dots> \<le> a + x + sum_list xs" using sat_add_le [of a x] by simp
  finally show ?case by simp
qed simp

lemma foldl_sat_add_exact: "a + sum_list xs \<le> u64_max \<Longrightarrow> foldl sat_add a xs = a + sum_list xs"
  by (induction xs arbitrary: a) (auto simp: add.assoc)

section \<open>Bytes and strings\<close>

type_synonym byte = "8 word"

text \<open>
  A Rust string is a list of Unicode scalar values; \<open>utf8_len\<close> is \<open>str::len\<close>, which counts bytes.
\<close>

type_synonym rstr = "nat list"

definition lit :: "string \<Rightarrow> rstr" where
  "lit s = map of_char s"

definition len_utf8 :: "nat \<Rightarrow> nat" where
  "len_utf8 c = (if c < 128 then 1 else if c < 2048 then 2 else if c < 65536 then 3 else 4)"

definition utf8_len :: "rstr \<Rightarrow> nat" where
  "utf8_len s = sum_list (map len_utf8 s)"

text \<open>\<open>char::is_whitespace\<close>: the Unicode \<open>White_Space\<close> property.\<close>

definition is_whitespace :: "nat \<Rightarrow> bool" where
  "is_whitespace c \<longleftrightarrow> (9 \<le> c \<and> c \<le> 13) \<or> c = 32 \<or> c = 133 \<or> c = 160 \<or> c = 5760
     \<or> (8192 \<le> c \<and> c \<le> 8202) \<or> c = 8232 \<or> c = 8233 \<or> c = 8239 \<or> c = 8287 \<or> c = 12288"

definition is_ascii_digit :: "nat \<Rightarrow> bool" where
  "is_ascii_digit c \<longleftrightarrow> 48 \<le> c \<and> c \<le> 57"

definition is_ascii_hexdigit :: "nat \<Rightarrow> bool" where
  "is_ascii_hexdigit c \<longleftrightarrow> is_ascii_digit c \<or> (65 \<le> c \<and> c \<le> 70) \<or> (97 \<le> c \<and> c \<le> 102)"

lemma len_utf8_pos [simp]: "1 \<le> len_utf8 c"
  by (simp add: len_utf8_def)

lemma len_utf8_le [simp]: "len_utf8 c \<le> 4"
  by (simp add: len_utf8_def)

lemma length_le_utf8_len: "length s \<le> utf8_len s"
proof (induction s)
  case (Cons c s)
  then show ?case using len_utf8_pos [of c] by (simp add: utf8_len_def)
qed (simp add: utf8_len_def)

lemma utf8_len_Nil [simp]: "utf8_len [] = 0"
  by (simp add: utf8_len_def)

lemma utf8_len_append [simp]: "utf8_len (a @ b) = utf8_len a + utf8_len b"
  by (simp add: utf8_len_def)

text \<open>A run of ASCII characters has as many bytes as characters.\<close>

lemma utf8_len_ascii: "\<forall>c \<in> set s. c < 128 \<Longrightarrow> utf8_len s = length s"
  by (induction s) (auto simp: utf8_len_def len_utf8_def)

subsection \<open>Decimal numbers, as \<open>format!\<close> writes them\<close>

fun dec :: "nat \<Rightarrow> rstr" where
  "dec n = (if n < 10 then [48 + n] else dec (n div 10) @ [48 + n mod 10])"

declare dec.simps [simp del]

lemma dec_nonempty [simp]: "dec n \<noteq> []"
  by (subst dec.simps) simp

lemma dec_digits: "c \<in> set (dec n) \<Longrightarrow> is_ascii_digit c"
proof (induction n rule: dec.induct)
  case (1 n)
  show ?case
  proof (cases "n < 10")
    case True
    with "1.prems" show ?thesis by (simp add: dec.simps [of n] is_ascii_digit_def)
  next
    case False
    with "1.prems" consider "c \<in> set (dec (n div 10))" | "c = 48 + n mod 10"
      by (auto simp: dec.simps [of n])
    then show ?thesis
    proof cases
      case 1
      with False "1.IH" show ?thesis by simp
    next
      case 2
      then show ?thesis by (simp add: is_ascii_digit_def)
    qed
  qed
qed

lemma dec_value: "foldl (\<lambda>v c. v * 10 + (c - 48)) 0 (dec n) = n"
proof (induction n rule: dec.induct)
  case (1 n)
  then show ?case by (cases "n < 10") (simp_all add: dec.simps [of n])
qed

lemma dec_inj [simp]: "dec m = dec n \<longleftrightarrow> m = n"
  by (metis dec_value)

lemma length_dec: "0 < k \<Longrightarrow> n < 10 ^ k \<Longrightarrow> length (dec n) \<le> k"
proof (induction n arbitrary: k rule: dec.induct)
  case (1 n)
  show ?case
  proof (cases "n < 10")
    case True
    with "1.prems"(1) show ?thesis by (simp add: dec.simps [of n])
  next
    case False
    with "1.prems" obtain j where j: "k = Suc j" "0 < j"
      by (metis One_nat_def Suc_lessI gr0_implies_Suc not_less_zero power_one_right zero_less_Suc
          not_gr0 power_Suc0_right)
    with "1.prems"(2) have "n div 10 < 10 ^ j" by (simp add: less_mult_imp_div_less mult.commute)
    with False "1.IH" j have "length (dec (n div 10)) \<le> j" by blast
    with False j show ?thesis by (simp add: dec.simps [of n])
  qed
qed

lemma utf8_len_dec: "utf8_len (dec n) = length (dec n)"
  by (rule utf8_len_ascii) (auto dest!: dec_digits simp: is_ascii_digit_def)

section \<open>Lists\<close>

lemma sum_list_div2_le: "sum_list (map (\<lambda>n. n div 2) xs) \<le> sum_list xs div (2::nat)"
  by (induction xs) auto

lemma sum_list_update_nat:
  "i < length xs \<Longrightarrow> sum_list (xs[i := v]) = sum_list xs - xs ! i + (v::nat)"
proof (induction xs arbitrary: i)
  case (Cons x xs)
  show ?case
  proof (cases i)
    case 0
    then show ?thesis by simp
  next
    case (Suc j)
    with Cons.prems have j: "j < length xs" by simp
    have "xs ! j \<le> sum_list xs" using j by (simp add: elem_le_sum_list)
    with Suc Cons.IH [OF j] show ?thesis by simp
  qed
qed simp

lemma sort_key_sorted: "sorted (map f xs) \<Longrightarrow> sort_key f xs = xs"
proof (induction xs)
  case (Cons x xs)
  then show ?case by (cases xs) (simp_all add: insort_is_Cons)
qed simp

lemma sort_key_idem [simp]: "sort_key f (sort_key f xs) = sort_key f xs"
  by (simp add: sort_key_sorted)

lemma find_Some_in: "List.find P xs = Some x \<Longrightarrow> x \<in> set xs \<and> P x"
  by (auto simp: find_Some_iff)

end
