(* ===== verification/Learn_Seen.thy ===== *)
theory Learn_Seen
  imports Prelude
begin

unbundle bit_operations_syntax

text \<open>
  The local receipt filter of \<open>crates/log-learning/src/seen.rs\<close>: a Bloom filter over 64-digit
  hexadecimal keys with seven positions each. What it promises is one-sided: an inserted receipt
  is always recognised (it can never be counted a second time), whatever is inserted later.
\<close>

section \<open>State and operations\<close>

record seen_filter =
  bits :: "byte list"

definition filter_bytes :: nat where
  "filter_bytes = 2 * 1024 * 1024"

definition seen_default :: seen_filter where
  "seen_default = \<lparr>bits = replicate filter_bytes 0\<rparr>"

datatype seen_error = IncompatibleFilter | InvalidReceipt

definition seen_from_bytes :: "byte list \<Rightarrow> seen_error + seen_filter" where
  "seen_from_bytes b =
     (if length b \<noteq> filter_bytes then Inl IncompatibleFilter else Inr \<lparr>bits = b\<rparr>)"

definition seen_bytes :: "seen_filter \<Rightarrow> byte list" where
  "seen_bytes s = bits s"

definition hex_digit :: "nat \<Rightarrow> nat" where
  "hex_digit c = (if is_ascii_digit c then c - 48 else if 97 \<le> c then c - 87 else c - 55)"

text \<open>\<open>u64::from_str_radix(s, 16)\<close> on at most sixteen hexadecimal digits.\<close>

definition hex_value :: "rstr \<Rightarrow> 64 word" where
  "hex_value s = foldl (\<lambda>v c. v * 16 + of_nat (hex_digit c)) 0 s"

definition positions :: "seen_filter \<Rightarrow> rstr \<Rightarrow> nat list option" where
  "positions s key =
     (if utf8_len key \<noteq> 64 \<or> \<not> list_all is_ascii_hexdigit key then None
      else
        let a = hex_value (take 16 key);
            b = hex_value (take 16 (drop 16 key)) OR 1
        in Some (map (\<lambda>i. unat (a + of_nat i * b) mod (length (bits s) * 8)) [0..<7]))"

definition bit_set :: "byte list \<Rightarrow> nat \<Rightarrow> bool" where
  "bit_set bs i \<longleftrightarrow> bs ! (i div 8) AND push_bit (i mod 8) 1 \<noteq> 0"

definition set_one :: "nat \<Rightarrow> byte list \<Rightarrow> byte list" where
  "set_one i bs = bs[i div 8 := bs ! (i div 8) OR push_bit (i mod 8) 1]"

definition seen_contains :: "seen_filter \<Rightarrow> rstr \<Rightarrow> bool" where
  "seen_contains s key = (case positions s key of None \<Rightarrow> False | Some p \<Rightarrow> list_all (bit_set (bits s)) p)"

definition seen_insert :: "rstr \<Rightarrow> seen_filter \<Rightarrow> seen_error + seen_filter" where
  "seen_insert key s =
     (case positions s key of
        None \<Rightarrow> Inl InvalidReceipt
      | Some p \<Rightarrow> Inr (s\<lparr>bits := fold set_one p (bits s)\<rparr>))"

text \<open>Compacting old receipts inserts them one by one.\<close>

fun seen_insert_all :: "rstr list \<Rightarrow> seen_filter \<Rightarrow> seen_error + seen_filter" where
  "seen_insert_all [] s = Inr s"
| "seen_insert_all (k # ks) s = bind_res (seen_insert k s) (seen_insert_all ks)"

section \<open>Bits\<close>

lemma length_set_one [simp]: "length (set_one i bs) = length bs"
  by (simp add: set_one_def)

lemma length_fold_set_one [simp]: "length (fold set_one p bs) = length bs"
  by (induction p arbitrary: bs) auto

lemma bit_set_iff: "bit_set bs i \<longleftrightarrow> bit (bs ! (i div 8)) (i mod 8)"
proof -
  have "push_bit (i mod 8) 1 = (2 :: byte) ^ (i mod 8)"
    by (simp add: push_bit_eq_mult)
  then show ?thesis by (simp add: bit_set_def and_exp_eq_0_iff_not_bit)
qed

lemma bit_set_set_one:
  "j div 8 < length bs \<Longrightarrow> bit_set (set_one j bs) i \<longleftrightarrow> i = j \<or> bit_set bs i"
proof -
  assume j: "j div 8 < length bs"
  have "i = j \<longleftrightarrow> i div 8 = j div 8 \<and> i mod 8 = j mod 8"
    by (metis mult_div_mod_eq)
  then show ?thesis
    using j by (cases "i div 8 = j div 8") (auto simp: bit_set_iff set_one_def bit_simps)
qed

lemma bit_set_fold:
  "\<forall>j \<in> set p. j div 8 < length bs \<Longrightarrow>
     bit_set (fold set_one p bs) i \<longleftrightarrow> i \<in> set p \<or> bit_set bs i"
  by (induction p arbitrary: bs) (auto simp: bit_set_set_one)

lemma positions_in_range:
  assumes "positions s key = Some p" "bits s \<noteq> []" "j \<in> set p"
  shows "j div 8 < length (bits s)"
proof -
  obtain x where "j = x mod (length (bits s) * 8)"
    using assms(1,3) by (auto simp: positions_def Let_def split: if_splits)
  with assms(2) have "j < length (bits s) * 8" by simp
  then show ?thesis by (simp add: less_mult_imp_div_less)
qed

lemma positions_length:
  "length (bits s) = length (bits t) \<Longrightarrow> positions s key = positions t key"
  by (simp add: positions_def)

section \<open>No false negatives\<close>

lemma seen_insert_cases:
  assumes "seen_insert k s = Inr s'"
  obtains p where "positions s k = Some p" "s' = s\<lparr>bits := fold set_one p (bits s)\<rparr>"
  using assms by (auto simp: seen_insert_def split: option.splits)

lemma seen_insert_length [simp]:
  "seen_insert k s = Inr s' \<Longrightarrow> length (bits s') = length (bits s)"
  by (auto elim: seen_insert_cases)

lemma seen_insert_contains:
  assumes "seen_insert k s = Inr s'" "bits s \<noteq> []"
  shows "seen_contains s' k"
proof -
  obtain p where p: "positions s k = Some p" "s' = s\<lparr>bits := fold set_one p (bits s)\<rparr>"
    using assms(1) by (rule seen_insert_cases)
  then have "positions s' k = Some p"
    using positions_length [of s s' k] by simp
  with p positions_in_range [OF p(1) assms(2)] show ?thesis
    by (simp add: seen_contains_def list_all_iff bit_set_fold)
qed

lemma seen_insert_mono:
  assumes "seen_insert k s = Inr s'" "bits s \<noteq> []" "seen_contains s j"
  shows "seen_contains s' j"
proof -
  obtain p where p: "positions s k = Some p" "s' = s\<lparr>bits := fold set_one p (bits s)\<rparr>"
    using assms(1) by (rule seen_insert_cases)
  then have "positions s' j = positions s j"
    by (intro positions_length) simp
  with p positions_in_range [OF p(1) assms(2)] assms(3) show ?thesis
    by (auto simp: seen_contains_def list_all_iff bit_set_fold split: option.splits)
qed

lemma seen_insert_all_mono:
  assumes "seen_insert_all ks s = Inr s'" "bits s \<noteq> []" "seen_contains s j"
  shows "seen_contains s' j"
  using assms
proof (induction ks arbitrary: s)
  case (Cons k ks)
  then obtain t where t: "seen_insert k s = Inr t" "seen_insert_all ks t = Inr s'"
    by (auto simp: res_simps)
  moreover have "bits t \<noteq> []"
    using seen_insert_length [OF t(1)] Cons.prems(2) by auto
  ultimately show ?case
    using Cons seen_insert_mono by blast
qed simp

text \<open>C23. Every receipt of a compacted batch is recognised afterwards, and so is every receipt
  recognised before: the filter has no false negatives.\<close>

theorem seen_no_false_negatives:
  assumes "seen_insert_all ks s = Inr s'" "bits s \<noteq> []" "k \<in> set ks \<or> seen_contains s k"
  shows "seen_contains s' k"
  using assms
proof (induction ks arbitrary: s)
  case (Cons j ks)
  then obtain t where t: "seen_insert j s = Inr t" "seen_insert_all ks t = Inr s'"
    by (auto simp: res_simps)
  have "bits t \<noteq> []"
    using seen_insert_length [OF t(1)] Cons.prems(2) by auto
  then show ?case
    using t Cons seen_insert_contains seen_insert_mono seen_insert_all_mono by (metis set_ConsD)
qed (simp add: seen_insert_all_mono)

theorem seen_no_false_negatives_witness:
  "\<exists>s'. seen_insert_all [replicate 64 48] \<lparr>bits = [0]\<rparr> = Inr s' \<and> seen_contains s' (replicate 64 48)"
proof -
  have i: "seen_insert_all [replicate 64 48] \<lparr>bits = [0]\<rparr> = Inr \<lparr>bits = [127]\<rparr>"
    by code_simp
  moreover have "seen_contains \<lparr>bits = [127]\<rparr> (replicate 64 48)"
    by (rule seen_no_false_negatives [OF i]) simp_all
  ultimately show ?thesis by blast
qed

end
