(* ===== verification/Ordered_Map.thy ===== *)
theory Ordered_Map
  imports Prelude
begin

text \<open>
  \<open>BTreeMap\<close> and \<open>BTreeSet\<close> as association lists strictly sorted by key, which keep the iteration
  order the code relies on (serialization, \<open>values()\<close>, \<open>len()\<close>).
\<close>

section \<open>Sorted association lists\<close>

type_synonym ('k, 'v) bmap = "('k \<times> 'v) list"

fun bm_get :: "'k \<Rightarrow> ('k, 'v) bmap \<Rightarrow> 'v option" where
  "bm_get k [] = None"
| "bm_get k ((k', v) # m) = (if k = k' then Some v else bm_get k m)"

fun bm_put :: "'k::linorder \<Rightarrow> 'v \<Rightarrow> ('k, 'v) bmap \<Rightarrow> ('k, 'v) bmap" where
  "bm_put k v [] = [(k, v)]"
| "bm_put k v ((k', v') # m) =
     (if k < k' then (k, v) # (k', v') # m
      else if k = k' then (k, v) # m
      else (k', v') # bm_put k v m)"

definition bm_keys :: "('k, 'v) bmap \<Rightarrow> 'k list" where
  "bm_keys m = map fst m"

definition bm_values :: "('k, 'v) bmap \<Rightarrow> 'v list" where
  "bm_values m = map snd m"

definition bm_has :: "'k \<Rightarrow> ('k, 'v) bmap \<Rightarrow> bool" where
  "bm_has k m \<longleftrightarrow> bm_get k m \<noteq> None"

definition bm_map :: "('v \<Rightarrow> 'w) \<Rightarrow> ('k, 'v) bmap \<Rightarrow> ('k, 'w) bmap" where
  "bm_map f m = map (\<lambda>(k, v). (k, f v)) m"

definition bm_ok :: "('k::linorder, 'v) bmap \<Rightarrow> bool" where
  "bm_ok m \<longleftrightarrow> sorted_wrt (<) (bm_keys m)"

text \<open>\<open>map.entry(k).or_default() += n\<close> on counters.\<close>

definition bm_bump :: "'k::linorder \<Rightarrow> nat \<Rightarrow> ('k, nat) bmap \<Rightarrow> ('k, nat) bmap" where
  "bm_bump k n m = bm_put k ((case bm_get k m of None \<Rightarrow> 0 | Some v \<Rightarrow> v) + n) m"

definition bm_count :: "'k \<Rightarrow> ('k, nat) bmap \<Rightarrow> nat" where
  "bm_count k m = (case bm_get k m of None \<Rightarrow> 0 | Some v \<Rightarrow> v)"

subsection \<open>Lookup and update\<close>

lemma bm_get_put [simp]: "bm_get j (bm_put k v m) = (if j = k then Some v else bm_get j m)"
  by (induction m) auto

lemma bm_has_put [simp]: "bm_has j (bm_put k v m) \<longleftrightarrow> j = k \<or> bm_has j m"
  by (simp add: bm_has_def)

lemma bm_get_in: "bm_get k m = Some v \<Longrightarrow> (k, v) \<in> set m"
  by (induction m) (auto split: if_splits)

lemma bm_has_keys: "bm_has k m \<longleftrightarrow> k \<in> set (bm_keys m)"
  by (induction m) (auto simp: bm_has_def bm_keys_def)

lemma bm_keys_Nil [simp]: "bm_keys [] = []"
  by (simp add: bm_keys_def)

lemma bm_keys_Cons [simp]: "bm_keys ((k, v) # m) = k # bm_keys m"
  by (simp add: bm_keys_def)

lemma set_bm_keys_put [simp]: "set (bm_keys (bm_put k v m)) = insert k (set (bm_keys m))"
  by (induction k v m rule: bm_put.induct) auto

lemma bm_ok_Nil [simp]: "bm_ok []"
  by (simp add: bm_ok_def bm_keys_def)

lemma bm_ok_Cons: "bm_ok ((k, v) # m) \<longleftrightarrow> (\<forall>j \<in> set (bm_keys m). k < j) \<and> bm_ok m"
  by (simp add: bm_ok_def bm_keys_def)

lemma bm_ok_put [inv_intros]: "bm_ok m \<Longrightarrow> bm_ok (bm_put k v m)"
  by (induction k v m rule: bm_put.induct) (auto simp: bm_ok_Cons)

lemma bm_ok_distinct: "bm_ok m \<Longrightarrow> distinct (bm_keys m)"
  by (simp add: bm_ok_def strict_sorted_iff)

lemma bm_get_iff: "bm_ok m \<Longrightarrow> bm_get k m = Some v \<longleftrightarrow> (k, v) \<in> set m"
proof (induction k m rule: bm_get.induct)
  case (2 k k' v' m)
  have "(k', w) \<notin> set m" for w
    using 2 by (auto simp: bm_ok_Cons bm_keys_def)
  with 2 show ?case by (auto simp: bm_ok_Cons)
qed simp

lemma length_bm_put:
  "bm_ok m \<Longrightarrow> length (bm_put k v m) = (if bm_has k m then length m else Suc (length m))"
proof (induction m)
  case (Cons p m)
  obtain k' v' where p: "p = (k', v')" by (cases p)
  have ord: "\<forall>j \<in> set (bm_keys m). k' < j" and ok: "bm_ok m"
    using Cons.prems by (simp_all add: p bm_ok_Cons)
  have "\<not> bm_has k m" if "k < k'"
    using ord that by (auto simp: bm_has_keys)
  then show ?case using Cons.IH [OF ok] by (auto simp: p bm_has_def)
qed (simp add: bm_has_def)

lemma bm_put_in: "x \<in> set (bm_put k v m) \<Longrightarrow> x = (k, v) \<or> x \<in> set m"
  by (induction m) (auto split: if_splits)

lemma set_bm_put: "bm_ok m \<Longrightarrow> set (bm_put k v m) = insert (k, v) {x \<in> set m. fst x \<noteq> k}"
proof -
  assume ok: "bm_ok m"
  have "x \<in> set (bm_put k v m) \<longleftrightarrow> bm_get (fst x) (bm_put k v m) = Some (snd x)" for x
    using bm_get_iff [OF bm_ok_put [OF ok]] by (metis prod.collapse)
  then show ?thesis
    using bm_get_iff [OF ok] by (auto split: if_splits)
qed

text \<open>Two sorted maps with the same lookups are the same list, so an order of insertion leaves
  no trace in what is serialized.\<close>

lemma bm_ext:
  assumes "bm_ok m" "bm_ok n" "\<And>k. bm_get k m = bm_get k n"
  shows "m = n"
proof -
  have keys: "bm_keys m = bm_keys n"
  proof (rule sorted_distinct_set_unique)
    show "sorted (bm_keys m)" "distinct (bm_keys m)"
      using assms(1) by (simp_all add: bm_ok_def strict_sorted_iff)
    show "sorted (bm_keys n)" "distinct (bm_keys n)"
      using assms(2) by (simp_all add: bm_ok_def strict_sorted_iff)
    show "set (bm_keys m) = set (bm_keys n)"
      using assms(3) by (auto simp flip: bm_has_keys simp: bm_has_def)
  qed
  show ?thesis
  proof (rule nth_equalityI)
    show len: "length m = length n"
      using arg_cong [OF keys, of length] by (simp add: bm_keys_def)
    fix i assume i: "i < length m"
    have fst_eq: "fst (m ! i) = fst (n ! i)"
      using arg_cong [OF keys, of "\<lambda>xs. xs ! i"] i len by (simp add: bm_keys_def)
    have "bm_get (fst (m ! i)) m = Some (snd (m ! i))"
      using bm_get_iff [OF assms(1)] i by simp
    moreover have "bm_get (fst (n ! i)) n = Some (snd (n ! i))"
      using bm_get_iff [OF assms(2)] i len by simp
    ultimately show "m ! i = n ! i"
      using assms(3) fst_eq by (metis option.inject prod_eqI)
  qed
qed

end
