(* ===== verification/Counter_Table.thy ===== *)
theory Counter_Table
  imports Ordered_Map
begin

text \<open>
  The counting idiom the learning code repeats: look a key up, add to its count, or append it when
  the table has room and otherwise refuse. The locale \<open>counter_table\<close> is that interface with its
  laws; the conservation of totals, the size bound and the order independence are proved once in
  it. Its two providers are the \<open>Vec<StateCount>\<close> style table (\<open>vec_add\<close>) of
  \<open>crates/log-learning/src/shared.rs\<close> and the \<open>BTreeMap<_, u64>\<close> one (\<open>bm_add\<close>) of
  \<open>crates/log-learning/src/model.rs\<close>.
\<close>

section \<open>The interface\<close>

locale counter_table =
  fixes ok :: "'t \<Rightarrow> bool"
    and keys :: "'t \<Rightarrow> 'k list"
    and count :: "'t \<Rightarrow> 'k \<Rightarrow> nat"
    and add :: "nat \<Rightarrow> 'k \<Rightarrow> nat \<Rightarrow> 't \<Rightarrow> 't option"
  assumes keys_distinct: "ok t \<Longrightarrow> distinct (keys t)"
    and count_out: "ok t \<Longrightarrow> k \<notin> set (keys t) \<Longrightarrow> count t k = 0"
    and add_None: "ok t \<Longrightarrow> add cap k n t = None \<longleftrightarrow> k \<notin> set (keys t) \<and> cap \<le> length (keys t)"
    and add_ok: "ok t \<Longrightarrow> add cap k n t = Some t' \<Longrightarrow> ok t'"
    and add_keys: "ok t \<Longrightarrow> add cap k n t = Some t' \<Longrightarrow> set (keys t') = insert k (set (keys t))"
    and add_count: "ok t \<Longrightarrow> add cap k n t = Some t' \<Longrightarrow> count t' j = count t j + (if j = k then n else 0)"
begin

definition total :: "'t \<Rightarrow> nat" where
  "total t = sum_list (map (count t) (keys t))"

lemma total_as_sum: "ok t \<Longrightarrow> total t = sum (count t) (set (keys t))"
  by (simp add: total_def keys_distinct sum_list_distinct_conv_sum_set)

lemma total_add:
  assumes "ok t" "add cap k n t = Some t'"
  shows "total t' = total t + n"
proof -
  let ?S = "set (keys t)"
  have "total t' = sum (\<lambda>j. count t j + (if j = k then n else 0)) (insert k ?S)"
    using assms add_ok add_keys add_count by (simp add: total_as_sum)
  also have "\<dots> = sum (count t) (insert k ?S) + n"
    by (simp add: sum.distrib sum.delta)
  also have "sum (count t) (insert k ?S) = total t"
    using assms(1) count_out [OF assms(1), of k]
    by (cases "k \<in> ?S") (simp_all add: total_as_sum insert_absorb)
  finally show ?thesis .
qed

lemma size_add:
  assumes "ok t" "add cap k n t = Some t'" "length (keys t) \<le> cap"
  shows "length (keys t') \<le> cap"
proof -
  have "length (keys t') = card (insert k (set (keys t)))"
    using assms add_ok add_keys by (metis distinct_card keys_distinct)
  moreover have "card (set (keys t)) = length (keys t)"
    by (simp add: distinct_card keys_distinct assms(1))
  moreover have "k \<in> set (keys t) \<or> length (keys t) < cap"
    using add_None [OF assms(1), of cap k n] assms(2) by auto
  ultimately show ?thesis
    using assms(3) by (auto simp: insert_absorb card_insert_if)
qed

text \<open>Adding a list of entries, stopping at the first that does not fit.\<close>

fun add_list :: "nat \<Rightarrow> ('k \<times> nat) list \<Rightarrow> 't \<Rightarrow> 't option" where
  "add_list cap [] t = Some t"
| "add_list cap ((k, n) # es) t =
     (case add cap k n t of None \<Rightarrow> None | Some t' \<Rightarrow> add_list cap es t')"

lemma add_list_ok: "ok t \<Longrightarrow> add_list cap es t = Some t' \<Longrightarrow> ok t'"
  by (induction cap es t rule: add_list.induct) (auto split: option.splits dest: add_ok)

lemma add_list_keys:
  "ok t \<Longrightarrow> add_list cap es t = Some t' \<Longrightarrow> set (keys t') = fst ` set es \<union> set (keys t)"
  by (induction cap es t rule: add_list.induct)
     (auto split: option.splits dest: add_ok add_keys)

lemma add_list_count:
  "ok t \<Longrightarrow> add_list cap es t = Some t' \<Longrightarrow>
     count t' j = count t j + sum_list (map snd (filter (\<lambda>e. fst e = j) es))"
  by (induction cap es t rule: add_list.induct)
     (auto split: option.splits dest: add_ok simp: add_count)

lemma add_list_total:
  "ok t \<Longrightarrow> add_list cap es t = Some t' \<Longrightarrow> total t' = total t + sum_list (map snd es)"
  by (induction cap es t rule: add_list.induct)
     (auto split: option.splits dest: add_ok simp: total_add)

lemma add_list_size:
  "ok t \<Longrightarrow> add_list cap es t = Some t' \<Longrightarrow> length (keys t) \<le> cap \<Longrightarrow> length (keys t') \<le> cap"
  by (induction cap es t rule: add_list.induct)
     (auto split: option.splits dest: add_ok size_add)

text \<open>Two batches added in either order give tables with the same keys and the same counts.\<close>

lemma add_list_commute:
  assumes "ok t"
    and "add_list cap xs t = Some a" "add_list cap ys a = Some ab"
    and "add_list cap ys t = Some b" "add_list cap xs b = Some ba"
  shows "set (keys ab) = set (keys ba) \<and> count ab j = count ba j"
proof -
  have a: "ok a" and b: "ok b" using assms add_list_ok by blast+
  show ?thesis
    using add_list_keys [OF assms(1,2)] add_list_keys [OF a assms(3)]
      add_list_keys [OF assms(1,4)] add_list_keys [OF b assms(5)]
      add_list_count [OF assms(1,2), of j] add_list_count [OF a assms(3), of j]
      add_list_count [OF assms(1,4), of j] add_list_count [OF b assms(5), of j]
    by auto
qed

end

section \<open>Vectors of counted entries\<close>

text \<open>
  \<open>iter_mut().find(|v| v.state == state)\<close> and \<open>entry.count += n\<close>, or \<open>push\<close> below the limit.
\<close>

fun vec_bump :: "'k \<Rightarrow> nat \<Rightarrow> ('k \<times> nat) list \<Rightarrow> ('k \<times> nat) list" where
  "vec_bump k n [] = []"
| "vec_bump k n ((j, c) # t) = (if j = k then (j, c + n) # t else (j, c) # vec_bump k n t)"

definition vec_add :: "nat \<Rightarrow> 'k \<Rightarrow> nat \<Rightarrow> ('k \<times> nat) list \<Rightarrow> ('k \<times> nat) list option" where
  "vec_add cap k n t =
     (if List.find (\<lambda>e. fst e = k) t \<noteq> None then Some (vec_bump k n t)
      else if length t < cap then Some (t @ [(k, n)])
      else None)"

definition vec_ok :: "('k \<times> nat) list \<Rightarrow> bool" where
  "vec_ok t \<longleftrightarrow> distinct (map fst t)"

definition vec_count :: "('k \<times> nat) list \<Rightarrow> 'k \<Rightarrow> nat" where
  "vec_count t k = (case List.find (\<lambda>e. fst e = k) t of None \<Rightarrow> 0 | Some e \<Rightarrow> snd e)"

lemma find_key: "List.find (\<lambda>e. fst e = k) t = None \<longleftrightarrow> k \<notin> fst ` set t"
  by (force simp: find_None_iff)

lemma vec_count_simps [simp]:
  "vec_count [] k = 0"
  "vec_count ((j, c) # t) k = (if j = k then c else vec_count t k)"
  by (simp_all add: vec_count_def)

lemma vec_count_out: "k \<notin> fst ` set t \<Longrightarrow> vec_count t k = 0"
  by (induction t) auto

lemma map_fst_vec_bump [simp]: "map fst (vec_bump k n t) = map fst t"
  by (induction k n t rule: vec_bump.induct) auto

lemma length_vec_bump [simp]: "length (vec_bump k n t) = length t"
  by (induction k n t rule: vec_bump.induct) auto

lemma fst_vec_bump [simp]: "fst ` set (vec_bump k n t) = fst ` set t"
  by (induction k n t rule: vec_bump.induct) auto

lemma vec_count_bump:
  "k \<in> fst ` set t \<Longrightarrow> vec_count (vec_bump k n t) j = vec_count t j + (if j = k then n else 0)"
proof (induction k n t rule: vec_bump.induct)
  case (2 k n i c t)
  then show ?case by (cases "i = k") auto
qed simp

lemma vec_count_append:
  "vec_count (t @ u) j = (if j \<in> fst ` set t then vec_count t j else vec_count u j)"
proof (induction t)
  case (Cons e t)
  then show ?case by (cases e) auto
qed simp

lemma vec_count_in: "vec_ok t \<Longrightarrow> (k, c) \<in> set t \<Longrightarrow> vec_count t k = c"
proof (induction t)
  case (Cons e t)
  then show ?case by (cases e) (force simp: vec_ok_def)
qed simp

lemma vec_count_get: "vec_ok t \<Longrightarrow> k \<in> fst ` set t \<Longrightarrow> (k, vec_count t k) \<in> set t"
  using vec_count_in by fastforce

lemma vec_add_cases:
  assumes "vec_add cap k n t = Some t'"
  obtains "k \<in> fst ` set t" "t' = vec_bump k n t"
    | "k \<notin> fst ` set t" "length t < cap" "t' = t @ [(k, n)]"
  using assms by (auto simp: vec_add_def find_key split: if_splits)

interpretation vt: counter_table vec_ok "map fst" vec_count vec_add
proof unfold_locales
  fix t t' :: "('k \<times> nat) list" and cap k n j
  assume ok: "vec_ok t"
  show "distinct (map fst t)" using ok by (simp add: vec_ok_def)
  show "vec_count t k = 0" if "k \<notin> set (map fst t)"
    using that by (simp add: vec_count_out)
  show "vec_add cap k n t = None \<longleftrightarrow> k \<notin> set (map fst t) \<and> cap \<le> length (map fst t)"
    by (auto simp: vec_add_def find_key)
  assume add: "vec_add cap k n t = Some t'"
  show "vec_ok t'" using add ok
    by (cases rule: vec_add_cases) (simp_all add: vec_ok_def)
  show "set (map fst t') = insert k (set (map fst t))" using add
    by (cases rule: vec_add_cases) auto
  show "vec_count t' j = vec_count t j + (if j = k then n else 0)" using add
    by (cases rule: vec_add_cases) (auto simp: vec_count_bump vec_count_append vec_count_out)
qed

section \<open>Ordered maps of counts\<close>

text \<open>\<open>if m.contains_key(k) || m.len() < cap { *m.entry(k).or_default() += n }\<close>.\<close>

definition bm_add :: "nat \<Rightarrow> 'k::linorder \<Rightarrow> nat \<Rightarrow> ('k, nat) bmap \<Rightarrow> ('k, nat) bmap option" where
  "bm_add cap k n m = (if bm_has k m \<or> length m < cap then Some (bm_bump k n m) else None)"

interpretation bt: counter_table bm_ok bm_keys "\<lambda>m k. bm_count k m" bm_add
proof unfold_locales
  fix m m' :: "('k::linorder, nat) bmap" and cap k n j
  assume ok: "bm_ok m"
  show "distinct (bm_keys m)" using ok by (rule bm_ok_distinct)
  show "bm_count k m = 0" if "k \<notin> set (bm_keys m)"
    using that by (auto simp: bm_count_def bm_has_def simp flip: bm_has_keys)
  show "bm_add cap k n m = None \<longleftrightarrow> k \<notin> set (bm_keys m) \<and> cap \<le> length (bm_keys m)"
    by (auto simp: bm_add_def bm_has_keys bm_keys_def)
  assume "bm_add cap k n m = Some m'"
  then have m': "m' = bm_bump k n m" by (simp add: bm_add_def split: if_splits)
  show "bm_ok m'" using ok by (simp add: m' bm_bump_def bm_ok_put)
  show "set (bm_keys m') = insert k (set (bm_keys m))" by (simp add: m' bm_bump_def)
  show "bm_count j m' = bm_count j m + (if j = k then n else 0)"
    by (auto simp: m' bm_bump_def bm_count_def)
qed

end
