(* ===== verification/Rust_Text.thy ===== *)
theory Rust_Text
  imports Prelude
begin

text \<open>
  The string operations of Rust's standard library the components use, over lists of scalar values.
  Byte positions of \<open>str\<close> are counted with \<open>len_utf8\<close>; a slice that does not fall on a character
  boundary is \<open>None\<close>, as \<open>str::get\<close> answers.
\<close>

section \<open>Trimming and splitting\<close>

function split_whitespace :: "rstr \<Rightarrow> rstr list" where
  "split_whitespace s =
     (let t = dropWhile is_whitespace s
      in if t = [] then []
         else takeWhile (\<lambda>c. \<not> is_whitespace c) t
                # split_whitespace (dropWhile (\<lambda>c. \<not> is_whitespace c) t))"
  by pat_completeness auto
termination
proof (relation "measure length", simp)
  fix s t :: rstr
  assume t: "t = dropWhile is_whitespace s" "t \<noteq> []"
  then have "\<not> is_whitespace (hd t)" by (simp add: hd_dropWhile)
  with t(2) have "length (dropWhile (\<lambda>c. \<not> is_whitespace c) t) < length t"
    by (cases t) (auto simp: le_imp_less_Suc length_dropWhile_le)
  also have "length t \<le> length s" by (simp add: t(1) length_dropWhile_le)
  finally show "(dropWhile (\<lambda>c. \<not> is_whitespace c) t, s) \<in> measure length" by simp
qed

definition trim_matches :: "(nat \<Rightarrow> bool) \<Rightarrow> rstr \<Rightarrow> rstr" where
  "trim_matches P s = rev (dropWhile P (rev (dropWhile P s)))"

fun str_contains :: "rstr \<Rightarrow> rstr \<Rightarrow> bool" where
  "str_contains p [] = (p = [])"
| "str_contains p (c # s) = (take (length p) (c # s) = p \<or> str_contains p s)"


definition trim :: "rstr \<Rightarrow> rstr" where
  "trim s = trim_matches is_whitespace s"

definition trim_end :: "rstr \<Rightarrow> rstr" where
  "trim_end s = rev (dropWhile is_whitespace (rev s))"

text \<open>\<open>str::split\<close> at a character: one piece more than separators.\<close>

fun split_char :: "nat \<Rightarrow> rstr \<Rightarrow> rstr list" where
  "split_char c [] = [[]]"
| "split_char c (x # s) =
     (if x = c then [] # split_char c s
      else case split_char c s of [] \<Rightarrow> [[x]] | p # ps \<Rightarrow> (x # p) # ps)"

lemma split_char_nonempty [simp]: "split_char c s \<noteq> []"
  by (induction s) (auto split: list.splits)

definition first_piece :: "nat \<Rightarrow> rstr \<Rightarrow> rstr" where
  "first_piece c s = takeWhile (\<lambda>x. x \<noteq> c) s"

lemma hd_split_char [simp]: "hd (split_char c s) = first_piece c s"
  by (induction s) (auto simp: first_piece_def split: list.splits)

section \<open>Slices by byte positions\<close>

text \<open>\<open>str::get(..n)\<close> and \<open>str::get(n..)\<close>.\<close>

fun get_prefix :: "nat \<Rightarrow> rstr \<Rightarrow> rstr option" where
  "get_prefix n [] = (if n = 0 then Some [] else None)"
| "get_prefix n (c # s) =
     (if n = 0 then Some []
      else if len_utf8 c \<le> n then map_option ((#) c) (get_prefix (n - len_utf8 c) s)
      else None)"

fun get_suffix :: "nat \<Rightarrow> rstr \<Rightarrow> rstr option" where
  "get_suffix n [] = (if n = 0 then Some [] else None)"
| "get_suffix n (c # s) =
     (if n = 0 then Some (c # s)
      else if len_utf8 c \<le> n then get_suffix (n - len_utf8 c) s
      else None)"

lemma utf8_len_Cons [simp]: "utf8_len (c # s) = len_utf8 c + utf8_len s"
  by (simp add: utf8_len_def)

lemma len_utf8_nonzero [simp]: "0 < len_utf8 c" "len_utf8 c \<noteq> 0"
  using len_utf8_pos [of c] by (auto simp del: len_utf8_pos)

lemma utf8_len_zero [simp]: "utf8_len s = 0 \<longleftrightarrow> s = []"
  by (cases s) auto

lemma get_prefix_Some: "get_prefix n s = Some p \<longleftrightarrow> (\<exists>q. s = p @ q \<and> utf8_len p = n)"
proof (induction n s arbitrary: p rule: get_prefix.induct)
  case (2 n c s)
  show ?case
  proof (cases "n = 0")
    case False
    show ?thesis
    proof (cases "len_utf8 c \<le> n")
      case True
      then have "get_prefix n (c # s) = Some p \<longleftrightarrow> (\<exists>r. p = c # r \<and> (\<exists>q. s = r @ q \<and> utf8_len r = n - len_utf8 c))"
        using False "2.IH" by auto
      also have "\<dots> \<longleftrightarrow> (\<exists>q. c # s = p @ q \<and> utf8_len p = n)"
        using True False by (cases p) auto
      finally show ?thesis .
    next
      case big: False
      then have "\<not> (\<exists>q. c # s = p @ q \<and> utf8_len p = n)" using False by (cases p) auto
      then show ?thesis using False big by simp
    qed
  qed auto
qed auto

lemma get_suffix_Some: "get_suffix n s = Some q \<longleftrightarrow> (\<exists>p. s = p @ q \<and> utf8_len p = n)"
proof (induction n s arbitrary: q rule: get_suffix.induct)
  case (2 n c s)
  show ?case
  proof (cases "n = 0")
    case False
    show ?thesis
    proof (cases "len_utf8 c \<le> n")
      case True
      then have "get_suffix n (c # s) = Some q \<longleftrightarrow> (\<exists>r. s = r @ q \<and> utf8_len r = n - len_utf8 c)"
        using False "2.IH" by auto
      also have "\<dots> \<longleftrightarrow> (\<exists>p. c # s = p @ q \<and> utf8_len p = n)"
      proof
        assume "\<exists>r. s = r @ q \<and> utf8_len r = n - len_utf8 c"
        then obtain r where "s = r @ q" "utf8_len r = n - len_utf8 c" by blast
        then have "c # s = (c # r) @ q" "utf8_len (c # r) = n" using True by auto
        then show "\<exists>p. c # s = p @ q \<and> utf8_len p = n" by blast
      next
        assume "\<exists>p. c # s = p @ q \<and> utf8_len p = n"
        then obtain p where p: "c # s = p @ q" "utf8_len p = n" by blast
        then show "\<exists>r. s = r @ q \<and> utf8_len r = n - len_utf8 c" using False by (cases p) auto
      qed
      finally show ?thesis .
    next
      case big: False
      then have "\<not> (\<exists>p. c # s = p @ q \<and> utf8_len p = n)"
        using False by (metis append_eq_Cons_conv utf8_len_Cons utf8_len_Nil le_add1)
      then show ?thesis using False big by simp
    qed
  qed auto
qed auto

section \<open>ASCII\<close>

definition is_ascii :: "rstr \<Rightarrow> bool" where
  "is_ascii s = list_all (\<lambda>c. c < 128) s"

definition is_ascii_alpha :: "nat \<Rightarrow> bool" where
  "is_ascii_alpha c \<longleftrightarrow> (65 \<le> c \<and> c \<le> 90) \<or> (97 \<le> c \<and> c \<le> 122)"

definition is_ascii_alnum :: "nat \<Rightarrow> bool" where
  "is_ascii_alnum c \<longleftrightarrow> is_ascii_digit c \<or> is_ascii_alpha c"

definition ascii_lower :: "nat \<Rightarrow> nat" where
  "ascii_lower c = (if 65 \<le> c \<and> c \<le> 90 then c + 32 else c)"

definition eq_ignore_ascii_case :: "rstr \<Rightarrow> rstr \<Rightarrow> bool" where
  "eq_ignore_ascii_case a b \<longleftrightarrow> map ascii_lower a = map ascii_lower b"

lemma len_utf8_ascii_lower [simp]: "len_utf8 (ascii_lower c) = len_utf8 c"
  by (simp add: ascii_lower_def len_utf8_def)

lemma utf8_len_ascii_lower [simp]: "utf8_len (map ascii_lower s) = utf8_len s"
  by (induction s) auto

end
