(* ===== verification/Learn_Model.thy ===== *)
theory Learn_Model
  imports Counter_Table Rust_Text
begin

text \<open>
  The local online model of \<open>crates/log-learning/src/model.rs\<close>: limits, latency and size
  histograms, token clusters and the training step \<open>Model::train\<close> with its halving. Scores
  (\<open>Model::score\<close>, \<open>rate_interval\<close>) are floating-point and left out.

  What the model takes from Rust's standard library is in the record \<open>std_env\<close>: lower-casing by the
  Unicode tables (\<open>lower\<close>), and for an \<open>f64\<close> value whether it is finite and not negative
  (\<open>nonneg\<close>) and the integer \<open>(value + 1.0).log2().floor() as usize\<close> (\<open>log2_floor\<close>). Counters
  are natural numbers: \<open>model_inv\<close> bounds every one of them far below the \<open>u64\<close> range except
  \<open>overflow\<close>, which a step raises by at most two.
\<close>

section \<open>Limits\<close>

datatype learn_error =
    LimitsOutOfBudget
  | ModelIncompatible
  | ModelInvalid

record limits =
  max_contexts :: nat
  max_templates :: nat
  max_transitions :: nat
  max_combinations :: nat
  minimum_support :: nat

definition limits_default :: limits where
  "limits_default = \<lparr>max_contexts = 32, max_templates = 128, max_transitions = 512,
     max_combinations = 256, minimum_support = 30\<rparr>"

definition limits_validate :: "limits \<Rightarrow> learn_error + unit" where
  "limits_validate l =
     (if \<not> (1 \<le> max_contexts l \<and> max_contexts l \<le> 128)
         \<or> \<not> (8 \<le> max_templates l \<and> max_templates l \<le> 256)
         \<or> \<not> (16 \<le> max_transitions l \<and> max_transitions l \<le> 1024)
         \<or> \<not> (16 \<le> max_combinations l \<and> max_combinations l \<le> 512)
         \<or> \<not> (20 \<le> minimum_support l \<and> minimum_support l \<le> 10000)
      then Inl LimitsOutOfBudget else Inr ())"

section \<open>Histograms\<close>

record 'f std_env =
  lower :: "rstr \<Rightarrow> rstr"
  nonneg :: "'f \<Rightarrow> bool"
  log2_floor :: "'f \<Rightarrow> nat"

record histogram =
  bins :: "nat list"

definition histogram_default :: histogram where
  "histogram_default = \<lparr>bins = replicate 32 0\<rparr>"

definition hist_bin :: "'f std_env \<Rightarrow> 'f \<Rightarrow> nat option" where
  "hist_bin env value = (if nonneg env value then Some (min (log2_floor env value) 31) else None)"

definition hist_push :: "'f std_env \<Rightarrow> 'f option \<Rightarrow> histogram \<Rightarrow> histogram" where
  "hist_push env value h =
     (case Option.bind value (hist_bin env) of
        None \<Rightarrow> h
      | Some b \<Rightarrow> h\<lparr>bins := (bins h)[b := sat_add (bins h ! b) 1]\<rparr>)"

definition hist_count :: "histogram \<Rightarrow> nat" where
  "hist_count h = foldl sat_add 0 (bins h)"

definition hist_halve :: "histogram \<Rightarrow> histogram" where
  "hist_halve h = h\<lparr>bins := map (\<lambda>n. n div 2) (bins h)\<rparr>"

section \<open>Tokens and clusters\<close>

record cluster =
  cl_tokens :: "rstr list"
  cl_count :: nat

definition wildcard :: rstr where
  "wildcard = lit ''*''"

definition trimmed :: "nat \<Rightarrow> bool" where
  "trimmed c \<longleftrightarrow> c \<in> set (lit [CHR 0x22, CHR 0x27]) \<union> set (lit '',;[]()'')"

definition token_of :: "'f std_env \<Rightarrow> rstr \<Rightarrow> rstr" where
  "token_of env w0 =
     (let word = trim_matches trimmed w0
      in if utf8_len word > 48 \<or> list_ex is_ascii_digit word \<or> 61 \<in> set word
            \<or> take 1 word = lit ''/'' \<or> str_contains (lit ''://'') word
         then wildcard
         else lower env (take 48 word))"

definition tokens :: "'f std_env \<Rightarrow> rstr \<Rightarrow> rstr list" where
  "tokens env message =
     filter (\<lambda>t. t \<noteq> []) (map (token_of env) (take 48 (split_whitespace message)))"

definition anchors :: "rstr list" where
  "anchors = map lit [''error'', ''erro'', ''failed'', ''failure'', ''success'', ''successfully'',
     ''sucesso'', ''timeout'', ''denied'', ''negado'', ''started'', ''completed'', ''cancelled'',
     ''fatal'']"

definition anchor :: "rstr \<Rightarrow> bool" where
  "anchor s \<longleftrightarrow> s \<in> set anchors"

definition equal_tokens :: "rstr list \<Rightarrow> rstr list \<Rightarrow> nat" where
  "equal_tokens ts words = length (filter (\<lambda>(a, b). a \<noteq> wildcard \<and> a = b) (zip ts words))"

definition stable_tokens :: "rstr list \<Rightarrow> nat" where
  "stable_tokens ts = length (filter (\<lambda>t. t \<noteq> wildcard) ts)"

text \<open>
  The closure of \<open>matching\<close>. The quotient of two counts up to 48 is at least the \<open>f64\<close> constant
  \<open>0.7\<close> exactly when ten times the dividend is at least seven times the divisor.
\<close>

definition similar :: "cluster \<Rightarrow> rstr list \<Rightarrow> bool" where
  "similar c words \<longleftrightarrow>
     (let equal = equal_tokens (cl_tokens c) words; stable = stable_tokens (cl_tokens c)
      in length (cl_tokens c) = length words \<and> words \<noteq> []
         \<and> \<not> list_ex (\<lambda>(a, b). a \<noteq> b \<and> (anchor a \<or> anchor b)) (zip (cl_tokens c) words)
         \<and> (cl_tokens c = words
            \<or> (equal \<ge> 2 \<or> length words = 1 \<and> equal = 1) \<and> 7 * max stable 1 \<le> 10 * equal))"

text \<open>\<open>max_by_key\<close> on \<open>(equal, stable, Reverse(cid))\<close>: the best, the earliest among equals.\<close>

fun best_match :: "nat \<Rightarrow> rstr list \<Rightarrow> cluster list \<Rightarrow> (nat \<times> nat \<times> nat) option \<Rightarrow> (nat \<times> nat \<times> nat) option" where
  "best_match i words [] best = best"
| "best_match i words (c # cs) best =
     best_match (Suc i) words cs
       (if similar c words then
          (let e = equal_tokens (cl_tokens c) words; s = stable_tokens (cl_tokens c)
           in case best of
                None \<Rightarrow> Some (i, e, s)
              | Some (j, e', s') \<Rightarrow> if e' < e \<or> e' = e \<and> s' < s then Some (i, e, s) else best)
        else best)"

definition matching :: "cluster list \<Rightarrow> rstr list \<Rightarrow> nat option" where
  "matching cs words = map_option fst (best_match 0 words cs None)"

section \<open>Contexts and the model\<close>

record learn_context =
  cx_count :: nat
  cx_failures :: nat
  cx_clusters :: "cluster list"
  cx_latency :: histogram
  cx_bytes :: histogram
  cx_transitions :: "(rstr, nat) bmap"
  cx_outgoing :: "(nat, nat) bmap"
  cx_combinations :: "(rstr, nat) bmap"
  cx_overflow :: nat

record learn_model =
  md_schema :: nat
  md_limits :: limits
  md_contexts :: "(rstr, learn_context) bmap"
  md_generation :: nat

record 'f observation =
  ob_message :: rstr
  ob_failure :: bool
  ob_latency :: "'f option"
  ob_bytes :: "'f option"

definition learn_schema :: nat where
  "learn_schema = 1"

definition context_default :: learn_context where
  "context_default = \<lparr>cx_count = 0, cx_failures = 0, cx_clusters = [], cx_latency = histogram_default,
     cx_bytes = histogram_default, cx_transitions = [], cx_outgoing = [], cx_combinations = [],
     cx_overflow = 0\<rparr>"

definition model_default :: learn_model where
  "model_default = \<lparr>md_schema = learn_schema, md_limits = limits_default, md_contexts = [],
     md_generation = 0\<rparr>"

definition combination :: "'f std_env \<Rightarrow> 'f observation \<Rightarrow> nat \<Rightarrow> rstr" where
  "combination env ob cluster =
     (let part = \<lambda>v. (case Option.bind v (hist_bin env) of None \<Rightarrow> 32 | Some b \<Rightarrow> b div 2)
      in dec cluster @ lit '':'' @ dec (if ob_failure ob then 1 else 0) @ lit '':''
         @ dec (part (ob_latency ob)) @ lit '':'' @ dec (part (ob_bytes ob)))"

definition transition_key :: "nat \<Rightarrow> nat \<Rightarrow> rstr" where
  "transition_key before cid = dec before @ lit ''>'' @ dec cid"

definition cluster_valid :: "nat \<Rightarrow> cluster \<Rightarrow> bool" where
  "cluster_valid n t \<longleftrightarrow> \<not> (length (cl_tokens t) > 48 \<or> list_ex (\<lambda>s. utf8_len s > 192) (cl_tokens t)
     \<or> cl_count t > n)"

definition context_valid :: "limits \<Rightarrow> rstr \<Rightarrow> learn_context \<Rightarrow> bool" where
  "context_valid l key c \<longleftrightarrow>
     \<not> (utf8_len key \<noteq> 64 \<or> \<not> list_all is_ascii_hexdigit key
        \<or> length (cx_clusters c) > max_templates l
        \<or> length (cx_transitions c) > max_transitions l
        \<or> length (cx_combinations c) > max_combinations l
        \<or> cx_count c > 1000000000
        \<or> cx_failures c > cx_count c
        \<or> length (cx_outgoing c) > max_templates l
        \<or> list_ex (\<lambda>t. \<not> cluster_valid (cx_count c) t) (cx_clusters c)
        \<or> list_ex (\<lambda>(k, v). utf8_len k > 24 \<or> v > cx_count c) (cx_transitions c)
        \<or> list_ex (\<lambda>(k, v). utf8_len k > 48 \<or> v > cx_count c) (cx_combinations c)
        \<or> hist_count (cx_latency c) > cx_count c
        \<or> hist_count (cx_bytes c) > cx_count c)"

definition model_validate :: "learn_model \<Rightarrow> learn_error + unit" where
  "model_validate m =
     bind_res (limits_validate (md_limits m)) (\<lambda>_.
       if md_schema m \<noteq> learn_schema \<or> length (md_contexts m) > max_contexts (md_limits m)
       then Inl ModelIncompatible
       else if list_ex (\<lambda>(key, c). \<not> context_valid (md_limits m) key c) (md_contexts m)
       then Inl ModelInvalid
       else Inr ())"

section \<open>Training\<close>

definition context_halve :: "learn_context \<Rightarrow> learn_context" where
  "context_halve c = c\<lparr>
     cx_count := cx_count c div 2,
     cx_failures := cx_failures c div 2,
     cx_latency := hist_halve (cx_latency c),
     cx_bytes := hist_halve (cx_bytes c),
     cx_clusters := map (\<lambda>t. t\<lparr>cl_count := cl_count t div 2\<rparr>) (cx_clusters c),
     cx_transitions := bm_map (\<lambda>n. n div 2) (cx_transitions c),
     cx_outgoing := bm_map (\<lambda>n. n div 2) (cx_outgoing c),
     cx_combinations := bm_map (\<lambda>n. n div 2) (cx_combinations c),
     cx_overflow := (cx_overflow c + 1) div 2\<rparr>"

text \<open>The first part of \<open>train\<close>: halving when the context is full, then the plain counters.\<close>

definition train_counts :: "'f std_env \<Rightarrow> 'f observation \<Rightarrow> learn_context \<Rightarrow> learn_context" where
  "train_counts env ob c0 =
     (let c = (if cx_count c0 \<ge> 65536 then context_halve c0 else c0)
      in c\<lparr>cx_count := cx_count c + 1,
           cx_failures := cx_failures c + (if ob_failure ob then 1 else 0),
           cx_latency := hist_push env (ob_latency ob) (cx_latency c),
           cx_bytes := hist_push env (ob_bytes ob) (cx_bytes c)\<rparr>)"

definition generalize :: "rstr list \<Rightarrow> rstr list \<Rightarrow> rstr list" where
  "generalize ts words = map (\<lambda>(a, b). if a \<noteq> b then wildcard else a) (zip ts words)
     @ drop (length words) ts"

text \<open>The second part: the family of the message, an existing one widened or a new one.\<close>

definition train_cluster :: "limits \<Rightarrow> rstr list \<Rightarrow> learn_context \<Rightarrow> nat option \<times> learn_context" where
  "train_cluster l words c =
     (case matching (cx_clusters c) words of
        Some cid \<Rightarrow>
          (let p = cx_clusters c ! cid
           in (Some cid, c\<lparr>cx_clusters := (cx_clusters c)[cid :=
                 p\<lparr>cl_count := cl_count p + 1, cl_tokens := generalize (cl_tokens p) words\<rparr>]\<rparr>))
      | None \<Rightarrow>
          if words \<noteq> [] \<and> length (cx_clusters c) < max_templates l
          then (Some (length (cx_clusters c)),
                c\<lparr>cx_clusters := cx_clusters c @ [\<lparr>cl_tokens = words, cl_count = 1\<rparr>]\<rparr>)
          else (None, c\<lparr>cx_overflow := cx_overflow c + 1\<rparr>))"

definition train_combination :: "limits \<Rightarrow> rstr \<Rightarrow> learn_context \<Rightarrow> learn_context" where
  "train_combination l key c =
     (case bm_add (max_combinations l) key 1 (cx_combinations c) of
        Some m \<Rightarrow> c\<lparr>cx_combinations := m\<rparr>
      | None \<Rightarrow> c\<lparr>cx_overflow := cx_overflow c + 1\<rparr>)"

definition train_transition :: "limits \<Rightarrow> nat option \<Rightarrow> nat \<Rightarrow> learn_context \<Rightarrow> learn_context" where
  "train_transition l previous cid c =
     (case previous of
        None \<Rightarrow> c
      | Some before \<Rightarrow>
          if before < length (cx_clusters c) then
            (let c1 = c\<lparr>cx_outgoing := bm_bump before 1 (cx_outgoing c)\<rparr>
             in case bm_add (max_transitions l) (transition_key before cid) 1 (cx_transitions c1) of
                  Some m \<Rightarrow> c1\<lparr>cx_transitions := m\<rparr>
                | None \<Rightarrow> c1\<lparr>cx_overflow := cx_overflow c1 + 1\<rparr>)
          else c)"

definition train_context ::
  "'f std_env \<Rightarrow> limits \<Rightarrow> 'f observation \<Rightarrow> nat option \<Rightarrow> learn_context \<Rightarrow> nat option \<times> learn_context" where
  "train_context env l ob previous c =
     (case train_cluster l (tokens env (ob_message ob)) (train_counts env ob c) of
        (None, c1) \<Rightarrow> (None, c1)
      | (Some cid, c1) \<Rightarrow>
          (Some cid, train_transition l previous cid (train_combination l (combination env ob cid) c1)))"

definition train ::
  "'f std_env \<Rightarrow> rstr \<Rightarrow> 'f observation \<Rightarrow> nat option \<Rightarrow> learn_model \<Rightarrow> nat option \<times> learn_model" where
  "train env key ob previous m =
     (if \<not> bm_has key (md_contexts m) \<and> length (md_contexts m) \<ge> max_contexts (md_limits m)
      then (None, m)
      else
        let c0 = (case bm_get key (md_contexts m) of None \<Rightarrow> context_default | Some c \<Rightarrow> c);
            (cid, c) = train_context env (md_limits m) ob previous c0
        in (cid, m\<lparr>md_contexts := bm_put key c (md_contexts m)\<rparr>))"

end
