(* ===== verification/Learn_Train.thy ===== *)
theory Learn_Train
  imports Learn_Model
begin

text \<open>
  What training keeps true. \<open>context_inv\<close> relates the counters of a context: everything counted
  in it is bounded by \<open>cx_count\<close>, every table by the limits, every outgoing key is an existing
  family. It implies \<open>Model::validate\<close>, so a model that was only ever trained can always be stored
  and read back. The second group is about token families: a trained message is recognised
  afterwards, and the words that carry an outcome are never generalised away.
\<close>

section \<open>The invariant\<close>

definition hist_inv :: "nat \<Rightarrow> histogram \<Rightarrow> bool" where
  "hist_inv n h \<longleftrightarrow> length (bins h) = 32 \<and> sum_list (bins h) \<le> n"

definition table_inv :: "nat \<Rightarrow> nat \<Rightarrow> nat \<Rightarrow> (rstr, nat) bmap \<Rightarrow> bool" where
  "table_inv cap w n m \<longleftrightarrow> bm_ok m \<and> length m \<le> cap
     \<and> (\<forall>(k, v) \<in> set m. utf8_len k \<le> w \<and> v \<le> n)"

definition context_inv :: "limits \<Rightarrow> learn_context \<Rightarrow> bool" where
  "context_inv l c \<longleftrightarrow>
     cx_count c \<le> 65536 \<and> cx_failures c \<le> cx_count c
     \<and> length (cx_clusters c) \<le> max_templates l
     \<and> (\<forall>t \<in> set (cx_clusters c). cluster_valid (cx_count c) t)
     \<and> hist_inv (cx_count c) (cx_latency c) \<and> hist_inv (cx_count c) (cx_bytes c)
     \<and> table_inv (max_transitions l) 24 (cx_count c) (cx_transitions c)
     \<and> table_inv (max_combinations l) 48 (cx_count c) (cx_combinations c)
     \<and> bm_ok (cx_outgoing c)
     \<and> (\<forall>k \<in> set (bm_keys (cx_outgoing c)). k < length (cx_clusters c))"

definition hex_key :: "rstr \<Rightarrow> bool" where
  "hex_key key \<longleftrightarrow> utf8_len key = 64 \<and> list_all is_ascii_hexdigit key"

definition model_inv :: "learn_model \<Rightarrow> bool" where
  "model_inv m \<longleftrightarrow>
     limits_validate (md_limits m) = Inr () \<and> md_schema m = learn_schema
     \<and> length (md_contexts m) \<le> max_contexts (md_limits m)
     \<and> bm_ok (md_contexts m)
     \<and> (\<forall>(key, c) \<in> set (md_contexts m). hex_key key \<and> context_inv (md_limits m) c)"

text \<open>Lower-casing grows a short word to at most four times its bytes.\<close>

definition lower_bounded :: "'f std_env \<Rightarrow> bool" where
  "lower_bounded env \<longleftrightarrow> (\<forall>w. utf8_len w \<le> 48 \<longrightarrow> utf8_len (lower env w) \<le> 192)"

subsection \<open>Histograms\<close>

lemma hist_count_le: "hist_inv n h \<Longrightarrow> hist_count h \<le> n"
  using foldl_sat_add_le [of 0 "bins h"] by (simp add: hist_inv_def hist_count_def)

lemma hist_inv_default [simp]: "hist_inv n histogram_default"
  by (simp add: hist_inv_def histogram_default_def sum_list_replicate)

lemma hist_inv_mono: "hist_inv n h \<Longrightarrow> n \<le> k \<Longrightarrow> hist_inv k h"
  by (simp add: hist_inv_def)

lemma hist_inv_halve: "hist_inv n h \<Longrightarrow> hist_inv (n div 2) (hist_halve h)"
  using sum_list_div2_le [of "bins h"] by (auto simp: hist_inv_def hist_halve_def)

lemma hist_bin_less: "hist_bin env v = Some b \<Longrightarrow> b < 32"
  by (auto simp: hist_bin_def split: if_splits)

lemma hist_inv_push: "hist_inv n h \<Longrightarrow> hist_inv (n + 1) (hist_push env v h)"
proof -
  assume h: "hist_inv n h"
  show ?thesis
  proof (cases "Option.bind v (hist_bin env)")
    case None
    with h show ?thesis by (simp add: hist_push_def hist_inv_def)
  next
    case (Some b)
    then have "b < length (bins h)"
      using h hist_bin_less by (auto simp: hist_inv_def bind_eq_Some_conv)
    moreover from this have "bins h ! b \<le> sum_list (bins h)" by (simp add: elem_le_sum_list)
    ultimately show ?thesis
      using h Some sat_add_le [of "bins h ! b" 1]
      by (simp add: hist_push_def hist_inv_def sum_list_update_nat) linarith
  qed
qed

subsection \<open>Tables\<close>

lemma table_inv_mono: "table_inv cap w n m \<Longrightarrow> n \<le> k \<Longrightarrow> table_inv cap w k m"
  by (force simp: table_inv_def)

lemma table_inv_Nil [simp]: "table_inv cap w n []"
  by (simp add: table_inv_def)

lemma bm_keys_map [simp]: "bm_keys (bm_map f m) = bm_keys m"
  by (induction m) (auto simp: bm_map_def bm_keys_def)

lemma bm_ok_map [simp]: "bm_ok (bm_map f m) = bm_ok m"
  by (simp add: bm_ok_def)

lemma table_inv_halve: "table_inv cap w n m \<Longrightarrow> table_inv cap w (n div 2) (bm_map (\<lambda>n. n div 2) m)"
  by (auto simp: table_inv_def bm_map_def bm_ok_def bm_keys_def comp_def case_prod_beta
      intro!: div_le_mono)

lemma table_inv_add:
  assumes "table_inv cap w n m" "utf8_len k \<le> w" "bm_add cap k 1 m = Some m'"
  shows "table_inv cap w (n + 1) m'"
proof -
  have ok: "bm_ok m" and m': "m' = bm_bump k 1 m" and room: "bm_has k m \<or> length m < cap"
    using assms by (auto simp: table_inv_def bm_add_def split: if_splits)
  have "length m' \<le> cap"
    using assms(1) room by (auto simp: m' bm_bump_def length_bm_put [OF ok] table_inv_def)
  moreover have "utf8_len j \<le> w \<and> v \<le> n + 1" if jv: "(j, v) \<in> set m'" for j v
  proof (cases "j = k")
    case True
    have "bm_get k m = Some c \<Longrightarrow> c \<le> n" for c
      using assms(1) bm_get_in by (fastforce simp: table_inv_def)
    then show ?thesis
      using jv assms(2) True ok
      by (auto simp: m' bm_bump_def set_bm_put split: option.splits)
  next
    case False
    then show ?thesis
      using jv assms(1) ok by (force simp: m' bm_bump_def set_bm_put table_inv_def)
  qed
  ultimately show ?thesis
    using ok by (auto simp: table_inv_def m' bm_bump_def intro: bm_ok_put)
qed

subsection \<open>Tokens\<close>

lemma utf8_len_take: "utf8_len (take n s) \<le> utf8_len s"
  by (metis append_take_drop_id le_add1 utf8_len_append)

lemma token_of_len: "lower_bounded env \<Longrightarrow> utf8_len (token_of env w) \<le> 192"
proof -
  assume "lower_bounded env"
  moreover have "utf8_len wildcard \<le> 192" by (simp add: wildcard_def lit_def utf8_len_def len_utf8_def)
  moreover have "utf8_len (take 48 v) \<le> 48" if "\<not> utf8_len v > 48" for v
    using utf8_len_take [of 48 v] that by simp
  ultimately show ?thesis
    by (auto simp: token_of_def Let_def lower_bounded_def)
qed

lemma tokens_length: "length (tokens env m) \<le> 48"
  unfolding tokens_def by (rule order.trans [OF length_filter_le]) simp

lemma tokens_len: "lower_bounded env \<Longrightarrow> t \<in> set (tokens env m) \<Longrightarrow> utf8_len t \<le> 192"
  by (auto simp: tokens_def token_of_len)

lemma tokens_valid:
  "lower_bounded env \<Longrightarrow> k \<le> n \<Longrightarrow> cluster_valid n \<lparr>cl_tokens = tokens env m, cl_count = k\<rparr>"
  using tokens_length [of env m] tokens_len
  by (force simp: cluster_valid_def list_ex_iff)

subsection \<open>Matching\<close>

lemma best_match_sound:
  "best_match i words cs best = Some (j, e, s) \<Longrightarrow>
     best = Some (j, e, s) \<or> (i \<le> j \<and> j < i + length cs \<and> similar (cs ! (j - i)) words)"
proof (induction i words cs best rule: best_match.induct)
  case (2 i words c cs best)
  from "2.IH" [OF "2.prems"[unfolded best_match.simps]] show ?case
    by (auto simp: Let_def nth_Cons' split: if_splits option.splits)
qed simp

lemma matching_sound:
  "matching cs words = Some j \<Longrightarrow> j < length cs \<and> similar (cs ! j) words"
  using best_match_sound [of 0 words cs None] by (auto simp: matching_def)

lemma best_match_some: "best \<noteq> None \<Longrightarrow> best_match i words cs best \<noteq> None"
  by (induction i words cs best rule: best_match.induct)
     (auto simp: Let_def split: option.splits)

lemma best_match_complete:
  "c \<in> set cs \<Longrightarrow> similar c words \<Longrightarrow> best_match i words cs best \<noteq> None"
proof (induction i words cs best rule: best_match.induct)
  case (2 i words c' cs best)
  show ?case
  proof (cases "c = c'")
    case True
    show ?thesis
      unfolding best_match.simps
      by (rule best_match_some) (use True "2.prems"(2) in \<open>simp add: Let_def split: option.split\<close>)
  next
    case False
    with "2.prems" have "c \<in> set cs" by simp
    from "2.IH" [OF this "2.prems"(2)] show ?thesis by simp
  qed
qed simp

lemma matching_complete: "c \<in> set cs \<Longrightarrow> similar c words \<Longrightarrow> matching cs words \<noteq> None"
  using best_match_complete by (auto simp: matching_def)

lemma similar_length: "similar c words \<Longrightarrow> length (cl_tokens c) = length words"
  by (simp add: similar_def Let_def)

section \<open>Training keeps the invariant\<close>

lemma cluster_valid_mono: "cluster_valid n t \<Longrightarrow> n \<le> k \<Longrightarrow> cluster_valid k t"
  by (auto simp: cluster_valid_def)

lemma cluster_valid_halve: "cluster_valid n t \<Longrightarrow> cluster_valid (n div 2) (t\<lparr>cl_count := cl_count t div 2\<rparr>)"
  by (auto simp: cluster_valid_def not_less div_le_mono)

lemma context_inv_default [simp]: "context_inv l context_default"
  by (simp add: context_inv_def context_default_def)

lemma context_inv_halve: "context_inv l c \<Longrightarrow> context_inv l (context_halve c)"
  by (auto simp: context_inv_def context_halve_def div_le_mono hist_inv_halve table_inv_halve
      bm_map_def [symmetric] intro: cluster_valid_halve)

lemma context_inv_counts:
  assumes "context_inv l c"
  shows "context_inv l (train_counts env ob c)"
proof -
  define d where "d = (if cx_count c \<ge> 65536 then context_halve c else c)"
  have d: "context_inv l d"
    using assms by (simp add: d_def context_inv_halve)
  have "cx_count d < 65536"
    using assms by (auto simp: d_def context_halve_def context_inv_def)
  then show ?thesis
    using d unfolding train_counts_def d_def [symmetric] Let_def
    by (auto simp: context_inv_def hist_inv_push [simplified]
        intro: cluster_valid_mono table_inv_mono)
qed

text \<open>The counters raised by one observation are below those of the context, which is why the
  later parts of a step keep the bounds: \<open>room\<close> says that a context has counted one more
  observation than its tables hold.\<close>

definition room :: "limits \<Rightarrow> learn_context \<Rightarrow> bool" where
  "room l c \<longleftrightarrow> 1 \<le> cx_count c
     \<and> (\<forall>t \<in> set (cx_clusters c). cluster_valid (cx_count c - 1) t)
     \<and> table_inv (max_transitions l) 24 (cx_count c - 1) (cx_transitions c)
     \<and> table_inv (max_combinations l) 48 (cx_count c - 1) (cx_combinations c)"

lemma room_counts: "context_inv l c \<Longrightarrow> room l (train_counts env ob c)"
  using context_inv_halve [of l c]
  by (auto simp: train_counts_def Let_def room_def context_inv_def)

lemma generalize_length: "length ts = length words \<Longrightarrow> length (generalize ts words) = length ts"
  by (simp add: generalize_def)

lemma generalize_in: "t \<in> set (generalize ts words) \<Longrightarrow> t = wildcard \<or> t \<in> set ts"
  by (auto simp: generalize_def dest: set_zip_leftD in_set_dropD split: if_splits)

lemma cluster_valid_generalize:
  "cluster_valid n p \<Longrightarrow> length (cl_tokens p) = length words \<Longrightarrow>
   cluster_valid (n + 1) (p\<lparr>cl_count := cl_count p + 1, cl_tokens := generalize (cl_tokens p) words\<rparr>)"
  using generalize_in [of _ "cl_tokens p" words]
  by (fastforce simp: cluster_valid_def generalize_length list_ex_iff wildcard_def lit_def
      utf8_len_def len_utf8_def)

lemma train_cluster_inv:
  assumes "context_inv l c" "room l c" "lower_bounded env"
    and "train_cluster l (tokens env msg) c = (r, c')"
  shows "context_inv l c' \<and> (r = Some i \<longrightarrow> i < length (cx_clusters c'))
     \<and> cx_count c' = cx_count c
     \<and> cx_transitions c' = cx_transitions c \<and> cx_combinations c' = cx_combinations c"
proof (cases "matching (cx_clusters c) (tokens env msg)")
  case (Some j)
  let ?w = "tokens env msg" and ?p = "cx_clusters c ! j"
  have j: "j < length (cx_clusters c)" "similar ?p ?w"
    using matching_sound [OF Some] by auto
  have "cluster_valid (cx_count c - 1 + 1)
      (?p\<lparr>cl_count := cl_count ?p + 1, cl_tokens := generalize (cl_tokens ?p) ?w\<rparr>)"
    using assms(2) j by (intro cluster_valid_generalize) (auto simp: room_def similar_length)
  moreover have "1 \<le> cx_count c" using assms(2) by (simp add: room_def)
  ultimately show ?thesis
    using assms(1,4) Some j
    by (auto simp: train_cluster_def context_inv_def Let_def dest!: set_update_subset_insert [THEN subsetD])
next
  case None
  have "cluster_valid (cx_count c) \<lparr>cl_tokens = tokens env msg, cl_count = 1\<rparr>"
    using assms(2,3) by (intro tokens_valid) (auto simp: room_def)
  then show ?thesis
    using assms(1,4) None
    by (auto simp: train_cluster_def context_inv_def less_SucI split: if_splits)
qed

lemma dec_short: "n < 1000 \<Longrightarrow> utf8_len (dec n) \<le> 3"
  using length_dec [of 3 n] by (simp add: utf8_len_dec)

lemma utf8_len_lit_char: "utf8_len (lit '':'') = 1" "utf8_len (lit ''>'') = 1"
  by (simp_all add: lit_def utf8_len_def len_utf8_def)

lemma combination_len: "i < 1000 \<Longrightarrow> utf8_len (combination env ob i) \<le> 48"
proof -
  assume i: "i < 1000"
  define part where "part = (\<lambda>v. case Option.bind v (hist_bin env) of None \<Rightarrow> 32 | Some b \<Rightarrow> b div 2)"
  have "part v < 1000" for v
    unfolding part_def by (cases v) (auto split: option.split dest!: hist_bin_less)
  then have p: "utf8_len (dec (part v)) \<le> 3" for v by (rule dec_short)
  show ?thesis
    using dec_short [OF i] dec_short [of 0] dec_short [of 1] p [of "ob_latency ob"] p [of "ob_bytes ob"]
    by (simp add: combination_def part_def [symmetric] utf8_len_lit_char)
qed

lemma transition_len: "i < 1000 \<Longrightarrow> j < 1000 \<Longrightarrow> utf8_len (transition_key i j) \<le> 24"
  using dec_short [of i] dec_short [of j]
  by (simp add: transition_key_def utf8_len_lit_char)

lemma train_transition_inv:
  assumes "context_inv l c" "table_inv (max_transitions l) 24 (cx_count c - 1) (cx_transitions c)"
    and "1 \<le> cx_count c" "i < 1000" "max_templates l \<le> 256"
  shows "context_inv l (train_transition l previous i c)"
proof (cases previous)
  case (Some b)
  show ?thesis
  proof (cases "b < length (cx_clusters c)")
    case True
    have "b < 1000"
      using True assms(1,5) by (simp add: context_inv_def)
    then have "table_inv (max_transitions l) 24 (cx_count c) m"
      if "bm_add (max_transitions l) (transition_key b i) 1 (cx_transitions c) = Some m" for m
      using table_inv_add [OF assms(2) transition_len that] assms(3,4) by simp
    moreover have "bm_ok (bm_bump b 1 (cx_outgoing c))"
      using assms(1) by (simp add: bm_bump_def bm_ok_put context_inv_def)
    ultimately show ?thesis
      using Some True assms(1)
      by (auto simp: train_transition_def context_inv_def bm_bump_def Let_def split: option.split)
  next
    case False
    with Some assms(1) show ?thesis by (simp add: train_transition_def)
  qed
next
  case None
  with assms(1) show ?thesis by (simp add: train_transition_def)
qed

lemma train_context_inv:
  assumes "context_inv l c" "lower_bounded env" "max_templates l \<le> 256"
  shows "context_inv l (snd (train_context env l ob previous c))"
proof -
  define d where "d = train_counts env ob c"
  have d: "context_inv l d" "room l d"
    using assms(1) by (simp_all add: d_def context_inv_counts room_counts)
  obtain r e where e: "train_cluster l (tokens env (ob_message ob)) d = (r, e)" by fastforce
  have inv: "context_inv l e" "cx_count e = cx_count d"
    "cx_transitions e = cx_transitions d" "cx_combinations e = cx_combinations d"
    "\<And>i. r = Some i \<Longrightarrow> i < length (cx_clusters e)"
    using train_cluster_inv [OF d assms(2) e] by blast+
  show ?thesis
  proof (cases r)
    case None
    with e inv(1) show ?thesis by (simp add: train_context_def d_def)
  next
    case (Some i)
    have i: "i < 1000"
      using inv(1) inv(5) [OF Some] assms(3) by (simp add: context_inv_def)
    have cnt: "1 \<le> cx_count e" "table_inv (max_transitions l) 24 (cx_count e - 1) (cx_transitions e)"
      "table_inv (max_combinations l) 48 (cx_count e - 1) (cx_combinations e)"
      using d(2) inv by (simp_all add: room_def)
    define f where "f = train_combination l (combination env ob i) e"
    have keep: "cx_count f = cx_count e" "cx_transitions f = cx_transitions e"
      by (simp_all add: f_def train_combination_def split: option.split)
    have tab: "table_inv (max_combinations l) 48 (cx_count e) m"
      if "bm_add (max_combinations l) (combination env ob i) 1 (cx_combinations e) = Some m" for m
      using table_inv_add [OF cnt(3) combination_len [OF i] that] cnt(1) by simp
    then have "context_inv l f"
      using inv(1) by (auto simp: f_def train_combination_def context_inv_def split: option.split)
    then have "context_inv l (train_transition l previous i f)"
      using cnt keep i assms(3) by (intro train_transition_inv) simp_all
    with e Some show ?thesis by (simp add: train_context_def d_def f_def)
  qed
qed

lemma train_model_inv:
  assumes "model_inv m" "lower_bounded env" "hex_key key"
  shows "model_inv (snd (train env key ob previous m))"
proof (cases "\<not> bm_has key (md_contexts m) \<and> length (md_contexts m) \<ge> max_contexts (md_limits m)")
  case False
  define c0 where "c0 = (case bm_get key (md_contexts m) of None \<Rightarrow> context_default | Some c \<Rightarrow> c)"
  let ?l = "md_limits m"
  obtain r c where c: "train_context env ?l ob previous c0 = (r, c)" by fastforce
  have "max_templates ?l \<le> 256"
    using assms(1) by (auto simp: model_inv_def limits_validate_def split: if_splits)
  moreover have "context_inv ?l c0"
    using assms(1) by (fastforce simp: c0_def model_inv_def dest: bm_get_in split: option.split)
  ultimately have "context_inv ?l c"
    using train_context_inv [OF _ assms(2), of ?l c0 ob previous] c by simp
  moreover have "bm_ok (md_contexts m)" using assms(1) by (simp add: model_inv_def)
  moreover have "train env key ob previous m = (r, m\<lparr>md_contexts := bm_put key c (md_contexts m)\<rparr>)"
    using False c by (auto simp: train_def c0_def [symmetric] Let_def)
  ultimately show ?thesis
    using assms(1,3) False
    by (auto simp: model_inv_def bm_ok_put length_bm_put dest!: bm_put_in)
qed (use assms(1) in \<open>simp add: train_def\<close>)

section \<open>The invariant implies \<open>validate\<close>\<close>

lemma context_inv_valid: "context_inv l c \<Longrightarrow> hex_key key \<Longrightarrow> context_valid l key c"
proof -
  assume c: "context_inv l c" and k: "hex_key key"
  have "length (cx_outgoing c) = card (set (bm_keys (cx_outgoing c)))"
    using c by (metis bm_keys_def bm_ok_distinct context_inv_def distinct_card length_map)
  also have "\<dots> \<le> card {..<length (cx_clusters c)}"
    using c by (intro card_mono) (auto simp: context_inv_def)
  also have "\<dots> \<le> max_templates l"
    using c by (simp add: context_inv_def)
  finally show ?thesis
    using c k hist_count_le
    by (force simp: context_inv_def context_valid_def hex_key_def table_inv_def list_ex_iff not_less)
qed

lemma model_inv_validate: "model_inv m \<Longrightarrow> model_validate m = Inr ()"
  by (fastforce simp: model_inv_def model_validate_def list_ex_iff context_inv_valid)

text \<open>The models training can reach from a fresh one with some limits.\<close>

inductive trained :: "'f std_env \<Rightarrow> limits \<Rightarrow> learn_model \<Rightarrow> bool" for env l where
  trained_new: "trained env l (model_default\<lparr>md_limits := l\<rparr>)"
| trained_step: "trained env l m \<Longrightarrow> hex_key key \<Longrightarrow>
     trained env l (snd (train env key ob previous m))"

lemma trained_inv:
  assumes "trained env l m" "limits_validate l = Inr ()" "lower_bounded env"
  shows "model_inv m"
  using assms(1)
proof (induction rule: trained.induct)
  case trained_new
  then show ?case using assms(2) by (simp add: model_inv_def model_default_def)
next
  case (trained_step m key ob previous)
  then show ?case using train_model_inv assms(3) by blast
qed

text \<open>C17. Whatever was trained under digest keys, in whatever order, with whatever previous families, and the
  logarithm of the standard library being bounded below, a model that
  started empty with accepted limits passes \<open>Model::validate\<close>: it stays inside every budget and its
  counts stay consistent across halvings.\<close>

theorem trained_model_validates:
  assumes "trained env l m" "limits_validate l = Inr ()" "lower_bounded env"
  shows "model_validate m = Inr ()"
  using trained_inv [OF assms] by (rule model_inv_validate)

text \<open>A concrete environment for the witnesses: an \<open>f64\<close> value is given by its logarithm, and
  lower-casing leaves lower case alone.\<close>

definition plain_env :: "nat std_env" where
  "plain_env = \<lparr>lower = (\<lambda>w. w), nonneg = (\<lambda>_. True), log2_floor = (\<lambda>n. n)\<rparr>"

lemma plain_env_bounded [simp]: "lower_bounded plain_env"
  by (simp add: lower_bounded_def plain_env_def)

definition sample_event :: "nat observation" where
  "sample_event = \<lparr>ob_message = lit ''login failed'', ob_failure = True, ob_latency = Some 12,
     ob_bytes = None\<rparr>"

definition sample_trained :: "nat option \<times> learn_model" where
  "sample_trained = train plain_env (replicate 64 97) sample_event None
     (model_default\<lparr>md_limits := limits_default\<rparr>)"

theorem trained_model_validates_witness: "model_validate (snd sample_trained) = Inr ()"
proof (rule trained_model_validates)
  show "trained plain_env limits_default (snd sample_trained)"
    unfolding sample_trained_def by (intro trained.intros) code_simp
  show "limits_validate limits_default = Inr ()" by code_simp
qed simp

section \<open>Families\<close>

lemma generalize_nth:
  "length ts = length words \<Longrightarrow> k < length ts \<Longrightarrow>
     generalize ts words ! k = (if ts ! k \<noteq> words ! k then wildcard else ts ! k)"
  by (simp add: generalize_def)

lemma wildcard_not_anchor [simp]: "\<not> anchor wildcard"
  by code_simp

lemma generalize_self [simp]: "generalize ws ws = ws"
  by (rule nth_equalityI) (simp_all add: generalize_length generalize_nth)

lemma zip_generalize:
  "length ts = length words \<Longrightarrow>
     zip (generalize ts words) words = map (\<lambda>(a, b). (if a \<noteq> b then wildcard else a, b)) (zip ts words)"
  by (rule nth_equalityI) (simp_all add: generalize_length generalize_nth)

lemma equal_generalize:
  "length ts = length words \<Longrightarrow> equal_tokens (generalize ts words) words = equal_tokens ts words"
  by (auto simp: equal_tokens_def zip_generalize filter_map comp_def case_prod_beta
      intro!: arg_cong [where f = length] filter_cong)

lemma stable_generalize:
  "length ts = length words \<Longrightarrow> stable_tokens (generalize ts words) = equal_tokens ts words"
  by (auto simp: stable_tokens_def equal_tokens_def generalize_def filter_map comp_def case_prod_beta
      intro!: arg_cong [where f = length] filter_cong)

lemma similar_generalize:
  assumes "similar p words"
  shows "similar (p\<lparr>cl_count := n, cl_tokens := generalize (cl_tokens p) words\<rparr>) words"
proof (cases "cl_tokens p = words")
  case True
  then show ?thesis using assms by (simp add: similar_def Let_def)
next
  case False
  have len: "length (cl_tokens p) = length words" using assms by (rule similar_length)
  have "\<not> list_ex (\<lambda>(a, b). a \<noteq> b \<and> (anchor a \<or> anchor b)) (zip (generalize (cl_tokens p) words) words)"
    using assms by (auto simp: zip_generalize [OF len] similar_def Let_def list_ex_iff split: if_splits)
  then show ?thesis
    using assms False len
    by (auto simp: similar_def Let_def equal_generalize stable_generalize generalize_length)
qed

lemma train_cluster_recognised:
  assumes "train_cluster l words c = (Some i, c')"
  shows "matching (cx_clusters c') words \<noteq> None"
proof (cases "matching (cx_clusters c) words")
  case (Some j)
  let ?p = "cx_clusters c ! j"
  let ?q = "?p\<lparr>cl_count := cl_count ?p + 1, cl_tokens := generalize (cl_tokens ?p) words\<rparr>"
  have j: "j < length (cx_clusters c)" "similar ?p words"
    using matching_sound [OF Some] by auto
  have "cx_clusters c' = (cx_clusters c)[j := ?q]"
    using assms Some by (auto simp: train_cluster_def Let_def)
  then have "?q \<in> set (cx_clusters c')"
    using j(1) by (simp add: set_update_memI)
  then show ?thesis by (rule matching_complete) (rule similar_generalize [OF j(2)])
next
  case None
  with assms have "words \<noteq> []" "\<lparr>cl_tokens = words, cl_count = 1\<rparr> \<in> set (cx_clusters c')"
    by (auto simp: train_cluster_def split: if_splits)
  moreover have "similar \<lparr>cl_tokens = words, cl_count = 1\<rparr> words"
    using \<open>words \<noteq> []\<close> by (auto simp: similar_def Let_def list_ex_iff set_zip)
  ultimately show ?thesis by (metis matching_complete)
qed

lemma train_later_clusters [simp]:
  "cx_clusters (train_combination l k c) = cx_clusters c"
  "cx_clusters (train_transition l b i c) = cx_clusters c"
  by (simp_all add: train_combination_def train_transition_def Let_def split: option.split)

lemma train_context_clusters:
  "cx_clusters (snd (train_context env l ob previous c)) =
     cx_clusters (snd (train_cluster l (tokens env (ob_message ob)) (train_counts env ob c)))"
  by (simp add: train_context_def split: prod.split option.split)

lemma train_context_result:
  "fst (train_context env l ob previous c) =
     fst (train_cluster l (tokens env (ob_message ob)) (train_counts env ob c))"
  by (simp add: train_context_def split: prod.split option.split)

text \<open>C21. A message that training assigned to a family is recognised by the trained model: the
  family it was given still matches after being generalised.\<close>

theorem train_recognises:
  assumes "train env key ob previous m = (Some i, m')"
  shows "\<exists>c. bm_get key (md_contexts m') = Some c
           \<and> matching (cx_clusters c) (tokens env (ob_message ob)) \<noteq> None"
proof -
  define c0 where "c0 = (case bm_get key (md_contexts m) of None \<Rightarrow> context_default | Some c \<Rightarrow> c)"
  obtain r c where rc: "train_context env (md_limits m) ob previous c0 = (r, c)" by fastforce
  with assms have r: "r = Some i" and m': "bm_get key (md_contexts m') = Some c"
    by (auto simp: train_def c0_def [symmetric] Let_def split: if_splits)
  let ?t = "train_cluster (md_limits m) (tokens env (ob_message ob)) (train_counts env ob c0)"
  have "?t = (Some i, snd ?t)"
    using train_context_result [of env "md_limits m" ob previous c0] rc r by (metis fst_conv prod.collapse)
  then have "matching (cx_clusters (snd ?t)) (tokens env (ob_message ob)) \<noteq> None"
    by (rule train_cluster_recognised)
  then show ?thesis
    using m' train_context_clusters [of env "md_limits m" ob previous c0] rc by auto
qed

theorem train_recognises_witness:
  "\<exists>c. bm_get (replicate 64 97) (md_contexts (snd sample_trained)) = Some c
     \<and> matching (cx_clusters c) (tokens plain_env (ob_message sample_event)) \<noteq> None"
proof (rule train_recognises)
  have "fst sample_trained = Some 0" by code_simp
  then show "train plain_env (replicate 64 97) sample_event None
      (model_default\<lparr>md_limits := limits_default\<rparr>) = (Some 0, snd sample_trained)"
    by (metis prod.collapse sample_trained_def)
qed

lemma similar_anchor_kept:
  assumes "similar p words" "k < length (cl_tokens p)" "anchor (cl_tokens p ! k)"
  shows "generalize (cl_tokens p) words ! k = cl_tokens p ! k"
proof -
  have len: "length (cl_tokens p) = length words" using assms(1) by (rule similar_length)
  then have "(cl_tokens p ! k, words ! k) \<in> set (zip (cl_tokens p) words)"
    using assms(2) by (auto simp: set_zip)
  with assms(1,3) have "cl_tokens p ! k = words ! k"
    by (fastforce simp: similar_def Let_def list_ex_iff)
  then show ?thesis using len assms(2) by (simp add: generalize_nth)
qed

text \<open>C22. The words that carry an outcome are never generalised away: an anchor (\<open>failed\<close>,
  \<open>success\<close>, \<open>denied\<close>, ...) at some place of a family stays at that place whatever is trained next.\<close>

theorem train_keeps_anchors:
  assumes "bm_get key (md_contexts m) = Some c" "i < length (cx_clusters c)"
    and "k < length (cl_tokens (cx_clusters c ! i))" "anchor (cl_tokens (cx_clusters c ! i) ! k)"
  shows "\<exists>c'. bm_get key (md_contexts (snd (train env key ob previous m))) = Some c'
           \<and> i < length (cx_clusters c')
           \<and> cl_tokens (cx_clusters c' ! i) ! k = cl_tokens (cx_clusters c ! i) ! k"
proof -
  obtain r c' where rc: "train_context env (md_limits m) ob previous c = (r, c')" by fastforce
  let ?words = "tokens env (ob_message ob)"
  define d where "d = train_counts env ob c"
  have d: "length (cx_clusters d) = length (cx_clusters c)"
    "cl_tokens (cx_clusters d ! i) = cl_tokens (cx_clusters c ! i)"
    using assms(2) by (auto simp: d_def train_counts_def context_halve_def Let_def)
  have c': "cx_clusters c' = cx_clusters (snd (train_cluster (md_limits m) ?words d))"
    using train_context_clusters [of env "md_limits m" ob previous c] rc by (simp add: d_def)
  have "i < length (cx_clusters c') \<and> cl_tokens (cx_clusters c' ! i) ! k = cl_tokens (cx_clusters d ! i) ! k"
  proof (cases "matching (cx_clusters d) ?words")
    case (Some j)
    then show ?thesis
      using assms(2-4) d similar_anchor_kept [of "cx_clusters d ! i" ?words k] matching_sound [OF Some]
      by (cases "i = j") (auto simp: c' train_cluster_def Let_def)
  next
    case None
    then show ?thesis
      using assms(2) d by (auto simp: c' train_cluster_def nth_append)
  qed
  moreover have "snd (train env key ob previous m) = m\<lparr>md_contexts := bm_put key c' (md_contexts m)\<rparr>"
    using assms(1) rc by (simp add: train_def bm_has_def)
  ultimately show ?thesis using d(2) by simp
qed

lemma anchor_failed: "anchor (lit ''failed'')"
  by code_simp

theorem train_keeps_anchors_witness:
  "\<exists>c'. bm_get (replicate 64 97)
       (md_contexts (snd (train plain_env (replicate 64 97) sample_event None (snd sample_trained)))) = Some c'
     \<and> 0 < length (cx_clusters c') \<and> cl_tokens (cx_clusters c' ! 0) ! 1 = lit ''failed''"
proof -
  define c where "c = the (bm_get (replicate 64 97) (md_contexts (snd sample_trained)))"
  have c: "bm_get (replicate 64 97) (md_contexts (snd sample_trained)) = Some c"
    unfolding c_def by code_simp
  have t: "length (cx_clusters c) = 1" "cl_tokens (cx_clusters c ! 0) = [lit ''login'', lit ''failed'']"
    unfolding c_def by code_simp+
  show ?thesis
    using train_keeps_anchors [OF c, of 0 1 plain_env sample_event None] t
    by (simp add: anchor_failed)
qed

end
