(* ===== verification/Learn_Shared.thy ===== *)
theory Learn_Shared
  imports Learn_Model "HOL-Library.Product_Lexorder"
begin

text \<open>
  The public protocol of \<open>crates/log-learning/src/shared.rs\<close>: a closed vocabulary of states,
  contributions that count states and transitions, and the shared model that merges them.

  A contribution's identifier is \<open>digest(&serde_json::to_vec(self))\<close>. Both functions come from other
  crates, so their composition is the parameter \<open>fp\<close>; what the code relies on is stated where it is
  used: it renders as 64 hexadecimal digits. \<open>StateCount\<close> and \<open>TransitionCount\<close> are pairs of a key
  and a count, so that the counter interface of \<open>Counter_Table\<close> applies to both tables.
\<close>

section \<open>The closed vocabulary\<close>

datatype domain = Application | Web | Authentication | Network | Database | OperatingSystem | Cloud | OtherDomain

fun domain_rank :: "domain \<Rightarrow> nat" where
  "domain_rank Application = 0"
| "domain_rank Web = 1"
| "domain_rank Authentication = 2"
| "domain_rank Network = 3"
| "domain_rank Database = 4"
| "domain_rank OperatingSystem = 5"
| "domain_rank Cloud = 6"
| "domain_rank OtherDomain = 7"

lemma domain_rank_inj [simp]: "domain_rank a = domain_rank b \<longleftrightarrow> a = b"
  by (cases a; cases b) simp_all

text \<open>The derived \<open>Ord\<close> of the enum: declaration order.\<close>

instantiation domain :: linorder
begin

definition less_eq_domain :: "domain \<Rightarrow> domain \<Rightarrow> bool" where
  "a \<le> b \<longleftrightarrow> domain_rank a \<le> domain_rank b"

definition less_domain :: "domain \<Rightarrow> domain \<Rightarrow> bool" where
  "a < b \<longleftrightarrow> domain_rank a < domain_rank b"

instance
  by standard (auto simp: less_eq_domain_def less_domain_def)

end

definition from_product :: "rstr \<Rightarrow> domain" where
  "from_product p =
     (if p \<in> set (map lit [''web'', ''nginx'', ''apache'', ''iis'', ''http'']) then Web
      else if p \<in> set (map lit [''sshd'', ''okta'', ''entra'', ''authentication'']) then Authentication
      else if p \<in> set (map lit [''zeek'', ''suricata'', ''firewall'', ''dns'']) then Network
      else if p \<in> set (map lit [''postgresql'', ''mysql'', ''mssql'', ''oracle'']) then Database
      else if p \<in> set (map lit [''windows-security'', ''windows'', ''sysmon'', ''auditd'', ''syslog'',
                 ''powershell'']) then OperatingSystem
      else if p \<in> set (map lit [''aws'', ''gcp'', ''azure'', ''kubernetes'', ''github'']) then Cloud
      else if p \<in> set (map lit [''java'', ''python'', ''application'', ''dotnet'']) then Application
      else OtherDomain)"

datatype public_state = Public_State
  (ps_action: nat) (ps_outcome: nat) (ps_latency: nat) (ps_bytes: nat) (ps_length: nat)

definition ps_key :: "public_state \<Rightarrow> nat list" where
  "ps_key s = [ps_action s, ps_outcome s, ps_latency s, ps_bytes s, ps_length s]"

lemma ps_key_inj [simp]: "ps_key a = ps_key b \<longleftrightarrow> a = b"
  by (cases a; cases b) (simp add: ps_key_def)

text \<open>The derived \<open>Ord\<close> of the struct: lexicographic in the order of the fields.\<close>

instantiation public_state :: linorder
begin

definition less_eq_public_state :: "public_state \<Rightarrow> public_state \<Rightarrow> bool" where
  "a \<le> b \<longleftrightarrow> ps_key a \<le> ps_key b"

definition less_public_state :: "public_state \<Rightarrow> public_state \<Rightarrow> bool" where
  "a < b \<longleftrightarrow> ps_key a < ps_key b"

instance
  by standard (auto simp: less_eq_public_state_def less_public_state_def less_le)

end

definition action_code :: "rstr \<Rightarrow> nat" where
  "action_code a =
     (if a = lit ''logon'' then 1
      else if a \<in> {lit ''read'', lit ''file_read''} then 2
      else if a \<in> {lit ''write'', lit ''file_write''} then 3
      else if a \<in> {lit ''process_start'', lit ''script_execution''} then 4
      else if a \<in> {lit ''request'', lit ''http_request''} then 5
      else if a \<in> {lit ''connect'', lit ''network_connection''} then 6
      else if a = lit ''delete'' then 7
      else if a \<in> {lit ''change'', lit ''password_change''} then 8
      else 0)"

definition outcome_code :: "rstr \<Rightarrow> nat" where
  "outcome_code a = (if a = lit ''success'' then 1 else if a = lit ''failure'' then 2 else 0)"

text \<open>\<open>usize::BITS - words.leading_zeros()\<close> is the number of binary digits.\<close>

definition length_code :: "nat \<Rightarrow> nat" where
  "length_code w = (if w = 0 then 0 else min (floorlog 2 w) 6)"

definition public_bucket :: "'f std_env \<Rightarrow> 'f option \<Rightarrow> nat" where
  "public_bucket env v = (case Option.bind v (hist_bin env) of None \<Rightarrow> 0 | Some b \<Rightarrow> 1 + min (b div 2) 15)"

definition public_new ::
  "'f std_env \<Rightarrow> rstr \<Rightarrow> rstr \<Rightarrow> 'f option \<Rightarrow> 'f option \<Rightarrow> nat \<Rightarrow> public_state" where
  "public_new env action outcome latency byts words =
     Public_State (action_code action) (outcome_code outcome) (public_bucket env latency)
       (public_bucket env byts) (length_code words)"

section \<open>Errors\<close>

datatype share_error =
    OutOfVocabulary
  | ContributionIncompatible
  | ContributionCounts
  | ContributionTransitions
  | ContributionFlow
  | ContributionHash
  | BundleInvalid
  | BundleRepeated
  | EpochFull
  | SharedVocabularyFull
  | SharedTransitionsFull
  | SharedIncompatible
  | SharedOverBudget
  | SharedState
  | SharedTotal
  | SharedTransition
  | SharedFlow

definition public_valid :: "public_state \<Rightarrow> bool" where
  "public_valid s \<longleftrightarrow> \<not> (ps_action s > 8 \<or> ps_outcome s > 2 \<or> ps_latency s > 16 \<or> ps_bytes s > 16
     \<or> ps_length s > 6)"

definition public_validate :: "public_state \<Rightarrow> share_error + unit" where
  "public_validate s = require (public_valid s) OutOfVocabulary"

section \<open>Contributions\<close>

type_synonym state_count = "public_state \<times> nat"
type_synonym transition_count = "(public_state \<times> public_state) \<times> nat"

record contribution =
  co_schema :: nat
  co_id :: rstr
  co_domain :: domain
  co_states :: "state_count list"
  co_transitions :: "transition_count list"
  co_discarded :: nat

definition contribution_new :: "domain \<Rightarrow> contribution" where
  "contribution_new d = \<lparr>co_schema = learn_schema, co_id = [], co_domain = d, co_states = [],
     co_transitions = [], co_discarded = 0\<rparr>"

definition count_total :: "('k \<times> nat) list \<Rightarrow> nat" where
  "count_total es = foldl (\<lambda>n e. sat_add n (snd e)) 0 es"

definition contribution_total :: "contribution \<Rightarrow> nat" where
  "contribution_total c = count_total (co_states c)"

text \<open>The second half of \<open>observe\<close>: a transition that finds no room is dropped silently.\<close>

definition observe_transition :: "public_state \<Rightarrow> public_state option \<Rightarrow> contribution \<Rightarrow> contribution" where
  "observe_transition state previous c =
     (case previous of
        None \<Rightarrow> c
      | Some src \<Rightarrow>
          (case vec_add 512 (src, state) 1 (co_transitions c) of
             None \<Rightarrow> c
           | Some t \<Rightarrow> c\<lparr>co_transitions := t\<rparr>))"

definition observe :: "public_state \<Rightarrow> public_state option \<Rightarrow> contribution \<Rightarrow> contribution" where
  "observe state previous c =
     (if contribution_total c \<ge> 10000 then c\<lparr>co_discarded := sat_add (co_discarded c) 1\<rparr>
      else case vec_add 256 state 1 (co_states c) of
             None \<Rightarrow> c\<lparr>co_discarded := sat_add (co_discarded c) 1\<rparr>
           | Some ss \<Rightarrow> observe_transition state previous (c\<lparr>co_states := ss\<rparr>))"

definition seal :: "(contribution \<Rightarrow> rstr) \<Rightarrow> contribution \<Rightarrow> contribution" where
  "seal fp c =
     (let d = c\<lparr>co_states := sort_key fst (co_states c),
                co_transitions := sort_key fst (co_transitions c),
                co_id := []\<rparr>
      in d\<lparr>co_id := fp d\<rparr>)"

section \<open>Validation\<close>

text \<open>The two loops \<open>validate\<close> runs over a table of states and a table of transitions.\<close>

fun check_counts ::
  "nat \<Rightarrow> share_error \<Rightarrow> state_count list \<Rightarrow> (public_state, nat) bmap \<Rightarrow> share_error + (public_state, nat) bmap" where
  "check_counts cap err [] states = Inr states"
| "check_counts cap err ((s, n) # es) states =
     bind_res (public_validate s) (\<lambda>_.
       if n = 0 \<or> n > cap \<or> bm_has s states then Inl err
       else check_counts cap err es (bm_put s n states))"

fun check_moves ::
  "nat \<Rightarrow> share_error \<Rightarrow> (public_state, nat) bmap \<Rightarrow> transition_count list
     \<Rightarrow> (public_state \<times> public_state) list \<Rightarrow> (public_state, nat) bmap \<Rightarrow> (public_state, nat) bmap
     \<Rightarrow> share_error + (public_state, nat) bmap \<times> (public_state, nat) bmap" where
  "check_moves cap err states [] seen out inc = Inr (out, inc)"
| "check_moves cap err states (((a, b), n) # ts) seen out inc =
     bind_res (public_validate a) (\<lambda>_. bind_res (public_validate b) (\<lambda>_.
       if n = 0 \<or> n > cap \<or> (a, b) \<in> set seen \<or> \<not> bm_has a states \<or> \<not> bm_has b states then Inl err
       else check_moves cap err states ts ((a, b) # seen) (bm_bump a n out) (bm_bump b n inc)))"

definition exceeds :: "(public_state, nat) bmap \<Rightarrow> (public_state, nat) bmap \<times> (public_state, nat) bmap \<Rightarrow> bool" where
  "exceeds states flows = list_ex (\<lambda>(s, n). n > bm_count s states) (fst flows @ snd flows)"

definition contribution_validate :: "(contribution \<Rightarrow> rstr) \<Rightarrow> contribution \<Rightarrow> share_error + unit" where
  "contribution_validate fp c =
     (if co_schema c \<noteq> learn_schema \<or> length (co_states c) > 256 \<or> length (co_transitions c) > 512
         \<or> contribution_total c = 0 \<or> contribution_total c > 10000 \<or> co_discarded c > 1000000000
      then Inl ContributionIncompatible
      else bind_res (check_counts 10000 ContributionCounts (co_states c) []) (\<lambda>states.
           bind_res (check_moves 10000 ContributionTransitions states (co_transitions c) [] [] []) (\<lambda>flows.
           if exceeds states flows then Inl ContributionFlow
           else if co_id (seal fp c) \<noteq> co_id c then Inl ContributionHash
           else Inr ())))"

record contribution_bundle =
  bu_schema :: nat
  bu_contributions :: "contribution list"

fun bundle_loop :: "(contribution \<Rightarrow> rstr) \<Rightarrow> contribution list \<Rightarrow> rstr list \<Rightarrow> share_error + unit" where
  "bundle_loop fp [] ids = Inr ()"
| "bundle_loop fp (c # cs) ids =
     bind_res (contribution_validate fp c) (\<lambda>_.
       if co_id c \<in> set ids then Inl BundleRepeated else bundle_loop fp cs (co_id c # ids))"

definition bundle_validate :: "(contribution \<Rightarrow> rstr) \<Rightarrow> contribution_bundle \<Rightarrow> share_error + unit" where
  "bundle_validate fp b =
     (if bu_schema b \<noteq> learn_schema \<or> bu_contributions b = [] \<or> length (bu_contributions b) > 8
      then Inl BundleInvalid
      else bundle_loop fp (bu_contributions b) [])"

section \<open>The shared model\<close>

record domain_model =
  dm_states :: "state_count list"
  dm_transitions :: "transition_count list"
  dm_observations :: nat

definition domain_default :: domain_model where
  "domain_default = \<lparr>dm_states = [], dm_transitions = [], dm_observations = 0\<rparr>"

text \<open>\<open>BTreeSet<String>\<close> and \<open>BTreeMap<Domain, DomainModel>\<close>.\<close>

record shared_model =
  sm_schema :: nat
  sm_contributions :: "rstr list"
  sm_domains :: "(domain, domain_model) bmap"

definition shared_default :: shared_model where
  "shared_default = \<lparr>sm_schema = learn_schema, sm_contributions = [], sm_domains = []\<rparr>"

definition hex64 :: "rstr \<Rightarrow> bool" where
  "hex64 s \<longleftrightarrow> utf8_len s = 64 \<and> list_all is_ascii_hexdigit s"

definition domain_validate :: "domain_model \<Rightarrow> share_error + unit" where
  "domain_validate d =
     (if length (dm_states d) > 4096 \<or> length (dm_transitions d) > 8192 \<or> dm_observations d > 40960000
      then Inl SharedOverBudget
      else bind_res (check_counts 40960000 SharedState (dm_states d) []) (\<lambda>states.
           if count_total (dm_states d) \<noteq> dm_observations d then Inl SharedTotal
           else bind_res (check_moves (dm_observations d) SharedTransition states (dm_transitions d) [] [] [])
             (\<lambda>flows. if exceeds states flows then Inl SharedFlow else Inr ())))"

fun domains_validate :: "domain_model list \<Rightarrow> share_error + unit" where
  "domains_validate [] = Inr ()"
| "domains_validate (d # ds) = bind_res (domain_validate d) (\<lambda>_. domains_validate ds)"

definition shared_validate :: "shared_model \<Rightarrow> share_error + unit" where
  "shared_validate m =
     (if sm_schema m \<noteq> learn_schema \<or> length (sm_contributions m) > 4096 \<or> length (sm_domains m) > 8
         \<or> list_ex (\<lambda>i. \<not> hex64 i) (sm_contributions m)
      then Inl SharedIncompatible
      else domains_validate (bm_values (sm_domains m)))"

fun merge_entries :: "nat \<Rightarrow> share_error \<Rightarrow> ('k \<times> nat) list \<Rightarrow> ('k \<times> nat) list \<Rightarrow> share_error + ('k \<times> nat) list" where
  "merge_entries cap err [] t = Inr t"
| "merge_entries cap err ((k, n) # es) t =
     (case vec_add cap k n t of None \<Rightarrow> Inl err | Some t' \<Rightarrow> merge_entries cap err es t')"

definition merge_domain :: "contribution \<Rightarrow> domain_model \<Rightarrow> share_error + domain_model" where
  "merge_domain c d =
     bind_res (merge_entries 4096 SharedVocabularyFull (co_states c) (dm_states d)) (\<lambda>ss.
     bind_res (merge_entries 8192 SharedTransitionsFull (co_transitions c) (dm_transitions d)) (\<lambda>ts.
       Inr \<lparr>dm_states = sort_key fst ss, dm_transitions = sort_key fst ts,
            dm_observations = dm_observations d + contribution_total c\<rparr>))"

text \<open>
  \<open>merge\<close> works on a clone that replaces the model in the last step, so an \<open>Err\<close> leaves the model as
  it was: the result is either an error or the answer with the new model.
\<close>

definition merge ::
  "(contribution \<Rightarrow> rstr) \<Rightarrow> contribution \<Rightarrow> shared_model \<Rightarrow> share_error + bool \<times> shared_model" where
  "merge fp c m =
     bind_res (contribution_validate fp c) (\<lambda>_.
     bind_res (shared_validate m) (\<lambda>_.
       if co_id c \<in> set (sm_contributions m) then Inr (False, m)
       else if length (sm_contributions m) \<ge> 4096 then Inl EpochFull
       else bind_res (merge_domain c (case bm_get (co_domain c) (sm_domains m) of
                        None \<Rightarrow> domain_default | Some d \<Rightarrow> d)) (\<lambda>d.
            let next = m\<lparr>sm_domains := bm_put (co_domain c) d (sm_domains m),
                         sm_contributions := insort (co_id c) (sm_contributions m)\<rparr>
            in bind_res (shared_validate next) (\<lambda>_. Inr (True, next)))))"

definition support :: "domain \<Rightarrow> public_state \<Rightarrow> shared_model \<Rightarrow> nat \<times> nat" where
  "support area s m =
     (case bm_get area (sm_domains m) of
        None \<Rightarrow> (0, 0)
      | Some d \<Rightarrow> (vec_count (dm_states d) s, dm_observations d))"

end
