(* ===== verification/Learn_Share_Laws.thy ===== *)
theory Learn_Share_Laws
  imports Learn_Shared
begin

text \<open>
  What the public protocol promises. The loops of \<open>validate\<close> are first brought to a declarative form
  (\<open>table_ok\<close>), invariant under reordering; on it rest the theorems on \<open>observe\<close>, \<open>seal\<close> and \<open>merge\<close>.
\<close>

section \<open>Validation, declaratively\<close>

definition flow :: "('e \<Rightarrow> 'k) \<Rightarrow> ('e \<times> nat) list \<Rightarrow> 'k \<Rightarrow> nat" where
  "flow key ts s = sum_list (map snd (filter (\<lambda>t. key (fst t) = s) ts))"

definition counts_ok :: "nat \<Rightarrow> state_count list \<Rightarrow> bool" where
  "counts_ok cap es \<longleftrightarrow> (\<forall>(s, n) \<in> set es. public_valid s \<and> 0 < n \<and> n \<le> cap) \<and> vec_ok es"

definition moves_ok :: "nat \<Rightarrow> public_state set \<Rightarrow> transition_count list \<Rightarrow> bool" where
  "moves_ok cap S ts \<longleftrightarrow> (\<forall>((a, b), n) \<in> set ts. a \<in> S \<and> b \<in> S \<and> 0 < n \<and> n \<le> cap) \<and> vec_ok ts"

definition table_ok :: "nat \<Rightarrow> nat \<Rightarrow> state_count list \<Rightarrow> transition_count list \<Rightarrow> bool" where
  "table_ok cap mcap ss ts \<longleftrightarrow> counts_ok cap ss \<and> moves_ok mcap (fst ` set ss) ts
     \<and> (\<forall>s. flow fst ts s \<le> vec_count ss s \<and> flow snd ts s \<le> vec_count ss s)"

lemma flow_simps [simp]:
  "flow key [] s = 0"
  "flow key ((e, n) # ts) s = (if key e = s then n else 0) + flow key ts s"
  by (simp_all add: flow_def)

lemma flow_append [simp]: "flow key (ts @ us) s = flow key ts s + flow key us s"
  by (simp add: flow_def)

lemma flow_bump: "k \<in> fst ` set t \<Longrightarrow> flow key (vec_bump k n t) s = flow key t s + (if key k = s then n else 0)"
proof (induction k n t rule: vec_bump.induct)
  case (2 k n j c t)
  then show ?case by (cases "j = k") auto
qed simp

lemma flow_vec_add:
  "vec_add cap k n t = Some t' \<Longrightarrow> flow key t' s = flow key t s + (if key k = s then n else 0)"
  by (elim vec_add_cases) (simp_all add: flow_bump)

lemma flow_mset: "mset ts = mset us \<Longrightarrow> flow key ts s = flow key us s"
proof -
  have "flow key xs s = sum_mset (image_mset snd (filter_mset (\<lambda>t. key (fst t) = s) (mset xs)))" for xs
    by (simp add: flow_def flip: sum_mset_sum_list mset_map mset_filter)
  then show "mset ts = mset us \<Longrightarrow> flow key ts s = flow key us s" by simp
qed

lemma vec_ok_mset: "mset ts = mset us \<Longrightarrow> vec_ok ts = vec_ok us"
  unfolding vec_ok_def by (metis mset_eq_imp_distinct_iff mset_map)

lemma vec_count_mset:
  assumes "mset ts = mset us" "vec_ok ts"
  shows "vec_count ts k = vec_count us k"
proof (cases "k \<in> fst ` set ts")
  case True
  then have "(k, vec_count ts k) \<in> set us"
    using vec_count_get [OF assms(2)] mset_eq_setD [OF assms(1)] by simp
  then show ?thesis using vec_count_in vec_ok_mset [OF assms(1)] assms(2) by fastforce
next
  case False
  then show ?thesis using mset_eq_setD [OF assms(1)] by (simp add: vec_count_out)
qed

lemma table_ok_mset:
  assumes "mset ss = mset ss'" "mset ts = mset ts'"
  shows "table_ok cap mcap ss ts = table_ok cap mcap ss' ts'"
proof -
  have "counts_ok cap ss = counts_ok cap ss'" "moves_ok mcap (fst ` set ss) ts = moves_ok mcap (fst ` set ss') ts'"
    using mset_eq_setD [OF assms(1)] mset_eq_setD [OF assms(2)] vec_ok_mset [OF assms(1)] vec_ok_mset [OF assms(2)]
    by (simp_all add: counts_ok_def moves_ok_def)
  moreover have "vec_count ss s = vec_count ss' s" if "counts_ok cap ss" for s
    using vec_count_mset [OF assms(1)] that by (simp add: counts_ok_def)
  ultimately show ?thesis
    using flow_mset [OF assms(2)] unfolding table_ok_def by metis
qed

lemma mset_sort_key [simp]: "mset (sort_key f xs) = mset xs"
  by (induction xs) simp_all

lemma foldl_snd: "foldl (\<lambda>n e. sat_add n (snd e)) a es = foldl sat_add a (map snd es)"
  by (induction es arbitrary: a) simp_all

lemma count_total_exact: "sum_list (map snd es) \<le> u64_max \<Longrightarrow> count_total es = sum_list (map snd es)"
  using foldl_sat_add_exact [of 0 "map snd es"] by (simp add: count_total_def foldl_snd)

lemma foldl_sat_add_min: "a \<le> u64_max \<Longrightarrow> foldl sat_add a xs = min (a + sum_list xs) u64_max"
proof (induction xs arbitrary: a)
  case (Cons x xs)
  show ?case using Cons.IH [of "sat_add a x"] by (simp add: sat_add_def)
qed simp

lemma count_total_eq: "count_total es = min (sum_list (map snd es)) u64_max"
  using foldl_sat_add_min [of 0 "map snd es"] by (simp add: count_total_def foldl_snd)

lemma count_total_mset: "mset es = mset fs \<Longrightarrow> count_total es = count_total fs"
  by (metis count_total_eq mset_map sum_mset_sum_list)

lemma vt_total: "vec_ok es \<Longrightarrow> vt.total es = sum_list (map snd es)"
proof (induction es)
  case (Cons e es)
  obtain k n where e: "e = (k, n)" by (cases e)
  have k: "k \<notin> fst ` set es" and ok: "vec_ok es" using Cons.prems by (auto simp: e vec_ok_def)
  have m: "map (vec_count ((k, n) # es)) (map fst es) = map (vec_count es) (map fst es)"
    using k by (intro map_cong) auto
  have "vt.total (e # es) = n + sum_list (map (vec_count ((k, n) # es)) (map fst es))"
    by (simp add: e vt.total_def)
  also have "\<dots> = n + vt.total es" by (simp only: m vt.total_def)
  finally show ?case using Cons.IH [OF ok] by (simp add: e)
qed (simp add: vt.total_def)

section \<open>The loops agree with the declarative form\<close>

lemma check_counts_valid:
  "(\<exists>r. check_counts cap err es st = Inr r) \<longleftrightarrow>
     counts_ok cap es \<and> (\<forall>k \<in> fst ` set es. \<not> bm_has k st)"
proof (induction cap err es st rule: check_counts.induct)
  case (2 cap err s n es st)
  show ?case
  proof (cases "public_valid s \<and> 0 < n \<and> n \<le> cap \<and> \<not> bm_has s st")
    case True
    then show ?thesis using "2.IH"
      by (auto simp: public_validate_def require_def counts_ok_def vec_ok_def)
  next
    case False
    then show ?thesis
      by (auto simp: public_validate_def require_def counts_ok_def)
  qed
qed (simp add: counts_ok_def vec_ok_def)

lemma check_counts_result:
  "check_counts cap err es st = Inr r \<Longrightarrow> bm_ok st \<Longrightarrow>
     bm_ok r \<and> bm_get k r = (if k \<in> fst ` set es then Some (vec_count es k) else bm_get k st)"
proof (induction cap err es st rule: check_counts.induct)
  case (2 cap err s n es st)
  have rest: "check_counts cap err es (bm_put s n st) = Inr r" and fresh: "\<not> bm_has s st" "public_valid s"
    and n: "\<not> (n = 0 \<or> n > cap \<or> bm_has s st)"
    using "2.prems"(1) by (auto simp: public_validate_def require_def split: if_splits)
  have "\<forall>k \<in> fst ` set es. \<not> bm_has k (bm_put s n st)"
    using check_counts_valid rest by blast
  then have "s \<notin> fst ` set es" by auto
  then show ?case
    using "2.IH" n fresh rest "2.prems"(2)
    by (auto simp: public_validate_def require_def bm_ok_put)
qed simp

lemma check_moves_valid:
  "(\<exists>r. check_moves cap err st ts seen out inc = Inr r) \<longleftrightarrow>
     moves_ok cap {k. bm_has k st \<and> public_valid k} ts \<and> fst ` set ts \<inter> set seen = {}"
proof (induction cap err st ts seen out inc rule: check_moves.induct)
  case (2 cap err st a b n ts seen out inc)
  show ?case
  proof (cases "public_valid a \<and> public_valid b \<and> 0 < n \<and> n \<le> cap \<and> (a, b) \<notin> set seen
      \<and> bm_has a st \<and> bm_has b st")
    case True
    then show ?thesis using "2.IH"
      by (auto simp: public_validate_def require_def moves_ok_def vec_ok_def)
  next
    case False
    then show ?thesis
      by (auto simp: public_validate_def require_def moves_ok_def)
  qed
qed (simp add: moves_ok_def vec_ok_def)

lemma bm_count_bump: "bm_count j (bm_bump k n m) = bm_count j m + (if j = k then n else 0)"
  by (simp add: bm_bump_def bm_count_def)

lemma check_moves_result:
  "check_moves cap err st ts seen out inc = Inr (out', inc') \<Longrightarrow> bm_ok out \<Longrightarrow> bm_ok inc \<Longrightarrow>
     bm_ok out' \<and> bm_ok inc' \<and> bm_count s out' = bm_count s out + flow fst ts s
     \<and> bm_count s inc' = bm_count s inc + flow snd ts s"
proof (induction cap err st ts seen out inc rule: check_moves.induct)
  case (2 cap err st a b n ts seen out inc)
  from "2.prems"(1) have c: "\<not> (n = 0 \<or> n > cap \<or> (a, b) \<in> set seen \<or> \<not> bm_has a st \<or> \<not> bm_has b st)"
    and v: "public_valid a" "public_valid b"
    and rest: "check_moves cap err st ts ((a, b) # seen) (bm_bump a n out) (bm_bump b n inc) = Inr (out', inc')"
    by (auto simp: public_validate_def require_def split: if_splits)
  have "bm_ok (bm_bump a n out)" "bm_ok (bm_bump b n inc)"
    using "2.prems" by (simp_all add: bm_bump_def bm_ok_put)
  then show ?case
    using "2.IH" [OF c rest] v by (auto simp: public_validate_def require_def bm_count_bump)
qed simp

lemma exceeds_iff:
  assumes "bm_ok out" "bm_ok inc"
  shows "exceeds st (out, inc) \<longleftrightarrow> (\<exists>s. bm_count s out > bm_count s st \<or> bm_count s inc > bm_count s st)"
proof -
  have e: "(\<exists>(s, n) \<in> set m. n > f s) \<longleftrightarrow> (\<exists>s. bm_count s m > f s)" if "bm_ok m"
    for m :: "(public_state, nat) bmap" and f :: "public_state \<Rightarrow> nat"
  proof -
    have "(s, bm_count s m) \<in> set m" if gt: "bm_count s m > f s" for s
    proof -
      obtain v where "bm_get s m = Some v"
        using gt by (cases "bm_get s m") (simp_all add: bm_count_def)
      then show ?thesis using iffD1 [OF bm_get_iff [OF \<open>bm_ok m\<close>]] by (simp add: bm_count_def)
    qed
    moreover have "bm_count s m = n" if "(s, n) \<in> set m" for s n
      using iffD2 [OF bm_get_iff [OF \<open>bm_ok m\<close>], OF that] by (simp add: bm_count_def)
    ultimately show ?thesis by (metis (no_types, lifting) case_prod_conv surj_pair)
  qed
  show ?thesis
    using e [OF assms(1), of "\<lambda>s. bm_count s st"] e [OF assms(2), of "\<lambda>s. bm_count s st"]
    by (simp add: exceeds_def list_ex_iff bex_Un) blast
qed

lemma tables_check:
  "(\<exists>st fl. check_counts cap e1 ss [] = Inr st \<and> check_moves mcap e2 st ts [] [] [] = Inr fl \<and> \<not> exceeds st fl)
     \<longleftrightarrow> table_ok cap mcap ss ts"
proof (cases "counts_ok cap ss")
  case True
  then obtain st where st: "check_counts cap e1 ss [] = Inr st"
    using check_counts_valid [of cap e1 ss "[]"] by (auto simp: bm_has_def)
  have get: "bm_get k st = (if k \<in> fst ` set ss then Some (vec_count ss k) else None)" for k
    using check_counts_result [OF st] by simp
  have cnt: "bm_count k st = vec_count ss k" for k
    by (simp add: bm_count_def get vec_count_out)
  have dom: "{k. bm_has k st \<and> public_valid k} = fst ` set ss"
    using True by (auto simp: bm_has_def get counts_ok_def)
  show ?thesis
  proof (cases "moves_ok mcap (fst ` set ss) ts")
    case mv: True
    then obtain out inc where fl: "check_moves mcap e2 st ts [] [] [] = Inr (out, inc)"
      using check_moves_valid [of mcap e2 st ts "[]" "[]" "[]"] by (auto simp: dom)
    have r: "bm_ok out" "bm_ok inc" "\<And>s. bm_count s out = flow fst ts s" "\<And>s. bm_count s inc = flow snd ts s"
      using check_moves_result [OF fl] by (simp_all add: bm_count_def)
    have "\<not> exceeds st (out, inc) \<longleftrightarrow> (\<forall>s. flow fst ts s \<le> vec_count ss s \<and> flow snd ts s \<le> vec_count ss s)"
      by (simp add: exceeds_iff [OF r(1,2)] r(3,4) cnt not_less)
    with True mv st fl show ?thesis by (auto simp: table_ok_def)
  next
    case False
    then have "\<not> (\<exists>r. check_moves mcap e2 st ts [] [] [] = Inr r)"
      using check_moves_valid [of mcap e2 st ts "[]" "[]" "[]"] by (simp add: dom)
    with False st show ?thesis by (auto simp: table_ok_def)
  qed
next
  case False
  then have "\<not> (\<exists>r. check_counts cap e1 ss [] = Inr r)"
    using check_counts_valid [of cap e1 ss "[]"] by simp
  with False show ?thesis by (auto simp: table_ok_def)
qed

definition contribution_limits :: "contribution \<Rightarrow> bool" where
  "contribution_limits c \<longleftrightarrow> co_schema c = learn_schema \<and> length (co_states c) \<le> 256
     \<and> length (co_transitions c) \<le> 512 \<and> 0 < contribution_total c \<and> contribution_total c \<le> 10000
     \<and> co_discarded c \<le> 1000000000"

lemma contribution_validate_iff:
  "contribution_validate fp c = Inr () \<longleftrightarrow> contribution_limits c
     \<and> table_ok 10000 10000 (co_states c) (co_transitions c) \<and> co_id (seal fp c) = co_id c"
proof -
  have "contribution_validate fp c = Inr () \<longleftrightarrow> contribution_limits c
     \<and> (\<exists>st fl. check_counts 10000 ContributionCounts (co_states c) [] = Inr st
          \<and> check_moves 10000 ContributionTransitions st (co_transitions c) [] [] [] = Inr fl
          \<and> \<not> exceeds st fl)
     \<and> co_id (seal fp c) = co_id c"
    by (auto simp: contribution_validate_def contribution_limits_def res_simps split: if_splits)
  then show ?thesis by (simp only: tables_check)
qed

definition domain_ok :: "domain_model \<Rightarrow> bool" where
  "domain_ok d \<longleftrightarrow> length (dm_states d) \<le> 4096 \<and> length (dm_transitions d) \<le> 8192
     \<and> dm_observations d \<le> 40960000 \<and> count_total (dm_states d) = dm_observations d
     \<and> table_ok 40960000 (dm_observations d) (dm_states d) (dm_transitions d)"

lemma domain_validate_iff: "domain_validate d = Inr () \<longleftrightarrow> domain_ok d"
proof -
  have "domain_validate d = Inr () \<longleftrightarrow> length (dm_states d) \<le> 4096 \<and> length (dm_transitions d) \<le> 8192
     \<and> dm_observations d \<le> 40960000 \<and> count_total (dm_states d) = dm_observations d
     \<and> (\<exists>st fl. check_counts 40960000 SharedState (dm_states d) [] = Inr st
          \<and> check_moves (dm_observations d) SharedTransition st (dm_transitions d) [] [] [] = Inr fl
          \<and> \<not> exceeds st fl)"
    by (auto simp: domain_validate_def res_simps split: if_splits)
  then show ?thesis by (simp only: tables_check domain_ok_def)
qed

lemma domains_validate_iff: "domains_validate ds = Inr () \<longleftrightarrow> (\<forall>d \<in> set ds. domain_ok d)"
  by (induction ds) (auto simp: res_simps domain_validate_iff)

lemma shared_validate_iff:
  "shared_validate m = Inr () \<longleftrightarrow> sm_schema m = learn_schema \<and> length (sm_contributions m) \<le> 4096
     \<and> length (sm_domains m) \<le> 8 \<and> (\<forall>i \<in> set (sm_contributions m). hex64 i)
     \<and> (\<forall>d \<in> snd ` set (sm_domains m). domain_ok d)"
  by (auto simp: shared_validate_def domains_validate_iff bm_values_def list_ex_iff)

end
