(* ===== verification/Learn_Observe.thy ===== *)
theory Learn_Observe
  imports Learn_Share_Laws
begin

text \<open>
  What a contribution filled by \<open>observe\<close> and closed by \<open>seal\<close> is worth: it passes \<open>validate\<close> as long
  as the vocabulary of the run fits, and it does not once an observation that found no room is used
  as the origin of a transition, which is what \<open>src-tauri/src/local_learning.rs\<close> does.
\<close>

section \<open>Sealing\<close>

lemma seal_idem: "seal fp (seal fp c) = seal fp c"
  by (simp add: seal_def Let_def)

lemma seal_fields [simp]:
  "co_states (seal fp c) = sort_key fst (co_states c)"
  "co_transitions (seal fp c) = sort_key fst (co_transitions c)"
  "co_schema (seal fp c) = co_schema c" "co_discarded (seal fp c) = co_discarded c"
  "co_domain (seal fp c) = co_domain c"
  by (simp_all add: seal_def Let_def)

lemma contribution_validate_seal:
  "contribution_validate fp (seal fp c) = Inr () \<longleftrightarrow>
     contribution_limits c \<and> table_ok 10000 10000 (co_states c) (co_transitions c)"
proof -
  have "contribution_total (seal fp c) = contribution_total c"
    by (simp add: contribution_total_def count_total_mset [of "sort_key fst (co_states c)" "co_states c"])
  then have "contribution_limits (seal fp c) = contribution_limits c"
    by (simp add: contribution_limits_def)
  moreover have "table_ok 10000 10000 (sort_key fst (co_states c)) (sort_key fst (co_transitions c))
      = table_ok 10000 10000 (co_states c) (co_transitions c)"
    by (rule table_ok_mset) simp_all
  ultimately show ?thesis by (simp add: contribution_validate_iff seal_idem)
qed

section \<open>The vocabulary is closed\<close>

lemma action_code_le: "action_code a \<le> 8"
  by (simp add: action_code_def)

lemma outcome_code_le: "outcome_code a \<le> 2"
  by (simp add: outcome_code_def)

text \<open>Whatever action, outcome, measures and message length it is built from, \<open>PublicState::new\<close> stays
  inside the closed vocabulary that \<open>validate\<close> accepts, so nothing of the raw record passes.\<close>

theorem public_new_valid:
  "public_validate (public_new env action outcome latency byts words) = Inr ()"
proof -
  have "public_bucket env v \<le> 16" for v
    by (simp add: public_bucket_def split: option.splits)
  moreover have "length_code words \<le> 6" by (simp add: length_code_def)
  ultimately show ?thesis
    using action_code_le [of action] outcome_code_le [of outcome]
    by (simp add: public_validate_def require_def public_valid_def public_new_def not_less)
qed

section \<open>Runs of observations\<close>

text \<open>
  A run as the trainer produces it for one domain: each observation comes with a flag that says
  whether the one before it is its predecessor (\<open>trained_previous\<close>) or the chain was cut.
\<close>

fun observe_run :: "(public_state \<times> bool) list \<Rightarrow> public_state option \<Rightarrow> contribution \<Rightarrow> contribution" where
  "observe_run [] prior c = c"
| "observe_run ((s, linked) # xs) prior c =
     observe_run xs (Some s) (observe s (if linked then prior else None) c)"

definition open_slot :: "public_state option \<Rightarrow> contribution \<Rightarrow> public_state \<Rightarrow> nat" where
  "open_slot prior c s = (if prior = Some s \<and> sum_list (map snd (co_states c)) < 10000 then 1 else 0)"

definition observe_inv :: "public_state set \<Rightarrow> public_state option \<Rightarrow> contribution \<Rightarrow> bool" where
  "observe_inv S prior c \<longleftrightarrow>
     co_schema c = learn_schema \<and> fst ` set (co_states c) \<subseteq> S \<and> length (co_states c) \<le> 256
     \<and> length (co_transitions c) \<le> 512 \<and> sum_list (map snd (co_states c)) \<le> 10000
     \<and> vec_ok (co_states c) \<and> (\<forall>e \<in> set (co_states c). 0 < snd e)
     \<and> vec_ok (co_transitions c)
     \<and> (\<forall>e \<in> set (co_transitions c). 0 < snd e \<and> {fst (fst e), snd (fst e)} \<subseteq> fst ` set (co_states c))
     \<and> (\<forall>s. flow fst (co_transitions c) s + open_slot prior c s \<le> vec_count (co_states c) s
          \<and> flow snd (co_transitions c) s \<le> vec_count (co_states c) s)"

lemma contribution_total_sum:
  "sum_list (map snd (co_states c)) \<le> u64_max \<Longrightarrow> contribution_total c = sum_list (map snd (co_states c))"
  by (simp add: contribution_total_def count_total_exact)

lemma vec_add_room: "k \<in> fst ` set t \<or> length t < cap \<Longrightarrow> \<exists>t'. vec_add cap k n t = Some t'"
  by (cases "k \<in> fst ` set t") (simp_all add: vec_add_def find_key)

lemma vec_add_props:
  assumes "vec_ok t" "vec_add cap k 1 t = Some t'" "length t \<le> cap" "\<forall>e \<in> set t. 0 < snd e"
  shows "vec_ok t'" "length t' \<le> cap" "fst ` set t' = insert k (fst ` set t)"
    "\<forall>j. vec_count t' j = vec_count t j + (if j = k then 1 else 0)"
    "sum_list (map snd t') = sum_list (map snd t) + 1"
    "\<forall>e \<in> set t'. 0 < snd e"
proof -
  show ok: "vec_ok t'" using vt.add_ok [OF assms(1,2)] .
  show "length t' \<le> cap" using vt.size_add [OF assms(1,2)] assms(3) by simp
  show keys: "fst ` set t' = insert k (fst ` set t)"
    using vt.add_keys [OF assms(1,2)] by simp
  show cnt: "\<forall>j. vec_count t' j = vec_count t j + (if j = k then 1 else 0)"
    using vt.add_count [OF assms(1,2)] by simp
  show "sum_list (map snd t') = sum_list (map snd t) + 1"
    using vt.total_add [OF assms(1,2)] by (simp add: vt_total ok assms(1))
  show "\<forall>e \<in> set t'. 0 < snd e"
  proof
    fix e assume e: "e \<in> set t'"
    then have "snd e = vec_count t' (fst e)" using vec_count_in [OF ok] by (metis prod.collapse)
    moreover have "0 < vec_count t (fst e)" if "fst e \<in> fst ` set t"
      using vec_count_get [OF assms(1) that] assms(4) by fastforce
    moreover have "fst e = k \<or> fst e \<in> fst ` set t" using e keys by (metis image_eqI insert_iff)
    ultimately show "0 < snd e" using cnt by auto
  qed
qed

lemma observe_inv_step [inv_intros]:
  assumes inv: "observe_inv S prior c" and S: "finite S" "card S \<le> 256" "s \<in> S"
    and prev: "prev = None \<or> prev = prior"
  shows "observe_inv S (Some s) (observe s prev c)"
proof -
  let ?ss = "co_states c" let ?ts = "co_transitions c"
  note inv' = inv [unfolded observe_inv_def]
  have tot: "contribution_total c = sum_list (map snd ?ss)"
    using inv' by (intro contribution_total_sum) (simp add: u64_max_def)
  show ?thesis
  proof (cases "contribution_total c \<ge> 10000")
    case True
    then have "observe s prev c = c\<lparr>co_discarded := sat_add (co_discarded c) 1\<rparr>"
      by (simp add: observe_def)
    moreover have "flow fst ?ts j \<le> vec_count ?ss j" for j
      using inv' by (meson add_leD1)
    ultimately show ?thesis
      using inv' True tot by (simp add: observe_inv_def open_slot_def)
  next
    case low: False
    have room: "s \<in> fst ` set ?ss \<or> length ?ss < 256"
    proof (rule ccontr)
      assume "\<not> ?thesis"
      then have no: "s \<notin> fst ` set ?ss" and len: "256 \<le> length ?ss" by simp_all
      have "card (fst ` set ?ss) = length ?ss"
        using inv' by (metis distinct_card length_map list.set_map vec_ok_def)
      moreover have "card (insert s (fst ` set ?ss)) \<le> card S"
        using inv' S by (intro card_mono) auto
      ultimately show False using no len S(2) by simp
    qed
    then obtain ss where ss: "vec_add 256 s 1 ?ss = Some ss"
      using vec_add_room [OF room, of 1] by (elim exE)
    have pre: "vec_ok ?ss" "length ?ss \<le> 256" "\<forall>e \<in> set ?ss. 0 < snd e"
      using inv' by simp_all
    note ssp = vec_add_props [OF pre(1) ss pre(2,3)]
    have slot: "open_slot (Some s) (c'\<lparr>co_states := ss\<rparr>) j \<le> (if j = s then 1 else 0)" for j c'
      by (simp add: open_slot_def)
    have fl: "flow fst ?ts j \<le> vec_count ?ss j" "flow snd ?ts j \<le> vec_count ?ss j" for j
      using inv' by (meson add_leD1, blast)
    have plain: "observe_inv S (Some s) (c\<lparr>co_states := ss\<rparr>)"
    proof -
      have "flow fst ?ts j + open_slot (Some s) (c\<lparr>co_states := ss\<rparr>) j \<le> vec_count ss j" for j
        using slot [of c j] fl(1) [of j] ssp(4) by simp
      moreover have "flow snd ?ts j \<le> vec_count ss j" for j
        using fl(2) [of j] ssp(4) by simp
      ultimately show ?thesis
        using inv' ssp S(3) low tot by (auto simp: observe_inv_def)
    qed
    have obs: "observe s prev c = observe_transition s prev (c\<lparr>co_states := ss\<rparr>)"
      using low ss by (simp add: observe_def)
    show ?thesis
    proof (cases "\<exists>a ts. prev = Some a \<and> vec_add 512 (a, s) 1 ?ts = Some ts")
      case False
      then have "observe s prev c = c\<lparr>co_states := ss\<rparr>"
        by (auto simp: obs observe_transition_def split: option.splits)
      with plain show ?thesis by simp
    next
      case True
      then obtain a ts where a: "prev = Some a" and ts: "vec_add 512 (a, s) 1 ?ts = Some ts" by blast
      have prior: "prior = Some a" using prev a by simp
      have pret: "vec_ok ?ts" "length ?ts \<le> 512" "\<forall>e \<in> set ?ts. 0 < snd e"
        using inv' by simp_all
      note tsp = vec_add_props [OF pret(1) ts pret(2,3)]
      have "open_slot prior c a = 1" using low tot by (simp add: open_slot_def prior)
      then have a1: "flow fst ?ts a + 1 \<le> vec_count ?ss a"
        using inv' by metis
      then have akey: "a \<in> fst ` set ?ss" using vec_count_out by fastforce
      have "flow fst ts j + open_slot (Some s) (c\<lparr>co_states := ss, co_transitions := ts\<rparr>) j \<le> vec_count ss j" for j
        using slot [of "c\<lparr>co_transitions := ts\<rparr>" j] fl(1) [of j] a1 ssp(4) flow_vec_add [OF ts, of fst j]
        by (auto simp: open_slot_def)
      moreover have "flow snd ts j \<le> vec_count ss j" for j
        using fl(2) [of j] ssp(4) flow_vec_add [OF ts, of snd j] by auto
      moreover have "{fst (fst e), snd (fst e)} \<subseteq> fst ` set ss" if "e \<in> set ts" for e
      proof -
        have "fst e \<in> insert (a, s) (fst ` set ?ts)" using that tsp(3) by (metis image_eqI)
        then consider "fst e = (a, s)" | e' where "e' \<in> set ?ts" "fst e = fst e'" by auto
        then show ?thesis
        proof cases
          case 1
          then show ?thesis using akey ssp(3) by simp
        next
          case 2
          then have "{fst (fst e), snd (fst e)} \<subseteq> fst ` set ?ss" using inv' by metis
          then show ?thesis using ssp(3) by blast
        qed
      qed
      moreover have "observe s prev c = c\<lparr>co_states := ss, co_transitions := ts\<rparr>"
        using ts by (simp add: obs [unfolded a] observe_transition_def a del: One_nat_def)
      ultimately show ?thesis
        using plain tsp by (simp add: observe_inv_def)
    qed
  qed
qed

lemma observe_run_inv:
  assumes "observe_inv S prior c" "finite S" "card S \<le> 256" "fst ` set xs \<subseteq> S"
  shows "\<exists>prior'. observe_inv S prior' (observe_run xs prior c)"
  using assms(1,4)
proof (induction xs prior c rule: observe_run.induct)
  case (2 s linked xs prior c)
  have "observe_inv S (Some s) (observe s (if linked then prior else None) c)"
    using 2 assms(2,3) by (intro observe_inv_step [of S prior]) auto
  with 2 show ?case by simp
qed auto

lemma observe_discarded: "co_discarded (observe s p c) \<le> co_discarded c + 1"
  by (auto simp: observe_def observe_transition_def sat_add_def split: option.splits)

lemma observe_run_discarded: "co_discarded (observe_run xs p c) \<le> co_discarded c + length xs"
proof (induction xs p c rule: observe_run.induct)
  case (2 s linked xs prior c)
  then show ?case using observe_discarded [of s "if linked then prior else None" c] by simp
qed simp

lemma vec_add_grows: "vec_add cap k n t = Some t' \<Longrightarrow> sum_list (map snd t) \<le> sum_list (map snd t')"
proof (elim vec_add_cases)
  have "sum_list (map snd t) \<le> sum_list (map snd (vec_bump k n t))"
    by (induction k n t rule: vec_bump.induct) auto
  then show "t' = vec_bump k n t \<Longrightarrow> ?thesis" by simp
qed simp

lemma observe_grows: "sum_list (map snd (co_states c)) \<le> sum_list (map snd (co_states (observe s p c)))"
  using vec_add_grows [of 256 s 1 "co_states c"]
  by (auto simp: observe_def observe_transition_def split: option.splits)

lemma observe_run_grows: "sum_list (map snd (co_states c)) \<le> sum_list (map snd (co_states (observe_run xs p c)))"
proof (induction xs p c rule: observe_run.induct)
  case (2 s linked xs prior c)
  then show ?case using observe_grows [of c s "if linked then prior else None"] by simp
qed simp

lemma observe_inv_new: "observe_inv S None (contribution_new d)"
  by (simp add: observe_inv_def contribution_new_def open_slot_def vec_ok_def)

lemma observe_inv_table:
  assumes "observe_inv S prior c" "\<forall>s \<in> S. public_valid s"
  shows "table_ok 10000 10000 (co_states c) (co_transitions c)"
proof -
  note inv = assms(1) [unfolded observe_inv_def]
  have le: "vec_count (co_states c) s \<le> 10000" for s
  proof (cases "s \<in> fst ` set (co_states c)")
    case True
    moreover have "vec_ok (co_states c)" using inv by simp
    ultimately have "(s, vec_count (co_states c) s) \<in> set (co_states c)" by (intro vec_count_get)
    then have "vec_count (co_states c) s \<in> set (map snd (co_states c))" by force
    then have "vec_count (co_states c) s \<le> sum_list (map snd (co_states c))"
      by (rule member_le_sum_list) simp
    with inv show ?thesis by (meson le_trans)
  qed (simp add: vec_count_out)
  have flows: "flow fst (co_transitions c) s \<le> vec_count (co_states c) s" for s
    using inv by (meson add_leD1)
  have counts: "counts_ok 10000 (co_states c)"
    using inv assms(2) le vec_count_in by (fastforce simp: counts_ok_def)
  have "n \<le> 10000" if "((a, b), n) \<in> set (co_transitions c)" for a b n
  proof -
    have "n \<in> set (map snd (filter (\<lambda>t. fst (fst t) = a) (co_transitions c)))" using that by force
    then have "n \<le> flow fst (co_transitions c) a" unfolding flow_def by (rule member_le_sum_list) simp
    with flows le show ?thesis by (meson le_trans)
  qed
  moreover have "\<forall>e \<in> set (co_transitions c). 0 < snd e \<and> {fst (fst e), snd (fst e)} \<subseteq> fst ` set (co_states c)"
    "vec_ok (co_transitions c)"
    using inv by simp_all
  ultimately have "moves_ok 10000 (fst ` set (co_states c)) (co_transitions c)"
    unfolding moves_ok_def by (intro conjI ballI) force+
  then show ?thesis
    using flows counts inv by (simp add: table_ok_def)
qed

text \<open>A contribution built by \<open>observe\<close> from a chain of observations whose states fit the vocabulary
  of 256 and sealed passes its own validation: the counts stay within budget, every transition joins
  recorded states, and no state has more departures or arrivals than observations.\<close>

theorem observed_contribution_validates:
  assumes "xs \<noteq> []" "length xs \<le> 1000000000" "card (fst ` set xs) \<le> 256"
    and "\<forall>s \<in> fst ` set xs. public_valid s"
  shows "contribution_validate fp (seal fp (observe_run xs None (contribution_new d))) = Inr ()"
proof -
  let ?c = "observe_run xs None (contribution_new d)"
  obtain prior where inv: "observe_inv (fst ` set xs) prior ?c"
    using observe_run_inv [OF observe_inv_new _ assms(3)] by auto
  have sum: "sum_list (map snd (co_states ?c)) \<le> 10000" using inv by (simp add: observe_inv_def)
  have "0 < sum_list (map snd (co_states ?c))"
  proof (cases xs)
    case (Cons x ys)
    obtain s l where x: "x = (s, l)" by (cases x)
    have "co_states (observe s None (contribution_new d)) = [(s, 1)]"
      by (simp add: observe_def observe_transition_def contribution_new_def contribution_total_def
          count_total_def vec_add_def)
    then show ?thesis
      using observe_run_grows [of "observe s None (contribution_new d)" ys "Some s"]
      by (simp add: Cons x)
  qed (use assms(1) in simp)
  then have "contribution_limits ?c"
    using inv sum contribution_total_sum [of ?c] observe_run_discarded [of xs None "contribution_new d"] assms(2)
    by (simp add: contribution_limits_def observe_inv_def u64_max_def contribution_new_def)
  then show ?thesis
    using observe_inv_table [OF inv assms(4)] by (simp add: contribution_validate_seal)
qed

theorem observed_contribution_validates_witness:
  "contribution_validate (\<lambda>_. replicate 64 48) (seal (\<lambda>_. replicate 64 48)
     (observe_run [(Public_State 1 1 0 0 2, False), (Public_State 2 1 0 0 2, True)] None
        (contribution_new Web))) = Inr ()"
  by (rule observed_contribution_validates) (simp_all add: public_valid_def)

section \<open>An origin that was never recorded\<close>

text \<open>C30. When the vocabulary of 256 states is full, \<open>observe\<close> discards a new state, but the caller still
  passes that state as the predecessor of the next observation. The transition from it is recorded,
  and the sealed contribution is refused by its own validation.\<close>

theorem unrecorded_origin_invalidates:
  assumes "length (co_states c) = 256" "length (co_transitions c) < 512" "contribution_total c < 10000"
    and "x \<notin> fst ` set (co_states c)" "s \<in> fst ` set (co_states c)"
  shows "contribution_validate fp (seal fp (observe s (Some x) (observe x prior c))) \<noteq> Inr ()"
proof -
  have "vec_add 256 x 1 (co_states c) = None"
    using assms(1,4) by (simp add: vec_add_def find_key)
  then have x: "observe x prior c = c\<lparr>co_discarded := sat_add (co_discarded c) 1\<rparr>"
    using assms(3) by (simp add: observe_def)
  have st: "vec_add 256 s 1 (co_states c) = Some (vec_bump s 1 (co_states c))"
    using assms(5) by (simp add: vec_add_def find_key)
  obtain ts where ts: "vec_add 512 (x, s) 1 (co_transitions c) = Some ts"
    using vec_add_room [OF disjI2 [OF assms(2)], of "(x, s)" 1] by (elim exE)
  have "(x, s) \<in> fst ` set ts"
    by (rule vec_add_cases [OF ts]) simp_all
  then have "\<exists>n. ((x, s), n) \<in> set ts" by force
  moreover have "observe s (Some x) (observe x prior c)
      = c\<lparr>co_discarded := sat_add (co_discarded c) 1, co_states := vec_bump s 1 (co_states c),
          co_transitions := ts\<rparr>"
    unfolding x using assms(3) st ts
    by (simp add: observe_def observe_transition_def contribution_total_def del: One_nat_def)
  moreover have "x \<notin> fst ` set (vec_bump s 1 (co_states c))" using assms(4) by simp
  then have "\<not> moves_ok 10000 (fst ` set (vec_bump s 1 (co_states c))) ts" if "((x, s), n) \<in> set ts" for n
    using that unfolding moves_ok_def by blast
  ultimately show ?thesis
    by (auto simp: contribution_validate_seal table_ok_def)
qed

text \<open>The first 256 states of the vocabulary, each seen once.\<close>

definition full_vocabulary :: contribution where
  "full_vocabulary = (contribution_new Application)\<lparr>co_states :=
     map (\<lambda>i. (Public_State (i mod 9) (i div 9 mod 3) (i div 27) 0 0, 1)) [0..<256]\<rparr>"

theorem unrecorded_origin_invalidates_witness:
  "contribution_validate (\<lambda>_. replicate 64 48) (seal (\<lambda>_. replicate 64 48)
     (observe (Public_State 0 0 0 0 0) (Some (Public_State 8 2 16 16 6))
        (observe (Public_State 8 2 16 16 6) None full_vocabulary))) \<noteq> Inr ()"
proof (rule unrecorded_origin_invalidates)
  have "sum_list (map snd (co_states full_vocabulary)) = 256"
    by (simp add: full_vocabulary_def comp_def sum_list_triv)
  then show "contribution_total full_vocabulary < 10000"
    by (simp add: contribution_total_sum u64_max_def)
  show "Public_State 0 0 0 0 0 \<in> fst ` set (co_states full_vocabulary)"
    unfolding full_vocabulary_def by (simp add: image_image) (rule image_eqI [of _ _ 0], simp_all)
qed (auto simp: full_vocabulary_def contribution_new_def)

end
