(* ===== verification/Learn_Merge.thy ===== *)
theory Learn_Merge
  imports Learn_Share_Laws
begin

text \<open>
  \<open>SharedModel::merge\<close>: on the models it can reach it fails only for lack of capacity, it counts
  exactly, and the order of two contributions leaves no trace.
\<close>

section \<open>Merging entries\<close>

lemma merge_entries_add_list:
  "merge_entries cap err es t = (case vt.add_list cap es t of None \<Rightarrow> Inl err | Some t' \<Rightarrow> Inr t')"
  by (induction cap err es t rule: merge_entries.induct) (simp_all split: option.splits)

lemma merge_entries_Inr: "merge_entries cap err es t = Inr t' \<longleftrightarrow> vt.add_list cap es t = Some t'"
  by (simp add: merge_entries_add_list split: option.splits)

lemma merge_entries_Inl: "merge_entries cap err es t = Inl e \<Longrightarrow> e = err"
  by (simp add: merge_entries_add_list split: option.splits)

lemma flow_add_list:
  "vt.add_list cap es t = Some t' \<Longrightarrow> flow key t' s = flow key t s + flow key es s"
  by (induction cap es t rule: vt.add_list.induct) (auto split: option.splits simp: flow_vec_add)

lemma entry_sum: "vec_ok es \<Longrightarrow> sum_list (map snd (filter (\<lambda>e. fst e = k) es)) = vec_count es k"
proof (induction es)
  case (Cons e es)
  obtain j n where e: "e = (j, n)" by (cases e)
  have "vec_ok es" and j: "j \<notin> fst ` set es" using Cons.prems by (auto simp: e vec_ok_def)
  with Cons.IH show ?case by (auto simp: e vec_count_out)
qed simp

text \<open>What a merged table is, for the tables of states and of transitions alike.\<close>

lemma merged_table:
  assumes "vec_ok t" "vec_ok es" "length t \<le> cap" "vt.add_list cap es t = Some t'"
  shows "vec_ok (sort_key fst t')" "length (sort_key fst t') \<le> cap"
    "fst ` set (sort_key fst t') = fst ` set es \<union> fst ` set t"
    "vec_count (sort_key fst t') k = vec_count t k + vec_count es k"
    "sum_list (map snd (sort_key fst t')) = sum_list (map snd t) + sum_list (map snd es)"
    "flow key (sort_key fst t') s = flow key t s + flow key es s"
proof -
  have ok: "vec_ok t'" using vt.add_list_ok [OF assms(1,4)] .
  have m: "mset (sort_key fst t') = mset t'" by simp
  show "vec_ok (sort_key fst t')" using ok by (simp add: vec_ok_mset [OF m])
  show "length (sort_key fst t') \<le> cap" using vt.add_list_size [OF assms(1,4)] assms(3) by simp
  show "fst ` set (sort_key fst t') = fst ` set es \<union> fst ` set t"
    using vt.add_list_keys [OF assms(1,4)] by simp
  show "vec_count (sort_key fst t') k = vec_count t k + vec_count es k"
    using vt.add_list_count [OF assms(1,4)] vec_count_mset [OF m [symmetric] ok]
    by (simp add: entry_sum assms(2))
  have "sum_list (map snd t') = sum_list (map snd t) + sum_list (map snd es)"
    using vt.add_list_total [OF assms(1,4)] by (simp add: vt_total ok assms(1))
  moreover have "sum_list (map snd (sort_key fst t')) = sum_list (map snd t')"
    by (metis m mset_map sum_mset_sum_list)
  ultimately show "sum_list (map snd (sort_key fst t')) = sum_list (map snd t) + sum_list (map snd es)"
    by simp
  show "flow key (sort_key fst t') s = flow key t s + flow key es s"
    using flow_add_list [OF assms(4), of key s] flow_mset [OF m, of key s] by simp
qed

lemma vec_count_le_total: "vec_ok t \<Longrightarrow> vec_count t k \<le> sum_list (map snd t)"
proof (cases "k \<in> fst ` set t")
  case True
  assume "vec_ok t"
  then have "(k, vec_count t k) \<in> set t" using True by (rule vec_count_get)
  then have "vec_count t k \<in> set (map snd t)" by force
  then show ?thesis by (rule member_le_sum_list) simp
qed (simp add: vec_count_out)

lemma flow_ge: "(e, n) \<in> set ts \<Longrightarrow> n \<le> flow key ts (key e)"
proof -
  assume "(e, n) \<in> set ts"
  then have "n \<in> set (map snd (filter (\<lambda>t. key (fst t) = key e) ts))" by force
  then show ?thesis unfolding flow_def by (rule member_le_sum_list) simp
qed

lemma vec_pos:
  assumes "vec_ok t" "\<forall>e \<in> set t. 0 < snd e" "k \<in> fst ` set t"
  shows "0 < vec_count t k"
  using vec_count_get [OF assms(1,3)] assms(2) by fastforce

text \<open>The sum of two consistent tables is consistent.\<close>

lemma table_ok_merge:
  assumes t: "table_ok cap mcap ss ts" and c: "table_ok cap' mcap' es us"
    and s': "vt.add_list scap es ss = Some ss'" and t': "vt.add_list tcap us ts = Some ts'"
    and len: "length ss \<le> scap" "length ts \<le> tcap"
    and total: "sum_list (map snd ss) + sum_list (map snd es) \<le> n" "n \<le> big"
  shows "table_ok big n (sort_key fst ss') (sort_key fst ts')"
proof -
  have ok: "vec_ok ss" "vec_ok es" "vec_ok ts" "vec_ok us"
    using t c by (simp_all add: table_ok_def counts_ok_def moves_ok_def)
  note S = merged_table [OF ok(1,2) len(1) s']
  note T = merged_table [OF ok(3,4) len(2) t']
  have pos: "\<forall>e \<in> set ss. 0 < snd e" "\<forall>e \<in> set es. 0 < snd e" "\<forall>e \<in> set ts. 0 < snd e" "\<forall>e \<in> set us. 0 < snd e"
    using t c by (auto simp: table_ok_def counts_ok_def moves_ok_def)
  have valid: "public_valid k" if "k \<in> fst ` set es \<union> fst ` set ss" for k
    using t c that by (auto simp: table_ok_def counts_ok_def)
  have le: "vec_count (sort_key fst ss') k \<le> n" for k
    using vec_count_le_total [OF S(1), of k] S(5) total(1) by simp
  have counts: "counts_ok big (sort_key fst ss')"
    unfolding counts_ok_def
  proof (intro conjI ballI, clarify)
    fix k v assume kv: "(k, v) \<in> set (sort_key fst ss')"
    then have k: "k \<in> fst ` set es \<union> fst ` set ss" using S(3) by (metis fst_conv image_eqI)
    have v: "v = vec_count (sort_key fst ss') k" using vec_count_in [OF S(1) kv] by simp
    have "0 < vec_count ss k \<or> 0 < vec_count es k"
      using k by (metis UnE vec_pos [OF ok(1) pos(1)] vec_pos [OF ok(2) pos(2)])
    then have "0 < v" by (auto simp: v S(4))
    then show "public_valid k \<and> 0 < v \<and> v \<le> big"
      using valid [OF k] le [of k] total(2) by (simp add: v)
  qed (rule S(1))
  have flows: "flow fst (sort_key fst ts') s \<le> vec_count (sort_key fst ss') s"
    "flow snd (sort_key fst ts') s \<le> vec_count (sort_key fst ss') s" for s
    using t c by (simp_all add: T(6) S(4) table_ok_def add_mono)
  have "moves_ok n (fst ` set (sort_key fst ss')) (sort_key fst ts')"
    unfolding moves_ok_def
  proof (intro conjI ballI, clarify)
    fix a b v assume v: "((a, b), v) \<in> set (sort_key fst ts')"
    then have e: "(a, b) \<in> fst ` set us \<union> fst ` set ts" using T(3) by (metis fst_conv image_eqI)
    have "a \<in> fst ` set (sort_key fst ss') \<and> b \<in> fst ` set (sort_key fst ss')"
      using e t c unfolding S(3) by (auto simp: table_ok_def moves_ok_def)
    moreover have "v = vec_count (sort_key fst ts') (a, b)" using vec_count_in [OF T(1) v] by simp
    moreover have "0 < vec_count ts (a, b) \<or> 0 < vec_count us (a, b)"
      using e by (metis UnE vec_pos [OF ok(3) pos(3)] vec_pos [OF ok(4) pos(4)])
    then have "0 < vec_count (sort_key fst ts') (a, b)" by (auto simp: T(4))
    moreover have "v \<le> n" using flow_ge [OF v, of fst] flows(1) [of a] le [of a] by simp
    ultimately show "a \<in> fst ` set (sort_key fst ss') \<and> b \<in> fst ` set (sort_key fst ss') \<and> 0 < v \<and> v \<le> n"
      by simp
  qed (rule T(1))
  with counts flows show ?thesis by (simp add: table_ok_def)
qed

section \<open>Merging a domain\<close>

lemma contribution_total_exact: "contribution_limits c \<Longrightarrow> contribution_total c = sum_list (map snd (co_states c))"
  by (simp add: contribution_limits_def contribution_total_def count_total_eq u64_max_def min_def split: if_splits)

lemma domain_total: "domain_ok d \<Longrightarrow> sum_list (map snd (dm_states d)) = dm_observations d"
  by (simp add: domain_ok_def count_total_eq u64_max_def min_def split: if_splits)

lemma merge_domain_Inr:
  "merge_domain c d = Inr d' \<longleftrightarrow>
     (\<exists>ss ts. vt.add_list 4096 (co_states c) (dm_states d) = Some ss
        \<and> vt.add_list 8192 (co_transitions c) (dm_transitions d) = Some ts
        \<and> d' = \<lparr>dm_states = sort_key fst ss, dm_transitions = sort_key fst ts,
                dm_observations = dm_observations d + contribution_total c\<rparr>)"
  by (auto simp: merge_domain_def res_simps merge_entries_Inr)

lemma merge_domain_ok:
  assumes d: "domain_ok d" and c: "contribution_validate fp c = Inr ()" and m: "merge_domain c d = Inr d'"
    and room: "dm_observations d + contribution_total c \<le> 40960000"
  shows "domain_ok d'"
proof -
  obtain ss ts where ss: "vt.add_list 4096 (co_states c) (dm_states d) = Some ss"
    and ts: "vt.add_list 8192 (co_transitions c) (dm_transitions d) = Some ts"
    and d': "d' = \<lparr>dm_states = sort_key fst ss, dm_transitions = sort_key fst ts,
                dm_observations = dm_observations d + contribution_total c\<rparr>"
    using m by (auto simp: merge_domain_Inr)
  have cl: "contribution_limits c" and ct: "table_ok 10000 10000 (co_states c) (co_transitions c)"
    using c by (simp_all add: contribution_validate_iff)
  have dt: "table_ok 40960000 (dm_observations d) (dm_states d) (dm_transitions d)"
    and len: "length (dm_states d) \<le> 4096" "length (dm_transitions d) \<le> 8192"
    using d by (simp_all add: domain_ok_def)
  have ok: "vec_ok (dm_states d)" "vec_ok (co_states c)" "vec_ok (dm_transitions d)" "vec_ok (co_transitions c)"
    using dt ct by (simp_all add: table_ok_def counts_ok_def moves_ok_def)
  note S = merged_table [OF ok(1,2) len(1) ss] and T = merged_table [OF ok(3,4) len(2) ts]
  have sum: "sum_list (map snd (sort_key fst ss)) = dm_observations d + contribution_total c"
    using S(5) domain_total [OF d] contribution_total_exact [OF cl] by simp
  have "table_ok 40960000 (dm_observations d') (dm_states d') (dm_transitions d')"
    using table_ok_merge [OF dt ct ss ts len, of "dm_observations d'" 40960000] room
      domain_total [OF d] contribution_total_exact [OF cl] by (simp add: d')
  moreover have "count_total (dm_states d') = dm_observations d'"
    using sum room by (simp add: d' count_total_exact u64_max_def)
  ultimately show ?thesis
    using S(2) T(2) room by (simp add: domain_ok_def d')
qed

section \<open>The models that merging reaches\<close>

inductive shared_reach :: "(contribution \<Rightarrow> rstr) \<Rightarrow> shared_model \<Rightarrow> bool" for fp where
  reach_start: "shared_reach fp shared_default"
| reach_merge: "shared_reach fp m \<Longrightarrow> merge fp c m = Inr (b, m') \<Longrightarrow> shared_reach fp m'"

inductive_cases shared_reachE: "shared_reach fp m"

definition shared_inv :: "shared_model \<Rightarrow> bool" where
  "shared_inv m \<longleftrightarrow> shared_validate m = Inr () \<and> bm_ok (sm_domains m) \<and> sorted (sm_contributions m)
     \<and> sum_list (map dm_observations (bm_values (sm_domains m))) \<le> 10000 * length (sm_contributions m)"

definition area_of :: "domain \<Rightarrow> shared_model \<Rightarrow> domain_model" where
  "area_of a m = (case bm_get a (sm_domains m) of None \<Rightarrow> domain_default | Some d \<Rightarrow> d)"

lemma merge_cases:
  assumes "merge fp c m = Inr (b, m')"
  obtains (known) "b = False" "m' = m" "co_id c \<in> set (sm_contributions m)"
  | (added) d where "b = True" "contribution_validate fp c = Inr ()" "shared_validate m = Inr ()"
      "co_id c \<notin> set (sm_contributions m)" "length (sm_contributions m) < 4096"
      "merge_domain c (area_of (co_domain c) m) = Inr d" "shared_validate m' = Inr ()"
      "m' = m\<lparr>sm_domains := bm_put (co_domain c) d (sm_domains m),
              sm_contributions := insort (co_id c) (sm_contributions m)\<rparr>"
  using assms by (auto simp: merge_def Let_def res_simps area_of_def [symmetric] split: if_splits)

lemma sum_bm_put:
  "bm_ok m \<Longrightarrow> sum_list (map f (bm_values (bm_put k v m))) + (case bm_get k m of None \<Rightarrow> 0 | Some w \<Rightarrow> f w)
     = sum_list (map f (bm_values m)) + (f v :: nat)"
proof (induction m)
  case (Cons p m)
  obtain k' v' where p: "p = (k', v')" by (cases p)
  have ok: "bm_ok m" and above: "\<forall>j \<in> set (bm_keys m). k' < j"
    using Cons.prems by (simp_all add: p bm_ok_Cons)
  have "bm_get k m = None" if "k \<le> k'"
  proof -
    have "k \<notin> set (bm_keys m)" using above that by (metis leD)
    then show ?thesis using bm_has_keys [of k m] by (simp add: bm_has_def)
  qed
  then show ?case using Cons.IH [OF ok] by (auto simp: p bm_values_def)
qed (simp add: bm_values_def)

lemma domain_UNIV: "(UNIV :: domain set) =
  {Application, Web, Authentication, Network, Database, OperatingSystem, Cloud, OtherDomain}"
  by (auto intro: domain.exhaust)

lemma domains_le_8:
  fixes m :: "(domain, 'v) bmap"
  assumes "bm_ok m"
  shows "length m \<le> 8"
proof -
  have "length m = card (set (bm_keys m))"
    using distinct_card [OF bm_ok_distinct [OF assms]] by (simp add: bm_keys_def)
  also have "\<dots> \<le> card (UNIV :: domain set)" by (rule card_mono [OF _ subset_UNIV]) (simp add: domain_UNIV)
  also have "\<dots> = 8" by (simp add: domain_UNIV)
  finally show ?thesis .
qed

lemma domain_default_ok: "domain_ok domain_default"
  by (simp add: domain_ok_def domain_default_def count_total_def table_ok_def counts_ok_def
      moves_ok_def vec_ok_def)

lemma area_of_ok: "shared_validate m = Inr () \<Longrightarrow> domain_ok (area_of a m)"
  by (force simp: area_of_def shared_validate_iff domain_default_ok split: option.splits dest: bm_get_in)

lemma area_of_le:
  "dm_observations (area_of a m) \<le> sum_list (map dm_observations (bm_values (sm_domains m)))"
proof (cases "bm_get a (sm_domains m)")
  case (Some d)
  then have "dm_observations d \<in> set (map dm_observations (bm_values (sm_domains m)))"
    by (force dest: bm_get_in simp: bm_values_def)
  then show ?thesis using Some by (simp add: area_of_def member_le_sum_list)
qed (simp add: area_of_def domain_default_def)

text \<open>The candidate that \<open>merge\<close> builds passes the validation it ends with.\<close>

lemma merged_valid:
  assumes inv: "shared_inv m" and c: "contribution_validate fp c = Inr ()" and hex: "hex64 (co_id c)"
    and room: "length (sm_contributions m) < 4096"
    and d: "merge_domain c (area_of (co_domain c) m) = Inr d"
  shows "shared_inv (m\<lparr>sm_domains := bm_put (co_domain c) d (sm_domains m),
                       sm_contributions := insort (co_id c) (sm_contributions m)\<rparr>)"
proof -
  let ?sum = "\<lambda>n. sum_list (map dm_observations (bm_values n))"
  have v: "shared_validate m = Inr ()" and ok: "bm_ok (sm_domains m)"
    and tot: "?sum (sm_domains m) \<le> 10000 * length (sm_contributions m)"
    using inv by (simp_all add: shared_inv_def)
  have cl: "contribution_total c \<le> 10000"
    using c by (simp add: contribution_validate_iff contribution_limits_def)
  have "dm_observations (area_of (co_domain c) m) + contribution_total c \<le> 40960000"
    using area_of_le [of "co_domain c" m] tot cl room by simp
  then have dok: "domain_ok d"
    using merge_domain_ok [OF area_of_ok [OF v] c d] by simp
  have obs: "dm_observations d = dm_observations (area_of (co_domain c) m) + contribution_total c"
    using d by (auto simp: merge_domain_Inr)
  have "?sum (bm_put (co_domain c) d (sm_domains m)) = ?sum (sm_domains m) + contribution_total c"
    using sum_bm_put [OF ok, of dm_observations "co_domain c" d] obs
    by (simp add: area_of_def domain_default_def split: option.splits)
  moreover have "\<forall>e \<in> snd ` set (bm_put (co_domain c) d (sm_domains m)). domain_ok e"
    using v dok by (auto simp: shared_validate_iff set_bm_put [OF ok])
  ultimately show ?thesis
    using v ok inv hex room tot cl domains_le_8 [OF bm_ok_put [OF ok]]
    by (simp add: shared_inv_def shared_validate_iff bm_ok_put sorted_insort set_insort_key)
qed

lemma co_id_hex: "contribution_validate fp c = Inr () \<Longrightarrow> \<forall>x. hex64 (fp x) \<Longrightarrow> hex64 (co_id c)"
  by (auto simp: contribution_validate_iff seal_def Let_def) metis

lemma shared_inv_default: "shared_inv shared_default"
  by (simp add: shared_inv_def shared_default_def shared_validate_iff bm_values_def)

lemma shared_reach_inv: "shared_reach fp m \<Longrightarrow> \<forall>x. hex64 (fp x) \<Longrightarrow> shared_inv m"
proof (induction rule: shared_reach.induct)
  case (reach_merge m c b m')
  from reach_merge.hyps(2) show ?case
  proof (cases rule: merge_cases)
    case (added d)
    then show ?thesis
      using merged_valid [OF reach_merge.IH [OF reach_merge.prems] added(2) _ added(5,6)]
        co_id_hex [OF added(2) reach_merge.prems] by simp
  qed (use reach_merge in simp)
qed (rule shared_inv_default)

lemma merge_domain_Inl: "merge_domain c d = Inl e \<Longrightarrow> e = SharedVocabularyFull \<or> e = SharedTransitionsFull"
  by (auto simp: merge_domain_def bind_res_Inl dest: merge_entries_Inl)

section \<open>The contract of merge\<close>

text \<open>C24. On every model that merging can reach, a contribution that passes its own validation is
  either merged into a model that validates, or refused for lack of capacity: the candidate that
  \<open>merge\<close> builds never fails the checks it ends with. Relied on: a fingerprint is 64 hexadecimal
  digits.\<close>

theorem merge_fails_only_for_capacity:
  assumes "shared_reach fp m" "contribution_validate fp c = Inr ()" "\<forall>x. hex64 (fp x)"
  shows "case merge fp c m of
           Inr (b, m') \<Rightarrow> shared_validate m' = Inr ()
         | Inl e \<Rightarrow> e \<in> {EpochFull, SharedVocabularyFull, SharedTransitionsFull}"
proof (cases "merge fp c m")
  case (Inr r)
  then show ?thesis
    using shared_reach_inv [OF reach_merge [OF assms(1)] assms(3)]
    by (cases r) (auto simp: shared_inv_def)
next
  case (Inl e)
  have inv: "shared_inv m" using shared_reach_inv assms(1,3) by blast
  then have v: "shared_validate m = Inr ()" by (simp add: shared_inv_def)
  show ?thesis
  proof (cases "length (sm_contributions m) < 4096")
    case True
    then have "e = SharedVocabularyFull \<or> e = SharedTransitionsFull"
      using Inl v assms(2) merged_valid [OF inv assms(2) co_id_hex [OF assms(2,3)] True]
      by (cases "merge_domain c (area_of (co_domain c) m)")
         (auto simp: merge_def Let_def area_of_def [symmetric] shared_inv_def split: if_splits
           dest: merge_domain_Inl)
    then show ?thesis by (auto simp: Inl)
  next
    case False
    then show ?thesis
      using Inl v assms(2) by (auto simp: merge_def split: if_splits)
  qed
qed

text \<open>Samples: two contributions to the same domain, the second with one more state.\<close>

definition sample_fp :: "contribution \<Rightarrow> rstr" where
  "sample_fp c = replicate 63 48 @ [48 + min (length (co_states c)) 9]"

definition share_one :: contribution where
  "share_one = seal sample_fp (observe (Public_State 1 1 0 0 2) None (contribution_new Web))"

definition share_two :: contribution where
  "share_two = seal sample_fp (observe (Public_State 2 1 0 0 2) (Some (Public_State 1 1 0 0 2))
     (observe (Public_State 1 1 0 0 2) None (contribution_new Web)))"

definition merged :: "contribution \<Rightarrow> shared_model \<Rightarrow> shared_model" where
  "merged c m = (case merge sample_fp c m of Inr (b, m') \<Rightarrow> m' | Inl e \<Rightarrow> m)"

lemma sample_fp_hex: "\<forall>c. hex64 (sample_fp c)"
proof
  fix c :: contribution
  have "is_ascii_hexdigit (48 + min (length (co_states c)) 9)"
    by (simp add: is_ascii_hexdigit_def is_ascii_digit_def)
  moreover have "utf8_len (sample_fp c) = length (sample_fp c)"
    by (rule utf8_len_ascii) (auto simp: sample_fp_def)
  ultimately show "hex64 (sample_fp c)"
    by (simp add: hex64_def sample_fp_def list_all_iff is_ascii_hexdigit_def is_ascii_digit_def)
qed

lemma share_valid:
  "contribution_validate sample_fp share_one = Inr ()" "contribution_validate sample_fp share_two = Inr ()"
  by code_simp+

lemma share_merges:
  "merge sample_fp share_one shared_default = Inr (True, merged share_one shared_default)"
  "merge sample_fp share_two shared_default = Inr (True, merged share_two shared_default)"
  "merge sample_fp share_two (merged share_one shared_default) = Inr (True, merged share_two (merged share_one shared_default))"
  "merge sample_fp share_one (merged share_two shared_default) = Inr (True, merged share_one (merged share_two shared_default))"
  by code_simp+

theorem merge_fails_only_for_capacity_witness:
  "case merge sample_fp share_two shared_default of
     Inr (b, m') \<Rightarrow> shared_validate m' = Inr ()
   | Inl e \<Rightarrow> e \<in> {EpochFull, SharedVocabularyFull, SharedTransitionsFull}"
  by (rule merge_fails_only_for_capacity [OF reach_start share_valid(2) sample_fp_hex])

text \<open>Merging counts exactly: in the contribution's domain the support of every state grows by its
  count in the contribution and the total by the contribution's total; other domains keep theirs.\<close>

theorem merge_counts:
  assumes "merge fp c m = Inr (True, m')"
  shows "support a s m' =
    (if a = co_domain c
     then (fst (support a s m) + vec_count (co_states c) s, snd (support a s m) + contribution_total c)
     else support a s m)"
  using assms
proof (cases rule: merge_cases)
  case (added d)
  obtain ss ts where ss: "vt.add_list 4096 (co_states c) (dm_states (area_of (co_domain c) m)) = Some ss"
    and d: "d = \<lparr>dm_states = sort_key fst ss, dm_transitions = ts,
                dm_observations = dm_observations (area_of (co_domain c) m) + contribution_total c\<rparr>"
    using added(6) by (auto simp: merge_domain_Inr)
  have dok: "domain_ok (area_of (co_domain c) m)" using area_of_ok [OF added(3)] .
  then have t: "vec_ok (dm_states (area_of (co_domain c) m))" "length (dm_states (area_of (co_domain c) m)) \<le> 4096"
    by (simp_all add: domain_ok_def table_ok_def counts_ok_def)
  have es: "vec_ok (co_states c)"
    using added(2) by (simp add: contribution_validate_iff table_ok_def counts_ok_def)
  have area: "support a s m = (vec_count (dm_states (area_of a m)) s, dm_observations (area_of a m))"
    by (simp add: support_def area_of_def domain_default_def split: option.splits)
  show ?thesis
    using merged_table(4) [OF t(1) es t(2) ss, of s]
    by (simp add: area) (simp add: support_def added(8) d area_of_def domain_default_def split: option.splits)
qed simp

theorem merge_counts_witness:
  "support Web (Public_State 1 1 0 0 2) (merged share_two (merged share_one shared_default)) = (2, 3)"
proof -
  have "support Web (Public_State 1 1 0 0 2) (merged share_one shared_default) = (1, 1)" by code_simp
  moreover have "vec_count (co_states share_two) (Public_State 1 1 0 0 2) = 1"
    "contribution_total share_two = 2" "co_domain share_two = Web" by code_simp+
  ultimately show ?thesis
    using merge_counts [OF share_merges(3), of Web "Public_State 1 1 0 0 2"] by simp
qed

text \<open>A contribution is counted once: after it was merged, merging it again changes nothing and says
  so.\<close>

theorem merge_idempotent:
  assumes "merge fp c m = Inr (True, m')"
  shows "merge fp c m' = Inr (False, m')"
  using assms
proof (cases rule: merge_cases)
  case (added d)
  then show ?thesis by (simp add: merge_def set_insort_key)
qed simp

theorem merge_idempotent_witness:
  "merge sample_fp share_one (merged share_one shared_default) = Inr (False, merged share_one shared_default)"
  by (rule merge_idempotent [OF share_merges(1)])

section \<open>Order of contributions\<close>

lemma bm_ok_sorted_vec: "vec_ok t \<Longrightarrow> bm_ok (sort_key fst t)"
proof -
  assume "vec_ok t"
  then have "vec_ok (sort_key fst t)" by (simp add: vec_ok_mset [of "sort_key fst t" t])
  then show ?thesis
    using sorted_sort_key [of fst t]
    by (simp add: bm_ok_def bm_keys_def vec_ok_def strict_sorted_iff)
qed

lemma bm_get_vec: "vec_ok t \<Longrightarrow> bm_get k t = (if k \<in> fst ` set t then Some (vec_count t k) else None)"
proof (induction t)
  case (Cons e t)
  then show ?case by (cases e) (auto simp: vec_ok_def)
qed simp

text \<open>Two tables that were sorted, with the same keys and counts, are the same list.\<close>

lemma sorted_tables_eq:
  assumes "vec_ok t" "vec_ok u" "fst ` set t = fst ` set u" "\<And>k. vec_count t k = vec_count u k"
  shows "sort_key fst t = sort_key fst u"
proof (rule bm_ext)
  have "vec_ok (sort_key fst t)" "vec_ok (sort_key fst u)"
    using assms(1,2) by (simp_all add: vec_ok_mset [of "sort_key fst t" t] vec_ok_mset [of "sort_key fst u" u])
  then show "bm_get k (sort_key fst t) = bm_get k (sort_key fst u)" for k
    using assms(3,4) vec_count_mset [of t "sort_key fst t" k] vec_count_mset [of u "sort_key fst u" k] assms(1,2)
    by (simp add: bm_get_vec)
qed (simp_all add: bm_ok_sorted_vec assms(1,2))

text \<open>Merging two tables of entries, with the sorting in between, in either order.\<close>

lemma merge_tables_commute:
  assumes ok: "vec_ok t" "vec_ok xs" "vec_ok ys" and len: "length t \<le> cap"
    and a: "vt.add_list cap xs t = Some a" "vt.add_list cap ys (sort_key fst a) = Some ab"
    and b: "vt.add_list cap ys t = Some b" "vt.add_list cap xs (sort_key fst b) = Some ba"
  shows "sort_key fst ab = sort_key fst ba"
proof -
  note A = merged_table [OF ok(1,2) len a(1)]
  note AB = merged_table [OF A(1) ok(3) A(2) a(2)]
  note B = merged_table [OF ok(1,3) len b(1)]
  note BA = merged_table [OF B(1) ok(2) B(2) b(2)]
  have "sort_key fst (sort_key fst ab) = sort_key fst (sort_key fst ba)"
    by (rule sorted_tables_eq [OF AB(1) BA(1)]) (unfold AB(3,4) BA(3,4) A(3,4) B(3,4), auto)
  then show ?thesis by simp
qed

lemma merge_domain_commute:
  assumes d: "domain_ok d" and x: "contribution_validate fp x = Inr ()" and y: "contribution_validate fp y = Inr ()"
    and "merge_domain x d = Inr dx" "merge_domain y dx = Inr dxy"
    and "merge_domain y d = Inr dy" "merge_domain x dy = Inr dyx"
  shows "dxy = dyx"
proof -
  have t: "vec_ok (dm_states d)" "length (dm_states d) \<le> 4096" "vec_ok (dm_transitions d)" "length (dm_transitions d) \<le> 8192"
    using d by (simp_all add: domain_ok_def table_ok_def counts_ok_def moves_ok_def)
  have e: "vec_ok (co_states x)" "vec_ok (co_transitions x)" "vec_ok (co_states y)" "vec_ok (co_transitions y)"
    using x y by (simp_all add: contribution_validate_iff table_ok_def counts_ok_def moves_ok_def)
  show ?thesis
    using assms(4-7) merge_tables_commute [OF t(1) e(1,3) t(2)] merge_tables_commute [OF t(3) e(2,4) t(4)]
    by (auto simp: merge_domain_Inr)
qed

lemma bm_put_twice: "bm_ok m \<Longrightarrow> bm_put k v (bm_put k w m) = bm_put k v m"
  by (rule bm_ext) (simp_all add: bm_ok_put)

lemma bm_put_swap: "bm_ok m \<Longrightarrow> j \<noteq> k \<Longrightarrow> bm_put j v (bm_put k w m) = bm_put k w (bm_put j v m)"
  by (rule bm_ext) (simp_all add: bm_ok_put)

text \<open>C25. The shared model does not depend on the order in which contributions arrive: two of them with
  different identifiers, merged in either order into a reachable model, give the same model, with the
  same serialization.\<close>

theorem merge_commutes:
  assumes "shared_reach fp m" "\<forall>c. hex64 (fp c)"
    and "merge fp x m = Inr (True, mx)" "merge fp y mx = Inr (True, mxy)"
    and "merge fp y m = Inr (True, my)" "merge fp x my = Inr (True, myx)"
  shows "mxy = myx"
proof -
  have ok: "bm_ok (sm_domains m)" and v: "shared_validate m = Inr ()"
    using shared_reach_inv [OF assms(1,2)] by (simp_all add: shared_inv_def)
  obtain dx where x: "contribution_validate fp x = Inr ()" "merge_domain x (area_of (co_domain x) m) = Inr dx"
    "mx = m\<lparr>sm_domains := bm_put (co_domain x) dx (sm_domains m), sm_contributions := insort (co_id x) (sm_contributions m)\<rparr>"
    by (rule merge_cases [OF assms(3)]) auto
  obtain dxy where xy: "merge_domain y (area_of (co_domain y) mx) = Inr dxy"
    "mxy = mx\<lparr>sm_domains := bm_put (co_domain y) dxy (sm_domains mx), sm_contributions := insort (co_id y) (sm_contributions mx)\<rparr>"
    by (rule merge_cases [OF assms(4)]) auto
  obtain dy where y: "contribution_validate fp y = Inr ()" "merge_domain y (area_of (co_domain y) m) = Inr dy"
    "my = m\<lparr>sm_domains := bm_put (co_domain y) dy (sm_domains m), sm_contributions := insort (co_id y) (sm_contributions m)\<rparr>"
    by (rule merge_cases [OF assms(5)]) auto
  obtain dyx where yx: "merge_domain x (area_of (co_domain x) my) = Inr dyx"
    "myx = my\<lparr>sm_domains := bm_put (co_domain x) dyx (sm_domains my), sm_contributions := insort (co_id x) (sm_contributions my)\<rparr>"
    by (rule merge_cases [OF assms(6)]) auto
  have ids: "insort (co_id y) (insort (co_id x) (sm_contributions m)) = insort (co_id x) (insort (co_id y) (sm_contributions m))"
    by (rule insort_left_comm)
  show ?thesis
  proof (cases "co_domain x = co_domain y")
    case True
    then have second: "merge_domain y dx = Inr dxy" "merge_domain x dy = Inr dyx"
      using xy(1) yx(1) by (simp_all add: area_of_def x(3) y(3))
    have first: "merge_domain y (area_of (co_domain x) m) = Inr dy" using y(2) by (simp add: True)
    have "dxy = dyx"
      by (rule merge_domain_commute [OF area_of_ok [OF v] x(1) y(1) x(2) second(1) first second(2)])
    note same = this
    show ?thesis
      using ok by (simp add: xy(2) yx(2) x(3) y(3) True same bm_put_twice) (simp only: ids)
  next
    case False
    then have "dxy = dy" "dyx = dx"
      using xy(1) yx(1) x(2) y(2) by (simp_all add: area_of_def x(3) y(3))
    then show ?thesis
      using ids bm_put_swap [OF ok False, of dx dy] by (simp only: xy(2) yx(2) x(3) y(3)) simp
  qed
qed

theorem merge_commutes_witness:
  "merged share_two (merged share_one shared_default) = merged share_one (merged share_two shared_default)"
  by (rule merge_commutes [OF reach_start sample_fp_hex share_merges(1,3,2,4)])

end
