(* ===== verification/Le_Bytes.thy ===== *)
theory Le_Bytes
  imports Prelude
begin

unbundle bit_operations_syntax

text \<open>
  \<open>to_le_bytes\<close> and \<open>from_le_bytes\<close> of the integers of \<open>std\<close>: a word of any whole number of bytes is written
  least significant byte first and read back.
\<close>

definition to_le_bytes :: "'a::len word \<Rightarrow> byte list" where
  "to_le_bytes w = map (\<lambda>i. ucast (drop_bit (8 * i) w)) [0..<LENGTH('a) div 8]"

definition from_le_bytes :: "byte list \<Rightarrow> 'a::len word" where
  "from_le_bytes bs = foldr (\<lambda>b w. ucast b OR push_bit 8 w) bs 0"

lemma bit_byte_step:
  "i < LENGTH('a) \<Longrightarrow>
     bit ((ucast (b :: byte) :: 'a::len word) OR push_bit 8 w) i = (if i < 8 then bit b i else bit w (i - 8))"
  by (auto simp: bit_or_iff bit_ucast_iff bit_push_bit_iff dest: bit_imp_le_length)

lemma bit_from_le_bytes:
  "i < LENGTH('a) \<Longrightarrow>
     bit (from_le_bytes bs :: 'a::len word) i = (i div 8 < length bs \<and> bit (bs ! (i div 8)) (i mod 8))"
proof (induction bs arbitrary: i)
  case (Cons b bs)
  show ?case
  proof (cases "i < 8")
    case True
    then show ?thesis using Cons.prems by (simp add: from_le_bytes_def bit_byte_step)
  next
    case False
    then have d: "i div 8 = Suc ((i - 8) div 8)" "i mod 8 = (i - 8) mod 8"
      by (simp_all add: le_div_geq le_mod_geq)
    show ?thesis
      using False Cons.prems Cons.IH [of "i - 8"]
      by (simp add: from_le_bytes_def bit_byte_step d)
  qed
qed (simp add: from_le_bytes_def)

lemma length_to_le_bytes [simp]: "length (to_le_bytes (w :: 'a::len word)) = LENGTH('a) div 8"
  by (simp add: to_le_bytes_def)

lemma from_to_le_bytes:
  assumes "8 dvd LENGTH('a::len)"
  shows "from_le_bytes (to_le_bytes w) = (w :: 'a word)"
proof (rule bit_word_eqI)
  fix i assume i: "i < LENGTH('a)"
  then have d: "i div 8 < LENGTH('a) div 8" "8 * (i div 8) + i mod 8 = i"
    using assms by (auto simp: less_mult_imp_div_less elim!: dvdE)
  then have "bit (to_le_bytes w ! (i div 8)) (i mod 8) = bit w i"
    by (simp add: to_le_bytes_def bit_ucast_iff bit_drop_bit_eq)
  then show "bit (from_le_bytes (to_le_bytes w) :: 'a word) i = bit w i"
    using i d(1) by (metis bit_from_le_bytes length_to_le_bytes)
qed

lemmas from_to_le_bytes_sized [simp] =
  from_to_le_bytes [where 'a = 64, simplified] from_to_le_bytes [where 'a = 32, simplified]
  from_to_le_bytes [where 'a = 16, simplified]

lemma to_from_le_bytes:
  assumes "8 dvd LENGTH('a::len)" "length bs = LENGTH('a) div 8"
  shows "to_le_bytes (from_le_bytes bs :: 'a word) = bs"
proof (rule nth_equalityI)
  fix i assume "i < length (to_le_bytes (from_le_bytes bs :: 'a word))"
  then have i: "i < LENGTH('a) div 8" by simp
  have "bit (to_le_bytes (from_le_bytes bs :: 'a word) ! i) j = bit (bs ! i) j" if "j < 8" for j
  proof -
    have "8 * i + j < LENGTH('a)" using i that assms(1) by (auto elim!: dvdE)
    then show ?thesis using i that assms(2)
      by (simp add: to_le_bytes_def bit_ucast_iff bit_drop_bit_eq bit_from_le_bytes)
  qed
  then show "to_le_bytes (from_le_bytes bs :: 'a word) ! i = bs ! i" by (intro bit_word_eqI) simp
qed (use assms(2) in simp)

lemmas to_from_le_bytes_sized [simp] =
  to_from_le_bytes [where 'a = 64, simplified] to_from_le_bytes [where 'a = 32, simplified]
  to_from_le_bytes [where 'a = 16, simplified]

end
