(* ===== verification/Split_Map.thy ===== *)
theory Split_Map
  imports Le_Bytes
begin

unbundle bit_operations_syntax

text \<open>
  The decision map of \<open>src-tauri/src/log_split/lowspace.rs\<close>: the runs of bytes of the original that go
  to one output each, written by \<open>MapSink\<close> as eight bytes per run and read back by \<open>Runs\<close> a block at
  a time. The theorems say that reading gives back the decision for every byte.
\<close>

section \<open>Words on disk\<close>

definition map_word :: "bool \<Rightarrow> nat \<Rightarrow> 64 word" where
  "map_word flag n = push_bit 1 (word_of_nat n) OR (if flag then 1 else 0)"

definition run_of :: "64 word \<Rightarrow> bool \<times> nat" where
  "run_of w = (w AND 1 = 1, unat (drop_bit 1 w))"

fun le_words :: "byte list \<Rightarrow> 64 word list" where
  "le_words (a # b # c # d # e # f # g # h # bs) = from_le_bytes [a, b, c, d, e, f, g, h] # le_words bs"
| "le_words bs = []"

section \<open>Writing: MapSink\<close>

record map_sink =
  mp_out :: "byte list"
  mp_run :: "(bool \<times> nat) option"
  mp_matched :: nat
  mp_rest :: nat

definition map_create :: map_sink where
  "map_create = \<lparr>mp_out = [], mp_run = None, mp_matched = 0, mp_rest = 0\<rparr>"

definition flush_run :: "map_sink \<Rightarrow> map_sink" where
  "flush_run s =
     (case mp_run s of
        None \<Rightarrow> s
      | Some (flag, n) \<Rightarrow> s\<lparr>mp_run := None, mp_out := mp_out s @ to_le_bytes (map_word flag n)\<rparr>)"

definition map_push :: "bool \<Rightarrow> nat \<Rightarrow> map_sink \<Rightarrow> map_sink" where
  "map_push matched n s0 =
     (if n = 0 then s0
      else
        let s = (if matched then s0\<lparr>mp_matched := mp_matched s0 + n\<rparr> else s0\<lparr>mp_rest := mp_rest s0 + n\<rparr>)
        in case mp_run s of
             Some (flag, len) \<Rightarrow>
               if flag = matched then s\<lparr>mp_run := Some (flag, len + n)\<rparr>
               else (flush_run s)\<lparr>mp_run := Some (matched, n)\<rparr>
           | None \<Rightarrow> (flush_run s)\<lparr>mp_run := Some (matched, n)\<rparr>)"

definition map_finish :: "map_sink \<Rightarrow> byte list" where
  "map_finish s = mp_out (flush_run s)"

text \<open>The sink the decision pass writes to: items and whole regions become runs.\<close>

definition map_write :: "byte list \<Rightarrow> bool \<Rightarrow> map_sink \<Rightarrow> map_sink" where
  "map_write bytes matched s = map_push matched (length bytes) s"

definition map_region :: "nat \<Rightarrow> nat \<Rightarrow> bool \<Rightarrow> map_sink \<Rightarrow> map_sink" where
  "map_region src dst matched s = map_push matched (dst - src) s"

section \<open>Reading: Runs\<close>

definition block_runs :: nat where
  "block_runs = 64 * 1024"

record runs =
  rn_file :: "byte list"
  rn_count :: nat
  rn_block :: "64 word list"
  rn_first :: nat

definition runs_open :: "byte list \<Rightarrow> runs" where
  "runs_open file = \<lparr>rn_file = file, rn_count = length file div 8, rn_block = [], rn_first = u64_max\<rparr>"

text \<open>\<open>None\<close> stands for the read that fails and for the panic of an index past the end.\<close>

definition runs_load :: "nat \<Rightarrow> runs \<Rightarrow> runs option" where
  "runs_load index r =
     (let first = index div block_runs * block_runs
      in if rn_count r < first then None
         else
           let n = min (rn_count r - first) block_runs;
               bytes = take (n * 8) (drop (first * 8) (rn_file r))
           in if length bytes < n * 8 then None
              else Some (r\<lparr>rn_first := first, rn_block := le_words bytes\<rparr>))"

definition runs_get :: "nat \<Rightarrow> runs \<Rightarrow> ((bool \<times> nat) \<times> runs) option" where
  "runs_get index r0 =
     (case (if index < rn_first r0 \<or> rn_first r0 + length (rn_block r0) \<le> index
            then runs_load index r0 else Some r0) of
        None \<Rightarrow> None
      | Some r \<Rightarrow>
          if index - rn_first r < length (rn_block r)
          then Some (run_of (rn_block r ! (index - rn_first r)), r)
          else None)"

text \<open>The runs as one list, which is what \<open>Runs\<close> gives access to.\<close>

definition runs_list :: "byte list \<Rightarrow> (bool \<times> nat) list" where
  "runs_list file = map run_of (le_words file)"

definition expand :: "(bool \<times> nat) list \<Rightarrow> bool list" where
  "expand rs = concat (map (\<lambda>(f, n). replicate n f) rs)"

section \<open>Words survive the disk\<close>

lemma map_word_arith: "map_word flag n = 2 * word_of_nat n + (if flag then 1 else 0)"
proof -
  have "even (2 * word_of_nat n :: 64 word)" by simp
  then have "(2 * word_of_nat n :: 64 word) OR 1 = 2 * word_of_nat n + 1"
    by (simp add: or_one_eq)
  then show ?thesis by (simp add: map_word_def push_bit_eq_mult mult.commute)
qed

lemma unat_map_word: "n < 2 ^ 63 \<Longrightarrow> unat (map_word flag n) = 2 * n + (if flag then 1 else 0)"
proof -
  assume n: "n < 2 ^ 63"
  have "map_word flag n = word_of_nat (2 * n + (if flag then 1 else 0))"
    by (simp add: map_word_arith)
  then show ?thesis using n by (simp add: unat_of_nat del: of_nat_add of_nat_mult)
qed

lemma run_of_map_word: "n < 2 ^ 63 \<Longrightarrow> run_of (map_word flag n) = (flag, n)"
proof -
  assume n: "n < 2 ^ 63"
  have "unat (drop_bit 1 (map_word flag n)) = n"
    unfolding unat_drop_bit_eq using n by (simp add: unat_map_word drop_bit_eq_div)
  moreover have "(map_word flag n AND 1 = 1) = flag"
    by (simp add: and_one_eq map_word_arith mod2_eq_if)
  ultimately show ?thesis by (simp add: run_of_def)
qed

lemma le_words_append_word: "le_words (to_le_bytes w @ bs) = w # le_words bs"
proof (cases "to_le_bytes w" rule: le_words.cases)
  case (1 a b c d e f g h rest)
  then have "rest = []" using length_to_le_bytes [of w] by simp
  then show ?thesis using from_to_le_bytes [of w] by (simp add: 1)
qed (use length_to_le_bytes [of w] in simp_all)

lemma le_words_concat: "le_words (concat (map to_le_bytes ws)) = ws"
  by (induction ws) (simp_all add: le_words_append_word)

lemma length_words: "length (concat (map to_le_bytes (ws :: 64 word list))) = 8 * length ws"
  by (induction ws) simp_all

section \<open>The map says what was pushed\<close>

fun push_all :: "(bool \<times> nat) list \<Rightarrow> map_sink \<Rightarrow> map_sink" where
  "push_all [] s = s"
| "push_all ((f, n) # ps) s = push_all ps (map_push f n s)"

text \<open>Joining neighbours with the same flag: what a run list is, abstractly.\<close>

fun snoc_run :: "(bool \<times> nat) list \<Rightarrow> bool \<times> nat \<Rightarrow> (bool \<times> nat) list" where
  "snoc_run rs (f, n) =
     (if n = 0 then rs
      else if rs \<noteq> [] \<and> fst (last rs) = f then butlast rs @ [(f, snd (last rs) + n)]
      else rs @ [(f, n)])"

definition sink_runs :: "map_sink \<Rightarrow> (bool \<times> nat) list" where
  "sink_runs s = map run_of (le_words (mp_out s)) @ (case mp_run s of None \<Rightarrow> [] | Some r \<Rightarrow> [r])"

definition sink_ok :: "map_sink \<Rightarrow> bool" where
  "sink_ok s \<longleftrightarrow> (\<exists>ws. mp_out s = concat (map to_le_bytes (ws :: 64 word list))) \<and> (mp_run s = None \<longrightarrow> mp_out s = [])
     \<and> (\<forall>r. mp_run s = Some r \<longrightarrow> snd r \<le> mp_matched s + mp_rest s)"

lemma sink_ok_create: "sink_ok map_create"
  by (auto simp: sink_ok_def map_create_def intro: exI [of _ "[]"])

lemma le_words_snoc: "\<exists>ws. bs = concat (map to_le_bytes (ws :: 64 word list)) \<Longrightarrow> le_words (bs @ to_le_bytes w) = le_words bs @ [w]"
proof (elim exE)
  fix ws assume bs: "bs = concat (map to_le_bytes (ws :: 64 word list))"
  have "le_words (concat (map to_le_bytes (ws @ [w]))) = ws @ [w]" by (rule le_words_concat)
  then show ?thesis using le_words_concat [of ws] by (simp add: bs)
qed

lemma map_push_runs:
  assumes "sink_ok s" "mp_matched s + mp_rest s + n < 2 ^ 63"
  shows "sink_runs (map_push f n s) = snoc_run (sink_runs s) (f, n) \<and> sink_ok (map_push f n s)
     \<and> mp_matched (map_push f n s) + mp_rest (map_push f n s) = mp_matched s + mp_rest s + n"
proof (cases "n = 0")
  case True
  then show ?thesis using assms by (simp add: map_push_def)
next
  case n: False
  obtain ws where ws: "mp_out s = concat (map to_le_bytes (ws :: 64 word list))" using assms(1) by (auto simp: sink_ok_def)
  show ?thesis
  proof (cases "mp_run s")
    case None
    then have "mp_out s = []" using assms(1) by (simp add: sink_ok_def)
    then show ?thesis using n None
      by (auto simp: map_push_def flush_run_def sink_runs_def sink_ok_def Let_def intro: exI [of _ "[]"])
  next
    case (Some r)
    obtain g m where r: "r = (g, m)" by (cases r)
    have m: "m \<le> mp_matched s + mp_rest s" using assms(1) Some r by (auto simp: sink_ok_def)
    then have m63: "m < 2 ^ 63" using assms(2) by simp
    have snoc: "le_words (mp_out s @ to_le_bytes (map_word g m)) = le_words (mp_out s) @ [map_word g m]"
      using le_words_snoc ws by blast
    have ok: "\<exists>vs. mp_out s @ to_le_bytes (map_word g m) = concat (map to_le_bytes (vs :: 64 word list))"
      by (rule exI [of _ "ws @ [map_word g m]"]) (simp add: ws)
    show ?thesis
    proof (cases "g = f")
      case True
      then show ?thesis using n Some r m assms(1)
        by (auto simp: map_push_def sink_runs_def sink_ok_def Let_def)
    next
      case False
      then show ?thesis using n Some r ok snoc
        by (auto simp: map_push_def flush_run_def sink_runs_def sink_ok_def Let_def run_of_map_word [OF m63])
    qed
  qed
qed

lemma expand_append [simp]: "expand (a @ b) = expand a @ expand b"
  by (simp add: expand_def)

lemma expand_simps [simp]: "expand [] = []" "expand ((f, n) # rs) = replicate n f @ expand rs"
  by (simp_all add: expand_def)

lemma snoc_run_cases:
  obtains (skip) "snd r = 0" "snoc_run rs r = rs"
    | (join) qs m where "snd r \<noteq> 0" "rs = qs @ [(fst r, m)]" "snoc_run rs r = qs @ [(fst r, m + snd r)]"
    | (push) "snd r \<noteq> 0" "rs = [] \<or> fst (last rs) \<noteq> fst r" "snoc_run rs r = rs @ [r]"
proof -
  obtain f n where r: "r = (f, n)" by (cases r)
  consider "n = 0" | "n \<noteq> 0" "rs \<noteq> [] \<and> fst (last rs) = f" | "n \<noteq> 0" "rs = [] \<or> fst (last rs) \<noteq> f"
    by blast
  then show thesis
  proof cases
    case 2
    then have "last rs = (f, snd (last rs))" by (simp add: prod_eq_iff)
    with 2(2) have "rs = butlast rs @ [(f, snd (last rs))]" by (simp add: append_butlast_last_id)
    then obtain qs m where "rs = qs @ [(f, m)]" by blast
    with 2(1) show ?thesis by (intro join) (simp_all add: r)
  qed (use skip push in \<open>auto simp: r\<close>)
qed

lemma expand_snoc_run: "expand (snoc_run rs r) = expand rs @ replicate (snd r) (fst r)"
proof (cases rule: snoc_run_cases [of r rs])
  case push
  then show ?thesis by (cases r) simp
qed (simp_all add: replicate_add)

text \<open>Runs are not empty and neighbours differ, so a run ends where the decision changes.\<close>

definition runs_ok :: "(bool \<times> nat) list \<Rightarrow> bool" where
  "runs_ok rs \<longleftrightarrow> (\<forall>r \<in> set rs. 0 < snd r) \<and> successively (\<lambda>a b. fst a \<noteq> fst b) rs"

lemma runs_ok_snoc: "runs_ok rs \<Longrightarrow> runs_ok (snoc_run rs r)"
  by (cases rule: snoc_run_cases [of r rs]) (auto simp: runs_ok_def successively_append_iff)

lemma push_all_runs:
  assumes "sink_ok s" "mp_matched s + mp_rest s + sum_list (map snd ps) < 2 ^ 63"
  shows "sink_runs (push_all ps s) = foldl snoc_run (sink_runs s) ps \<and> sink_ok (push_all ps s)
     \<and> mp_matched (push_all ps s) + mp_rest (push_all ps s) = mp_matched s + mp_rest s + sum_list (map snd ps)"
  using assms
proof (induction ps s rule: push_all.induct)
  case (2 f n ps s)
  have step: "sink_runs (map_push f n s) = snoc_run (sink_runs s) (f, n) \<and> sink_ok (map_push f n s)
     \<and> mp_matched (map_push f n s) + mp_rest (map_push f n s) = mp_matched s + mp_rest s + n"
    using 2 by (intro map_push_runs) simp_all
  then show ?case using 2 by simp
qed simp

lemma map_finish_runs: 
  assumes "sink_ok s" "mp_matched s + mp_rest s < 2 ^ 63"
  shows "runs_list (map_finish s) = sink_runs s"
proof (cases "mp_run s")
  case None
  then show ?thesis by (simp add: map_finish_def flush_run_def runs_list_def sink_runs_def)
next
  case (Some r)
  obtain g m where r: "r = (g, m)" by (cases r)
  have "m \<le> mp_matched s + mp_rest s" using assms(1) Some r by (auto simp: sink_ok_def)
  then have m: "m < 2 ^ 63" using assms(2) by simp
  have "le_words (mp_out s @ to_le_bytes (map_word g m)) = le_words (mp_out s) @ [map_word g m]"
    using le_words_snoc assms(1) by (auto simp: sink_ok_def)
  then show ?thesis
    by (simp add: map_finish_def flush_run_def runs_list_def sink_runs_def Some r run_of_map_word [OF m])
qed

lemma foldl_snoc_expand: "expand (foldl snoc_run rs ps) = expand rs @ expand ps"
  by (induction ps arbitrary: rs) (auto simp: expand_snoc_run)

lemma foldl_snoc_ok: "runs_ok rs \<Longrightarrow> runs_ok (foldl snoc_run rs ps)"
  by (induction ps arbitrary: rs) (simp_all add: runs_ok_snoc del: snoc_run.simps)

text \<open>The decision map is faithful: for any sequence of decisions of fewer than \<open>2 ^ 63\<close> bytes, the
  runs read back from the finished file give every byte the output it was decided for, and the runs
  are not empty and alternate between the outputs.\<close>

theorem map_roundtrip:
  assumes "sum_list (map snd ps) < 2 ^ 63"
  shows "expand (runs_list (map_finish (push_all ps map_create))) = expand ps
     \<and> runs_ok (runs_list (map_finish (push_all ps map_create)))"
proof -
  have z: "sink_runs map_create = []" "mp_matched map_create + mp_rest map_create = 0"
    by (simp_all add: sink_runs_def map_create_def)
  have p: "sink_runs (push_all ps map_create) = foldl snoc_run [] ps" "sink_ok (push_all ps map_create)"
    "mp_matched (push_all ps map_create) + mp_rest (push_all ps map_create) = sum_list (map snd ps)"
    using push_all_runs [OF sink_ok_create, of ps] assms z by simp_all
  then have "runs_list (map_finish (push_all ps map_create)) = foldl snoc_run [] ps"
    using map_finish_runs assms by simp
  then show ?thesis
    using foldl_snoc_expand [of "[]" ps] foldl_snoc_ok [of "[]" ps] by (simp add: runs_ok_def)
qed

theorem map_roundtrip_witness:
  "expand (runs_list (map_finish (push_all [(True, 3), (True, 2), (False, 4)] map_create)))
     = expand [(True, 3), (True, 2), (False, 4)]"
  by (rule map_roundtrip [THEN conjunct1]) simp

section \<open>The block cache is transparent\<close>

lemma length_le_words: "length (le_words bs) = length bs div 8"
  by (induction bs rule: le_words.induct) simp_all

lemma le_words_drop: "le_words (drop (8 * f) bs) = drop f (le_words bs)"
proof (induction f arbitrary: bs)
  case (Suc f)
  have "le_words (drop 8 bs) = drop 1 (le_words bs)"
    by (cases bs rule: le_words.cases) simp_all
  then have "drop f (le_words (drop 8 bs)) = drop (Suc f) (le_words bs)" by simp
  then show ?case using Suc.IH [of "drop 8 bs"] by (simp add: add.commute)
qed simp

lemma le_words_take: "le_words (take (8 * n) bs) = take n (le_words bs)"
proof (induction n arbitrary: bs)
  case (Suc n)
  show ?case
  proof (cases bs rule: le_words.cases)
    case (1 a b c d e f g h rest)
    have "take (8 * Suc n) bs = a # b # c # d # e # f # g # h # take (8 * n) rest"
      by (simp add: 1 eval_nat_numeral)
    then show ?thesis using Suc.IH [of rest] by (simp add: 1)
  qed simp_all
qed simp

definition runs_valid :: "runs \<Rightarrow> bool" where
  "runs_valid r \<longleftrightarrow> rn_count r = length (rn_file r) div 8 \<and> length (rn_file r) \<le> u64_max
     \<and> (rn_block r = [] \<or>
          rn_block r = take (length (rn_block r)) (drop (rn_first r) (le_words (rn_file r))))"

lemma runs_open_valid: "length file \<le> u64_max \<Longrightarrow> runs_valid (runs_open file)"
  by (simp add: runs_valid_def runs_open_def)

lemma runs_load_valid:
  assumes "runs_valid r" "index < rn_count r"
  shows "\<exists>r'. runs_load index r = Some r' \<and> runs_valid r' \<and> rn_file r' = rn_file r \<and> rn_count r' = rn_count r
    \<and> rn_first r' \<le> index \<and> index - rn_first r' < length (rn_block r')"
proof -
  let ?ws = "le_words (rn_file r)"
  define first where "first = index div block_runs * block_runs"
  define n where "n = min (rn_count r - first) block_runs"
  have count: "rn_count r = length ?ws" using assms(1) by (simp add: runs_valid_def length_le_words)
  have f: "first \<le> index" "index < first + block_runs"
    using div_mult_mod_eq [of index block_runs] mod_less_divisor [of block_runs index]
    by (simp_all add: first_def block_runs_def)
  then have n: "index - first < n" "first + n \<le> rn_count r" using assms(2)
    unfolding n_def by linarith+
  have "8 * rn_count r \<le> length (rn_file r)" using assms(1) by (simp add: runs_valid_def)
  then have len: "n * 8 \<le> length (drop (first * 8) (rn_file r))" using n(2) by simp
  have words: "le_words (take (n * 8) (drop (first * 8) (rn_file r))) = take n (drop first ?ws)"
    by (metis le_words_take le_words_drop mult.commute)
  have full: "length (take n (drop first ?ws)) = n" using n(2) by (simp add: count)
  let ?r = "r\<lparr>rn_first := first, rn_block := take n (drop first ?ws)\<rparr>"
  have "runs_load index r = Some ?r"
    using n(2) f(1) assms(2) len words
    by (simp add: runs_load_def Let_def first_def [symmetric] n_def [symmetric])
  moreover have "runs_valid ?r"
    using assms(1) full by (simp add: runs_valid_def)
  ultimately show ?thesis using f(1) n(1) full by auto
qed

text \<open>Whatever was read before, \<open>Runs::get\<close> answers the run at that index of the file, and its block
  never hides or shifts one; an index below the count is never refused.\<close>

theorem runs_get_nth:
  assumes "runs_valid r" "index < rn_count r"
  shows "\<exists>r'. runs_get index r = Some (runs_list (rn_file r) ! index, r') \<and> runs_valid r'
    \<and> rn_file r' = rn_file r \<and> rn_count r' = rn_count r"
proof -
  have hit: "run_of (rn_block s ! (index - rn_first s)) = runs_list (rn_file s) ! index"
    if "runs_valid s" "rn_first s \<le> index" "index - rn_first s < length (rn_block s)" for s
  proof -
    have block: "rn_block s = take (length (rn_block s)) (drop (rn_first s) (le_words (rn_file s)))"
      using that by (auto simp: runs_valid_def)
    then have "length (rn_block s) \<le> length (drop (rn_first s) (le_words (rn_file s)))"
      by (metis length_take min.cobounded1)
    then have "index < length (le_words (rn_file s))" using that(2,3) by simp
    moreover have "rn_block s ! (index - rn_first s) = le_words (rn_file s) ! index"
      using that(2,3) calculation by (subst block) simp
    ultimately show ?thesis by (simp add: runs_list_def)
  qed
  show ?thesis
  proof (cases "index < rn_first r \<or> rn_first r + length (rn_block r) \<le> index")
    case True
    then show ?thesis
      using runs_load_valid [OF assms] hit by (auto simp: runs_get_def)
  next
    case False
    then have "rn_first r \<le> index" "index - rn_first r < length (rn_block r)" by linarith+
    then show ?thesis using hit [OF assms(1)] assms(1) False by (simp add: runs_get_def)
  qed
qed

definition sample_map :: "byte list" where
  "sample_map = map_finish (push_all [(True, 3), (False, 4)] map_create)"

theorem runs_get_nth_witness:
  "\<exists>r. runs_get 1 (runs_open sample_map) = Some (runs_list sample_map ! 1, r)"
proof -
  have "length sample_map = 16" by code_simp
  then have "runs_valid (runs_open sample_map)" "1 < rn_count (runs_open sample_map)"
    by (simp_all add: runs_open_valid u64_max_def) (simp add: runs_open_def)
  from runs_get_nth [OF this] show ?thesis by (auto simp: runs_open_def)
qed

section \<open>Positions in the runs\<close>

record cursor =
  cu_index :: nat
  cu_start :: nat
  cu_end :: nat

text \<open>\<open>cursor_before\<close>: the first run that reaches \<open>at\<close> bytes.\<close>

fun cursor_scan :: "(bool \<times> nat) list \<Rightarrow> nat \<Rightarrow> nat \<Rightarrow> nat \<Rightarrow> cursor option" where
  "cursor_scan [] index start pos = None"
| "cursor_scan ((f, n) # rs) index start pos =
     (if pos \<le> start + n then Some \<lparr>cu_index = index, cu_start = start, cu_end = start + n\<rparr>
      else cursor_scan rs (Suc index) (start + n) pos)"

definition cursor_before :: "(bool \<times> nat) list \<Rightarrow> nat \<Rightarrow> nat \<Rightarrow> cursor option" where
  "cursor_before rs data_start pos = cursor_scan rs 0 data_start pos"

definition run_start :: "(bool \<times> nat) list \<Rightarrow> nat \<Rightarrow> nat" where
  "run_start rs i = sum_list (map snd (take i rs))"

text \<open>A cursor that names a run and its place.\<close>

definition cursor_at :: "(bool \<times> nat) list \<Rightarrow> nat \<Rightarrow> cursor \<Rightarrow> bool" where
  "cursor_at rs ds c \<longleftrightarrow> cu_index c < length rs \<and> cu_start c = ds + run_start rs (cu_index c)
     \<and> cu_end c = ds + run_start rs (Suc (cu_index c))"

lemma run_start_Suc: "i < length rs \<Longrightarrow> run_start rs (Suc i) = run_start rs i + snd (rs ! i)"
  by (simp add: run_start_def take_Suc_conv_app_nth)

lemma cursor_scan_sound:
  "cursor_scan (drop i rs) i (ds + run_start rs i) pos = Some c \<Longrightarrow> i \<le> length rs \<Longrightarrow>
     cursor_at rs ds c \<and> pos \<le> cu_end c \<and> i \<le> cu_index c \<and> (i < cu_index c \<longrightarrow> cu_start c < pos)"
proof (induction "length rs - i" arbitrary: i)
  case 0
  then show ?case by simp
next
  case (Suc k)
  then have i: "i < length rs" by simp
  obtain f n where fn: "rs ! i = (f, n)" by (cases "rs ! i")
  have d: "drop i rs = (f, n) # drop (Suc i) rs" using i fn by (metis Cons_nth_drop_Suc)
  show ?case
  proof (cases "pos \<le> ds + run_start rs i + n")
    case True
    then show ?thesis using Suc.prems i fn
      by (auto simp: d cursor_at_def run_start_Suc)
  next
    case False
    then have rec: "cursor_scan (drop (Suc i) rs) (Suc i) (ds + run_start rs (Suc i)) pos = Some c"
      using Suc.prems by (simp add: d run_start_Suc [OF i] fn add.assoc)
    have ih: "cursor_at rs ds c \<and> pos \<le> cu_end c \<and> Suc i \<le> cu_index c \<and> (Suc i < cu_index c \<longrightarrow> cu_start c < pos)"
      by (rule Suc.hyps(1) [OF _ rec]) (use Suc.hyps(2) i in auto)
    moreover have "cu_start c < pos" if "cu_index c = Suc i"
      using that ih False by (auto simp: cursor_at_def run_start_Suc [OF i] fn)
    ultimately show ?thesis by (metis Suc_leD le_neq_implies_less)
  qed
qed

lemma cursor_scan_complete:
  "pos \<le> start + sum_list (map snd rs) \<Longrightarrow> rs \<noteq> [] \<Longrightarrow> cursor_scan rs i start pos \<noteq> None"
proof (induction rs i start pos rule: cursor_scan.induct)
  case (2 f n rs index start pos)
  then show ?case by (cases "rs = []") (auto simp: add.assoc)
qed simp

lemma cursor_before_Some:
  "cursor_before rs ds pos = Some c \<Longrightarrow> cursor_at rs ds c \<and> pos \<le> cu_end c \<and> (0 < cu_index c \<longrightarrow> cu_start c < pos)"
  using cursor_scan_sound [of 0 rs ds pos c] by (simp add: cursor_before_def run_start_def)

lemma cursor_before_total:
  "rs \<noteq> [] \<Longrightarrow> pos \<le> ds + sum_list (map snd rs) \<Longrightarrow> \<exists>c. cursor_before rs ds pos = Some c"
  using cursor_scan_complete by (fastforce simp: cursor_before_def)

end
