(* ===== verification/Split_Journal.thy ===== *)
theory Split_Journal
  imports Split_Map
begin

text \<open>
  Separating a file that the disk cannot hold twice: the journal and the operations \<open>carve\<close>, \<open>undo\<close>
  and \<open>assemble\<close> of \<open>src-tauri/src/log_split/lowspace.rs\<close>.

  The files an operation touches are the record \<open>disk\<close>. An operation reads the disk and answers, besides
  its result, the list of the durable effects it performs, in the order of the code; \<open>run_effects\<close>
  applies them, and a crash is a prefix of that list whose last effect may be torn (\<open>crashed\<close>, in
  \<open>Split_Crash\<close>). \<open>Journal::save\<close> writes a temporary file and renames it, so \<open>SaveJournal\<close> is atomic;
  so are truncation and renaming. Copies through \<open>COPY\<close>-sized buffers are the slices they copy.
  Cancellation and free space are the environment's answers, one pair for each length of the original
  at which the carving loop asks. Errors of the operating system other than missing files and short
  reads are left to the crash semantics: what was done by then is a prefix of the effects.
\<close>

section \<open>The journal\<close>

datatype phase = Decide | Carve | Assemble

record chunk =
  ck_start :: nat
  ck_end :: nat
  ck_matched :: nat
  ck_rest :: nat

record assembly =
  as_done :: nat
  as_len :: nat
  as_created :: bool

text \<open>\<open>assembled\<close> is an array of two, indexed by \<open>usize::from(!matched)\<close>; here by \<open>matched\<close> itself.\<close>

record journal =
  jn_bom :: "byte list"
  jn_original_len :: nat
  jn_phase :: phase
  jn_cut :: nat
  jn_head_end :: nat
  jn_head_matched :: bool
  jn_chunks :: "chunk list"
  jn_renamed :: bool
  jn_assembled :: "bool \<Rightarrow> assembly"

definition assembly_default :: assembly where
  "assembly_default = \<lparr>as_done = 0, as_len = 0, as_created = False\<rparr>"

definition carved :: "journal \<Rightarrow> nat" where
  "carved j = jn_original_len j - jn_cut j"

section \<open>Disk and effects\<close>

record disk =
  dk_original :: "byte list option"
  dk_output :: "bool \<Rightarrow> byte list option"
  dk_part :: "nat \<times> bool \<Rightarrow> byte list option"
  dk_map :: "byte list option"
  dk_journal :: "journal option"

datatype effect =
    WritePart nat bool "byte list"
  | SaveJournal journal
  | Truncate nat
  | WriteBack nat "byte list"
  | RemovePart nat bool
  | RemoveWork
  | RemoveJournal
  | RenameOriginal bool
  | CreateOutput bool "byte list"
  | TruncateOutput bool nat
  | AppendOutput bool nat "byte list"

text \<open>\<open>File::set_len\<close> cuts or fills with zeros; a write past the end leaves a gap of zeros.\<close>

definition set_len :: "nat \<Rightarrow> byte list \<Rightarrow> byte list" where
  "set_len n xs = take n xs @ replicate (n - length xs) 0"

definition write_at :: "nat \<Rightarrow> byte list \<Rightarrow> byte list \<Rightarrow> byte list" where
  "write_at pos ys xs =
     (if ys = [] then xs else set_len pos xs @ ys @ drop (pos + length ys) xs)"

fun apply_effect :: "effect \<Rightarrow> disk \<Rightarrow> disk" where
  "apply_effect (WritePart i b xs) d = d\<lparr>dk_part := (dk_part d)((i, b) := Some xs)\<rparr>"
| "apply_effect (SaveJournal j) d = d\<lparr>dk_journal := Some j\<rparr>"
| "apply_effect (Truncate n) d = d\<lparr>dk_original := map_option (set_len n) (dk_original d)\<rparr>"
| "apply_effect (WriteBack pos xs) d = d\<lparr>dk_original := map_option (write_at pos xs) (dk_original d)\<rparr>"
| "apply_effect (RemovePart i b) d = d\<lparr>dk_part := (dk_part d)((i, b) := None)\<rparr>"
| "apply_effect RemoveWork d = d\<lparr>dk_part := (\<lambda>_. None), dk_map := None\<rparr>"
| "apply_effect RemoveJournal d = d\<lparr>dk_journal := None\<rparr>"
| "apply_effect (RenameOriginal b) d =
     d\<lparr>dk_output := (dk_output d)(b := dk_original d), dk_original := None\<rparr>"
| "apply_effect (CreateOutput b xs) d = d\<lparr>dk_output := (dk_output d)(b := Some xs)\<rparr>"
| "apply_effect (TruncateOutput b n) d =
     d\<lparr>dk_output := (dk_output d)(b := map_option (set_len n) (dk_output d b))\<rparr>"
| "apply_effect (AppendOutput b pos xs) d =
     d\<lparr>dk_output := (dk_output d)(b := map_option (write_at pos xs) (dk_output d b))\<rparr>"

definition run_effects :: "effect list \<Rightarrow> disk \<Rightarrow> disk" where
  "run_effects es d = foldl (\<lambda>d e. apply_effect e d) d es"

lemma run_effects_simps [simp]:
  "run_effects [] d = d"
  "run_effects (e # es) d = run_effects es (apply_effect e d)"
  "run_effects (es @ fs) d = run_effects fs (run_effects es d)"
  by (simp_all add: run_effects_def)

section \<open>Errors and environment\<close>

datatype split_error =
    SplitCancelled
  | OriginalMissing
  | OriginalAltered
  | OriginalShorter
  | ProgressMismatch
  | NoSpace
  | MapUnreadable
  | PartUnreadable
  | OutputMissing
  | NeverEnds

definition reserve_bytes :: nat where "reserve_bytes = 64 * 1048576"
definition min_chunk :: nat where "min_chunk = 1048576"
definition max_chunk :: nat where "max_chunk = 256 * 1048576"

definition chunk_size :: "nat option \<Rightarrow> split_error + nat" where
  "chunk_size free =
     (let usable = (case free of None \<Rightarrow> 0 | Some n \<Rightarrow> n) - reserve_bytes
      in if usable < 2 * min_chunk then Inl NoSpace
         else Inr (max min_chunk (min max_chunk (usable div 2))))"

text \<open>Whether the user cancelled and the free space, for each length of the original.\<close>

type_synonym split_env = "nat \<Rightarrow> bool \<times> nat option"

lemma chunk_size_pos: "chunk_size free = Inr n \<Longrightarrow> 0 < n"
  by (auto simp: chunk_size_def Let_def min_chunk_def split: if_splits)

section \<open>Carving\<close>

definition settle_original :: "journal \<Rightarrow> disk \<Rightarrow> split_error + effect list" where
  "settle_original j d =
     (case dk_original d of
        None \<Rightarrow> Inl OriginalMissing
      | Some xs \<Rightarrow>
          if length xs = jn_cut j then Inr []
          else if jn_chunks j \<noteq> [] \<and> ck_start (last (jn_chunks j)) = jn_cut j
                  \<and> ck_end (last (jn_chunks j)) = length xs
          then Inr [Truncate (jn_cut j)]
          else Inl OriginalAltered)"

text \<open>The pieces of the runs inside \<open>start..stop\<close>, collected backwards; the list is in file order.\<close>

function carve_pieces ::
  "(bool \<times> nat) list \<Rightarrow> nat \<Rightarrow> nat \<Rightarrow> cursor \<Rightarrow> (bool \<times> nat) list \<Rightarrow> (bool \<times> nat) list \<times> cursor" where
  "carve_pieces rs start stop c acc =
     (let matched = fst (rs ! cu_index c);
          piece_start = max (cu_start c) start;
          piece_end = min (cu_end c) stop;
          acc' = (if piece_start < piece_end then (matched, piece_end - piece_start) # acc else acc)
      in if cu_start c \<le> start \<or> cu_index c = 0 then (acc', c)
         else carve_pieces rs start stop
                \<lparr>cu_index = cu_index c - 1, cu_start = cu_start c - snd (rs ! (cu_index c - 1)),
                 cu_end = cu_start c\<rparr> acc')"
  by pat_completeness auto
termination by (relation "measure (\<lambda>(rs, start, stop, c, acc). cu_index c)") auto

declare carve_pieces.simps [simp del]

text \<open>Copying the pieces to the parts; \<open>False\<close> when the original ended too early.\<close>

fun fill_parts :: "byte list \<Rightarrow> nat \<Rightarrow> (bool \<times> nat) list \<Rightarrow> byte list \<Rightarrow> byte list \<Rightarrow> bool \<times> byte list \<times> byte list" where
  "fill_parts xs pos [] m r = (True, m, r)"
| "fill_parts xs pos ((matched, n) # ps) m r =
     (let got = take n (drop pos xs)
      in if length got < n then (False, m, r)
         else if matched then fill_parts xs (pos + n) ps (m @ got) r
         else fill_parts xs (pos + n) ps m (r @ got))"

definition piece_bytes :: "bool \<Rightarrow> (bool \<times> nat) list \<Rightarrow> nat" where
  "piece_bytes b ps = sum_list (map snd (filter (\<lambda>p. fst p = b) ps))"

text \<open>The body of the loop of \<open>carve\<close> for a chunk of at most \<open>quota\<close> bytes.\<close>

definition carve_chunk ::
  "nat \<Rightarrow> (bool \<times> nat) list \<Rightarrow> cursor \<Rightarrow> journal \<Rightarrow> disk \<Rightarrow> (split_error + cursor) \<times> journal \<times> effect list" where
  "carve_chunk quota rs c j d =
     (let stop = jn_cut j;
          start = max (stop - quota) (jn_head_end j);
          (pieces, c') = carve_pieces rs start stop c [];
          index = length (jn_chunks j)
      in case dk_original d of
           None \<Rightarrow> (Inl OriginalMissing, j, [WritePart index True [], WritePart index False []])
         | Some xs \<Rightarrow>
             (let (ok, m, r) = fill_parts xs start pieces [] [];
                  parts = [WritePart index True m, WritePart index False r];
                  j' = j\<lparr>jn_chunks := jn_chunks j @ [\<lparr>ck_start = start, ck_end = stop,
                           ck_matched = piece_bytes True pieces, ck_rest = piece_bytes False pieces\<rparr>],
                         jn_cut := start\<rparr>
              in if \<not> ok then (Inl OriginalShorter, j, parts)
                 else if length xs \<noteq> stop then (Inl OriginalAltered, j', parts @ [SaveJournal j'])
                 else (Inr c', j', parts @ [SaveJournal j', Truncate start])))"

lemma carve_chunk_cut:
  "carve_chunk quota rs c j d = (Inr c', j', es) \<Longrightarrow> jn_cut j' = max (jn_cut j - quota) (jn_head_end j) \<and>
     jn_head_end j' = jn_head_end j"
  by (auto simp: carve_chunk_def Let_def split: option.splits prod.splits if_splits)

function (sequential) carve_loop ::
  "split_env \<Rightarrow> (bool \<times> nat) list \<Rightarrow> cursor \<Rightarrow> journal \<Rightarrow> disk \<Rightarrow> (split_error + unit) \<times> journal \<times> effect list" where
  "carve_loop env rs c j d =
     (if jn_cut j \<le> jn_head_end j then (Inr (), j, [])
      else if fst (env (jn_cut j)) then (Inl SplitCancelled, j, [])
      else case chunk_size (snd (env (jn_cut j))) of
             Inl e \<Rightarrow> (Inl e, j, [])
           | Inr quota \<Rightarrow>
               (case carve_chunk quota rs c j d of
                  (Inl e, j', es) \<Rightarrow> (Inl e, j', es)
                | (Inr c', j', es) \<Rightarrow>
                    (case carve_loop env rs c' j' (run_effects es d) of
                       (res, j'', es') \<Rightarrow> (res, j'', es @ es'))))"
  by pat_completeness auto
termination
proof (relation "measure (\<lambda>(env, rs, c, j, d). jn_cut j)")
  fix env :: split_env and rs c j d quota x y c' j' es
  assume low: "\<not> jn_cut j \<le> jn_head_end j" and quota: "chunk_size (snd (env (jn_cut j))) = Inr quota"
    and step: "(x, y) = carve_chunk quota rs c j d" "x = Inr c'" "(j', es) = y"
  show "((env, rs, c', j', run_effects es d), env, rs, c, j, d) \<in> measure (\<lambda>(env, rs, c, j, d). jn_cut j)"
    using carve_chunk_cut [of quota rs c j d c' j' es] step chunk_size_pos [OF quota] low by auto
qed simp

declare carve_loop.simps [simp del]

definition carve :: "split_env \<Rightarrow> journal \<Rightarrow> disk \<Rightarrow> (split_error + unit) \<times> journal \<times> effect list" where
  "carve env j d =
     (case settle_original j d of
        Inl e \<Rightarrow> (Inl e, j, [])
      | Inr es0 \<Rightarrow>
          (case dk_map d of
             None \<Rightarrow> (Inl MapUnreadable, j, es0)
           | Some file \<Rightarrow>
               (let rs = runs_list file
                in case cursor_before rs (length (jn_bom j)) (jn_cut j) of
                     None \<Rightarrow> (Inr (), j, es0)
                   | Some c \<Rightarrow>
                       (case carve_loop env rs c j (run_effects es0 d) of
                          (res, j', es) \<Rightarrow> (res, j', es0 @ es)))))"

section \<open>Undoing\<close>

text \<open>The copy loop of \<open>undo\<close>: alternates between the parts as the runs say. The result carries what was
  written even when a part is too short, or when the loop would spin without advancing.\<close>

function undo_fill ::
  "(bool \<times> nat) list \<Rightarrow> nat \<Rightarrow> nat \<Rightarrow> cursor \<Rightarrow> byte list \<Rightarrow> byte list \<Rightarrow> byte list
     \<Rightarrow> (split_error + cursor) \<times> byte list" where
  "undo_fill rs stop pos c m r out =
     (if stop \<le> pos then (Inr c, out)
      else
        let matched = fst (rs ! cu_index c);
            n = min (cu_end c) stop - pos;
            part = (if matched then m else r)
        in if length part < n then (Inl PartUnreadable, out @ part)
           else
             let out' = out @ take n part;
                 m' = (if matched then drop n m else m);
                 r' = (if matched then r else drop n r)
             in if pos + n = cu_end c \<and> cu_index c + 1 < length rs
                then undo_fill rs stop (pos + n)
                       \<lparr>cu_index = cu_index c + 1, cu_start = cu_end c,
                        cu_end = cu_end c + snd (rs ! (cu_index c + 1))\<rparr> m' r' out'
                else if n = 0 then (Inl NeverEnds, out)
                else undo_fill rs stop (pos + n) c m' r' out')"
  by pat_completeness auto
termination
  by (relation "measure (\<lambda>(rs, stop, pos, c, m, r, out). (stop - pos) + (length rs - cu_index c))") auto

declare undo_fill.simps [simp del]

definition undo_chunk ::
  "(bool \<times> nat) list \<Rightarrow> cursor option \<Rightarrow> journal \<Rightarrow> disk \<Rightarrow> (split_error + cursor) \<times> journal \<times> effect list" where
  "undo_chunk rs place j d =
     (let chunk = last (jn_chunks j);
          index = length (jn_chunks j) - 1
      in case place of
           None \<Rightarrow> (Inl ProgressMismatch, j, [])
         | Some c \<Rightarrow>
             if ck_start chunk \<noteq> jn_cut j then (Inl ProgressMismatch, j, [])
             else case (dk_part d (index, True), dk_part d (index, False)) of
                    (Some m, Some r) \<Rightarrow>
                      (let (res, out) = undo_fill rs (ck_end chunk) (ck_start chunk) c m r [];
                           j' = j\<lparr>jn_chunks := butlast (jn_chunks j), jn_cut := ck_end chunk\<rparr>
                       in case res of
                            Inl e \<Rightarrow> (Inl e, j, [WriteBack (ck_start chunk) out])
                          | Inr c' \<Rightarrow>
                              (Inr c', j', [WriteBack (ck_start chunk) out, SaveJournal j',
                                            RemovePart index True, RemovePart index False]))
                  | _ \<Rightarrow> (Inl PartUnreadable, j, []))"

definition discard :: "effect list" where
  "discard = [RemoveWork, RemoveJournal]"

lemma undo_chunk_chunks:
  "undo_chunk rs place j d = (Inr c', j', es) \<Longrightarrow> jn_chunks j' = butlast (jn_chunks j)"
  by (auto simp: undo_chunk_def Let_def split: option.splits prod.splits if_splits sum.splits)

function (sequential) undo_loop ::
  "(bool \<times> nat) list \<Rightarrow> cursor option \<Rightarrow> journal \<Rightarrow> disk \<Rightarrow> (split_error + unit) \<times> journal \<times> effect list" where
  "undo_loop rs place j d =
     (if jn_chunks j = [] then (Inr (), j, [])
      else case undo_chunk rs place j d of
             (Inl e, j', es) \<Rightarrow> (Inl e, j', es)
           | (Inr c', j', es) \<Rightarrow>
               (case undo_loop rs (Some c') j' (run_effects es d) of
                  (res, j'', es') \<Rightarrow> (res, j'', es @ es')))"
  by pat_completeness auto
termination
proof (relation "measure (\<lambda>(rs, place, j, d). length (jn_chunks j))")
  fix rs place j d x y c' j' es
  assume "jn_chunks j \<noteq> []" and step: "(x, y) = undo_chunk rs place j d" "x = Inr c'" "(j', es) = y"
  then show "((rs, Some c', j', run_effects es d), rs, place, j, d) \<in> measure (\<lambda>(rs, place, j, d). length (jn_chunks j))"
    using undo_chunk_chunks [of rs place j d c' j' es] by auto
qed simp

declare undo_loop.simps [simp del]

definition undo :: "journal \<Rightarrow> disk \<Rightarrow> (split_error + unit) \<times> journal \<times> effect list" where
  "undo j d =
     (case settle_original j d of
        Inl e \<Rightarrow> (Inl e, j, [])
      | Inr es0 \<Rightarrow>
          (case dk_map d of
             None \<Rightarrow> (Inl MapUnreadable, j, es0)
           | Some file \<Rightarrow>
               (let rs = runs_list file;
                    place = cursor_before rs (length (jn_bom j)) (jn_cut j + 1)
                in case undo_loop rs place j (run_effects es0 d) of
                     (Inl e, j', es) \<Rightarrow> (Inl e, j', es0 @ es)
                   | (Inr _, j', es) \<Rightarrow> (Inr (), j', es0 @ es @ discard))))"

section \<open>Assembling\<close>

text \<open>One part appended to the output of its side; \<open>Inl\<close> with the effects done until then.\<close>

definition append_part ::
  "bool \<Rightarrow> journal \<Rightarrow> disk \<Rightarrow> (split_error + unit) \<times> journal \<times> effect list" where
  "append_part b j d =
     (let a = jn_assembled j b;
          index = length (jn_chunks j) - 1 - as_done a;
          chunk = jn_chunks j ! index;
          n = (if b then ck_matched chunk else ck_rest chunk);
          j' = j\<lparr>jn_assembled := (jn_assembled j)(b := a\<lparr>as_done := as_done a + 1, as_len := as_len a + n\<rparr>)\<rparr>
      in case dk_part d (index, b) of
           None \<Rightarrow> (Inl PartUnreadable, j, [])
         | Some part \<Rightarrow>
             if length part < n
             then (Inl PartUnreadable, j, [TruncateOutput b (as_len a), AppendOutput b (as_len a) part])
             else (Inr (), j', [TruncateOutput b (as_len a), AppendOutput b (as_len a) (take n part),
                                SaveJournal j', RemovePart index b]))"

lemma append_part_done:
  "append_part b j d = (Inr u, j', es) \<Longrightarrow> as_done (jn_assembled j' b) = as_done (jn_assembled j b) + 1
     \<and> jn_chunks j' = jn_chunks j"
  by (auto simp: append_part_def Let_def split: option.splits if_splits)

function (sequential) append_parts ::
  "bool \<Rightarrow> journal \<Rightarrow> disk \<Rightarrow> (split_error + unit) \<times> journal \<times> effect list" where
  "append_parts b j d =
     (if length (jn_chunks j) \<le> as_done (jn_assembled j b) then (Inr (), j, [])
      else case append_part b j d of
             (Inl e, j', es) \<Rightarrow> (Inl e, j', es)
           | (Inr _, j', es) \<Rightarrow>
               (case append_parts b j' (run_effects es d) of (res, j'', es') \<Rightarrow> (res, j'', es @ es')))"
  by pat_completeness auto
termination
proof (relation "measure (\<lambda>(b, j, d). length (jn_chunks j) - as_done (jn_assembled j b))")
  fix b j d x y u j' es
  assume "\<not> length (jn_chunks j) \<le> as_done (jn_assembled j b)"
    and "(x, y) = append_part b j d" "x = Inr u" "(j', es) = y"
  then show "((b, j', run_effects es d), b, j, d) \<in> measure (\<lambda>(b, j, d). length (jn_chunks j) - as_done (jn_assembled j b))"
    using append_part_done [of b j d u j' es] by auto
qed simp

declare append_parts.simps [simp del]

definition assemble_side ::
  "bool \<Rightarrow> journal \<Rightarrow> disk \<Rightarrow> (split_error + unit) \<times> journal \<times> effect list" where
  "assemble_side b j d =
     (let j1 = j\<lparr>jn_assembled := (jn_assembled j)(b := \<lparr>as_done = 0, as_len = length (jn_bom j), as_created = True\<rparr>)\<rparr>;
          (j', es0) = (if as_created (jn_assembled j b) then (j, [])
                       else (j1, [CreateOutput b (jn_bom j), SaveJournal j1]));
          d' = run_effects es0 d
      in if dk_output d' b = None then (Inl OutputMissing, j', es0)
         else case append_parts b j' d' of (res, j'', es) \<Rightarrow> (res, j'', es0 @ es))"

definition rename_head :: "journal \<Rightarrow> disk \<Rightarrow> (split_error + unit) \<times> journal \<times> effect list" where
  "rename_head j d =
     (let head = jn_head_matched j;
          j' = j\<lparr>jn_renamed := True,
                 jn_assembled := (jn_assembled j)(head := \<lparr>as_done = 0, as_len = jn_cut j, as_created = True\<rparr>)\<rparr>
      in if jn_renamed j then (Inr (), j, [])
         else if dk_original d \<noteq> None \<or> dk_output d head = None
         then (if dk_original d = None then (Inl OriginalMissing, j, [])
               else (Inr (), j', [RenameOriginal head, SaveJournal j']))
         else (Inr (), j', [SaveJournal j']))"

definition assemble :: "journal \<Rightarrow> disk \<Rightarrow> (split_error + unit) \<times> journal \<times> effect list" where
  "assemble j d =
     (let j0 = j\<lparr>jn_phase := Assemble\<rparr>;
          es0 = (if jn_phase j = Assemble then [] else [SaveJournal j0]);
          d0 = run_effects es0 d
      in case rename_head j0 d0 of
           (Inl e, j1, es1) \<Rightarrow> (Inl e, j1, es0 @ es1)
         | (Inr _, j1, es1) \<Rightarrow>
             (let head = jn_head_matched j1; d1 = run_effects es1 d0
              in case assemble_side head j1 d1 of
                   (Inl e, j2, es2) \<Rightarrow> (Inl e, j2, es0 @ es1 @ es2)
                 | (Inr _, j2, es2) \<Rightarrow>
                     (case assemble_side (\<not> head) j2 (run_effects es2 d1) of
                        (Inl e, j3, es3) \<Rightarrow> (Inl e, j3, es0 @ es1 @ es2 @ es3)
                      | (Inr _, j3, es3) \<Rightarrow> (Inr (), j3, es0 @ es1 @ es2 @ es3 @ discard))))"

section \<open>The head, and what recovery does\<close>

definition locate_head :: "(bool \<times> nat) list \<Rightarrow> journal \<Rightarrow> journal" where
  "locate_head rs j =
     (case rs of
        [] \<Rightarrow> j\<lparr>jn_head_end := jn_original_len j, jn_head_matched := False\<rparr>
      | (matched, n) # _ \<Rightarrow> j\<lparr>jn_head_end := length (jn_bom j) + n, jn_head_matched := matched\<rparr>)"

datatype finish = Separated | Restored split_error | Pending split_error split_error | Discarded

text \<open>\<open>carve_and_finish\<close>: carving and assembling; when carving stops, the original is put back.\<close>

definition carve_and_finish :: "split_env \<Rightarrow> journal \<Rightarrow> disk \<Rightarrow> (split_error + finish) \<times> effect list" where
  "carve_and_finish env j d =
     (case carve env j d of
        (Inr _, j', es) \<Rightarrow>
          (case assemble j' (run_effects es d) of
             (Inr _, _, es') \<Rightarrow> (Inr Separated, es @ es')
           | (Inl e, _, es') \<Rightarrow> (Inl e, es @ es'))
      | (Inl stop, j', es) \<Rightarrow>
          (case undo j' (run_effects es d) of
             (Inr _, _, es') \<Rightarrow> (Inr (Restored stop), es @ es')
           | (Inl e, _, es') \<Rightarrow> (Inr (Pending stop e), es @ es')))"

text \<open>\<open>recover_impl\<close>: carving opens the original first and answers its error; undoing opens it later.\<close>

definition recover :: "split_env \<Rightarrow> bool \<Rightarrow> disk \<Rightarrow> (split_error + finish) \<times> effect list" where
  "recover env undoing d =
     (case dk_journal d of
        None \<Rightarrow> (Inl ProgressMismatch, [])
      | Some j \<Rightarrow>
          (case jn_phase j of
             Decide \<Rightarrow> (Inr Discarded, discard)
           | Carve \<Rightarrow>
               if undoing then
                 (case undo j d of (Inr _, _, es) \<Rightarrow> (Inr Discarded, es) | (Inl e, _, es) \<Rightarrow> (Inl e, es))
               else if dk_original d = None then (Inl OriginalMissing, []) else carve_and_finish env j d
           | Assemble \<Rightarrow>
               (case assemble j d of (Inr _, _, es) \<Rightarrow> (Inr Separated, es) | (Inl e, _, es) \<Rightarrow> (Inl e, es))))"

end
