(* ===== verification/Split_Crash.thy ===== *)
theory Split_Crash
  imports Split_Journal
begin

text \<open>
  Crash safety of the low-space separation. A crash leaves the disk after a prefix of an operation's
  effects, the last one possibly torn. While carving, every such disk still describes the original
  (\<open>good\<close>): the bytes below the cut are in the original and the others in the parts the journal lists.
\<close>

section \<open>Crashes\<close>

text \<open>What is left of a write that was interrupted after \<open>k\<close> bytes.\<close>

fun tear :: "nat \<Rightarrow> effect \<Rightarrow> effect" where
  "tear k (WritePart i b xs) = WritePart i b (take k xs)"
| "tear k (WriteBack pos xs) = WriteBack pos (take k xs)"
| "tear k (CreateOutput b xs) = CreateOutput b (take k xs)"
| "tear k (AppendOutput b pos xs) = AppendOutput b pos (take k xs)"
| "tear k e = e"

inductive crashed :: "effect list \<Rightarrow> disk \<Rightarrow> disk \<Rightarrow> bool" where
  crash_stop: "crashed es d d"
| crash_tear: "crashed (e # es) d (apply_effect (tear k e) d)"
| crash_next: "crashed es (apply_effect e d) d' \<Longrightarrow> crashed (e # es) d d'"

inductive_simps crashed_Nil [simp]: "crashed [] d d'"
inductive_simps crashed_Cons: "crashed (e # es) d d'"

lemma crashed_complete: "crashed es d (run_effects es d)"
  by (induction es arbitrary: d) (auto intro: crashed.intros)

lemma crashed_append: "crashed (es @ fs) d d' \<longleftrightarrow> crashed es d d' \<or> crashed fs (run_effects es d) d'"
  by (induction es arbitrary: d) (auto simp: crashed_Cons intro: crashed.intros)

section \<open>The bytes of an output\<close>

definition flag_at :: "(bool \<times> nat) list \<Rightarrow> nat \<Rightarrow> nat \<Rightarrow> bool" where
  "flag_at rs ds i = expand rs ! (i - ds)"

text \<open>The bytes of \<open>orig\<close> from \<open>lo\<close> to \<open>hi\<close> that the runs give to output \<open>b\<close>, in file order.\<close>

definition pick :: "bool \<Rightarrow> (bool \<times> nat) list \<Rightarrow> nat \<Rightarrow> byte list \<Rightarrow> nat \<Rightarrow> nat \<Rightarrow> byte list" where
  "pick b rs ds orig lo hi = map (\<lambda>i. orig ! i) (filter (\<lambda>i. flag_at rs ds i = b) [lo..<hi])"

lemma pick_split: "lo \<le> mid \<Longrightarrow> mid \<le> hi \<Longrightarrow> pick b rs ds orig lo hi = pick b rs ds orig lo mid @ pick b rs ds orig mid hi"
  unfolding pick_def by (metis filter_append le_add_diff_inverse map_append upt_add_eq_append)

lemma pick_empty [simp]: "hi \<le> lo \<Longrightarrow> pick b rs ds orig lo hi = []"
  by (simp add: pick_def)

lemma map_nth_slice: "hi \<le> length orig \<Longrightarrow> map (\<lambda>i. orig ! i) [lo..<hi] = take (hi - lo) (drop lo orig)"
  by (rule nth_equalityI) simp_all

lemma pick_const:
  assumes "\<forall>i. lo \<le> i \<and> i < hi \<longrightarrow> flag_at rs ds i = f" "hi \<le> length orig"
  shows "pick b rs ds orig lo hi = (if f = b then take (hi - lo) (drop lo orig) else [])"
proof -
  have "filter (\<lambda>i. flag_at rs ds i = b) [lo..<hi] = filter (\<lambda>i. f = b) [lo..<hi]"
    using assms(1) by (intro filter_cong) auto
  then show ?thesis using assms(2) by (simp add: pick_def map_nth_slice)
qed

lemma length_expand: "length (expand rs) = sum_list (map snd rs)"
  by (induction rs) (auto simp: expand_def)

lemma expand_nth_run:
  assumes "k < length rs" "n < snd (rs ! k)"
  shows "expand rs ! (run_start rs k + n) = fst (rs ! k)"
proof -
  obtain f m where fm: "rs ! k = (f, m)" by (cases "rs ! k")
  have "rs = take k rs @ rs ! k # drop (Suc k) rs" using assms(1) by (rule id_take_nth_drop)
  then have "expand rs = expand (take k rs) @ replicate m f @ expand (drop (Suc k) rs)"
    by (metis expand_append expand_simps(2) fm)
  moreover have "length (expand (take k rs)) = run_start rs k" by (simp add: length_expand run_start_def)
  ultimately show ?thesis using assms(2) by (simp add: nth_append fm)
qed

lemma flag_at_cursor:
  assumes "cursor_at rs ds c" "cu_start c \<le> i" "i < cu_end c"
  shows "flag_at rs ds i = fst (rs ! cu_index c)"
proof -
  have k: "cu_index c < length rs" using assms(1) by (simp add: cursor_at_def)
  have "run_start rs (cu_index c) + (i - cu_start c) = i - ds" "i - cu_start c < snd (rs ! cu_index c)"
    using assms by (auto simp: cursor_at_def run_start_Suc)
  then show ?thesis using expand_nth_run [OF k, of "i - cu_start c"] by (simp add: flag_at_def)
qed

section \<open>Pieces cover an interval\<close>

fun covers :: "(bool \<times> nat) list \<Rightarrow> nat \<Rightarrow> nat \<Rightarrow> (bool \<times> nat) list \<Rightarrow> nat \<Rightarrow> bool" where
  "covers rs ds pos [] stop = (pos = stop)"
| "covers rs ds pos ((f, n) # ps) stop =
     ((\<forall>i. pos \<le> i \<and> i < pos + n \<longrightarrow> flag_at rs ds i = f) \<and> covers rs ds (pos + n) ps stop)"

lemma covers_le: "covers rs ds pos ps stop \<Longrightarrow> pos \<le> stop"
  by (induction rs ds pos ps stop rule: covers.induct) auto

lemma cursor_prev:
  assumes "cursor_at rs ds c" "cu_index c \<noteq> 0"
  shows "cursor_at rs ds \<lparr>cu_index = cu_index c - 1, cu_start = cu_start c - snd (rs ! (cu_index c - 1)), cu_end = cu_start c\<rparr>"
proof -
  obtain k where k: "cu_index c = Suc k" using assms(2) not0_implies_Suc by blast
  then show ?thesis using assms(1) run_start_Suc [of k rs] by (simp add: cursor_at_def)
qed

lemma carve_pieces_covers:
  assumes "cursor_at rs ds c" "covers rs ds (min (cu_end c) stop) acc stop" "ds \<le> start"
    "start \<le> cu_end c" "start \<le> stop" "carve_pieces rs start stop c acc = (ps, c')"
  shows "covers rs ds start ps stop \<and> cursor_at rs ds c' \<and> cu_start c' \<le> start \<and> start \<le> cu_end c'"
  using assms
proof (induction rs start stop c acc arbitrary: ps c' rule: carve_pieces.induct)
  case (1 rs start stop c acc)
  let ?ps = "max (cu_start c) start" and ?pe = "min (cu_end c) stop"
  define acc' where "acc' = (if ?ps < ?pe then (fst (rs ! cu_index c), ?pe - ?ps) # acc else acc)"
  have flags: "flag_at rs ds i = fst (rs ! cu_index c)" if "?ps \<le> i" "i < ?pe" for i
    using flag_at_cursor [OF "1.prems"(1)] that by simp
  have next_covers: "covers rs ds (if ?ps < ?pe then ?ps else ?pe) acc' stop"
    using "1.prems"(2) flags by (auto simp: acc'_def)
  have mono: "cu_start c \<le> cu_end c"
    using "1.prems"(1) by (auto simp: cursor_at_def run_start_Suc)
  let ?c = "\<lparr>cu_index = cu_index c - 1, cu_start = cu_start c - snd (rs ! (cu_index c - 1)), cu_end = cu_start c\<rparr>"
  have unfold: "carve_pieces rs start stop c acc
      = (if cu_start c \<le> start \<or> cu_index c = 0 then (acc', c) else carve_pieces rs start stop ?c acc')"
    by (subst carve_pieces.simps) (simp only: Let_def acc'_def)
  show ?case
  proof (cases "cu_start c \<le> start \<or> cu_index c = 0")
    case True
    have z: "cu_start c \<le> start"
      using True "1.prems"(1,3) by (auto simp: cursor_at_def run_start_def)
    then have "(if ?ps < ?pe then ?ps else ?pe) = start" using "1.prems"(4,5) by auto
    moreover have "(ps, c') = (acc', c)"
      using "1.prems"(6) True unfolding unfold by simp
    ultimately show ?thesis using next_covers "1.prems"(1,4) z by simp
  next
    case False
    have rec: "carve_pieces rs start stop ?c acc' = (ps, c')"
      using "1.prems"(6) False unfolding unfold by simp
    have "(if ?ps < ?pe then ?ps else ?pe) = min (cu_end ?c) stop"
      using False mono by auto
    then have "covers rs ds (min (cu_end ?c) stop) acc' stop" using next_covers by simp
    then show ?thesis
      using "1.IH" [OF refl refl refl acc'_def False cursor_prev [OF "1.prems"(1)] _ "1.prems"(3) _ "1.prems"(5) rec] False
      by simp
  qed
qed

lemma fill_parts_covers:
  assumes "covers rs ds pos ps stop" "stop \<le> length xs" "length xs \<le> length orig" "xs = take (length xs) orig"
  shows "fill_parts xs pos ps m r = (True, m @ pick True rs ds orig pos stop, r @ pick False rs ds orig pos stop)
     \<and> piece_bytes b ps = length (pick b rs ds orig pos stop)"
  using assms
proof (induction xs pos ps m r arbitrary: b rule: fill_parts.induct)
  case (2 xs pos f n ps m r)
  have rest: "covers rs ds (pos + n) ps stop" using "2.prems" by simp
  have le: "pos + n \<le> stop" using covers_le [OF rest] .
  have got: "take n (drop pos xs) = take n (drop pos orig)"
    using le "2.prems"(2,4) by (metis (no_types, lifting) add.commute drop_take min.absorb1 le_trans le_diff_conv2 take_take le_add2 diff_le_mono add_diff_cancel_left')
  have const: "pick b' rs ds orig pos (pos + n) = (if f = b' then take n (drop pos orig) else [])" for b'
    using pick_const [of pos "pos + n" rs ds f orig b'] "2.prems" le by simp
  have sp: "pick b' rs ds orig pos stop = pick b' rs ds orig pos (pos + n) @ pick b' rs ds orig (pos + n) stop" for b'
    using le by (intro pick_split) simp_all
  have len: "length (take n (drop pos orig)) = n" using le "2.prems"(2,3) by simp
  show ?case
  proof (cases f)
    case True
    then show ?thesis
      using "2.IH"(1) [OF refl, of b] rest "2.prems"(2-4) got len
      by (auto simp: Let_def sp const piece_bytes_def)
  next
    case False
    then show ?thesis
      using "2.IH"(2) [OF refl, of b] rest "2.prems"(2-4) got len
      by (auto simp: Let_def sp const piece_bytes_def)
  qed
qed (simp add: piece_bytes_def)

end
