(* ===== verification/Split_Carve.thy ===== *)
theory Split_Carve
  imports Split_Crash
begin

text \<open>
  Carving and undoing are safe: every disk that a crash can leave while carving still describes the
  original, and \<open>undo\<close> from any of them puts it back byte for byte.
\<close>

section \<open>What the disk says while carving\<close>

text \<open>The file being separated: its bytes, its mark, and the decision map.\<close>

record source =
  so_bytes :: "byte list"
  so_bom :: "byte list"
  so_map :: "byte list"

definition so_runs :: "source \<Rightarrow> (bool \<times> nat) list" where
  "so_runs S = runs_list (so_map S)"

definition so_start :: "source \<Rightarrow> nat" where
  "so_start S = length (so_bom S)"

definition head_end :: "source \<Rightarrow> nat" where
  "head_end S = so_start S + snd (hd (so_runs S))"

definition side :: "source \<Rightarrow> bool \<Rightarrow> nat \<Rightarrow> nat \<Rightarrow> byte list" where
  "side S b lo hi = pick b (so_runs S) (so_start S) (so_bytes S) lo hi"

definition source_ok :: "source \<Rightarrow> bool" where
  "source_ok S \<longleftrightarrow> take (so_start S) (so_bytes S) = so_bom S \<and> so_runs S \<noteq> []
     \<and> length (so_bytes S) = so_start S + sum_list (map snd (so_runs S))
     \<and> (\<forall>r \<in> set (so_runs S). 0 < snd r)"

text \<open>Chunks lie one before the other, from the end of the file down to the cut.\<close>

fun spans :: "nat \<Rightarrow> chunk list \<Rightarrow> nat \<Rightarrow> bool" where
  "spans e [] low = (low = e)"
| "spans e (c # cs) low = (ck_end c = e \<and> ck_start c < e \<and> spans (ck_start c) cs low)"

lemma spans_snoc: "spans e (cs @ [c]) low \<longleftrightarrow> spans e cs (ck_end c) \<and> ck_start c < ck_end c \<and> low = ck_start c"
  by (induction e cs low rule: spans.induct) auto

lemma spans_le: "spans e cs low \<Longrightarrow> low \<le> e"
  by (induction e cs low rule: spans.induct) auto

lemma spans_last:
  assumes "spans e cs low" "cs \<noteq> []"
  shows "spans e (butlast cs) (ck_end (last cs))" "low < ck_end (last cs)" "ck_start (last cs) = low"
    "ck_end (last cs) \<le> e"
proof -
  have "spans e (butlast cs @ [last cs]) low" using assms by simp
  then show "spans e (butlast cs) (ck_end (last cs))" "low < ck_end (last cs)" "ck_start (last cs) = low"
    unfolding spans_snoc by auto
  from this(1) show "ck_end (last cs) \<le> e" by (rule spans_le)
qed

definition chunks_ok :: "source \<Rightarrow> chunk list \<Rightarrow> nat \<Rightarrow> bool" where
  "chunks_ok S cs low \<longleftrightarrow> spans (length (so_bytes S)) cs low
     \<and> (\<forall>c \<in> set cs. ck_matched c = length (side S True (ck_start c) (ck_end c))
          \<and> ck_rest c = length (side S False (ck_start c) (ck_end c)))"

definition carving :: "source \<Rightarrow> journal \<Rightarrow> bool" where
  "carving S j \<longleftrightarrow> jn_bom j = so_bom S \<and> jn_original_len j = length (so_bytes S) \<and> jn_phase j = Carve
     \<and> jn_head_end j = head_end S \<and> jn_head_matched j = fst (hd (so_runs S)) \<and> \<not> jn_renamed j
     \<and> (\<forall>b. \<not> as_created (jn_assembled j b)) \<and> chunks_ok S (jn_chunks j) (jn_cut j)
     \<and> head_end S \<le> jn_cut j"

definition parts_at :: "source \<Rightarrow> journal \<Rightarrow> disk \<Rightarrow> bool" where
  "parts_at S j d \<longleftrightarrow> (\<forall>i b. i < length (jn_chunks j) \<longrightarrow>
     dk_part d (i, b) = Some (side S b (ck_start (jn_chunks j ! i)) (ck_end (jn_chunks j ! i))))"

text \<open>The journal \<open>j\<close> is saved, the parts it lists are there, and the original is cut at \<open>n\<close>.\<close>

definition holds :: "source \<Rightarrow> journal \<Rightarrow> nat \<Rightarrow> disk \<Rightarrow> bool" where
  "holds S j n d \<longleftrightarrow> carving S j \<and> parts_at S j d \<and> dk_map d = Some (so_map S) \<and> dk_journal d = Some j
     \<and> dk_original d = Some (take n (so_bytes S))"

definition cut_or_late :: "journal \<Rightarrow> nat \<Rightarrow> bool" where
  "cut_or_late j n \<longleftrightarrow> n = jn_cut j \<or> jn_chunks j \<noteq> [] \<and> n = ck_end (last (jn_chunks j))"

definition good :: "source \<Rightarrow> disk \<Rightarrow> bool" where
  "good S d \<longleftrightarrow> (\<exists>j n. holds S j n d \<and> cut_or_late j n)"

lemma carving_cut: "carving S j \<Longrightarrow> jn_cut j \<le> length (so_bytes S)"
  using spans_le by (auto simp: carving_def chunks_ok_def)

lemma holds_good: "holds S j (jn_cut j) d \<Longrightarrow> good S d"
  by (auto simp: good_def cut_or_late_def)

lemma side_split: "lo \<le> mid \<Longrightarrow> mid \<le> hi \<Longrightarrow> side S b lo hi = side S b lo mid @ side S b mid hi"
  unfolding side_def by (rule pick_split)

lemma set_len_take: "m \<le> n \<Longrightarrow> n \<le> length xs \<Longrightarrow> set_len m (take n xs) = take m xs"
  by (simp add: set_len_def min_def)

section \<open>Settling\<close>

lemma settle_ok:
  assumes "holds S j n d" "cut_or_late j n"
  shows "\<exists>es. settle_original j d = Inr es \<and> holds S j (jn_cut j) (run_effects es d)
    \<and> (\<forall>d'. crashed es d d' \<longrightarrow> good S d')"
proof -
  have o: "dk_original d = Some (take n (so_bytes S))" and c: "carving S j"
    using assms(1) by (simp_all add: holds_def)
  have sp: "spans (length (so_bytes S)) (jn_chunks j) (jn_cut j)"
    using c by (simp add: carving_def chunks_ok_def)
  have g: "good S d" using assms by (auto simp: good_def)
  show ?thesis
  proof (cases "n = jn_cut j")
    case True
    then have "settle_original j d = Inr []"
      using o carving_cut [OF c] by (simp add: settle_original_def)
    then show ?thesis using assms(1) True g by simp
  next
    case False
    then have late: "jn_chunks j \<noteq> []" "n = ck_end (last (jn_chunks j))"
      using assms(2) by (auto simp: cut_or_late_def)
    note L = spans_last [OF sp late(1)]
    have len: "length (take n (so_bytes S)) = n" using L(4) late(2) by simp
    then have s: "settle_original j d = Inr [Truncate (jn_cut j)]"
      using False late L o by (simp add: settle_original_def)
    have "set_len (jn_cut j) (take n (so_bytes S)) = take (jn_cut j) (so_bytes S)"
      using L(2,4) late(2) by (intro set_len_take) simp_all
    then have h: "holds S j (jn_cut j) (apply_effect (Truncate (jn_cut j)) d)"
      using assms(1) o by (simp add: holds_def parts_at_def)
    then show ?thesis
      using s g holds_good [OF h] by (auto simp: crashed_Cons)
  qed
qed

section \<open>One chunk\<close>

lemma holds_new_part:
  "holds S j n d \<Longrightarrow> length (jn_chunks j) \<le> i \<Longrightarrow> holds S j n (apply_effect (WritePart i b xs) d)"
  by (simp add: holds_def parts_at_def)

definition cursor_on :: "source \<Rightarrow> nat \<Rightarrow> cursor \<Rightarrow> bool" where
  "cursor_on S pos c \<longleftrightarrow> cursor_at (so_runs S) (so_start S) c \<and> cu_start c \<le> pos \<and> pos \<le> cu_end c"

lemma carve_chunk_step:
  assumes S: "source_ok S" and h: "holds S j (jn_cut j) d" and c: "cursor_on S (jn_cut j) c"
    and low: "head_end S < jn_cut j" and quota: "0 < quota"
  shows "\<exists>c' j' es. carve_chunk quota (so_runs S) c j d = (Inr c', j', es)
    \<and> holds S j' (jn_cut j') (run_effects es d) \<and> cursor_on S (jn_cut j') c'
    \<and> (\<forall>d'. crashed es d d' \<longrightarrow> good S d')"
proof -
  let ?rs = "so_runs S" and ?ds = "so_start S" and ?xs = "take (jn_cut j) (so_bytes S)"
  define start where "start = max (jn_cut j - quota) (jn_head_end j)"
  obtain ps c' where pc: "carve_pieces ?rs start (jn_cut j) c [] = (ps, c')" by fastforce
  have car: "carving S j" and o: "dk_original d = Some ?xs" using h by (simp_all add: holds_def)
  have he: "jn_head_end j = head_end S" using car by (simp add: carving_def)
  have start: "head_end S \<le> start" "start < jn_cut j" "?ds \<le> start"
    using low quota by (auto simp: start_def he head_end_def)
  have cut: "jn_cut j \<le> length (so_bytes S)" using carving_cut [OF car] .
  have cov: "covers ?rs ?ds start ps (jn_cut j) \<and> cursor_at ?rs ?ds c' \<and> cu_start c' \<le> start \<and> start \<le> cu_end c'"
    using c start by (intro carve_pieces_covers [OF _ _ _ _ _ pc]) (auto simp: cursor_on_def)
  have len: "length ?xs = jn_cut j" using cut by simp
  have fill: "fill_parts ?xs start ps [] [] = (True, side S True start (jn_cut j), side S False start (jn_cut j))"
    and bytes: "piece_bytes b ps = length (side S b start (jn_cut j))" for b
    using fill_parts_covers [OF conjunct1 [OF cov], of ?xs "so_bytes S" "[]" "[]"] len cut
    by (simp_all add: side_def)
  define ck where "ck = \<lparr>ck_start = start, ck_end = jn_cut j, ck_matched = piece_bytes True ps, ck_rest = piece_bytes False ps\<rparr>"
  define j' where "j' = j\<lparr>jn_chunks := jn_chunks j @ [ck], jn_cut := start\<rparr>"
  define i where "i = length (jn_chunks j)"
  let ?wm = "WritePart i True (side S True start (jn_cut j))"
  let ?wr = "WritePart i False (side S False start (jn_cut j))"
  have step: "carve_chunk quota ?rs c j d = (Inr c', j', [?wm, ?wr, SaveJournal j', Truncate start])"
    using pc fill len by (simp add: carve_chunk_def o start_def [symmetric] i_def j'_def ck_def Let_def)
  have car': "carving S j'"
    using car start by (simp add: carving_def j'_def chunks_ok_def spans_snoc ck_def bytes)
  let ?d1 = "\<lambda>xs. apply_effect (WritePart i True xs) d"
  let ?d2 = "\<lambda>xs. apply_effect (WritePart i False xs) (apply_effect ?wm d)"
  have h1: "holds S j (jn_cut j) (?d1 xs)" and h2: "holds S j (jn_cut j) (?d2 xs)" for xs
    using h by (auto intro!: holds_new_part simp del: apply_effect.simps simp: i_def)
  let ?d3 = "apply_effect (SaveJournal j') (apply_effect ?wr (apply_effect ?wm d))"
  have parts: "parts_at S j' ?d3"
    using h by (auto simp: holds_def parts_at_def j'_def i_def ck_def nth_append less_Suc_eq)
  have h3: "holds S j' (jn_cut j) ?d3"
    using car' parts h by (simp add: holds_def)
  have "set_len start ?xs = take start (so_bytes S)" using start(2) cut by (intro set_len_take) simp_all
  then have h4: "holds S j' (jn_cut j') (apply_effect (Truncate start) ?d3)"
    using h3 o by (simp add: holds_def parts_at_def j'_def)
  have "cut_or_late j' (jn_cut j)" by (simp add: cut_or_late_def j'_def ck_def)
  with h3 have g3: "good S ?d3" unfolding good_def by blast
  have "good S d'" if "crashed [?wm, ?wr, SaveJournal j', Truncate start] d d'" for d'
    using that holds_good [OF h] holds_good [OF h1] holds_good [OF h2] g3 holds_good [OF h4]
    unfolding crashed_Cons crashed_Nil tear.simps by blast
  moreover have "cursor_on S (jn_cut j') c'" using cov by (simp add: cursor_on_def j'_def)
  ultimately show ?thesis using step h4 by (intro exI) auto
qed

section \<open>The whole carving\<close>

lemma carve_loop_safe:
  assumes "source_ok S" "holds S j (jn_cut j) d" "cursor_on S (jn_cut j) c"
    and "carve_loop env (so_runs S) c j d = (res, j', es)"
  shows "holds S j' (jn_cut j') (run_effects es d) \<and> (\<forall>d'. crashed es d d' \<longrightarrow> good S d')
    \<and> (res = Inr () \<longrightarrow> jn_cut j' = head_end S) \<and> (\<forall>e. res = Inl e \<longrightarrow> e = SplitCancelled \<or> e = NoSpace)"
  using assms
proof (induction env "so_runs S" c j d arbitrary: res j' es rule: carve_loop.induct)
  case (1 env c j d)
  have he: "jn_head_end j = head_end S" "head_end S \<le> jn_cut j"
    using "1.prems"(2) by (simp_all add: holds_def carving_def)
  have g: "good S d" using holds_good "1.prems"(2) by blast
  consider (finished) "jn_cut j \<le> jn_head_end j" | (cancel) "\<not> jn_cut j \<le> jn_head_end j" "fst (env (jn_cut j))"
    | (space) e where "\<not> jn_cut j \<le> jn_head_end j" "\<not> fst (env (jn_cut j))" "chunk_size (snd (env (jn_cut j))) = Inl e"
    | (go) quota where "\<not> jn_cut j \<le> jn_head_end j" "\<not> fst (env (jn_cut j))" "chunk_size (snd (env (jn_cut j))) = Inr quota"
    by (cases "chunk_size (snd (env (jn_cut j)))") auto
  then show ?case
  proof cases
    case finished
    then have "carve_loop env (so_runs S) c j d = (Inr (), j, [])" by (simp add: carve_loop.simps)
    then show ?thesis using "1.prems" he g finished by auto
  next
    case cancel
    then have "carve_loop env (so_runs S) c j d = (Inl SplitCancelled, j, [])" by (simp add: carve_loop.simps)
    then show ?thesis using "1.prems" g by auto
  next
    case (space e)
    then have "e = NoSpace" by (simp add: chunk_size_def Let_def split: if_splits)
    with space have "carve_loop env (so_runs S) c j d = (Inl NoSpace, j, [])" by (simp add: carve_loop.simps)
    then show ?thesis using "1.prems" g by auto
  next
    case (go quota)
    obtain c1 j1 es1 where step: "carve_chunk quota (so_runs S) c j d = (Inr c1, j1, es1)"
      and st: "holds S j1 (jn_cut j1) (run_effects es1 d)" "cursor_on S (jn_cut j1) c1" "\<forall>d'. crashed es1 d d' \<longrightarrow> good S d'"
      using carve_chunk_step [OF "1.prems"(1-3) _ chunk_size_pos [OF go(3)]] go(1) he by auto
    obtain es2 where rec: "carve_loop env (so_runs S) c1 j1 (run_effects es1 d) = (res, j', es2)" and es: "es = es1 @ es2"
      using "1.prems"(4) go step by (auto simp: carve_loop.simps [of env _ c j d] split: prod.splits)
    have "holds S j' (jn_cut j') (run_effects es2 (run_effects es1 d))
      \<and> (\<forall>d'. crashed es2 (run_effects es1 d) d' \<longrightarrow> good S d')
      \<and> (res = Inr () \<longrightarrow> jn_cut j' = head_end S) \<and> (\<forall>e. res = Inl e \<longrightarrow> e = SplitCancelled \<or> e = NoSpace)"
      by (rule "1.hyps" [OF go(1,2,3) step [symmetric] refl refl "1.prems"(1) st(1,2) rec])
    then show ?thesis using st(3) by (auto simp: es crashed_append)
  qed
qed

lemma source_total: "source_ok S \<Longrightarrow> length (so_bytes S) = so_start S + sum_list (map snd (so_runs S))"
  by (simp add: source_ok_def)

lemma cursor_found:
  assumes "source_ok S" "pos \<le> length (so_bytes S)"
  shows "\<exists>c. cursor_before (so_runs S) (so_start S) pos = Some c \<and> cursor_at (so_runs S) (so_start S) c
    \<and> pos \<le> cu_end c \<and> (0 < cu_index c \<longrightarrow> cu_start c < pos)"
  using cursor_before_total [of "so_runs S" pos "so_start S"] assms cursor_before_Some
  by (fastforce simp: source_ok_def)

lemma carve_safe:
  assumes S: "source_ok S" and h: "holds S j n d" "cut_or_late j n" and r: "carve env j d = (res, j', es)"
  shows "holds S j' (jn_cut j') (run_effects es d) \<and> (\<forall>d'. crashed es d d' \<longrightarrow> good S d')
    \<and> (res = Inr () \<longrightarrow> jn_cut j' = head_end S) \<and> (\<forall>e. res = Inl e \<longrightarrow> e = SplitCancelled \<or> e = NoSpace)"
proof -
  obtain es0 where s: "settle_original j d = Inr es0" "holds S j (jn_cut j) (run_effects es0 d)"
    "\<forall>d'. crashed es0 d d' \<longrightarrow> good S d'"
    using settle_ok [OF h] by blast
  have car: "carving S j" and m: "dk_map d = Some (so_map S)" using h(1) by (simp_all add: holds_def)
  then have cut: "jn_cut j \<le> length (so_bytes S)" and lo: "so_start S \<le> jn_cut j" and bom: "length (jn_bom j) = so_start S"
    using carving_cut by (auto simp: carving_def head_end_def so_start_def)
  obtain c where c: "cursor_before (so_runs S) (so_start S) (jn_cut j) = Some c" "cursor_at (so_runs S) (so_start S) c"
    "jn_cut j \<le> cu_end c" "0 < cu_index c \<longrightarrow> cu_start c < jn_cut j"
    using cursor_found [OF S cut] by (elim exE conjE)
  have "cu_start c \<le> jn_cut j"
    using c(2,4) lo by (cases "cu_index c") (auto simp: cursor_at_def run_start_def)
  then have on: "cursor_on S (jn_cut j) c" using c by (simp add: cursor_on_def)
  obtain es1 where l: "carve_loop env (so_runs S) c j (run_effects es0 d) = (res, j', es1)" and es: "es = es0 @ es1"
    using r s(1) m c(1) by (auto simp: carve_def Let_def so_runs_def [symmetric] bom split: prod.splits)
  show ?thesis
    using carve_loop_safe [OF S s(2) on l] s(3) by (auto simp: es crashed_append)
qed

end
