(* ===== verification/Split_Undo.thy ===== *)
theory Split_Undo
  imports Split_Carve
begin

text \<open>
  \<open>undo\<close> restores the original byte for byte from every disk that carving can leave, crashes included.
  It is itself safe against crashes between its writes, but not against one inside a write: the
  original is then longer than the journal's cut by part of a chunk, \<open>settle_original\<close> takes that for
  a change made by another program, and neither recovery starts any more (\<open>torn_undo_is_stuck\<close>).
\<close>

section \<open>Copying the parts back\<close>

text \<open>The cursor of \<open>undo\<close>: on the run of the byte at \<open>pos\<close>, or at the end of the last run.\<close>

definition cursor_ahead :: "source \<Rightarrow> nat \<Rightarrow> cursor \<Rightarrow> bool" where
  "cursor_ahead S pos c \<longleftrightarrow> cursor_at (so_runs S) (so_start S) c \<and> cu_start c \<le> pos
     \<and> (pos < cu_end c \<or> pos = cu_end c \<and> cu_index c + 1 = length (so_runs S))"

lemma cursor_next:
  assumes "cursor_at rs ds c" "cu_index c + 1 < length rs"
  shows "cursor_at rs ds \<lparr>cu_index = cu_index c + 1, cu_start = cu_end c, cu_end = cu_end c + snd (rs ! (cu_index c + 1))\<rparr>"
  using assms by (simp add: cursor_at_def run_start_Suc)

lemma cursor_last_end:
  assumes "source_ok S" "cursor_at (so_runs S) (so_start S) c" "cu_index c + 1 = length (so_runs S)"
  shows "cu_end c = length (so_bytes S)"
  using assms by (simp add: cursor_at_def source_ok_def run_start_def)

lemma side_run:
  assumes "cursor_at (so_runs S) (so_start S) c" "cu_start c \<le> lo" "hi \<le> cu_end c" "hi \<le> length (so_bytes S)"
  shows "side S b lo hi = (if fst (so_runs S ! cu_index c) = b then take (hi - lo) (drop lo (so_bytes S)) else [])"
  unfolding side_def using assms flag_at_cursor [OF assms(1)] by (intro pick_const) auto

lemma take_drop_split: "lo \<le> mid \<Longrightarrow> mid \<le> hi \<Longrightarrow> hi \<le> length xs \<Longrightarrow>
    take (hi - lo) (drop lo xs) = take (mid - lo) (drop lo xs) @ take (hi - mid) (drop mid xs)"
proof -
  assume a: "lo \<le> mid" "mid \<le> hi" "hi \<le> length xs"
  have "take ((mid - lo) + (hi - mid)) (drop lo xs)
      = take (mid - lo) (drop lo xs) @ take (hi - mid) (drop (mid - lo) (drop lo xs))"
    by (rule take_add)
  then show ?thesis using a by simp
qed

lemma undo_fill_restores:
  assumes S: "source_ok S" and stop: "pos \<le> stop" "stop \<le> length (so_bytes S)"
    and c: "cursor_ahead S pos c" and m: "m = side S True pos stop" and r: "r = side S False pos stop"
  shows "\<exists>c'. undo_fill (so_runs S) stop pos c m r out = (Inr c', out @ take (stop - pos) (drop pos (so_bytes S)))
    \<and> cursor_ahead S stop c'"
  using assms(2-)
proof (induction "so_runs S" stop pos c m r out rule: undo_fill.induct)
  case (1 stop pos c m r out)
  show ?case
  proof (cases "stop \<le> pos")
    case True
    then show ?thesis using "1.prems" by (simp add: undo_fill.simps)
  next
    case False
    let ?rs = "so_runs S"
    have at: "cursor_at ?rs (so_start S) c" "cu_start c \<le> pos" using "1.prems" by (simp_all add: cursor_ahead_def)
    have inside: "pos < cu_end c"
      using "1.prems"(2,3) False cursor_last_end [OF S at(1)] by (auto simp: cursor_ahead_def)
    define n where "n = min (cu_end c) stop - pos"
    have n: "0 < n" "pos + n \<le> stop" "pos + n \<le> cu_end c" using inside False by (auto simp: n_def)
    define f where "f = fst (?rs ! cu_index c)"
    let ?got = "take n (drop pos (so_bytes S))"
    have here: "side S b pos (pos + n) = (if f = b then ?got else [])" for b
      using side_run [OF at, of "pos + n" b] n "1.prems"(2) by (simp add: f_def)
    have split: "side S b pos stop = side S b pos (pos + n) @ side S b (pos + n) stop" for b
      using n by (intro side_split) simp_all
    have len: "length ?got = n" using n "1.prems"(2) by simp
    let ?part = "if f then m else r" and ?m = "if f then drop n m else m" and ?r = "if f then r else drop n r"
    have part: "\<not> length ?part < n" "take n ?part = ?got" "?m = side S True (pos + n) stop" "?r = side S False (pos + n) stop"
      using "1.prems"(4,5) len by (auto simp: split here)
    have out: "out @ take (stop - pos) (drop pos (so_bytes S))
        = (out @ ?got) @ take (stop - (pos + n)) (drop (pos + n) (so_bytes S))"
      using take_drop_split [of pos "pos + n" stop "so_bytes S"] n "1.prems"(2) by simp
    note defs = f_def n_def part(2)
    show ?thesis
    proof (cases "pos + n = cu_end c \<and> cu_index c + 1 < length ?rs")
      case True
      let ?c = "\<lparr>cu_index = cu_index c + 1, cu_start = cu_end c, cu_end = cu_end c + snd (?rs ! (cu_index c + 1))\<rparr>"
      have "0 < snd (?rs ! (cu_index c + 1))" using S True by (simp add: source_ok_def)
      then have ahead: "cursor_ahead S (pos + n) ?c"
        using cursor_next [OF at(1)] True by (simp add: cursor_ahead_def)
      have "undo_fill ?rs stop pos c m r out = undo_fill ?rs stop (pos + n) ?c ?m ?r (out @ ?got)"
        using False True part(1,2) by (subst undo_fill.simps) (simp add: Let_def f_def [symmetric] n_def [symmetric])
      then show ?thesis
        using "1.hyps"(1) [OF False f_def n_def refl _ refl refl refl True n(2) "1.prems"(2) ahead] part out
        by auto
    next
      case last: False
      have ahead: "cursor_ahead S (pos + n) c"
        using at n last False by (auto simp: cursor_ahead_def cursor_at_def n_def)
      have "undo_fill ?rs stop pos c m r out = undo_fill ?rs stop (pos + n) c ?m ?r (out @ ?got)"
        using False last part(1,2) n(1)
        by (subst undo_fill.simps) (auto simp: Let_def f_def [symmetric] n_def [symmetric])
      then show ?thesis
        using "1.hyps"(2) [OF False f_def n_def refl _ refl refl refl last _ n(2) "1.prems"(2) ahead] part out n(1)
        by auto
    qed
  qed
qed

section \<open>One chunk back\<close>

text \<open>The one state recovery cannot leave: the original ends inside the last chunk.\<close>

definition torn :: "source \<Rightarrow> disk \<Rightarrow> bool" where
  "torn S d \<longleftrightarrow> (\<exists>j n. holds S j n d \<and> jn_chunks j \<noteq> [] \<and> jn_cut j < n \<and> n < ck_end (last (jn_chunks j)))"

lemma write_back:
  assumes "lo \<le> length xs" "k \<le> length xs - lo"
  shows "write_at lo (take k (drop lo xs)) (take lo xs) = take (lo + k) xs"
  using assms by (auto simp: write_at_def set_len_def take_add min_def)

lemma holds_last:
  assumes "holds S j n d" "jn_chunks j \<noteq> []"
  shows "ck_start (last (jn_chunks j)) = jn_cut j" "jn_cut j < ck_end (last (jn_chunks j))"
    "ck_end (last (jn_chunks j)) \<le> length (so_bytes S)"
    "dk_part d (length (jn_chunks j) - 1, b) = Some (side S b (jn_cut j) (ck_end (last (jn_chunks j))))"
proof -
  have sp: "spans (length (so_bytes S)) (jn_chunks j) (jn_cut j)"
    using assms(1) by (simp add: holds_def carving_def chunks_ok_def)
  note L = spans_last [OF sp assms(2)]
  show "ck_start (last (jn_chunks j)) = jn_cut j" "jn_cut j < ck_end (last (jn_chunks j))"
    "ck_end (last (jn_chunks j)) \<le> length (so_bytes S)" using L by simp_all
  show "dk_part d (length (jn_chunks j) - 1, b) = Some (side S b (jn_cut j) (ck_end (last (jn_chunks j))))"
    using assms L by (simp add: holds_def parts_at_def last_conv_nth)
qed

lemma carving_butlast:
  assumes "carving S j" "jn_chunks j \<noteq> []"
  shows "carving S (j\<lparr>jn_chunks := butlast (jn_chunks j), jn_cut := ck_end (last (jn_chunks j))\<rparr>)"
proof -
  have sp: "spans (length (so_bytes S)) (jn_chunks j) (jn_cut j)"
    using assms(1) by (simp add: carving_def chunks_ok_def)
  show ?thesis
    using assms spans_last [OF sp assms(2)] by (auto simp: carving_def chunks_ok_def dest: in_set_butlastD)
qed

text \<open>The effects of putting one chunk back, named for the proofs below.\<close>

definition undone :: "journal \<Rightarrow> journal" where
  "undone j = j\<lparr>jn_chunks := butlast (jn_chunks j), jn_cut := ck_end (last (jn_chunks j))\<rparr>"

definition chunk_bytes :: "source \<Rightarrow> journal \<Rightarrow> byte list" where
  "chunk_bytes S j = take (ck_end (last (jn_chunks j)) - jn_cut j) (drop (jn_cut j) (so_bytes S))"

definition undo_effects :: "source \<Rightarrow> journal \<Rightarrow> effect list" where
  "undo_effects S j = [WriteBack (jn_cut j) (chunk_bytes S j), SaveJournal (undone j),
     RemovePart (length (jn_chunks j) - 1) True, RemovePart (length (jn_chunks j) - 1) False]"

lemma undo_chunk_result:
  assumes S: "source_ok S" and h: "holds S j (jn_cut j) d" and ne: "jn_chunks j \<noteq> []"
    and c: "cursor_ahead S (jn_cut j) c"
  shows "\<exists>c'. undo_chunk (so_runs S) (Some c) j d = (Inr c', undone j, undo_effects S j)
    \<and> cursor_ahead S (jn_cut (undone j)) c'"
proof -
  note L = holds_last [OF h ne]
  obtain c' where f: "undo_fill (so_runs S) (ck_end (last (jn_chunks j))) (jn_cut j) c
      (side S True (jn_cut j) (ck_end (last (jn_chunks j)))) (side S False (jn_cut j) (ck_end (last (jn_chunks j)))) []
      = (Inr c', chunk_bytes S j)" and a: "cursor_ahead S (ck_end (last (jn_chunks j))) c'"
    using undo_fill_restores [OF S less_imp_le [OF L(2)] L(3) c refl refl, of "[]"]
    by (auto simp: chunk_bytes_def)
  have "undo_chunk (so_runs S) (Some c) j d = (Inr c', undone j, undo_effects S j)"
    using f by (simp add: undo_chunk_def Let_def L(1,4) undone_def undo_effects_def del: One_nat_def)
  then show ?thesis using a by (simp add: undone_def)
qed

lemma torn_write:
  assumes h: "holds S j (jn_cut j) d" and ne: "jn_chunks j \<noteq> []" and k: "k \<le> length (chunk_bytes S j)"
  shows "holds S j (jn_cut j + k) (apply_effect (WriteBack (jn_cut j) (take k (chunk_bytes S j))) d)"
proof -
  note L = holds_last [OF h ne]
  have len: "length (chunk_bytes S j) = ck_end (last (jn_chunks j)) - jn_cut j"
    using L by (simp add: chunk_bytes_def)
  have "take k (chunk_bytes S j) = take k (drop (jn_cut j) (so_bytes S))"
    using k len by (simp add: chunk_bytes_def min_def)
  then have "write_at (jn_cut j) (take k (chunk_bytes S j)) (take (jn_cut j) (so_bytes S)) = take (jn_cut j + k) (so_bytes S)"
    using write_back [of "jn_cut j" "so_bytes S" k] k len L by simp
  then show ?thesis using h by (simp add: holds_def parts_at_def)
qed

lemma undo_chunk_step:
  assumes h: "holds S j (jn_cut j) d" and ne: "jn_chunks j \<noteq> []"
  shows "holds S (undone j) (jn_cut (undone j)) (run_effects (undo_effects S j) d)
    \<and> (\<forall>d'. crashed (undo_effects S j) d d' \<longrightarrow> good S d' \<or> torn S d')"
proof -
  note L = holds_last [OF h ne]
  let ?stop = "ck_end (last (jn_chunks j))" and ?i = "length (jn_chunks j) - 1"
  have len: "length (chunk_bytes S j) = ?stop - jn_cut j" using L by (simp add: chunk_bytes_def)
  let ?w = "\<lambda>k. apply_effect (WriteBack (jn_cut j) (take k (chunk_bytes S j))) d"
  have part: "good S (?w k) \<or> torn S (?w k)" for k
  proof -
    have eq: "take k (chunk_bytes S j) = take (min k (length (chunk_bytes S j))) (chunk_bytes S j)"
      by (cases "k \<le> length (chunk_bytes S j)") (simp_all add: min_def)
    have hold: "holds S j (jn_cut j + min k (length (chunk_bytes S j))) (?w k)"
      unfolding eq by (rule torn_write [OF h ne]) simp
    show ?thesis
    proof (cases "k = 0 \<or> length (chunk_bytes S j) \<le> k")
      case True
      then have "cut_or_late j (jn_cut j + min k (length (chunk_bytes S j)))"
        using ne len L(2) by (auto simp: cut_or_late_def)
      then show ?thesis using hold unfolding good_def by blast
    next
      case False
      then have "jn_cut j < jn_cut j + min k (length (chunk_bytes S j))"
        "jn_cut j + min k (length (chunk_bytes S j)) < ?stop"
        using len L(2) by auto
      then show ?thesis using hold ne unfolding torn_def by blast
    qed
  qed
  have whole: "take (length (chunk_bytes S j)) (chunk_bytes S j) = chunk_bytes S j" by simp
  define d1 where "d1 = apply_effect (WriteBack (jn_cut j) (chunk_bytes S j)) d"
  have h1: "holds S j ?stop d1"
    using torn_write [OF h ne, of "length (chunk_bytes S j)"] len L(2) unfolding whole d1_def by simp
  have car: "carving S (undone j)"
    using carving_butlast [OF _ ne] h by (simp add: holds_def undone_def)
  define d2 where "d2 = apply_effect (SaveJournal (undone j)) d1"
  have h2: "holds S (undone j) (jn_cut (undone j)) d2"
    using h1 car by (simp add: d2_def holds_def parts_at_def undone_def nth_butlast)
  have h3: "holds S (undone j) (jn_cut (undone j)) (apply_effect (RemovePart ?i True) d2)"
    using h2 by (simp add: holds_def parts_at_def undone_def)
  have h4: "holds S (undone j) (jn_cut (undone j)) (apply_effect (RemovePart ?i False) (apply_effect (RemovePart ?i True) d2))"
    using h2 by (simp add: holds_def parts_at_def undone_def)
  have "good S d' \<or> torn S d'" if "crashed (undo_effects S j) d d'" for d'
    using that part holds_good [OF h] part [of "length (chunk_bytes S j)"] holds_good [OF h2] holds_good [OF h3] holds_good [OF h4]
    unfolding undo_effects_def crashed_Cons crashed_Nil tear.simps whole d1_def d2_def by blast
  then show ?thesis using h4 by (simp add: undo_effects_def d1_def d2_def)
qed

section \<open>The whole undo\<close>

lemma undo_loop_restores:
  assumes "source_ok S" "holds S j (jn_cut j) d"
    and "jn_chunks j \<noteq> [] \<Longrightarrow> \<exists>c. place = Some c \<and> cursor_ahead S (jn_cut j) c"
  shows "\<exists>j' es. undo_loop (so_runs S) place j d = (Inr (), j', es)
    \<and> holds S j' (length (so_bytes S)) (run_effects es d)
    \<and> (\<forall>d'. crashed es d d' \<longrightarrow> good S d' \<or> torn S d')"
  using assms
proof (induction "length (jn_chunks j)" arbitrary: place j d)
  case 0
  then have "jn_cut j = length (so_bytes S)" by (simp add: holds_def carving_def chunks_ok_def)
  moreover have "good S d" using holds_good [OF 0(3)] .
  ultimately show ?case using 0 by (auto simp: undo_loop.simps)
next
  case (Suc n)
  then have ne: "jn_chunks j \<noteq> []" by auto
  then obtain c where c: "place = Some c" "cursor_ahead S (jn_cut j) c" using Suc.prems(3) by blast
  obtain c' where step: "undo_chunk (so_runs S) (Some c) j d = (Inr c', undone j, undo_effects S j)"
    and ahead: "cursor_ahead S (jn_cut (undone j)) c'"
    using undo_chunk_result [OF Suc.prems(1,2) ne c(2)] by (elim exE conjE)
  note st = undo_chunk_step [OF Suc.prems(2) ne]
  have n: "n = length (jn_chunks (undone j))" using Suc.hyps(2) by (simp add: undone_def)
  obtain j' es where rec: "undo_loop (so_runs S) (Some c') (undone j) (run_effects (undo_effects S j) d) = (Inr (), j', es)"
    "holds S j' (length (so_bytes S)) (run_effects es (run_effects (undo_effects S j) d))"
    "\<forall>d'. crashed es (run_effects (undo_effects S j) d) d' \<longrightarrow> good S d' \<or> torn S d'"
    using Suc.hyps(1) [OF n Suc.prems(1) conjunct1 [OF st], of "Some c'"] ahead by auto
  have "undo_loop (so_runs S) place j d = (Inr (), j', undo_effects S j @ es)"
    using ne step rec(1) by (subst undo_loop.simps) (simp add: c(1))
  then show ?case using rec(2,3) st by (auto simp: crashed_append)
qed

text \<open>What \<open>undo\<close> does from any disk that carving can leave.\<close>

lemma undo_restores_all:
  assumes S: "source_ok S" and h: "holds S j n d" "cut_or_late j n"
  shows "\<exists>j' es. undo j d = (Inr (), j', es)
    \<and> dk_original (run_effects es d) = Some (so_bytes S) \<and> dk_journal (run_effects es d) = None
    \<and> (\<forall>d'. crashed es d d' \<longrightarrow> good S d' \<or> torn S d' \<or> dk_original d' = Some (so_bytes S))"
proof -
  obtain es0 where s: "settle_original j d = Inr es0" "holds S j (jn_cut j) (run_effects es0 d)"
    "\<forall>d'. crashed es0 d d' \<longrightarrow> good S d'"
    using settle_ok [OF h] by (elim exE conjE)
  have car: "carving S j" and m: "dk_map d = Some (so_map S)" using h(1) by (simp_all add: holds_def)
  have bom: "length (jn_bom j) = so_start S" and lo: "so_start S \<le> jn_cut j"
    using car by (simp_all add: carving_def so_start_def head_end_def)
  define place where "place = cursor_before (so_runs S) (so_start S) (jn_cut j + 1)"
  have ahead: "\<exists>c. place = Some c \<and> cursor_ahead S (jn_cut j) c" if ne: "jn_chunks j \<noteq> []"
  proof -
    have "jn_cut j + 1 \<le> length (so_bytes S)" using holds_last(2,3) [OF h(1) ne] by simp
    then obtain c where c: "place = Some c" "cursor_at (so_runs S) (so_start S) c" "jn_cut j + 1 \<le> cu_end c"
      "0 < cu_index c \<longrightarrow> cu_start c < jn_cut j + 1"
      using cursor_found [OF S, of "jn_cut j + 1"] unfolding place_def by auto
    have "cu_start c \<le> jn_cut j"
      using c(2,4) lo by (cases "cu_index c") (auto simp: cursor_at_def run_start_def)
    then show ?thesis using c by (auto simp: cursor_ahead_def)
  qed
  obtain j' es where l: "undo_loop (so_runs S) place j (run_effects es0 d) = (Inr (), j', es)"
    "holds S j' (length (so_bytes S)) (run_effects es (run_effects es0 d))"
    "\<forall>d'. crashed es (run_effects es0 d) d' \<longrightarrow> good S d' \<or> torn S d'"
    using undo_loop_restores [OF S s(2), of place] ahead by auto
  have u: "undo j d = (Inr (), j', es0 @ es @ discard)"
    using s(1) m l(1) by (simp add: undo_def Let_def so_runs_def [symmetric] bom place_def)
  let ?d = "run_effects es (run_effects es0 d)"
  have orig: "dk_original ?d = Some (so_bytes S)" using l(2) by (simp add: holds_def)
  have "dk_original d' = Some (so_bytes S)" if "crashed discard ?d d'" for d'
    using that orig by (auto simp: discard_def crashed_Cons)
  then have "\<forall>d'. crashed (es0 @ es @ discard) d d' \<longrightarrow> good S d' \<or> torn S d' \<or> dk_original d' = Some (so_bytes S)"
    using s(3) l(3) by (auto simp: crashed_append)
  then show ?thesis using u orig by (auto simp: discard_def)
qed

section \<open>The contract\<close>

text \<open>C2. Crash safety of carving. From any disk a carving can have left, carve (whatever the user
  cancels and whatever space is free) only passes through disks that still describe the original:
  interrupted at any point, even inside a write, the next \<open>undo\<close> answers \<open>Ok\<close> and leaves the original
  byte for byte as it was, with the journal gone.\<close>

theorem carve_crash_restorable:
  assumes "source_ok S" "good S d" "dk_journal d = Some j"
    and "carve env j d = (res, j', es)" "crashed es d d'" "dk_journal d' = Some k"
  shows "fst (undo k d') = Inr () \<and> dk_original (run_effects (snd (snd (undo k d'))) d') = Some (so_bytes S)
    \<and> dk_journal (run_effects (snd (snd (undo k d'))) d') = None"
proof -
  obtain n where "holds S j n d" "cut_or_late j n"
    using assms(2,3) by (auto simp: good_def holds_def)
  then have "good S d'" using carve_safe [OF assms(1) _ _ assms(4)] assms(5) by blast
  then obtain n' where n': "holds S k n' d'" "cut_or_late k n'"
    using assms(6) by (auto simp: good_def holds_def)
  obtain k' fs where "undo k d' = (Inr (), k', fs)" "dk_original (run_effects fs d') = Some (so_bytes S)"
    "dk_journal (run_effects fs d') = None"
    using undo_restores_all [OF assms(1) n'] by auto
  then show ?thesis by simp
qed

text \<open>A small separation: six bytes, the first two of which stay in the head.\<close>

definition small :: source where
  "small = \<lparr>so_bytes = [10, 11, 12, 13, 14, 15], so_bom = [],
     so_map = map_finish (push_all [(True, 2), (False, 3), (True, 1)] map_create)\<rparr>"

definition small_journal :: journal where
  "small_journal = \<lparr>jn_bom = [], jn_original_len = 6, jn_phase = Carve, jn_cut = 6, jn_head_end = 2,
     jn_head_matched = True, jn_chunks = [], jn_renamed = False, jn_assembled = (\<lambda>_. assembly_default)\<rparr>"

definition small_disk :: disk where
  "small_disk = \<lparr>dk_original = Some (so_bytes small), dk_output = (\<lambda>_. None), dk_part = (\<lambda>_. None),
     dk_map = Some (so_map small), dk_journal = Some small_journal\<rparr>"

lemma small_runs: "so_runs small = [(True, 2), (False, 3), (True, 1)]"
  by code_simp

lemma small_ok: "source_ok small"
  by (simp add: source_ok_def small_runs) (simp add: small_def so_start_def)

lemma small_holds: "holds small small_journal 6 small_disk"
  by (simp add: holds_def carving_def parts_at_def chunks_ok_def head_end_def small_runs
      small_disk_def small_journal_def assembly_default_def) (simp add: small_def so_start_def)

lemma small_good: "good small small_disk"
proof (rule holds_good)
  show "holds small small_journal (jn_cut small_journal) small_disk"
    using small_holds by (simp add: small_journal_def)
qed

definition small_env :: split_env where
  "small_env = (\<lambda>_. (False, Some (100 * 1048576)))"

definition small_carved :: disk where
  "small_carved = run_effects (snd (snd (carve small_env small_journal small_disk))) small_disk"

definition small_cut :: journal where
  "small_cut = fst (snd (carve small_env small_journal small_disk))"

lemma small_carved_journal: "dk_journal small_carved = Some small_cut"
proof -
  have "jn_cut small_journal = 6" by (simp add: small_journal_def)
  then have "holds small small_cut (jn_cut small_cut) small_carved"
    using carve_safe [OF small_ok small_holds, of small_env "fst (carve small_env small_journal small_disk)" small_cut]
    by (simp add: cut_or_late_def small_carved_def small_cut_def)
  then show ?thesis by (simp add: holds_def)
qed

theorem carve_crash_restorable_witness:
  "dk_original (run_effects (snd (snd (undo small_cut small_carved))) small_carved) = Some [10, 11, 12, 13, 14, 15]"
proof -
  obtain res es where c: "carve small_env small_journal small_disk = (res, small_cut, es)"
    by (metis prod.collapse small_cut_def)
  then have "crashed es small_disk small_carved"
    using crashed_complete by (simp add: small_carved_def)
  with carve_crash_restorable [OF small_ok small_good _ c this small_carved_journal] show ?thesis
    by (simp add: small_disk_def) (simp add: small_def)
qed

text \<open>Carving does what it is for: unless the user cancels or the disk is too full for one more chunk,
  it ends with the original cut to its leading run and every byte after it in the parts.\<close>

theorem carve_completes:
  assumes "source_ok S" "good S d" "dk_journal d = Some j" "carve env j d = (res, j', es)"
  shows "(res = Inr () \<and> dk_original (run_effects es d) = Some (take (head_end S) (so_bytes S))
           \<and> parts_at S j' (run_effects es d) \<and> spans (length (so_bytes S)) (jn_chunks j') (head_end S))
    \<or> res = Inl SplitCancelled \<or> res = Inl NoSpace"
proof -
  obtain n where "holds S j n d" "cut_or_late j n"
    using assms(2,3) by (auto simp: good_def holds_def)
  note c = carve_safe [OF assms(1) this assms(4)]
  show ?thesis
  proof (cases res)
    case (Inr u)
    then show ?thesis using c by (auto simp: holds_def carving_def chunks_ok_def)
  qed (use c in auto)
qed

theorem carve_completes_witness:
  "dk_original small_carved = Some [10, 11]"
proof -
  obtain res es where c: "carve small_env small_journal small_disk = (res, small_cut, es)"
    by (metis prod.collapse small_cut_def)
  have "res = Inr ()"
  proof -
    have "fst (carve small_env small_journal small_disk) = Inr ()" by code_simp
    then show ?thesis using c by simp
  qed
  moreover have "run_effects es small_disk = small_carved" using c by (simp add: small_carved_def)
  ultimately show ?thesis
    using carve_completes [OF small_ok small_good _ c] by (simp add: small_disk_def head_end_def small_runs)
      (simp add: small_def so_start_def)
qed

text \<open>The first thing \<open>undo\<close> does on a settled original is to write the last chunk back.\<close>

lemma undo_starts_writing:
  assumes "source_ok S" "holds S j (jn_cut j) d" "jn_chunks j \<noteq> []"
  shows "\<exists>fs. snd (snd (undo j d)) = WriteBack (jn_cut j) (chunk_bytes S j) # fs"
proof -
  note L = holds_last [OF assms(2,3)]
  have car: "carving S j" and m: "dk_map d = Some (so_map S)" and o: "dk_original d = Some (take (jn_cut j) (so_bytes S))"
    using assms(2) by (simp_all add: holds_def)
  have bom: "length (jn_bom j) = so_start S" and lo: "so_start S \<le> jn_cut j"
    using car by (simp_all add: carving_def so_start_def head_end_def)
  obtain c where c: "cursor_before (so_runs S) (so_start S) (jn_cut j + 1) = Some c" "cursor_at (so_runs S) (so_start S) c"
    "jn_cut j + 1 \<le> cu_end c" "0 < cu_index c \<longrightarrow> cu_start c < jn_cut j + 1"
    using cursor_found [OF assms(1), of "jn_cut j + 1"] L(2,3) by auto
  have "cu_start c \<le> jn_cut j"
    using c(2,4) lo by (cases "cu_index c") (auto simp: cursor_at_def run_start_def)
  then have "cursor_ahead S (jn_cut j) c" using c by (simp add: cursor_ahead_def)
  then obtain c' where step: "undo_chunk (so_runs S) (Some c) j d = (Inr c', undone j, undo_effects S j)"
    using undo_chunk_result [OF assms(1-3)] by auto
  have set: "settle_original j d = Inr []"
    using o carving_cut [OF car] by (simp add: settle_original_def)
  obtain res j' es where "undo_loop (so_runs S) (Some c') (undone j) (run_effects (undo_effects S j) d) = (res, j', es)"
    by (metis prod.collapse)
  then have loop: "undo_loop (so_runs S) (Some c) j d = (res, j', undo_effects S j @ es)"
    using step assms(3) by (subst undo_loop.simps) simp
  have "\<exists>gs. snd (snd (undo j d)) = undo_effects S j @ gs"
    using loop set m c(1) by (cases res) (auto simp: undo_def Let_def so_runs_def [symmetric] bom)
  then show ?thesis by (auto simp: undo_effects_def)
qed

lemma inside_chunk_refused:
  assumes "holds S j n d" "jn_chunks j \<noteq> []" "jn_cut j < n" "n < ck_end (last (jn_chunks j))"
  shows "settle_original j d = Inl OriginalAltered"
proof -
  have "length (take n (so_bytes S)) = n" using assms(4) holds_last(3) [OF assms(1,2)] by simp
  then show ?thesis using assms by (auto simp: settle_original_def holds_def)
qed

text \<open>C31. An undo interrupted inside the write of a chunk cannot be resumed: the original then ends
  inside the last chunk, and both ways of recovering refuse with no effect at all, although the parts
  still hold every byte.\<close>

theorem torn_undo_is_stuck:
  assumes "source_ok S" "holds S j (jn_cut j) d" "jn_chunks j \<noteq> []"
    and "0 < k" "k < ck_end (last (jn_chunks j)) - ck_start (last (jn_chunks j))"
  shows "\<exists>d'. crashed (snd (snd (undo j d))) d d' \<and> parts_at S j d'
    \<and> recover env True d' = (Inl OriginalAltered, [])
    \<and> recover env False d' = (Inr (Pending OriginalAltered OriginalAltered), [])"
proof -
  note L = holds_last [OF assms(2,3)]
  obtain fs where u: "snd (snd (undo j d)) = WriteBack (jn_cut j) (chunk_bytes S j) # fs"
    using undo_starts_writing [OF assms(1-3)] by blast
  define d' where "d' = apply_effect (WriteBack (jn_cut j) (take k (chunk_bytes S j))) d"
  have "crashed (snd (snd (undo j d))) d d'"
    using crash_tear [of "WriteBack (jn_cut j) (chunk_bytes S j)" fs d k] by (simp only: u d'_def tear.simps)
  moreover have h: "holds S j (jn_cut j + k) d'"
    unfolding d'_def using L assms(5) by (intro torn_write [OF assms(2,3)]) (simp add: chunk_bytes_def)
  moreover have "settle_original j d' = Inl OriginalAltered"
    using assms(4,5) L by (intro inside_chunk_refused [OF h assms(3)]) simp_all
  ultimately show ?thesis
    by (intro exI [of _ d']) (simp add: recover_def carve_and_finish_def carve_def undo_def holds_def carving_def)
qed

theorem torn_undo_is_stuck_witness:
  "\<exists>d'. crashed (snd (snd (undo small_cut small_carved))) small_carved d' \<and> parts_at small small_cut d'
    \<and> recover small_env True d' = (Inl OriginalAltered, [])
    \<and> recover small_env False d' = (Inr (Pending OriginalAltered OriginalAltered), [])"
proof (rule torn_undo_is_stuck [OF small_ok])
  have "jn_cut small_journal = 6" by (simp add: small_journal_def)
  then show "holds small small_cut (jn_cut small_cut) small_carved"
    using carve_safe [OF small_ok small_holds, of small_env "fst (carve small_env small_journal small_disk)" small_cut]
    by (simp add: cut_or_late_def small_carved_def small_cut_def)
  have ch: "jn_chunks small_cut = [\<lparr>ck_start = 2, ck_end = 6, ck_matched = 1, ck_rest = 3\<rparr>]" by code_simp
  then show "jn_chunks small_cut \<noteq> []" by simp
  show "(0::nat) < 1" by simp
  show "1 < ck_end (last (jn_chunks small_cut)) - ck_start (last (jn_chunks small_cut))" by (simp add: ch)
qed

end
