(* ===== verification/Split_Assemble.thy ===== *)
theory Split_Assemble
  imports Split_Undo
begin

text \<open>
  Assembling ends with the two outputs complete and can be resumed from every point a crash can leave
  it at, a half-written part included; with carving this makes the whole separation recoverable.
\<close>

section \<open>What the outputs must hold\<close>

definition head_flag :: "source \<Rightarrow> bool" where
  "head_flag S = fst (hd (so_runs S))"

text \<open>What output \<open>b\<close> starts with: the head of the original, or only its mark.\<close>

definition base :: "source \<Rightarrow> bool \<Rightarrow> byte list" where
  "base S b = (if b = head_flag S then take (head_end S) (so_bytes S) else so_bom S)"

text \<open>How far the file is covered once \<open>k\<close> chunks were appended.\<close>

definition reach :: "source \<Rightarrow> chunk list \<Rightarrow> nat \<Rightarrow> nat" where
  "reach S cs k = (if k = 0 then head_end S else ck_end (cs ! (length cs - k)))"

definition built :: "source \<Rightarrow> chunk list \<Rightarrow> bool \<Rightarrow> nat \<Rightarrow> byte list" where
  "built S cs b k = base S b @ side S b (head_end S) (reach S cs k)"

text \<open>The output as it should be: the mark, then every byte the decision gives it, in file order.\<close>

definition output_of :: "source \<Rightarrow> bool \<Rightarrow> byte list" where
  "output_of S b = so_bom S @ side S b (so_start S) (length (so_bytes S))"

lemma spans_nth:
  "spans e cs low \<Longrightarrow> i < length cs \<Longrightarrow> ck_end (cs ! i) = (if i = 0 then e else ck_start (cs ! (i - 1)))
     \<and> ck_start (cs ! i) < ck_end (cs ! i) \<and> low \<le> ck_start (cs ! i)
     \<and> (Suc i = length cs \<longrightarrow> ck_start (cs ! i) = low)"
proof (induction e cs low arbitrary: i rule: spans.induct)
  case (2 e c cs low)
  show ?case
  proof (cases i)
    case 0
    then show ?thesis using "2.prems" spans_le [of "ck_start c" cs low] by (cases cs) auto
  next
    case (Suc k)
    have "k < length cs" "Suc i = length (c # cs) \<longleftrightarrow> Suc k = length cs" using "2.prems" Suc by simp_all
    then show ?thesis using "2.IH" [of k] "2.prems" unfolding Suc nth_Cons_Suc by (cases k) auto
  qed
qed simp

text \<open>The chunk appended next continues where the output stops.\<close>

lemma reach_step:
  assumes "spans (length (so_bytes S)) cs (head_end S)" "k < length cs"
  shows "ck_start (cs ! (length cs - 1 - k)) = reach S cs k"
    "ck_end (cs ! (length cs - 1 - k)) = reach S cs (Suc k)" "head_end S \<le> reach S cs k"
    "reach S cs k \<le> reach S cs (Suc k)"
proof -
  have i: "length cs - 1 - k < length cs" using assms(2) by simp
  note N = spans_nth [OF assms(1) i]
  show e: "ck_end (cs ! (length cs - 1 - k)) = reach S cs (Suc k)" by (simp add: reach_def)
  show s: "ck_start (cs ! (length cs - 1 - k)) = reach S cs k"
  proof (cases k)
    case 0
    then show ?thesis using N assms(2) by (auto simp: reach_def)
  next
    case (Suc j)
    then have "length cs - k < length cs" "length cs - k \<noteq> 0" "length cs - k - 1 = length cs - 1 - k"
      using assms(2) by simp_all
    then show ?thesis
      using spans_nth [OF assms(1), of "length cs - k"] Suc by (simp add: reach_def)
  qed
  show "head_end S \<le> reach S cs k" "reach S cs k \<le> reach S cs (Suc k)" using N s e by auto
qed

lemma reach_all: "spans (length (so_bytes S)) cs (head_end S) \<Longrightarrow> reach S cs (length cs) = length (so_bytes S)"
  using spans_nth [of "length (so_bytes S)" cs "head_end S" 0] by (cases cs) (auto simp: reach_def)

lemma built_step:
  assumes "spans (length (so_bytes S)) cs (head_end S)" "k < length cs"
  shows "built S cs b (Suc k) = built S cs b k @ side S b (ck_start (cs ! (length cs - 1 - k))) (ck_end (cs ! (length cs - 1 - k)))"
  using reach_step [OF assms] side_split [of "head_end S" "reach S cs k" "reach S cs (Suc k)" S b]
  by (simp add: built_def)

lemma head_bounds: "source_ok S \<Longrightarrow> so_start S \<le> head_end S \<and> head_end S \<le> length (so_bytes S)"
  by (cases "so_runs S") (auto simp: source_ok_def head_end_def)

lemma built_all:
  assumes S: "source_ok S" and sp: "spans (length (so_bytes S)) cs (head_end S)"
  shows "built S cs b (length cs) = output_of S b"
proof -
  note hb = head_bounds [OF S]
  obtain f n rest where rs: "so_runs S = (f, n) # rest"
    using S by (cases "so_runs S") (auto simp: source_ok_def)
  have c: "cursor_at (so_runs S) (so_start S) \<lparr>cu_index = 0, cu_start = so_start S, cu_end = head_end S\<rparr>"
    by (simp add: cursor_at_def run_start_def rs head_end_def)
  have head: "side S b (so_start S) (head_end S)
      = (if head_flag S = b then take (head_end S - so_start S) (drop (so_start S) (so_bytes S)) else [])"
    using side_run [OF c, of "so_start S" "head_end S" b] hb by (simp add: rs head_flag_def)
  have "take (head_end S) (so_bytes S)
      = so_bom S @ take (head_end S - so_start S) (drop (so_start S) (so_bytes S))"
    using S hb take_add [of "so_start S" "head_end S - so_start S" "so_bytes S"] by (simp add: source_ok_def)
  then have "base S b = so_bom S @ side S b (so_start S) (head_end S)"
    by (auto simp: base_def head)
  then show ?thesis
    using reach_all [OF sp] side_split [of "so_start S" "head_end S" "length (so_bytes S)" S b] hb
    by (simp add: built_def output_of_def)
qed

section \<open>What the disk says while assembling\<close>

definition assembling :: "source \<Rightarrow> journal \<Rightarrow> bool" where
  "assembling S j \<longleftrightarrow> jn_bom j = so_bom S \<and> jn_phase j = Assemble \<and> jn_cut j = head_end S
     \<and> jn_head_matched j = head_flag S \<and> chunks_ok S (jn_chunks j) (head_end S)"

definition parts_left :: "source \<Rightarrow> journal \<Rightarrow> disk \<Rightarrow> bool \<Rightarrow> nat \<Rightarrow> bool" where
  "parts_left S j d b k \<longleftrightarrow> (\<forall>i < length (jn_chunks j) - k.
     dk_part d (i, b) = Some (side S b (ck_start (jn_chunks j ! i)) (ck_end (jn_chunks j ! i))))"

definition output_at :: "source \<Rightarrow> journal \<Rightarrow> disk \<Rightarrow> bool \<Rightarrow> bool" where
  "output_at S j d b \<longleftrightarrow>
     (let a = jn_assembled j b; k = as_done a; goal = built S (jn_chunks j) b k
      in k \<le> length (jn_chunks j) \<and> as_len a = length goal \<and> parts_left S j d b k
         \<and> (\<exists>xs. dk_output d b = Some xs \<and> take (length goal) xs = goal
              \<and> (k = length (jn_chunks j) \<longrightarrow> xs = goal)))"

definition side_at :: "source \<Rightarrow> journal \<Rightarrow> disk \<Rightarrow> bool \<Rightarrow> bool" where
  "side_at S j d b \<longleftrightarrow> (if as_created (jn_assembled j b) then output_at S j d b else parts_left S j d b 0)"

text \<open>Once renamed, the head is in its output; before, it is still the original or the rename was done
  and not yet recorded.\<close>

definition asm :: "source \<Rightarrow> journal \<Rightarrow> disk \<Rightarrow> bool" where
  "asm S j d \<longleftrightarrow> assembling S j \<and> dk_journal d = Some j \<and> (\<forall>b. side_at S j d b)
     \<and> (if jn_renamed j then dk_original d = None \<and> as_created (jn_assembled j (head_flag S))
        else (\<forall>b. \<not> as_created (jn_assembled j b))
             \<and> (dk_original d = Some (take (head_end S) (so_bytes S))
                \<or> dk_original d = None \<and> dk_output d (head_flag S) = Some (take (head_end S) (so_bytes S))))"

definition asm_good :: "source \<Rightarrow> disk \<Rightarrow> bool" where
  "asm_good S d \<longleftrightarrow> (\<exists>j. asm S j d)"

lemma assembling_spans: "assembling S j \<Longrightarrow> spans (length (so_bytes S)) (jn_chunks j) (head_end S)"
  by (simp add: assembling_def chunks_ok_def)

section \<open>Appending one part\<close>

text \<open>Effects on one output and its parts leave the other side as it is.\<close>

lemma side_at_frame:
  assumes "side_at S j d b" "jn_chunks j' = jn_chunks j" "jn_assembled j' b = jn_assembled j b"
    and "dk_output d' b = dk_output d b" "\<And>i. dk_part d' (i, b) = dk_part d (i, b)"
  shows "side_at S j' d' b"
  using assms(1) unfolding side_at_def output_at_def parts_left_def Let_def assms(2-5) .

lemma append_part_step:
  assumes a: "asm S j d" and ren: "jn_renamed j" and cr: "as_created (jn_assembled j b)"
    and more: "as_done (jn_assembled j b) < length (jn_chunks j)"
  shows "\<exists>j' es. append_part b j d = (Inr (), j', es) \<and> asm S j' (run_effects es d) \<and> jn_renamed j'
    \<and> as_created (jn_assembled j' b) \<and> (\<forall>d'. crashed es d d' \<longrightarrow> asm_good S d')
    \<and> (\<forall>c. c \<noteq> b \<longrightarrow> jn_assembled j' c = jn_assembled j c) \<and> jn_chunks j' = jn_chunks j
    \<and> as_done (jn_assembled j' b) = Suc (as_done (jn_assembled j b))"
proof -
  define k where "k = as_done (jn_assembled j b)"
  let ?cs = "jn_chunks j"
  define i where "i = length ?cs - 1 - k"
  have asmj: "assembling S j" and sides: "\<And>c. side_at S j d c" using a by (auto simp: asm_def)
  note sp = assembling_spans [OF asmj]
  define goal where "goal = built S ?cs b k"
  define part where "part = side S b (ck_start (?cs ! i)) (ck_end (?cs ! i))"
  have out: "output_at S j d b" using sides [of b] cr by (simp add: side_at_def)
  then obtain xs where xs: "dk_output d b = Some xs" "take (length goal) xs = goal"
    and len: "as_len (jn_assembled j b) = length goal" and pl: "parts_left S j d b k"
    by (auto simp: output_at_def Let_def k_def goal_def)
  have km: "k < length ?cs" using more by (simp add: k_def)
  then have i: "i < length ?cs" "i < length ?cs - k" by (auto simp: i_def)
  have p: "dk_part d (i, b) = Some part" using pl i(2) by (simp add: parts_left_def part_def)
  have n: "(if b then ck_matched (?cs ! i) else ck_rest (?cs ! i)) = length part"
    using asmj i(1) nth_mem [OF i(1)] by (auto simp: assembling_def chunks_ok_def part_def)
  define j' where "j' = j\<lparr>jn_assembled := (jn_assembled j)(b := (jn_assembled j b)\<lparr>as_done := k + 1,
      as_len := length goal + length part\<rparr>)\<rparr>"
  let ?es = "[TruncateOutput b (length goal), AppendOutput b (length goal) part, SaveJournal j', RemovePart i b]"
  have step: "append_part b j d = (Inr (), j', ?es)"
    unfolding append_part_def Let_def k_def [symmetric] i_def [symmetric] n len by (simp add: p j'_def)
  have next_built: "built S ?cs b (Suc k) = goal @ part"
    using built_step [OF sp km, of b] by (simp add: goal_def part_def i_def)
  have glen: "length goal \<le> length xs" using xs(2) by (metis length_take min.cobounded2 min.commute)
  define d1 where "d1 = apply_effect (TruncateOutput b (length goal)) d"
  have "set_len (length goal) xs = goal" using xs(2) glen by (simp add: set_len_def)
  then have d1: "dk_output d1 b = Some goal" by (simp add: d1_def xs(1))
  have wr: "write_at (length goal) ys goal = goal @ ys" for ys :: "byte list"
    by (simp add: write_at_def set_len_def)
  define w where "w ys = apply_effect (AppendOutput b (length goal) ys) d1" for ys
  have w: "dk_output (w ys) b = Some (goal @ ys)" for ys
    using d1 wr by (simp add: w_def)
  have frame: "dk_part (w ys) = dk_part d" "dk_journal (w ys) = dk_journal d" "dk_original (w ys) = dk_original d"
    "c \<noteq> b \<Longrightarrow> dk_output (w ys) c = dk_output d c" for ys c
    by (simp_all add: w_def d1_def)
  have keep: "asm S j d'" if *: "dk_output d' b = Some (goal @ ys)" "dk_part d' = dk_part d"
    "dk_journal d' = dk_journal d" "dk_original d' = dk_original d" "\<And>c. c \<noteq> b \<Longrightarrow> dk_output d' c = dk_output d c" for d' ys
  proof -
    have "output_at S j d' b"
      using *(1,2) len pl km by (simp add: output_at_def Let_def k_def [symmetric] goal_def [symmetric] parts_left_def)
    then have "side_at S j d' b" using cr by (simp add: side_at_def)
    moreover have "side_at S j d' c" if "c \<noteq> b" for c
      by (rule side_at_frame [OF sides [of c]]) (simp_all add: that *)
    ultimately have "side_at S j d' c" for c by (cases "c = b") simp_all
    then show ?thesis using a *(3,4) ren by (simp add: asm_def)
  qed
  have d1_frame: "dk_part d1 = dk_part d" "dk_journal d1 = dk_journal d" "dk_original d1 = dk_original d"
    "c \<noteq> b \<Longrightarrow> dk_output d1 c = dk_output d c" for c
    by (simp_all add: d1_def)
  have a1: "asm S j d1" by (rule keep [of _ "[]"]) (simp_all add: d1 d1_frame)
  have aw: "asm S j (w ys)" for ys by (rule keep [OF w frame])
  have asmj': "assembling S j'" using asmj by (simp add: j'_def assembling_def)
  have save: "asm S j' d'" if *: "dk_output d' b = Some (goal @ part)" "\<And>q. q < i \<Longrightarrow> dk_part d' (q, b) = dk_part d (q, b)"
    "\<And>q c. c \<noteq> b \<Longrightarrow> dk_part d' (q, c) = dk_part d (q, c)" "dk_journal d' = Some j'"
    "dk_original d' = dk_original d" "\<And>c. c \<noteq> b \<Longrightarrow> dk_output d' c = dk_output d c" for d'
  proof -
    have "length ?cs - Suc k = i" using km by (simp add: i_def)
    then have "parts_left S j' d' b (Suc k)"
      using pl *(2) i(2) by (simp add: parts_left_def j'_def)
    then have "output_at S j' d' b"
      using *(1) km next_built by (auto simp: output_at_def Let_def j'_def)
    then have "side_at S j' d' b" using cr by (simp add: side_at_def j'_def)
    moreover have "side_at S j' d' c" if "c \<noteq> b" for c
      by (rule side_at_frame [OF sides [of c]]) (simp_all add: that *(3,6) j'_def)
    ultimately have "side_at S j' d' c" for c by (cases "c = b") simp_all
    then show ?thesis using a asmj' *(4,5) ren cr
      by (cases b; cases "head_flag S") (simp_all add: asm_def j'_def)
  qed
  define d3 where "d3 = apply_effect (SaveJournal j') (w part)"
  have a3: "asm S j' d3" by (rule save) (simp_all add: d3_def w frame)
  define d4 where "d4 = apply_effect (RemovePart i b) d3"
  have a4: "asm S j' d4" by (rule save) (simp_all add: d4_def d3_def w frame)
  have "asm_good S d'" if "crashed ?es d d'" for d'
    using that a a1 aw a3 a4
    unfolding asm_good_def crashed_Cons crashed_Nil tear.simps d4_def d3_def w_def d1_def by blast
  moreover have "run_effects ?es d = d4" by (simp add: d4_def d3_def w_def d1_def)
  ultimately show ?thesis
    using step a4 ren cr by (intro exI [of _ j'] exI [of _ ?es]) (simp add: j'_def k_def)
qed

section \<open>Appending all parts of a side\<close>

definition side_done :: "journal \<Rightarrow> bool \<Rightarrow> bool" where
  "side_done j b \<longleftrightarrow> as_created (jn_assembled j b) \<and> as_done (jn_assembled j b) = length (jn_chunks j)"

lemma append_parts_all:
  assumes "asm S j d" "jn_renamed j" "as_created (jn_assembled j b)"
  shows "\<exists>j' es. append_parts b j d = (Inr (), j', es) \<and> asm S j' (run_effects es d) \<and> jn_renamed j'
    \<and> side_done j' b \<and> (\<forall>c. c \<noteq> b \<longrightarrow> jn_assembled j' c = jn_assembled j c) \<and> jn_chunks j' = jn_chunks j
    \<and> (\<forall>d'. crashed es d d' \<longrightarrow> asm_good S d')"
  using assms
proof (induction "length (jn_chunks j) - as_done (jn_assembled j b)" arbitrary: j d)
  case 0
  have "output_at S j d b" using 0 by (auto simp: asm_def side_at_def)
  then have "as_done (jn_assembled j b) = length (jn_chunks j)"
    using 0(1) by (auto simp: output_at_def Let_def)
  then show ?case using 0 by (auto simp: append_parts.simps side_done_def asm_good_def)
next
  case (Suc n)
  then have more: "as_done (jn_assembled j b) < length (jn_chunks j)" by simp
  obtain j1 es1 where s: "append_part b j d = (Inr (), j1, es1)" "asm S j1 (run_effects es1 d)" "jn_renamed j1"
    "as_created (jn_assembled j1 b)" "\<forall>d'. crashed es1 d d' \<longrightarrow> asm_good S d'"
    "\<forall>c. c \<noteq> b \<longrightarrow> jn_assembled j1 c = jn_assembled j c" "jn_chunks j1 = jn_chunks j"
    "as_done (jn_assembled j1 b) = Suc (as_done (jn_assembled j b))"
    using append_part_step [OF Suc.prems more] by (elim exE conjE)
  have n: "n = length (jn_chunks j1) - as_done (jn_assembled j1 b)" using Suc.hyps(2) s(7,8) by simp
  obtain j' es where r: "append_parts b j1 (run_effects es1 d) = (Inr (), j', es)"
    "asm S j' (run_effects es (run_effects es1 d))" "jn_renamed j'" "side_done j' b"
    "\<forall>c. c \<noteq> b \<longrightarrow> jn_assembled j' c = jn_assembled j1 c" "jn_chunks j' = jn_chunks j1"
    "\<forall>d'. crashed es (run_effects es1 d) d' \<longrightarrow> asm_good S d'"
    using Suc.hyps(1) [OF n s(2-4)] by (elim exE conjE)
  have "append_parts b j d = (Inr (), j', es1 @ es)"
    using more s(1) r(1) by (subst append_parts.simps) simp
  then show ?case using r s by (auto simp: crashed_append)
qed

section \<open>A side, created if need be\<close>

lemma create_step:
  assumes S: "source_ok S" and a: "asm S j d" and ren: "jn_renamed j" and b: "\<not> as_created (jn_assembled j b)"
    and j': "j' = j\<lparr>jn_assembled := (jn_assembled j)(b := \<lparr>as_done = 0, as_len = length (jn_bom j), as_created = True\<rparr>)\<rparr>"
    and es: "es = [CreateOutput b (jn_bom j), SaveJournal j']"
  shows "asm S j' (run_effects es d) \<and> (\<forall>d'. crashed es d d' \<longrightarrow> asm_good S d')"
proof -
  have asmj: "assembling S j" and sides: "\<And>c. side_at S j d c" using a by (auto simp: asm_def)
  have bom: "jn_bom j = so_bom S" using asmj by (simp add: assembling_def)
  have "as_created (jn_assembled j (head_flag S))" using a ren by (simp add: asm_def)
  then have nh: "b \<noteq> head_flag S" using b by (cases b; cases "head_flag S") simp_all
  define w where "w ys = apply_effect (CreateOutput b ys) d" for ys
  have pl: "parts_left S j d b 0" using sides [of b] b by (simp add: side_at_def)
  have aw: "asm S j (w ys)" for ys
  proof -
    have "side_at S j (w ys) c" for c
    proof (cases "c = b")
      case True
      then show ?thesis using pl b by (simp add: side_at_def parts_left_def w_def)
    next
      case False
      then show ?thesis by (intro side_at_frame [OF sides [of c]]) (simp_all add: w_def)
    qed
    then show ?thesis using a ren by (simp add: asm_def w_def)
  qed
  define d2 where "d2 = apply_effect (SaveJournal j') (w (so_bom S))"
  have "side_at S j' d2 c" for c
  proof (cases "c = b")
    case True
    have "\<And>cs. built S cs b 0 = so_bom S" using nh by (simp add: built_def base_def reach_def side_def)
    then have "output_at S j' d2 b"
      using pl by (simp add: output_at_def Let_def j' parts_left_def d2_def w_def bom)
    then show ?thesis by (simp add: True side_at_def j')
  next
    case False
    then show ?thesis by (intro side_at_frame [OF sides [of c]]) (simp_all add: d2_def w_def j')
  qed
  then have a2: "asm S j' d2"
    using a ren asmj by (cases b; cases "head_flag S") (simp_all add: asm_def assembling_def d2_def w_def j')
  have "asm_good S d'" if "crashed es d d'" for d'
    using that a aw a2
    unfolding es bom asm_good_def crashed_Cons crashed_Nil tear.simps d2_def w_def by blast
  then show ?thesis using a2 by (simp add: es bom d2_def w_def)
qed

lemma assemble_side_all:
  assumes S: "source_ok S" and a: "asm S j d" and ren: "jn_renamed j"
  shows "\<exists>j' es. assemble_side b j d = (Inr (), j', es) \<and> asm S j' (run_effects es d) \<and> jn_renamed j'
    \<and> side_done j' b \<and> (\<forall>c. c \<noteq> b \<longrightarrow> jn_assembled j' c = jn_assembled j c) \<and> jn_chunks j' = jn_chunks j
    \<and> (\<forall>d'. crashed es d d' \<longrightarrow> asm_good S d')"
proof -
  define j1 where "j1 = j\<lparr>jn_assembled := (jn_assembled j)(b := \<lparr>as_done = 0, as_len = length (jn_bom j), as_created = True\<rparr>)\<rparr>"
  define jj where "jj = (if as_created (jn_assembled j b) then j else j1)"
  define es0 where "es0 = (if as_created (jn_assembled j b) then [] else [CreateOutput b (jn_bom j), SaveJournal j1])"
  have start: "asm S jj (run_effects es0 d) \<and> (\<forall>d'. crashed es0 d d' \<longrightarrow> asm_good S d')"
    using create_step [OF S a ren _ j1_def refl] a by (auto simp: jj_def es0_def asm_good_def)
  have jj: "jn_renamed jj" "as_created (jn_assembled jj b)" "jn_chunks jj = jn_chunks j"
    "\<forall>c. c \<noteq> b \<longrightarrow> jn_assembled jj c = jn_assembled j c"
    using ren by (simp_all add: jj_def j1_def)
  have "side_at S jj (run_effects es0 d) b" using start by (simp add: asm_def)
  then have out: "dk_output (run_effects es0 d) b \<noteq> None"
    using jj(2) by (auto simp: side_at_def output_at_def Let_def)
  obtain j' es where r: "append_parts b jj (run_effects es0 d) = (Inr (), j', es)"
    "asm S j' (run_effects es (run_effects es0 d))" "jn_renamed j'" "side_done j' b"
    "\<forall>c. c \<noteq> b \<longrightarrow> jn_assembled j' c = jn_assembled jj c" "jn_chunks j' = jn_chunks jj"
    "\<forall>d'. crashed es (run_effects es0 d) d' \<longrightarrow> asm_good S d'"
    using append_parts_all [OF conjunct1 [OF start] jj(1,2)] by (elim exE conjE)
  have "assemble_side b j d = (Inr (), j', es0 @ es)"
    using out r(1) unfolding assemble_side_def Let_def j1_def [symmetric]
    by (simp add: jj_def es0_def split: if_splits)
  then show ?thesis using r start jj by (auto simp: crashed_append)
qed

section \<open>Renaming the original\<close>

lemma rename_step:
  assumes S: "source_ok S" and a: "asm S j d"
  shows "\<exists>j' es. rename_head j d = (Inr (), j', es) \<and> asm S j' (run_effects es d) \<and> jn_renamed j'
    \<and> jn_chunks j' = jn_chunks j \<and> (\<forall>d'. crashed es d d' \<longrightarrow> asm_good S d')"
proof (cases "jn_renamed j")
  case True
  then show ?thesis using a by (auto simp: rename_head_def Let_def asm_good_def)
next
  case False
  let ?h = "head_flag S" and ?xs = "take (head_end S) (so_bytes S)"
  have asmj: "assembling S j" and sides: "\<And>c. side_at S j d c" using a by (auto simp: asm_def)
  have nc: "\<And>c. \<not> as_created (jn_assembled j c)" using a False by (simp add: asm_def)
  have pl: "\<And>c. parts_left S j d c 0" using sides nc by (auto simp: side_at_def)
  have hb: "length ?xs = head_end S" using head_bounds [OF S] by simp
  define j' where "j' = j\<lparr>jn_renamed := True,
      jn_assembled := (jn_assembled j)(?h := \<lparr>as_done = 0, as_len = head_end S, as_created = True\<rparr>)\<rparr>"
  have built0: "built S cs ?h 0 = ?xs" for cs by (simp add: built_def base_def reach_def side_def)
  have finished: "asm S j' (apply_effect (SaveJournal j') d1)"
    if d1: "dk_original d1 = None" "dk_output d1 ?h = Some ?xs" "dk_part d1 = dk_part d" for d1
  proof -
    have "output_at S j' (apply_effect (SaveJournal j') d1) ?h"
      using pl [of ?h] d1 hb by (simp add: output_at_def Let_def j'_def parts_left_def built0)
    then have "side_at S j' (apply_effect (SaveJournal j') d1) c" for c
      using pl [of c] nc d1(3) by (cases "c = ?h") (auto simp: side_at_def j'_def parts_left_def)
    then show ?thesis using asmj d1(1) by (simp add: asm_def assembling_def j'_def)
  qed
  consider "dk_original d = Some ?xs" | "dk_original d = None" "dk_output d ?h = Some ?xs"
    using a False by (auto simp: asm_def)
  then show ?thesis
  proof cases
    case 1
    have r: "rename_head j d = (Inr (), j', [RenameOriginal ?h, SaveJournal j'])"
      using 1 False asmj by (simp add: rename_head_def Let_def j'_def assembling_def)
    define d1 where "d1 = apply_effect (RenameOriginal ?h) d"
    have d1: "dk_original d1 = None" "dk_output d1 ?h = Some ?xs" "dk_part d1 = dk_part d" "dk_journal d1 = dk_journal d"
      by (simp_all add: d1_def 1)
    have a1: "asm S j d1"
      using a pl nc False d1 by (simp add: asm_def side_at_def parts_left_def)
    have "asm_good S d'" if "crashed [RenameOriginal ?h, SaveJournal j'] d d'" for d'
      using that a a1 finished [OF d1(1-3)]
      unfolding asm_good_def crashed_Cons crashed_Nil tear.simps d1_def by blast
    then show ?thesis using r finished [OF d1(1-3)] by (auto simp: d1_def j'_def)
  next
    case 2
    have r: "rename_head j d = (Inr (), j', [SaveJournal j'])"
      using 2 False asmj by (simp add: rename_head_def Let_def j'_def assembling_def)
    have "asm_good S d'" if "crashed [SaveJournal j'] d d'" for d'
      using that a finished [OF 2] unfolding asm_good_def crashed_Cons crashed_Nil tear.simps by blast
    then show ?thesis using r finished [OF 2] by (auto simp: j'_def)
  qed
qed

end
