(* ===== verification/Split_Recover.thy ===== *)
theory Split_Recover
  imports Split_Assemble
begin

text \<open>
  The contract of the low-space separation as a whole: \<open>assemble\<close> completes, the decision pass leaves a
  state from which carving may start, and \<open>recover\<close> finishes the separation from every disk a crash can
  leave while carving or assembling.
\<close>

section \<open>Assembling completes\<close>

definition outputs_ready :: "source \<Rightarrow> disk \<Rightarrow> bool" where
  "outputs_ready S d \<longleftrightarrow> (\<forall>b. dk_output d b = Some (output_of S b)) \<and> dk_original d = None"

definition separated :: "source \<Rightarrow> disk \<Rightarrow> bool" where
  "separated S d \<longleftrightarrow> outputs_ready S d \<and> dk_journal d = None"

lemma side_done_output:
  assumes "source_ok S" "asm S j d" "side_done j b"
  shows "dk_output d b = Some (output_of S b)"
proof -
  have sp: "spans (length (so_bytes S)) (jn_chunks j) (head_end S)"
    using assms(2) assembling_spans by (auto simp: asm_def)
  have "side_at S j d b" using assms(2) by (simp add: asm_def)
  then have "dk_output d b = Some (built S (jn_chunks j) b (length (jn_chunks j)))"
    using assms(3) by (simp add: side_done_def side_at_def output_at_def Let_def)
  then show ?thesis by (simp add: built_all [OF assms(1) sp])
qed

lemma asm_remove_work:
  assumes "asm S j d" "jn_renamed j" "side_done j True" "side_done j False"
  shows "asm S j (apply_effect RemoveWork d)"
proof -
  have "side_done j b" for b using assms(3,4) by (cases b) simp_all
  then have "side_at S j (apply_effect RemoveWork d) b" for b
    using assms(1) by (auto simp: asm_def side_done_def side_at_def output_at_def Let_def parts_left_def)
  then show ?thesis using assms(1,2) by (simp add: asm_def)
qed

text \<open>Where \<open>assemble\<close> may be called: on an interrupted assembly, or when carving is over.\<close>

definition asm_start :: "source \<Rightarrow> journal \<Rightarrow> disk \<Rightarrow> bool" where
  "asm_start S j d \<longleftrightarrow> asm S j d \<or> holds S j (jn_cut j) d \<and> jn_cut j = head_end S"

lemma phase_step:
  assumes "asm_start S j d" "es = (if jn_phase j = Assemble then [] else [SaveJournal (j\<lparr>jn_phase := Assemble\<rparr>)])"
  shows "asm S (j\<lparr>jn_phase := Assemble\<rparr>) (run_effects es d) \<and> (\<forall>d'. crashed es d d' \<longrightarrow> good S d' \<or> asm_good S d')"
proof -
  from assms(1) consider "asm S j d" | "holds S j (jn_cut j) d" "jn_cut j = head_end S"
    by (auto simp: asm_start_def)
  then show ?thesis
  proof cases
    case 1
    then have ph: "jn_phase j = Assemble" by (simp add: asm_def assembling_def)
    then have same: "j\<lparr>jn_phase := Assemble\<rparr> = j" by (cases j) simp
    show ?thesis unfolding same using 1 assms(2) ph by (auto simp: asm_good_def)
  next
    case 2
    then have car: "carving S j" by (simp add: holds_def)
    have es: "es = [SaveJournal (j\<lparr>jn_phase := Assemble\<rparr>)]" using assms(2) car by (simp add: carving_def)
    let ?d = "apply_effect (SaveJournal (j\<lparr>jn_phase := Assemble\<rparr>)) d"
    have a: "asm S (j\<lparr>jn_phase := Assemble\<rparr>) ?d"
      using 2 car by (simp add: asm_def assembling_def carving_def holds_def parts_at_def side_at_def
          parts_left_def head_flag_def)
    have "good S d' \<or> asm_good S d'" if "crashed es d d'" for d'
      using that holds_good [OF 2(1)] a unfolding es asm_good_def crashed_Cons crashed_Nil tear.simps by blast
    then show ?thesis using a es by simp
  qed
qed

lemma assemble_all:
  assumes S: "source_ok S" and start: "asm_start S j d"
  shows "\<exists>j' es. assemble j d = (Inr (), j', es) \<and> separated S (run_effects es d)
    \<and> (\<forall>d'. crashed es d d' \<longrightarrow> good S d' \<or> asm_good S d' \<or> separated S d')"
proof -
  define j0 where "j0 = j\<lparr>jn_phase := Assemble\<rparr>"
  define es0 where "es0 = (if jn_phase j = Assemble then [] else [SaveJournal j0])"
  have s0: "asm S j0 (run_effects es0 d)" "\<forall>d'. crashed es0 d d' \<longrightarrow> good S d' \<or> asm_good S d'"
    using phase_step [OF start es0_def [unfolded j0_def]] unfolding j0_def by blast+
  obtain j1 es1 where s1: "rename_head j0 (run_effects es0 d) = (Inr (), j1, es1)"
    "asm S j1 (run_effects es1 (run_effects es0 d))" "jn_renamed j1" "jn_chunks j1 = jn_chunks j0"
    "\<forall>d'. crashed es1 (run_effects es0 d) d' \<longrightarrow> asm_good S d'"
    using rename_step [OF S s0(1)] by (elim exE conjE)
  let ?d1 = "run_effects es1 (run_effects es0 d)"
  let ?h = "jn_head_matched j1"
  obtain j2 es2 where s2: "assemble_side ?h j1 ?d1 = (Inr (), j2, es2)" "asm S j2 (run_effects es2 ?d1)" "jn_renamed j2"
    "side_done j2 ?h" "\<forall>c. c \<noteq> ?h \<longrightarrow> jn_assembled j2 c = jn_assembled j1 c" "jn_chunks j2 = jn_chunks j1"
    "\<forall>d'. crashed es2 ?d1 d' \<longrightarrow> asm_good S d'"
    using assemble_side_all [OF S s1(2,3), of ?h] by (elim exE conjE)
  let ?d2 = "run_effects es2 ?d1"
  obtain j3 es3 where s3: "assemble_side (\<not> ?h) j2 ?d2 = (Inr (), j3, es3)" "asm S j3 (run_effects es3 ?d2)" "jn_renamed j3"
    "side_done j3 (\<not> ?h)" "\<forall>c. c \<noteq> (\<not> ?h) \<longrightarrow> jn_assembled j3 c = jn_assembled j2 c" "jn_chunks j3 = jn_chunks j2"
    "\<forall>d'. crashed es3 ?d2 d' \<longrightarrow> asm_good S d'"
    using assemble_side_all [OF S s2(2,3), of "\<not> ?h"] by (elim exE conjE)
  let ?d3 = "run_effects es3 ?d2"
  have "side_done j3 ?h" using s2(4) s3(5,6) by (simp add: side_done_def)
  with s3(4) have both: "side_done j3 b" for b by (cases b; cases ?h) simp_all
  have ready: "outputs_ready S ?d3"
    using side_done_output [OF S s3(2) both] s3(2,3) by (simp add: outputs_ready_def asm_def)
  have fin: "separated S (run_effects discard ?d3)"
    using ready by (simp add: separated_def discard_def outputs_ready_def)
  have "good S d' \<or> asm_good S d' \<or> separated S d'" if "crashed discard ?d3 d'" for d'
    using that s3(2) asm_remove_work [OF s3(2,3) both both] fin
    unfolding discard_def crashed_Cons crashed_Nil tear.simps asm_good_def run_effects_simps by blast
  then have crash: "\<forall>d'. crashed (es0 @ es1 @ es2 @ es3 @ discard) d d' \<longrightarrow> good S d' \<or> asm_good S d' \<or> separated S d'"
    using s0(2) s1(5) s2(7) s3(7) by (auto simp: crashed_append)
  have "assemble j d = (Inr (), j3, es0 @ es1 @ es2 @ es3 @ discard)"
    unfolding assemble_def Let_def j0_def [symmetric] es0_def [symmetric] s1(1) prod.case sum.case s2(1) s3(1) by simp
  then show ?thesis using fin crash by simp
qed

section \<open>The decision pass\<close>

text \<open>The journal with which \<open>run_parts\<close> starts.\<close>

definition journal_new :: "byte list \<Rightarrow> nat \<Rightarrow> journal" where
  "journal_new bom len = \<lparr>jn_bom = bom, jn_original_len = len, jn_phase = Decide, jn_cut = len,
     jn_head_end = len, jn_head_matched = False, jn_chunks = [], jn_renamed = False,
     jn_assembled = (\<lambda>_. assembly_default)\<rparr>"

text \<open>What is on disk when the decision pass ends: the map and the journal with the head located.\<close>

definition decided :: "source \<Rightarrow> disk \<Rightarrow> disk" where
  "decided S d = d\<lparr>dk_map := Some (so_map S),
     dk_journal := Some ((locate_head (runs_list (so_map S)) (journal_new (so_bom S) (length (so_bytes S))))
       \<lparr>jn_phase := Carve\<rparr>)\<rparr>"

lemma decided_good:
  assumes "source_ok S" "dk_original d = Some (so_bytes S)"
  shows "good S (decided S d)"
proof -
  obtain f n rs where rs: "runs_list (so_map S) = (f, n) # rs"
    using assms(1) by (cases "runs_list (so_map S)") (auto simp: source_ok_def so_runs_def)
  let ?j = "(locate_head (runs_list (so_map S)) (journal_new (so_bom S) (length (so_bytes S))))\<lparr>jn_phase := Carve\<rparr>"
  have "holds S ?j (jn_cut ?j) (decided S d)"
    using assms head_bounds [OF assms(1)]
    by (simp add: holds_def decided_def carving_def parts_at_def chunks_ok_def rs locate_head_def journal_new_def
        assembly_default_def head_end_def so_runs_def so_start_def)
  then show ?thesis by (rule holds_good)
qed

section \<open>Recovery\<close>

definition recoverable :: "source \<Rightarrow> disk \<Rightarrow> bool" where
  "recoverable S d \<longleftrightarrow> good S d \<or> asm_good S d"

text \<open>Nobody cancels and there is always room for a chunk.\<close>

definition calm :: "split_env \<Rightarrow> bool" where
  "calm env \<longleftrightarrow> (\<forall>n. \<not> fst (env n) \<and> chunk_size (snd (env n)) \<noteq> Inl NoSpace)"

lemma carve_loop_calm:
  "calm env \<Longrightarrow> carve_loop env rs c j d = (res, j', es) \<Longrightarrow> res \<noteq> Inl SplitCancelled \<and> res \<noteq> Inl NoSpace"
proof (induction env rs c j d arbitrary: res j' es rule: carve_loop.induct)
  case (1 env rs c j d)
  have calm: "\<not> fst (env (jn_cut j))" "chunk_size (snd (env (jn_cut j))) \<noteq> Inl NoSpace"
    using "1.prems"(1) by (simp_all add: calm_def)
  show ?case
  proof (cases "jn_cut j \<le> jn_head_end j")
    case True
    then show ?thesis using "1.prems"(2) by (auto simp: carve_loop.simps)
  next
    case False
    then obtain q where q: "chunk_size (snd (env (jn_cut j))) = Inr q"
      using calm(2) by (cases "chunk_size (snd (env (jn_cut j)))") (auto simp: chunk_size_def Let_def split: if_splits)
    obtain r1 j1 es1 where s: "carve_chunk q rs c j d = (r1, j1, es1)" by (metis prod.collapse)
    show ?thesis
    proof (cases r1)
      case (Inl e)
      then have "res = Inl e" using "1.prems"(2) False calm q s by (simp add: carve_loop.simps [of env rs c j d])
      moreover have "e = OriginalMissing \<or> e = OriginalShorter \<or> e = OriginalAltered"
        using s Inl by (auto simp: carve_chunk_def Let_def split: option.splits prod.splits if_splits)
      ultimately show ?thesis by auto
    next
      case (Inr c1)
      obtain es2 where "carve_loop env rs c1 j1 (run_effects es1 d) = (res, j', es2)"
        using "1.prems"(2) False calm q s Inr by (auto simp: carve_loop.simps [of env rs c j d] split: prod.splits)
      then show ?thesis
        using "1.IH" [OF False calm(1) q s [symmetric] Inr refl "1.prems"(1)] by blast
    qed
  qed
qed

lemma carve_calm:
  "calm env \<Longrightarrow> carve env j d = (res, j', es) \<Longrightarrow> res \<noteq> Inl SplitCancelled \<and> res \<noteq> Inl NoSpace"
  by (auto simp: carve_def Let_def settle_original_def split: sum.splits option.splits prod.splits if_splits
      dest: carve_loop_calm)

lemma recover_completes:
  assumes S: "source_ok S" and r: "recoverable S d" and env: "calm env"
  shows "\<exists>es. recover env False d = (Inr Separated, es) \<and> separated S (run_effects es d)
    \<and> (\<forall>d'. crashed es d d' \<longrightarrow> recoverable S d' \<or> separated S d')"
proof -
  consider "asm_good S d" | "good S d" using r by (auto simp: recoverable_def)
  then show ?thesis
  proof cases
  assume "asm_good S d"
  then obtain j where j: "asm S j d" by (auto simp: asm_good_def)
  then have ph: "dk_journal d = Some j" "jn_phase j = Assemble" by (simp_all add: asm_def assembling_def)
  have "asm_start S j d" using j by (simp add: asm_start_def)
  then obtain j' es where all: "assemble j d = (Inr (), j', es)" "separated S (run_effects es d)"
    "\<forall>d'. crashed es d d' \<longrightarrow> good S d' \<or> asm_good S d' \<or> separated S d'"
    using assemble_all [OF S] by blast
  show ?thesis using ph all by (auto simp: recover_def recoverable_def)
next
  assume "good S d"
  then obtain j n where h: "holds S j n d" "cut_or_late j n" by (auto simp: good_def)
  then have j: "dk_journal d = Some j" "jn_phase j = Carve" by (simp_all add: holds_def carving_def)
  obtain res j1 es1 where c: "carve env j d = (res, j1, es1)" by (metis prod.collapse)
  note cs = carve_safe [OF S h c]
  have "res = Inr ()" using cs carve_calm [OF env c] by (cases res) auto
  then have st: "holds S j1 (jn_cut j1) (run_effects es1 d)" "jn_cut j1 = head_end S" "\<forall>d'. crashed es1 d d' \<longrightarrow> good S d'"
    using cs by auto
  then have "asm_start S j1 (run_effects es1 d)" by (simp add: asm_start_def)
  from assemble_all [OF S this] obtain j2 es2 where a: "assemble j1 (run_effects es1 d) = (Inr (), j2, es2)"
    "separated S (run_effects es2 (run_effects es1 d))"
    "\<forall>d'. crashed es2 (run_effects es1 d) d' \<longrightarrow> good S d' \<or> asm_good S d' \<or> separated S d'"
    by (elim exE conjE)
  have "dk_original d \<noteq> None" using h by (simp add: holds_def)
  then have "recover env False d = (Inr Separated, es1 @ es2)"
    using j c \<open>res = Inr ()\<close> a(1) by (simp add: recover_def carve_and_finish_def)
  then show ?thesis using a st(3) by (auto simp: crashed_append recoverable_def)
  qed
qed

text \<open>C1. Crash safety of the whole separation. Call a disk recoverable when it is one of those
  \<open>recoverable_def\<close> lists: the state the decision pass leaves (\<open>decided_good\<close>), or one that carving or
  assembling passes through, stopped between two writes or inside one. From any recoverable disk run the
  separation without cancelling it and with room for a chunk, and stop it at any point, even inside a
  write. If the journal is still there the disk is recoverable again, and running once more, under
  whatever other memory and disk conditions leave room for a chunk, succeeds: the two outputs then hold
  exactly the mark followed by the bytes decided for them, in file order, the original being gone. Not
  claimed of a disk torn inside the write of an undo, which is not recoverable (\<open>torn_undo_is_stuck\<close>).
  A save of the journal is one atomic, durable step.\<close>

theorem separation_crash_safe:
  assumes "source_ok S" "recoverable S d" "calm env" "calm env'"
    and "crashed (snd (recover env False d)) d d'" "dk_journal d' \<noteq> None"
  shows "recoverable S d' \<and> fst (recover env' False d') = Inr Separated
    \<and> separated S (run_effects (snd (recover env' False d')) d')"
proof -
  obtain es where "recover env False d = (Inr Separated, es)"
    "\<forall>d'. crashed es d d' \<longrightarrow> recoverable S d' \<or> separated S d'"
    using recover_completes [OF assms(1-3)] by blast
  then have r: "recoverable S d'" using assms(5,6) by (auto simp: separated_def)
  from recover_completes [OF assms(1) r assms(4)] show ?thesis using r by auto
qed

lemma small_calm: "calm small_env"
  by (simp add: calm_def small_env_def chunk_size_def Let_def reserve_bytes_def min_chunk_def)

theorem separation_crash_safe_witness:
  "separated small (run_effects (snd (recover small_env False small_disk)) small_disk)"
proof -
  have "recoverable small small_disk" using small_good by (simp add: recoverable_def)
  moreover have "crashed (snd (recover small_env False small_disk)) small_disk small_disk" by (rule crash_stop)
  moreover have "dk_journal small_disk \<noteq> None" by (simp add: small_disk_def)
  ultimately show ?thesis
    using separation_crash_safe [OF small_ok _ small_calm small_calm] by blast
qed

text \<open>The separation is a partition: the bytes of the two outputs, without their marks, are the bytes
  of the original after its mark, each in one output only and in the order of the file.\<close>

theorem outputs_partition:
  assumes "source_ok S"
  shows "\<exists>flags. length flags = length (so_bytes S) - so_start S
    \<and> output_of S True = so_bom S @ map fst (filter snd (zip (drop (so_start S) (so_bytes S)) flags))
    \<and> output_of S False = so_bom S @ map fst (filter (\<lambda>p. \<not> snd p) (zip (drop (so_start S) (so_bytes S)) flags))"
proof (intro exI conjI)
  let ?ds = "so_start S" and ?xs = "so_bytes S" and ?fs = "expand (so_runs S)"
  show len: "length ?fs = length ?xs - ?ds"
    using assms by (simp add: source_ok_def length_expand)
  have le: "?ds \<le> length ?xs" using assms by (simp add: source_ok_def)
  have z: "zip (drop ?ds ?xs) ?fs = map (\<lambda>i. (?xs ! i, ?fs ! (i - ?ds))) [?ds..<length ?xs]"
    using len le by (intro nth_equalityI) simp_all
  have "side S b ?ds (length ?xs) = map fst (filter (\<lambda>p. snd p = b) (zip (drop ?ds ?xs) ?fs))" for b
    unfolding z by (simp add: side_def pick_def flag_at_def filter_map comp_def)
  then show "output_of S True = so_bom S @ map fst (filter snd (zip (drop ?ds ?xs) ?fs))"
    "output_of S False = so_bom S @ map fst (filter (\<lambda>p. \<not> snd p) (zip (drop ?ds ?xs) ?fs))"
    by (simp_all add: output_of_def)
qed

theorem outputs_partition_witness:
  "\<exists>flags. length flags = length (so_bytes small) - so_start small
     \<and> output_of small True = so_bom small @ map fst (filter snd (zip (drop (so_start small) (so_bytes small)) flags))"
  using outputs_partition [OF small_ok] by blast

end
