(* ===== verification/Split_Codec.thy ===== *)
theory Split_Codec
  imports Rust_Text
begin

text \<open>
  Bytes of the original, unit by unit: \<open>src-tauri/src/log_split/codec.rs\<close>. Line breaks are searched in
  the encoding of the file, so a break is never seen across two UTF-16 units. Decoding text is left to
  \<open>encoding_rs\<close> and is a parameter of the theories that use it; \<open>encode\<close> is in \<open>Split_Stream\<close>.
\<close>

section \<open>Codecs\<close>

datatype encoding = Utf8 | Legacy string | Cp850 | Utf16Le | Utf16Be

record codec =
  cd_encoding :: encoding
  cd_bom :: nat
  cd_newline :: byte

definition starts_with :: "'a list \<Rightarrow> 'a list \<Rightarrow> bool" where
  "starts_with p xs \<longleftrightarrow> take (length p) xs = p"

definition ascii_bytes :: "string \<Rightarrow> byte list" where
  "ascii_bytes s = map (\<lambda>c. word_of_nat (of_char c)) s"

definition container :: "byte list \<Rightarrow> string option" where
  "container sample =
     (if starts_with [0x1f, 0x8b] sample then Some ''gzip''
      else if starts_with (ascii_bytes ''BZh'') sample then Some ''bzip2''
      else if starts_with ([0xfd] @ ascii_bytes ''7zXZ'' @ [0]) sample then Some ''xz''
      else if starts_with [0x28, 0xb5, 0x2f, 0xfd] sample then Some ''zstd''
      else if starts_with (ascii_bytes ''PK'' @ [3, 4]) sample then Some ''zip''
      else if starts_with (ascii_bytes ''ElfFile'' @ [0]) sample then Some ''evtx''
      else None)"

definition codec_width :: "codec \<Rightarrow> nat" where
  "codec_width c = (case cd_encoding c of Utf16Le \<Rightarrow> 2 | Utf16Be \<Rightarrow> 2 | _ \<Rightarrow> 1)"

definition codec_align :: "codec \<Rightarrow> nat \<Rightarrow> nat" where
  "codec_align c n = n - n mod codec_width c"

section \<open>Finding line breaks\<close>

text \<open>\<open>memchr\<close>: the first position of a byte.\<close>

fun memchr :: "byte \<Rightarrow> byte list \<Rightarrow> nat option" where
  "memchr b [] = None"
| "memchr b (x # xs) = (if x = b then Some 0 else map_option Suc (memchr b xs))"

lemma memchr_Some: "memchr b xs = Some p \<longleftrightarrow> p < length xs \<and> xs ! p = b \<and> (\<forall>q < p. xs ! q \<noteq> b)"
proof (induction xs arbitrary: p)
  case (Cons x xs)
  show ?case
  proof (cases p)
    case 0
    then show ?thesis by auto
  next
    case (Suc q)
    then show ?thesis using Cons.IH [of q]
      by (auto simp: less_Suc_eq_0_disj nth_Cons')
  qed
qed simp

lemma memchr_None: "memchr b xs = None \<longleftrightarrow> b \<notin> set xs"
  by (induction xs) auto

text \<open>
  The loop \<open>find_newline\<close> runs for both two-byte encodings: the next newline byte, unless it is not
  where a break unit has it (\<open>test\<close>). \<open>buf.get(pos..)?\<close> answers \<open>None\<close> past the end.
\<close>

function unit_scan :: "(nat \<Rightarrow> bool) \<Rightarrow> byte \<Rightarrow> byte list \<Rightarrow> nat \<Rightarrow> nat option" where
  "unit_scan test nl buf pos =
     (if length buf < pos then None
      else case memchr nl (drop pos buf) of
             None \<Rightarrow> None
           | Some k \<Rightarrow> if test (pos + k) then Some (pos + k) else unit_scan test nl buf (pos + k + 1))"
  by pat_completeness auto
termination
  by (relation "measure (\<lambda>(test, nl, buf, pos). Suc (length buf) - pos)") (auto simp: memchr_Some)

declare unit_scan.simps [simp del]

definition find_newline :: "codec \<Rightarrow> byte list \<Rightarrow> nat \<Rightarrow> nat option" where
  "find_newline c buf start =
     (case cd_encoding c of
        Utf16Le \<Rightarrow>
          unit_scan (\<lambda>p. (p - start) mod 2 = 0 \<and> p + 1 < length buf \<and> buf ! (p + 1) = 0) (cd_newline c) buf start
      | Utf16Be \<Rightarrow>
          map_option (\<lambda>p. p - 1)
            (unit_scan (\<lambda>p. (p - start) mod 2 = 1 \<and> buf ! (p - 1) = 0) (cd_newline c) buf (start + 1))
      | _ \<Rightarrow> (if length buf < start then None
              else map_option (\<lambda>p. start + p) (memchr (cd_newline c) (drop start buf))))"

function count_units :: "codec \<Rightarrow> byte list \<Rightarrow> nat \<Rightarrow> nat" where
  "count_units c bytes pos =
     (case find_newline c bytes pos of
        None \<Rightarrow> 0
      | Some p \<Rightarrow> if pos \<le> p \<and> p < length bytes then Suc (count_units c bytes (p + 2)) else 0)"
  by pat_completeness auto
termination
  by (relation "measure (\<lambda>(c, bytes, pos). length bytes - pos)") auto

declare count_units.simps [simp del]

definition count_newlines :: "codec \<Rightarrow> byte list \<Rightarrow> nat" where
  "count_newlines c bytes =
     (if codec_width c = 1 then length (filter (\<lambda>b. b = cd_newline c) bytes)
      else count_units c bytes 0)"

text \<open>\<open>trim_end_matches(['\\n', '\\r'])\<close>.\<close>

definition trim_break :: "rstr \<Rightarrow> rstr" where
  "trim_break s = rev (dropWhile (\<lambda>c. c = 10 \<or> c = 13) (rev s))"

section \<open>What is found\<close>

text \<open>A line break unit at \<open>p\<close>, counting units from \<open>start\<close>.\<close>

definition break_at :: "codec \<Rightarrow> byte list \<Rightarrow> nat \<Rightarrow> nat \<Rightarrow> bool" where
  "break_at c buf start p \<longleftrightarrow> start \<le> p \<and>
     (case cd_encoding c of
        Utf16Le \<Rightarrow> even (p - start) \<and> p + 1 < length buf \<and> buf ! p = cd_newline c \<and> buf ! (p + 1) = 0
      | Utf16Be \<Rightarrow> even (p - start) \<and> p + 1 < length buf \<and> buf ! p = 0 \<and> buf ! (p + 1) = cd_newline c
      | _ \<Rightarrow> p < length buf \<and> buf ! p = cd_newline c)"

definition first_at :: "(nat \<Rightarrow> bool) \<Rightarrow> nat \<Rightarrow> nat \<Rightarrow> bool" where
  "first_at P start p \<longleftrightarrow> start \<le> p \<and> P p \<and> (\<forall>q. start \<le> q \<and> q < p \<longrightarrow> \<not> P q)"

lemma memchr_drop:
  assumes "pos \<le> length buf"
  shows "memchr nl (drop pos buf) = Some k \<longleftrightarrow> first_at (\<lambda>q. q < length buf \<and> buf ! q = nl) pos (pos + k)"
    "memchr nl (drop pos buf) = None \<longleftrightarrow> (\<forall>q. pos \<le> q \<and> q < length buf \<longrightarrow> buf ! q \<noteq> nl)"
proof -
  have shift: "(\<forall>q < k. drop pos buf ! q \<noteq> nl) \<longleftrightarrow> (\<forall>q. pos \<le> q \<and> q < pos + k \<longrightarrow> buf ! q \<noteq> nl)"
    if "pos + k \<le> length buf" for k
  proof
    assume a: "\<forall>q < k. drop pos buf ! q \<noteq> nl"
    show "\<forall>q. pos \<le> q \<and> q < pos + k \<longrightarrow> buf ! q \<noteq> nl"
    proof (intro allI impI)
      fix q assume q: "pos \<le> q \<and> q < pos + k"
      then have "q - pos < k" by linarith
      then have "drop pos buf ! (q - pos) \<noteq> nl" using a by blast
      then show "buf ! q \<noteq> nl" using q assms by simp
    qed
  qed (use assms in auto)
  show "memchr nl (drop pos buf) = Some k \<longleftrightarrow> first_at (\<lambda>q. q < length buf \<and> buf ! q = nl) pos (pos + k)"
    using shift [of k] assms by (auto simp: memchr_Some first_at_def)
  show "memchr nl (drop pos buf) = None \<longleftrightarrow> (\<forall>q. pos \<le> q \<and> q < length buf \<longrightarrow> buf ! q \<noteq> nl)"
    using shift [of "length buf - pos"] assms by (auto simp: memchr_None in_set_conv_nth)
qed

lemma unit_scan_spec:
  "(unit_scan test nl buf pos = Some p \<longrightarrow> first_at (\<lambda>q. q < length buf \<and> buf ! q = nl \<and> test q) pos p)
   \<and> (unit_scan test nl buf pos = None \<longrightarrow> (\<forall>q. pos \<le> q \<and> q < length buf \<longrightarrow> \<not> (buf ! q = nl \<and> test q)))"
proof (induction test nl buf pos arbitrary: p rule: unit_scan.induct)
  case (1 test nl buf pos)
  show ?case
  proof (cases "length buf < pos \<or> memchr nl (drop pos buf) = None")
    case True
    then have "unit_scan test nl buf pos = None" by (auto simp: unit_scan.simps)
    then show ?thesis using True memchr_drop(2) [of pos buf nl] by (cases "pos \<le> length buf") auto
  next
    case False
    then obtain k where k: "memchr nl (drop pos buf) = Some k" and le: "pos \<le> length buf" by auto
    have f: "first_at (\<lambda>q. q < length buf \<and> buf ! q = nl) pos (pos + k)" using k memchr_drop(1) [OF le] by simp
    show ?thesis
    proof (cases "test (pos + k)")
      case True
      then have "unit_scan test nl buf pos = Some (pos + k)" using k le by (simp add: unit_scan.simps [of test nl buf pos])
      then show ?thesis using True f by (auto simp: first_at_def)
    next
      case skip: False
      then have rec: "unit_scan test nl buf pos = unit_scan test nl buf (pos + k + 1)"
        using k le by (simp add: unit_scan.simps [of test nl buf pos])
      have gap: "\<not> (q < length buf \<and> buf ! q = nl \<and> test q)" if "pos \<le> q" "q < pos + k + 1" for q
        using f that skip by (cases "q = pos + k") (auto simp: first_at_def)
      have ih: "(unit_scan test nl buf (pos + k + 1) = Some p \<longrightarrow>
            first_at (\<lambda>q. q < length buf \<and> buf ! q = nl \<and> test q) (pos + k + 1) p)
          \<and> (unit_scan test nl buf (pos + k + 1) = None \<longrightarrow>
            (\<forall>q. pos + k + 1 \<le> q \<and> q < length buf \<longrightarrow> \<not> (buf ! q = nl \<and> test q)))"
        using False by (intro "1.IH" [OF _ k skip]) simp
      show ?thesis unfolding rec
      proof (intro conjI impI allI)
        assume "unit_scan test nl buf (pos + k + 1) = Some p"
        then have f: "first_at (\<lambda>q. q < length buf \<and> buf ! q = nl \<and> test q) (pos + k + 1) p" using ih by blast
        have "\<not> (q < length buf \<and> buf ! q = nl \<and> test q)" if "pos \<le> q" "q < p" for q
          using f gap [of q] that by (cases "q < pos + k + 1") (auto simp: first_at_def)
        then show "first_at (\<lambda>q. q < length buf \<and> buf ! q = nl \<and> test q) pos p"
          using f by (auto simp: first_at_def)
      next
        fix q
        assume n: "unit_scan test nl buf (pos + k + 1) = None" and q: "pos \<le> q \<and> q < length buf"
        show "\<not> (buf ! q = nl \<and> test q)"
        proof (cases "q < pos + k + 1")
          case True
          then show ?thesis using gap [of q] q by blast
        next
          case False
          then show ?thesis using ih n q by simp
        qed
      qed
    qed
  qed
qed

lemma find_newline_spec:
  assumes "start \<le> length buf"
  shows "case find_newline c buf start of
      Some p \<Rightarrow> first_at (break_at c buf start) start p
    | None \<Rightarrow> \<forall>q. \<not> break_at c buf start q"
proof -
  consider (le) "cd_encoding c = Utf16Le" | (be) "cd_encoding c = Utf16Be" | (one) "codec_width c = 1"
    by (cases "cd_encoding c") (auto simp: codec_width_def)
  then show ?thesis
  proof cases
    case le
    let ?test = "\<lambda>p. (p - start) mod 2 = 0 \<and> p + 1 < length buf \<and> buf ! (p + 1) = 0"
    have b: "break_at c buf start q \<longleftrightarrow> start \<le> q \<and> q < length buf \<and> buf ! q = cd_newline c \<and> ?test q" for q
      by (auto simp: break_at_def le even_iff_mod_2_eq_zero)
    show ?thesis
    proof (cases "unit_scan ?test (cd_newline c) buf start")
      case None
      then show ?thesis using unit_scan_spec [of ?test "cd_newline c" buf start] by (simp add: find_newline_def le b)
    next
      case (Some p)
      then show ?thesis using unit_scan_spec [of ?test "cd_newline c" buf start p]
        by (simp add: find_newline_def le first_at_def b)
    qed
  next
    case be
    let ?test = "\<lambda>p. (p - start) mod 2 = 1 \<and> buf ! (p - 1) = 0"
    have b: "break_at c buf start q \<longleftrightarrow> start + 1 \<le> q + 1 \<and> q + 1 < length buf \<and> buf ! (q + 1) = cd_newline c \<and> ?test (q + 1)" for q
      by (cases "start \<le> q") (auto simp: break_at_def be Suc_diff_le even_iff_mod_2_eq_zero mod_Suc split: if_splits)
    show ?thesis
    proof (cases "unit_scan ?test (cd_newline c) buf (start + 1)")
      case None
      then have "\<not> break_at c buf start q" for q
        using unit_scan_spec [of ?test "cd_newline c" buf "start + 1"] unfolding b by blast
      then show ?thesis using None by (simp add: find_newline_def be)
    next
      case (Some p)
      then have f: "first_at (\<lambda>q. q < length buf \<and> buf ! q = cd_newline c \<and> ?test q) (start + 1) p"
        using unit_scan_spec by blast
      then have p: "p = (p - 1) + 1" "start \<le> p - 1" by (auto simp: first_at_def)
      have "break_at c buf start (p - 1)" using f p unfolding b first_at_def by simp
      moreover have "\<not> break_at c buf start q" if "q < p - 1" for q
        using f that unfolding b first_at_def by (metis add_less_cancel_right p(1))
      ultimately have "first_at (break_at c buf start) start (p - 1)" using p by (simp add: first_at_def)
      then show ?thesis using Some by (simp add: find_newline_def be)
    qed
  next
    case one
    then have enc: "find_newline c buf start = map_option (\<lambda>p. start + p) (memchr (cd_newline c) (drop start buf))"
      "break_at c buf start q \<longleftrightarrow> start \<le> q \<and> q < length buf \<and> buf ! q = cd_newline c" for q
      using assms by (auto simp: find_newline_def break_at_def codec_width_def split: encoding.splits)
    show ?thesis
    proof (cases "memchr (cd_newline c) (drop start buf)")
      case None
      then have "\<forall>q. start \<le> q \<and> q < length buf \<longrightarrow> buf ! q \<noteq> cd_newline c"
        using memchr_drop(2) [OF assms] by simp
      then show ?thesis using None by (simp add: enc)
    next
      case (Some k)
      then have "first_at (\<lambda>q. q < length buf \<and> buf ! q = cd_newline c) start (start + k)"
        using memchr_drop(1) [OF assms] by simp
      then show ?thesis using Some by (simp add: enc first_at_def)
    qed
  qed
qed

text \<open>\<open>find_newline\<close> answers the first line break unit at or after the position it is asked from, in
  the units of the encoding, and \<open>None\<close> only when there is none: no byte of another unit is ever taken
  for a break, and none is missed.\<close>

theorem find_newline_first:
  assumes "start \<le> length buf"
  shows "case find_newline c buf start of
      Some p \<Rightarrow> first_at (break_at c buf start) start p
    | None \<Rightarrow> \<forall>q. \<not> break_at c buf start q"
  using assms by (rule find_newline_spec)

text \<open>The text \<open>a\<close>, U+0A0A, \<open>b\<close>, line feed in UTF-16LE.\<close>

definition sample_le :: codec where
  "sample_le = \<lparr>cd_encoding = Utf16Le, cd_bom = 0, cd_newline = 10\<rparr>"

definition sample_text :: "byte list" where
  "sample_text = [97, 0, 10, 10, 98, 0, 10, 0]"

theorem find_newline_first_witness:
  "first_at (break_at sample_le sample_text 0) 0 6"
proof -
  have "find_newline sample_le sample_text 0 = Some 6" by code_simp
  then show ?thesis using find_newline_first [of 0 sample_text sample_le] by simp
qed

section \<open>Counting lines\<close>

lemma break_at_shift:
  "codec_width c = 2 \<Longrightarrow> even pos \<Longrightarrow> break_at c buf pos q \<longleftrightarrow> break_at c buf 0 q \<and> pos \<le> q"
  by (auto simp: break_at_def codec_width_def split: encoding.splits)

lemma break_at_bound: "break_at c buf start q \<Longrightarrow> q < length buf"
  by (auto simp: break_at_def split: encoding.splits)

lemma finite_breaks [simp]: "finite {q. break_at c buf 0 q \<and> P q}"
  by (rule finite_subset [of _ "{..<length buf}"]) (auto dest: break_at_bound)

lemma count_units_card:
  assumes "codec_width c = 2" "even pos"
  shows "count_units c bytes pos = card {q. break_at c bytes 0 q \<and> pos \<le> q}"
  using assms
proof (induction c bytes pos rule: count_units.induct)
  case (1 c bytes pos)
  let ?B = "\<lambda>n. {q. break_at c bytes 0 q \<and> n \<le> q}"
  have shift: "break_at c bytes pos q \<longleftrightarrow> break_at c bytes 0 q \<and> pos \<le> q" for q
    using "1.prems" by (rule break_at_shift)
  show ?case
  proof (cases "length bytes < pos")
    case True
    then have "find_newline c bytes pos = None"
      using "1.prems"(1) by (auto simp: find_newline_def codec_width_def unit_scan.simps split: encoding.splits)
    moreover have "?B pos = {}" using True by (auto dest: break_at_bound)
    ultimately show ?thesis by (simp add: count_units.simps)
  next
    case False
    then have f: "case find_newline c bytes pos of Some p \<Rightarrow> first_at (break_at c bytes pos) pos p
        | None \<Rightarrow> \<forall>q. \<not> break_at c bytes pos q"
      by (intro find_newline_spec) simp
    show ?thesis
    proof (cases "find_newline c bytes pos")
      case None
      then have "?B pos = {}" using f shift by auto
      then show ?thesis using None by (simp add: count_units.simps)
    next
      case (Some p)
      then have p: "pos \<le> p" "break_at c bytes 0 p" "\<And>q. pos \<le> q \<Longrightarrow> q < p \<Longrightarrow> \<not> break_at c bytes 0 q"
        using f by (auto simp: first_at_def shift)
      have ev: "even p" "even q" if "break_at c bytes 0 q" for q
        using p(2) that "1.prems"(1) by (auto simp: break_at_def codec_width_def split: encoding.splits)
      have "?B pos = insert p (?B (p + 2))"
      proof (intro set_eqI iffI)
        fix q assume q: "q \<in> ?B pos"
        then have "p \<le> q" using p(3) [of q] by (cases "q < p") auto
        moreover have "even q" "even p" using ev q by auto
        then have "q \<noteq> p + 1" by auto
        ultimately show "q \<in> insert p (?B (p + 2))" using q by auto
      qed (use p in auto)
      then have "card (?B pos) = Suc (card (?B (p + 2)))" by simp
      moreover have "count_units c bytes (p + 2) = card (?B (p + 2))"
        using "1.IH" [OF Some] p break_at_bound [OF p(2)] "1.prems"(1) ev(1) [OF p(2)] by simp
      ultimately show ?thesis
        using Some p(1) break_at_bound [OF p(2)] by (simp add: count_units.simps [of c bytes pos])
    qed
  qed
qed

text \<open>\<open>count_newlines\<close> counts the line break units of the bytes: the line numbers of the items do not
  depend on the encoding of the file.\<close>

theorem count_newlines_card:
  "count_newlines c bytes = card {q. break_at c bytes 0 q}"
proof (cases "codec_width c = 1")
  case True
  then have "break_at c bytes 0 q \<longleftrightarrow> q < length bytes \<and> bytes ! q = cd_newline c" for q
    by (auto simp: break_at_def codec_width_def split: encoding.splits)
  then show ?thesis using True by (simp add: count_newlines_def length_filter_conv_card)
next
  case False
  then have w: "codec_width c = 2" by (auto simp: codec_width_def split: encoding.splits)
  then show ?thesis using count_units_card [OF w, of 0 bytes] by (simp add: count_newlines_def)
qed

end
