(* ===== verification/Stamp_Cursor.thy ===== *)
theory Stamp_Cursor
  imports Rust_Text
begin

text \<open>
  The cursor of the date recognizer (\<open>src-tauri/src/sources/stamp.rs\<close>): bytes are numbers below 256, a
  cursor is the line's bytes with a position, and a reader answers its value with the position it
  leaves. The readers of numbers, words, names of months and weekdays, fractions and AM/PM.
\<close>

section \<open>The cursor\<close>

type_synonym octets = "nat list"

definition digit :: "nat option \<Rightarrow> bool" where
  "digit b = (case b of None \<Rightarrow> False | Some b \<Rightarrow> is_ascii_digit b)"

definition alnum :: "nat option \<Rightarrow> bool" where
  "alnum b = (case b of None \<Rightarrow> False | Some b \<Rightarrow> is_ascii_alnum b)"

definition peek :: "octets \<Rightarrow> nat \<Rightarrow> nat option" where
  "peek s i = (if i < length s then Some (s ! i) else None)"

definition ahead_at :: "octets \<Rightarrow> nat \<Rightarrow> nat \<Rightarrow> nat option" where
  "ahead_at s i k = peek s (i + k)"

definition eat :: "octets \<Rightarrow> nat \<Rightarrow> nat \<Rightarrow> bool \<times> nat" where
  "eat s c i = (if peek s i = Some c then (True, i + 1) else (False, i))"

text \<open>\<open>while peek().is_some_and(P) { i += 1 }\<close>, and the bytes between two positions.\<close>

definition run_end :: "(nat \<Rightarrow> bool) \<Rightarrow> octets \<Rightarrow> nat \<Rightarrow> nat" where
  "run_end P s i = i + length (takeWhile P (drop i s))"

definition between :: "octets \<Rightarrow> nat \<Rightarrow> nat \<Rightarrow> octets" where
  "between s i j = take (j - i) (drop i s)"

section \<open>Numbers\<close>

definition sat_digit :: "nat \<Rightarrow> nat \<Rightarrow> nat" where
  "sat_digit v b = min (min (v * 10) u32_max + (b - 48)) u32_max"

fun num_loop :: "octets \<Rightarrow> nat \<Rightarrow> nat \<Rightarrow> nat \<Rightarrow> nat \<times> nat" where
  "num_loop s 0 v i = (v, i)"
| "num_loop s (Suc k) v i = (if digit (peek s i) then num_loop s k (sat_digit v (s ! i)) (i + 1) else (v, i))"

definition read_num :: "octets \<Rightarrow> nat \<Rightarrow> nat \<Rightarrow> nat \<Rightarrow> (nat \<times> nat) option \<times> nat" where
  "read_num s least most i =
     (let (v, j) = num_loop s most 0 i; count = j - i
      in if count < least \<or> digit (peek s j) then (None, i) else (Some (v, count), j))"

fun fixed_loop :: "octets \<Rightarrow> nat \<Rightarrow> nat \<Rightarrow> nat \<Rightarrow> nat option \<times> nat" where
  "fixed_loop s 0 v i = (Some v, i)"
| "fixed_loop s (Suc k) v i =
     (if digit (peek s i) then fixed_loop s k (v * 10 + (s ! i - 48)) (i + 1) else (None, i))"

definition read_fixed :: "octets \<Rightarrow> nat \<Rightarrow> nat \<Rightarrow> nat option \<times> nat" where
  "read_fixed s n i = (case fixed_loop s n 0 i of (None, _) \<Rightarrow> (None, i) | (Some v, j) \<Rightarrow> (Some v, j))"

definition spaces :: "octets \<Rightarrow> nat \<Rightarrow> nat \<times> nat" where
  "spaces s i = (let j = run_end (\<lambda>b. b = 32 \<or> b = 9) s i in (j - i, j))"

section \<open>Words\<close>

text \<open>At most 24 bytes of letters, then on to the end of a UTF-8 sequence.\<close>

definition read_word :: "octets \<Rightarrow> nat \<Rightarrow> octets \<times> nat" where
  "read_word s i =
     (let j = i + length (takeWhile (\<lambda>b. is_ascii_alpha b \<or> 128 \<le> b) (take 24 (drop i s)));
          j = run_end (\<lambda>b. 128 \<le> b \<and> b < 192) s j
      in (between s i j, j))"

text \<open>
  \<open>String::from_utf8_lossy\<close>: what is not UTF-8 becomes the replacement character, one for the longest start
  of a sequence that is broken off (\<open>broken_tail\<close> bytes after the first).
\<close>

definition is_continuation :: "nat \<Rightarrow> bool" where
  "is_continuation b \<longleftrightarrow> 128 \<le> b \<and> b < 192"

definition broken_tail :: "nat \<Rightarrow> octets \<Rightarrow> nat" where
  "broken_tail b bs =
     (if 224 \<le> b \<and> b < 245 \<and> bs \<noteq> [] \<and> is_continuation (bs ! 0)
         \<and> (b = 224 \<longrightarrow> 160 \<le> bs ! 0) \<and> (b = 237 \<longrightarrow> bs ! 0 < 160)
         \<and> (b = 240 \<longrightarrow> 144 \<le> bs ! 0) \<and> (b = 244 \<longrightarrow> bs ! 0 < 144)
      then (if 240 \<le> b \<and> 2 \<le> length bs \<and> is_continuation (bs ! 1) then 2 else 1)
      else 0)"

function utf8_lossy :: "octets \<Rightarrow> rstr" where
  "utf8_lossy [] = []"
| "utf8_lossy (b # bs) =
     (if b < 128 then b # utf8_lossy bs
      else if 194 \<le> b \<and> b < 224 \<and> 1 \<le> length bs \<and> list_all is_continuation (take 1 bs) then
        ((b - 192) * 64 + (bs ! 0 - 128)) # utf8_lossy (drop 1 bs)
      else if 224 \<le> b \<and> b < 240 \<and> 2 \<le> length bs \<and> list_all is_continuation (take 2 bs)
          \<and> (b = 224 \<longrightarrow> 160 \<le> bs ! 0) \<and> (b = 237 \<longrightarrow> bs ! 0 < 160) then
        ((b - 224) * 4096 + (bs ! 0 - 128) * 64 + (bs ! 1 - 128)) # utf8_lossy (drop 2 bs)
      else if 240 \<le> b \<and> b < 245 \<and> 3 \<le> length bs \<and> list_all is_continuation (take 3 bs)
          \<and> (b = 240 \<longrightarrow> 144 \<le> bs ! 0) \<and> (b = 244 \<longrightarrow> bs ! 0 < 144) then
        ((b - 240) * 262144 + (bs ! 0 - 128) * 4096 + (bs ! 1 - 128) * 64 + (bs ! 2 - 128)) # utf8_lossy (drop 3 bs)
      else 65533 # utf8_lossy (drop (broken_tail b bs) bs))"
  by pat_completeness auto
termination by (relation "measure length") auto
declare utf8_lossy.simps [simp del]

text \<open>
  \<open>str::to_lowercase\<close> as far as the names compared with it reach: exact for every character whose
  lowercase form is a character of ASCII or Latin-1; the others keep their own code, which no name has.
\<close>

definition latin_lower :: "nat \<Rightarrow> nat" where
  "latin_lower c =
     (if 65 \<le> c \<and> c \<le> 90 then c + 32
      else if 192 \<le> c \<and> c \<le> 222 \<and> c \<noteq> 215 then c + 32
      else if c = 376 then 255 else if c = 7838 then 223 else if c = 8490 then 107 else if c = 8491 then 229 else c)"

definition lower_word :: "octets \<Rightarrow> rstr" where
  "lower_word w = (if list_all (\<lambda>b. b < 128) w \<and> length w \<le> 24 then map ascii_lower w else map latin_lower (utf8_lossy w))"

definition month_names :: "(nat \<times> rstr list) list" where
  "month_names =
    [(1, map lit [''jan'', ''january'', ''janeiro'', ''ene'', ''enero'', ''janv'', ''janvier'', ''januar'', ''gen'', ''gennaio'']),
     (2, map lit [''feb'', ''february'', ''fev'', ''fevereiro'', ''febrero'', ''fevr'', ''fevrier'', ''februar'', ''febbraio'']
         @ [lit ''f'' @ [233] @ lit ''vr'', lit ''f'' @ [233] @ lit ''vrier'']),
     (3, map lit [''mar'', ''march'', ''marco'', ''marzo'', ''mars'', ''marz'', ''mrz'']
         @ [lit ''mar'' @ [231] @ lit ''o'', lit ''m'' @ [228] @ lit ''rz'', lit ''m'' @ [228] @ lit ''r'']),
     (4, map lit [''apr'', ''april'', ''abr'', ''abril'', ''avr'', ''avril'', ''aprile'']),
     (5, map lit [''may'', ''mai'', ''maio'', ''mayo'', ''mag'', ''maggio'']),
     (6, map lit [''jun'', ''june'', ''junho'', ''junio'', ''juin'', ''juni'', ''giu'', ''giugno'']),
     (7, map lit [''jul'', ''july'', ''julho'', ''julio'', ''juil'', ''juillet'', ''juli'', ''lug'', ''luglio'']),
     (8, map lit [''aug'', ''august'', ''ago'', ''agosto'', ''aout''] @ [lit ''ao'' @ [251] @ lit ''t'']),
     (9, map lit [''sep'', ''sept'', ''september'', ''set'', ''setembro'', ''septiembre'', ''setiembre'', ''septembre'', ''settembre'']),
     (10, map lit [''oct'', ''october'', ''out'', ''outubro'', ''octubre'', ''octobre'', ''okt'', ''oktober'', ''ott'', ''ottobre'']),
     (11, map lit [''nov'', ''november'', ''novembro'', ''noviembre'', ''novembre'']),
     (12, map lit [''dec'', ''december'', ''dez'', ''dezembro'', ''dic'', ''diciembre'', ''decembre'', ''dezember'', ''dicembre'']
         @ [lit ''d'' @ [233] @ lit ''c'', lit ''d'' @ [233] @ lit ''cembre''])]"

definition month_of :: "octets \<Rightarrow> nat option" where
  "month_of w =
     (if length w < 3 \<or> 20 < length w then None
      else map_option fst (find (\<lambda>(_, ns). list_ex ((=) (lower_word w)) ns) month_names))"

definition weekday_names :: "rstr list" where
  "weekday_names =
     map lit [''mon'', ''monday'', ''tue'', ''tues'', ''tuesday'', ''wed'', ''wednesday'', ''thu'', ''thur'', ''thurs'', ''thursday'',
       ''fri'', ''friday'', ''sat'', ''saturday'', ''sun'', ''sunday'', ''seg'', ''segunda'', ''ter'', ''terca'',
       ''qua'', ''quarta'', ''qui'', ''quinta'', ''sex'', ''sexta'', ''sab'', ''sabado'', ''dom'',
       ''domingo'', ''lun'', ''lunes'', ''martes'', ''mie'', ''miercoles'', ''jue'', ''jueves'',
       ''vie'', ''viernes'', ''lundi'', ''mardi'', ''mer'', ''mercredi'', ''jeu'', ''jeudi'', ''ven'', ''vendredi'', ''sam'',
       ''samedi'', ''dim'', ''dimanche'', ''montag'', ''dienstag'', ''mittwoch'', ''donnerstag'', ''freitag'', ''samstag'', ''sonntag'']
     @ [lit ''ter'' @ [231] @ lit ''a'', lit ''s'' @ [225] @ lit ''b'', lit ''s'' @ [225] @ lit ''bado'',
        lit ''mi'' @ [233], lit ''mi'' @ [233] @ lit ''rcoles'']"

definition weekday :: "octets \<Rightarrow> bool" where
  "weekday w \<longleftrightarrow> \<not> (length w < 3 \<or> 20 < length w) \<and> list_ex ((=) (lower_word w)) weekday_names"

section \<open>Parts of a time\<close>

text \<open>Nanoseconds of the digits after a decimal separator; digits after the ninth are passed over.\<close>

fun fraction_loop :: "octets \<Rightarrow> nat \<Rightarrow> nat \<Rightarrow> nat \<Rightarrow> nat \<times> nat \<times> nat" where
  "fraction_loop [] nanos taken i = (nanos, taken, i)"
| "fraction_loop (b # bs) nanos taken i =
     (if is_ascii_digit b then
        if taken < 9 then fraction_loop bs (nanos * 10 + (b - 48)) (taken + 1) (i + 1)
        else fraction_loop bs nanos taken (i + 1)
      else (nanos, taken, i))"

definition fraction :: "octets \<Rightarrow> nat \<Rightarrow> nat \<times> nat" where
  "fraction s i = (case fraction_loop (drop i s) 0 0 i of (nanos, taken, j) \<Rightarrow> (nanos * 10 ^ (9 - taken), j))"

text \<open>\<open>AM\<close>, \<open>PM\<close>, \<open>a.m.\<close>, \<open>p.m.\<close>; \<open>Some True\<close> for the afternoon.\<close>

definition meridiem :: "octets \<Rightarrow> nat \<Rightarrow> bool option \<times> nat" where
  "meridiem s i =
     (case peek s i of
        None \<Rightarrow> (None, i)
      | Some b \<Rightarrow>
          let first = ascii_lower b
          in if first \<noteq> 97 \<and> first \<noteq> 112 then (None, i)
             else let (dotted, j) = eat s 46 (i + 1)
                  in if map_option ascii_lower (peek s j) \<noteq> Some 109 then (None, i)
                     else let j = j + 1; j = (if dotted then snd (eat s 46 j) else j)
                          in if alnum (peek s j) then (None, i) else (Some (first = 112), j))"

section \<open>Positions only move forward\<close>

text \<open>
  A reader leaves the cursor where it was or further on, and never past the end of the bytes when it
  started inside them.
\<close>

definition moves :: "octets \<Rightarrow> nat \<Rightarrow> nat \<Rightarrow> bool" where
  "moves s i j \<longleftrightarrow> i \<le> j \<and> (i \<le> length s \<longrightarrow> j \<le> length s)"

named_theorems moves_rules \<open>where each reader leaves the cursor\<close>

lemma moves_refl [simp, intro]: "moves s i i"
  by (simp add: moves_def)

lemma moves_trans [trans]: "moves s i j \<Longrightarrow> moves s j k \<Longrightarrow> moves s i k"
  by (auto simp: moves_def)

lemma digit_peek: "digit (peek s i) \<Longrightarrow> i < length s \<and> is_ascii_digit (s ! i)"
  by (auto simp: digit_def peek_def split: if_splits)

lemma peek_Some: "peek s i = Some b \<Longrightarrow> i < length s \<and> s ! i = b"
  by (auto simp: peek_def split: if_splits)

lemma eat_moves [moves_rules]: "eat s c i = (b, j) \<Longrightarrow> moves s i j"
  by (auto simp: eat_def moves_def dest: peek_Some split: if_splits)

lemma run_end_moves [moves_rules]: "moves s i (run_end P s i)"
  using length_takeWhile_le [of P "drop i s"] by (auto simp: moves_def run_end_def)

lemma num_loop_moves: "num_loop s k v i = (w, j) \<Longrightarrow> moves s i j"
proof (induction s k v i rule: num_loop.induct)
  case (2 s k v i)
  then show ?case by (auto simp: moves_def dest: digit_peek split: if_splits)
qed auto

lemma read_num_moves [moves_rules]: "read_num s a b i = (r, j) \<Longrightarrow> moves s i j"
  by (auto simp: read_num_def Let_def dest: num_loop_moves split: prod.splits if_splits)

lemma fixed_loop_moves: "fixed_loop s k v i = (w, j) \<Longrightarrow> moves s i j"
proof (induction s k v i rule: fixed_loop.induct)
  case (2 s k v i)
  then show ?case by (auto simp: moves_def dest: digit_peek split: if_splits)
qed auto

lemma read_fixed_moves [moves_rules]: "read_fixed s n i = (r, j) \<Longrightarrow> moves s i j"
  by (auto simp: read_fixed_def dest: fixed_loop_moves split: prod.splits option.splits)

lemma spaces_moves [moves_rules]: "spaces s i = (n, j) \<Longrightarrow> moves s i j"
  by (auto simp: spaces_def Let_def run_end_moves)

lemma read_word_moves [moves_rules]: "read_word s i = (w, j) \<Longrightarrow> moves s i j"
proof -
  let ?k = "i + length (takeWhile (\<lambda>b. is_ascii_alpha b \<or> 128 \<le> b) (take 24 (drop i s)))"
  assume "read_word s i = (w, j)"
  then have "j = run_end (\<lambda>b. 128 \<le> b \<and> b < 192) s ?k" by (simp add: read_word_def Let_def)
  moreover have "moves s i ?k"
    using length_takeWhile_le [of "\<lambda>b. is_ascii_alpha b \<or> 128 \<le> b" "take 24 (drop i s)"] by (auto simp: moves_def)
  ultimately show ?thesis by (simp add: moves_trans [OF _ run_end_moves])
qed

lemma fraction_loop_end:
  "fraction_loop bs n c i = (m, d, j) \<Longrightarrow> i \<le> j \<and> j \<le> i + length bs"
  by (induction bs n c i rule: fraction_loop.induct) (auto split: if_splits)

lemma fraction_moves [moves_rules]: "fraction s i = (n, j) \<Longrightarrow> moves s i j"
  by (auto simp: fraction_def moves_def dest!: fraction_loop_end split: prod.splits)

lemma meridiem_moves [moves_rules]: "meridiem s i = (r, j) \<Longrightarrow> moves s i j"
proof -
  assume r: "meridiem s i = (r, j)"
  show ?thesis
  proof (cases "peek s i")
    case None
    then show ?thesis using r by (simp add: meridiem_def)
  next
    case (Some b)
    obtain d k where e: "eat s 46 (i + 1) = (d, k)" by (cases "eat s 46 (i + 1)") auto
    have k: "moves s (i + 1) k" using e by (rule eat_moves)
    have i: "moves s i (i + 1)" using Some by (auto simp: moves_def dest: peek_Some)
    let ?l = "if d then snd (eat s 46 (k + 1)) else k + 1"
    show ?thesis
    proof (cases "map_option ascii_lower (peek s k) = Some 109")
      case True
      then have m: "moves s k (k + 1)" by (auto simp: moves_def dest: peek_Some)
      have "moves s (k + 1) ?l" by (cases "eat s 46 (k + 1)") (auto dest: eat_moves)
      then have "moves s i ?l" using i k m moves_trans by blast
      moreover have "j = i \<or> j = ?l" using r Some e True by (auto simp: meridiem_def Let_def split: if_splits)
      ultimately show ?thesis by auto
    next
      case False
      then have "j = i" using r Some e by (auto simp: meridiem_def Let_def split: if_splits)
      then show ?thesis by simp
    qed
  qed
qed

section \<open>Values stay in range\<close>

lemma fixed_loop_bound: "fixed_loop s k v i = (Some w, j) \<Longrightarrow> w < (v + 1) * 10 ^ k \<and> j = i + k"
proof (induction s k v i rule: fixed_loop.induct)
  case (2 s k v i)
  have d: "digit (peek s i)" "fixed_loop s k (v * 10 + (s ! i - 48)) (i + 1) = (Some w, j)"
    using "2.prems" by (auto split: if_splits)
  have "s ! i - 48 \<le> 9" using digit_peek [OF d(1)] by (auto simp: is_ascii_digit_def)
  then have "v * 10 + (s ! i - 48) + 1 \<le> (v + 1) * 10" by (simp only: distrib_right)
  then have "(v * 10 + (s ! i - 48) + 1) * 10 ^ k \<le> (v + 1) * 10 * 10 ^ k" by (rule mult_right_mono) simp
  moreover have "(v + 1) * 10 * 10 ^ k = (v + 1) * 10 ^ Suc k" by (simp only: power_Suc mult.assoc)
  moreover have ih: "w < (v * 10 + (s ! i - 48) + 1) * 10 ^ k" "j = i + 1 + k" using "2.IH" [OF d] by auto
  ultimately have "w < (v + 1) * 10 ^ Suc k" by linarith
  then show ?case using ih(2) by (simp del: power_Suc)
qed simp

lemma read_fixed_bound: "read_fixed s n i = (Some v, j) \<Longrightarrow> v < 10 ^ n \<and> j = i + n"
  using fixed_loop_bound [of s n 0 i v j] by (auto simp: read_fixed_def split: prod.splits option.splits)

lemma fraction_loop_bound:
  "fraction_loop bs n c i = (m, d, j) \<Longrightarrow> c \<le> 9 \<Longrightarrow> n < 10 ^ c \<Longrightarrow> d \<le> 9 \<and> m < 10 ^ d"
  by (induction bs n c i rule: fraction_loop.induct) (auto simp: is_ascii_digit_def split: if_splits)

lemma fraction_bound: "fraction s i = (n, j) \<Longrightarrow> n < 1000000000"
proof -
  assume f: "fraction s i = (n, j)"
  obtain m d where l: "fraction_loop (drop i s) 0 0 i = (m, d, j)" "n = m * 10 ^ (9 - d)"
    using f by (auto simp: fraction_def split: prod.splits)
  have b: "d \<le> 9" "m < 10 ^ d" using fraction_loop_bound [OF l(1)] by auto
  then have "m * 10 ^ (9 - d) < 10 ^ d * 10 ^ (9 - d)" by (intro mult_strict_right_mono) auto
  also have "\<dots> = 10 ^ 9" using b(1) by (simp flip: power_add)
  finally show ?thesis using l(2) by simp
qed

lemma month_of_range: "month_of w = Some m \<Longrightarrow> 1 \<le> m \<and> m \<le> 12"
proof -
  assume "month_of w = Some m"
  then obtain ns where "find (\<lambda>(_, ns). list_ex ((=) (lower_word w)) ns) month_names = Some (m, ns)"
    by (auto simp: month_of_def split: if_splits)
  then have "(m, ns) \<in> set month_names" by (auto simp: find_Some_iff dest!: nth_mem)
  then have "m \<in> set (map fst month_names)" by force
  moreover have "map fst month_names = [1, 2, 3, 4, 5, 6, 7, 8, 9, 10, 11, 12]" by (simp add: month_names_def)
  ultimately show ?thesis by auto
qed

end
