(* ===== verification/Stamp_Formats.thy ===== *)
theory Stamp_Formats
  imports Stamp_Cursor
begin

text \<open>
  The formats of \<open>src-tauri/src/sources/stamp.rs\<close>: times, zones and the recognizers of numeric and named
  dates. Each reader takes the bytes and a position and answers its value with the position it leaves;
  a reader that answers \<open>None\<close> has put the cursor back.
\<close>

section \<open>Data\<close>

type_synonym hms = "nat \<times> nat \<times> nat \<times> nat"

datatype stamp_zone = Fixed int | EuZone int | UsZone int | LocalZone

record raw_date =
  ra_date :: "(int option \<times> nat \<times> nat) option"
  ra_time :: "hms option"
  ra_zone :: "stamp_zone option"
  ra_end :: nat
  ra_ambiguous :: "(nat \<times> nat) option"

text \<open>\<open>stamp::Context\<close>; a calendar date is its day number.\<close>

record stamp_ctx =
  sx_year :: int
  sx_reference :: "int option"
  sx_day_first :: "bool option"

definition context_year :: "int \<Rightarrow> stamp_ctx" where
  "context_year y = \<lparr>sx_year = y, sx_reference = None, sx_day_first = None\<rparr>"

definition stamp_context_default :: stamp_ctx where
  "stamp_context_default = \<lparr>sx_year = 0, sx_reference = None, sx_day_first = None\<rparr>"

section \<open>Times\<close>

definition read_seconds :: "octets \<Rightarrow> nat \<Rightarrow> (nat \<times> nat \<times> bool) option \<times> nat" where
  "read_seconds s i =
     (if peek s i = Some 58 \<and> digit (ahead_at s i 1) \<and> digit (ahead_at s i 2) \<and> \<not> digit (ahead_at s i 3) then
        case read_fixed s 2 (i + 1) of
          (None, j) \<Rightarrow> (None, j)
        | (Some second, j) \<Rightarrow>
            if (peek s j = Some 46 \<or> peek s j = Some 44) \<and> digit (ahead_at s j 1) then
              let (nanos, k) = fraction s (j + 1) in (Some (second, nanos, True), k)
            else if peek s j = Some 58 \<and> digit (ahead_at s j 1) \<and> digit (ahead_at s j 2) \<and> digit (ahead_at s j 3)
                \<and> \<not> digit (ahead_at s j 4) then
              (case read_fixed s 3 (j + 1) of
                 (None, k) \<Rightarrow> (None, k)
               | (Some millis, k) \<Rightarrow> (Some (second, millis * 1000000, True), k))
            else (Some (second, 0, True), j)
      else (Some (0, 0, False), i))"

definition read_half :: "octets \<Rightarrow> nat \<Rightarrow> nat \<Rightarrow> nat \<times> nat" where
  "read_half s hour i =
     (let (n, j) = spaces s i
      in if n \<le> 1 then
           (case meridiem s j of
              (Some pm, k) \<Rightarrow>
                if 1 \<le> hour \<and> hour \<le> 12 then
                  ((if hour = 12 then (if pm then 12 else 0) else if pm then hour + 12 else hour), k)
                else (hour, i)
            | (None, _) \<Rightarrow> (hour, i))
         else (hour, i))"

definition read_time :: "octets \<Rightarrow> bool \<Rightarrow> nat \<Rightarrow> hms option \<times> nat" where
  "read_time s seconds i =
     (case read_num s 1 2 i of
        (None, _) \<Rightarrow> (None, i)
      | (Some (hour, _), i1) \<Rightarrow>
          (case eat s 58 i1 of
             (False, _) \<Rightarrow> (None, i)
           | (True, i2) \<Rightarrow>
               (case read_fixed s 2 i2 of
                  (None, _) \<Rightarrow> (None, i)
                | (Some minute, i3) \<Rightarrow>
                    if digit (peek s i3) then (None, i)
                    else
                      (case read_seconds s i3 of
                         (None, j) \<Rightarrow> (None, j)
                       | (Some (second, nanos, has_seconds), i4) \<Rightarrow>
                           if seconds \<and> \<not> has_seconds \<or> 23 < hour \<or> 59 < minute \<or> 60 < second then (None, i)
                           else let (hour, i5) = read_half s hour i4
                                in (Some (hour, minute, min second 59, nanos), i5)))))"

section \<open>Zones\<close>

definition abbreviations :: "(rstr \<times> int) list" where
  "abbreviations = map (\<lambda>(n, m). (lit n, m))
    [(''UTC'', 0), (''GMT'', 0), (''UT'', 0), (''Z'', 0), (''WET'', 0), (''WEST'', 60), (''BST'', 60), (''CET'', 60), (''MET'', 60),
     (''CEST'', 120), (''MEST'', 120), (''EET'', 120), (''EEST'', 180), (''MSK'', 180), (''SAST'', 120), (''WAT'', 60), (''CAT'', 120),
     (''EAT'', 180), (''BRT'', -180), (''BRST'', -120), (''ART'', -180), (''UYT'', -180), (''CLT'', -240), (''CLST'', -180),
     (''COT'', -300), (''PET'', -300), (''VET'', -240), (''EST'', -300), (''EDT'', -240), (''CDT'', -300), (''MST'', -420),
     (''MDT'', -360), (''PST'', -480), (''PDT'', -420), (''AKST'', -540), (''AKDT'', -480), (''HST'', -600), (''JST'', 540),
     (''KST'', 540), (''HKT'', 480), (''SGT'', 480), (''PHT'', 480), (''WIB'', 420), (''ICT'', 420), (''AWST'', 480),
     (''ACST'', 570), (''ACDT'', 630), (''AEST'', 600), (''AEDT'', 660), (''NZST'', 720), (''NZDT'', 780)]"

definition fixed_zones :: "(rstr \<times> int) list" where
  "fixed_zones = map (\<lambda>(n, m). (lit n, m))
    [(''America/Sao_Paulo'', -180), (''America/Bahia'', -180), (''America/Fortaleza'', -180), (''America/Recife'', -180),
     (''America/Belem'', -180), (''America/Maceio'', -180), (''America/Araguaina'', -180), (''America/Santarem'', -180),
     (''America/Manaus'', -240), (''America/Cuiaba'', -240), (''America/Campo_Grande'', -240),
     (''America/Porto_Velho'', -240), (''America/Boa_Vista'', -240), (''America/Rio_Branco'', -300),
     (''America/Noronha'', -120), (''Brazil/East'', -180), (''America/Argentina/Buenos_Aires'', -180),
     (''America/Buenos_Aires'', -180), (''America/Montevideo'', -180), (''America/Bogota'', -300),
     (''America/Lima'', -300), (''America/Caracas'', -240), (''America/La_Paz'', -240), (''America/Mexico_City'', -360),
     (''America/Phoenix'', -420), (''Asia/Tokyo'', 540), (''Asia/Seoul'', 540), (''Asia/Shanghai'', 480),
     (''Asia/Hong_Kong'', 480), (''Asia/Singapore'', 480), (''Asia/Taipei'', 480), (''Asia/Manila'', 480),
     (''Asia/Kolkata'', 330), (''Asia/Calcutta'', 330), (''Asia/Dubai'', 240), (''Asia/Jakarta'', 420),
     (''Asia/Bangkok'', 420), (''Asia/Ho_Chi_Minh'', 420), (''Asia/Karachi'', 300), (''Asia/Riyadh'', 180),
     (''Africa/Johannesburg'', 120), (''Africa/Lagos'', 60), (''Africa/Nairobi'', 180), (''Africa/Cairo'', 120),
     (''Europe/Moscow'', 180), (''Europe/Istanbul'', 180), (''Europe/Minsk'', 180), (''Australia/Brisbane'', 600),
     (''Australia/Perth'', 480), (''UTC'', 0), (''Etc/UTC'', 0), (''Etc/GMT'', 0), (''Etc/Universal'', 0), (''GMT'', 0),
     (''Universal'', 0), (''Zulu'', 0)]"

definition eu_zones :: "(rstr \<times> int) list" where
  "eu_zones = map (\<lambda>(n, m). (lit n, m))
    [(''Europe/London'', 0), (''Europe/Dublin'', 0), (''Europe/Lisbon'', 0), (''Atlantic/Canary'', 0),
     (''Atlantic/Madeira'', 0), (''Atlantic/Azores'', -60), (''Europe/Paris'', 60), (''Europe/Berlin'', 60),
     (''Europe/Madrid'', 60), (''Europe/Rome'', 60), (''Europe/Amsterdam'', 60), (''Europe/Brussels'', 60),
     (''Europe/Vienna'', 60), (''Europe/Zurich'', 60), (''Europe/Stockholm'', 60), (''Europe/Oslo'', 60),
     (''Europe/Copenhagen'', 60), (''Europe/Prague'', 60), (''Europe/Warsaw'', 60), (''Europe/Budapest'', 60),
     (''Europe/Luxembourg'', 60), (''Europe/Belgrade'', 60), (''Europe/Zagreb'', 60), (''Europe/Athens'', 120),
     (''Europe/Helsinki'', 120), (''Europe/Kiev'', 120), (''Europe/Kyiv'', 120), (''Europe/Bucharest'', 120),
     (''Europe/Sofia'', 120), (''Europe/Riga'', 120), (''Europe/Vilnius'', 120), (''Europe/Tallinn'', 120)]"

definition us_zones :: "(rstr \<times> int) list" where
  "us_zones = map (\<lambda>(n, m). (lit n, m))
    [(''America/New_York'', -300), (''America/Toronto'', -300), (''America/Detroit'', -300), (''US/Eastern'', -300),
     (''America/Chicago'', -360), (''America/Winnipeg'', -360), (''US/Central'', -360), (''America/Denver'', -420),
     (''America/Edmonton'', -420), (''US/Mountain'', -420), (''America/Los_Angeles'', -480),
     (''America/Vancouver'', -480), (''US/Pacific'', -480), (''America/Anchorage'', -540)]"

definition zone_areas :: "rstr list" where
  "zone_areas = map lit [''Africa'', ''America'', ''Antarctica'', ''Asia'', ''Atlantic'', ''Australia'', ''Europe'', ''Indian'', ''Pacific'',
     ''Etc'', ''US'', ''Brazil'', ''Canada'', ''Mexico'', ''Chile'']"

definition find_zone :: "rstr \<Rightarrow> (rstr \<times> int) list \<Rightarrow> int option" where
  "find_zone name table = map_option (\<lambda>(_, m). m * 60) (find (\<lambda>(z, _). eq_ignore_ascii_case z name) table)"

definition iana :: "rstr \<Rightarrow> stamp_zone option" where
  "iana name =
     (case find_zone name fixed_zones of
        Some m \<Rightarrow> Some (Fixed m)
      | None \<Rightarrow>
          (case find_zone name eu_zones of
             Some m \<Rightarrow> Some (EuZone m)
           | None \<Rightarrow>
               (case find_zone name us_zones of
                  Some m \<Rightarrow> Some (UsZone m)
                | None \<Rightarrow>
                    if 47 \<in> set name \<and> list_ex (\<lambda>a. eq_ignore_ascii_case a (first_piece 47 name)) zone_areas
                    then Some LocalZone else None)))"

definition numeric_offset :: "octets \<Rightarrow> nat \<Rightarrow> int option \<times> nat" where
  "numeric_offset s i =
     (if peek s i \<noteq> Some 43 \<and> peek s i \<noteq> Some 45 then (None, i)
      else let sign = (if peek s i = Some 43 then 1 else - 1)
           in (case read_fixed s 2 (i + 1) of
                 (None, _) \<Rightarrow> (None, i)
               | (Some hours, j) \<Rightarrow>
                   let (minutes, k) =
                     (if peek s j = Some 58 \<and> digit (ahead_at s j 1) then
                        (case read_fixed s 2 (j + 1) of (None, k) \<Rightarrow> (99, k) | (Some m, k) \<Rightarrow> (m, k))
                      else if digit (peek s j) then
                        (case read_fixed s 2 j of (None, k) \<Rightarrow> (99, k) | (Some m, k) \<Rightarrow> (m, k))
                      else (0, j))
                   in if digit (peek s k) \<or> 14 < hours \<or> 59 < minutes then (None, i)
                      else (Some (sign * (int hours * 3600 + int minutes * 60)), k)))"

definition is_upper :: "nat \<Rightarrow> bool" where
  "is_upper b \<longleftrightarrow> 65 \<le> b \<and> b \<le> 90"

definition zone_byte :: "nat \<Rightarrow> bool" where
  "zone_byte b \<longleftrightarrow> is_ascii_alnum b \<or> b = 47 \<or> b = 95 \<or> b = 45 \<or> b = 43"

text \<open>A name right after the time: an IANA name, a name of UTC with an offset, or an abbreviation.\<close>

definition named_zone :: "octets \<Rightarrow> nat \<Rightarrow> stamp_zone option \<times> nat" where
  "named_zone s i =
     (let j = run_end zone_byte s i;
          name = between s i j;
          base = takeWhile (\<lambda>b. b \<noteq> 43 \<and> b \<noteq> 45) name;
          k = i + length base
      in if 47 \<in> set name then (iana (rev (dropWhile (\<lambda>b. b = 45 \<or> b = 43) (rev name))), j)
         else if base \<in> set (map lit [''UTC'', ''GMT'', ''UT'']) then
           (case numeric_offset s k of (offset, l) \<Rightarrow> (Some (Fixed (case offset of None \<Rightarrow> 0 | Some n \<Rightarrow> n)), l))
         else if list_all is_upper base \<and> \<not> alnum (peek s k) then
           (map_option (\<lambda>m. Fixed (m * 60)) (map_of abbreviations base), k)
         else (None, k))"

text \<open>The second name of Go and Java.\<close>

definition zone_suffix :: "octets \<Rightarrow> nat \<Rightarrow> nat" where
  "zone_suffix s i =
     (case eat s 91 i of
        (True, j) \<Rightarrow>
          let k = run_end zone_byte s j; (closed, l) = eat s 93 k
          in if \<not> closed \<or> j = k then i else l
      | (False, _) \<Rightarrow>
          let (n, j) = spaces s i
          in if n = 1 \<and> (case peek s j of None \<Rightarrow> False | Some b \<Rightarrow> is_upper b) then
               let k = run_end is_upper s j; name = between s j k
               in if alnum (peek s k) \<or> \<not> (name = lit ''UTC'' \<or> name = lit ''GMT'' \<or> name \<in> set (map fst abbreviations))
                  then i else k
             else i)"

definition read_zone :: "octets \<Rightarrow> nat \<Rightarrow> stamp_zone option \<times> nat" where
  "read_zone s i =
     (let (n, j) = spaces s i
      in if 1 < n then (None, i)
         else let (zone, k) =
                (case peek s j of
                   None \<Rightarrow> (None, j)
                 | Some b \<Rightarrow>
                     if (b = 90 \<or> b = 122) \<and> \<not> alnum (ahead_at s j 1) then (Some (Fixed 0), j + 1)
                     else if b = 43 \<or> b = 45 then (case numeric_offset s j of (o', k) \<Rightarrow> (map_option Fixed o', k))
                     else if is_ascii_alpha b then named_zone s j
                     else (None, j))
              in (case zone of None \<Rightarrow> (None, i) | Some z \<Rightarrow> (Some z, zone_suffix s k)))"

section \<open>Between a date and its time\<close>

definition date_time_separator :: "octets \<Rightarrow> bool \<Rightarrow> bool \<Rightarrow> nat \<Rightarrow> bool \<times> nat" where
  "date_time_separator s allow_space allow_colon i =
     (let (ok, j) =
        (case peek s i of
           None \<Rightarrow> (False, i)
         | Some b \<Rightarrow>
             if b = 84 \<or> b = 116 \<or> b = 95 then (True, i + 1)
             else if (b = 32 \<or> b = 9) \<and> allow_space then (let (n, j) = spaces s i in (n \<le> 3, j))
             else if b = 44 then (True, snd (spaces s (i + 1)))
             else if b = 45 then (True, i + 1)
             else if b = 58 \<and> allow_colon then (True, i + 1)
             else (False, i))
      in if \<not> ok \<or> \<not> digit (peek s j) then (False, i) else (True, j))"

definition plausible_year :: "nat \<Rightarrow> bool" where
  "plausible_year y \<longleftrightarrow> 1970 \<le> y \<and> y \<le> 2100"

text \<open>The time and the zone that complete a date that ended at \<open>i\<close>, when a separator and a time follow.\<close>

definition dated_time :: "octets \<Rightarrow> (int option \<times> nat \<times> nat) \<Rightarrow> nat \<Rightarrow> (raw_date \<times> nat) option" where
  "dated_time s date i =
     (case date_time_separator s True True i of
        (False, _) \<Rightarrow> None
      | (True, j) \<Rightarrow>
          (case read_time s False j of
             (None, _) \<Rightarrow> None
           | (Some t, k) \<Rightarrow>
               (case read_zone s k of (zone, l) \<Rightarrow>
                  Some (\<lparr>ra_date = Some date, ra_time = Some t, ra_zone = zone, ra_end = l, ra_ambiguous = None\<rparr>, l))))"

definition bare_date :: "(int option \<times> nat \<times> nat) \<Rightarrow> nat \<Rightarrow> raw_date" where
  "bare_date date i = \<lparr>ra_date = Some date, ra_time = None, ra_zone = None, ra_end = i, ra_ambiguous = None\<rparr>"

end
