(* ===== verification/Stamp_Dates.thy ===== *)
theory Stamp_Dates
  imports Stamp_Formats
begin

text \<open>
  The recognizers of \<open>src-tauri/src/sources/stamp.rs\<close> that start exactly at a position: ISO and compact dates,
  numeric dates in either order, dates with the month's name, epochs; and \<open>scan_at\<close>, which tries them in order.
\<close>

section \<open>ISO\<close>

definition iso_parts :: "octets \<Rightarrow> nat \<Rightarrow> (nat \<times> nat \<times> bool \<times> nat) option" where
  "iso_parts s i =
     (case peek s i of
        None \<Rightarrow> None
      | Some b \<Rightarrow>
          if b = 45 \<or> b = 47 \<or> b = 46 then
            (case read_num s 1 2 (i + 1) of
               (None, _) \<Rightarrow> None
             | (Some (m, _), j) \<Rightarrow>
                 (case eat s b j of
                    (False, _) \<Rightarrow> None
                  | (True, k) \<Rightarrow>
                      (case read_num s 1 2 k of (None, _) \<Rightarrow> None | (Some (d, _), l) \<Rightarrow> Some (m, d, False, l))))
          else if is_ascii_digit b then
            (case read_fixed s 2 i of
               (None, _) \<Rightarrow> None
             | (Some m, j) \<Rightarrow> (case read_fixed s 2 j of (None, _) \<Rightarrow> None | (Some d, k) \<Rightarrow> Some (m, d, True, k)))
          else None)"

text \<open>The time of a compact date: six digits with a fraction, or an ordinary time with seconds.\<close>

definition compact_time :: "octets \<Rightarrow> nat \<Rightarrow> hms option \<times> nat" where
  "compact_time s i =
     (if digit (peek s i) \<and> digit (ahead_at s i 1) \<and> digit (ahead_at s i 2) \<and> digit (ahead_at s i 3)
         \<and> digit (ahead_at s i 4) \<and> digit (ahead_at s i 5) then
        (case read_fixed s 2 i of
           (None, j) \<Rightarrow> (None, j)
         | (Some h, j) \<Rightarrow>
             (case read_fixed s 2 j of
                (None, k) \<Rightarrow> (None, k)
              | (Some m, k) \<Rightarrow>
                  (case read_fixed s 2 k of
                     (None, l) \<Rightarrow> (None, l)
                   | (Some sec, l) \<Rightarrow>
                       let (nanos, e) =
                         (if (peek s l = Some 46 \<or> peek s l = Some 44) \<and> digit (ahead_at s l 1)
                          then fraction s (l + 1) else (0, l))
                       in (if h < 24 \<and> m < 60 \<and> sec \<le> 60 \<and> \<not> digit (peek s e)
                           then Some (h, m, min sec 59, nanos) else None, e))))
      else read_time s True i)"

definition compact_start :: "octets \<Rightarrow> nat \<Rightarrow> nat option" where
  "compact_start s i =
     (if peek s i = Some 84 \<or> peek s i = Some 116 then Some (i + 1)
      else case spaces s i of (n, j) \<Rightarrow> if n = 1 then Some j else None)"

definition iso :: "octets \<Rightarrow> nat \<Rightarrow> raw_date option \<times> nat" where
  "iso s i =
     (case read_fixed s 4 i of
        (None, j) \<Rightarrow> (None, j)
      | (Some year, j) \<Rightarrow>
          if \<not> plausible_year year then (None, i)
          else
            (case iso_parts s j of
               None \<Rightarrow> (None, i)
             | Some (month, day, packed, k) \<Rightarrow>
                 if \<not> (1 \<le> month \<and> month \<le> 12) \<or> \<not> (1 \<le> day \<and> day \<le> 31) then (None, i)
                 else let date = (Some (int year), month, day)
                      in if packed then
                           (case compact_start s k of
                              None \<Rightarrow> (None, i)
                            | Some l \<Rightarrow>
                                (case compact_time s l of
                                   (None, _) \<Rightarrow> (None, i)
                                 | (Some t, e) \<Rightarrow>
                                     (case read_zone s e of (zone, e) \<Rightarrow>
                                        (Some \<lparr>ra_date = Some date, ra_time = Some t, ra_zone = zone, ra_end = e,
                                               ra_ambiguous = None\<rparr>, e))))
                         else if alnum (peek s k) \<and> \<not> (peek s k = Some 84 \<or> peek s k = Some 116) then (None, i)
                         else (case dated_time s date k of
                                 Some (raw, e) \<Rightarrow> (Some raw, e)
                               | None \<Rightarrow> (Some (bare_date date k), k))))"

section \<open>Numeric dates\<close>

definition has_marker :: "octets \<Rightarrow> bool" where
  "has_marker t \<longleftrightarrow> list_ex (\<lambda>k. let w = map ascii_lower (take 2 (drop k t)) in w = lit ''am'' \<or> w = lit ''pm'') [0..<length t - 1]"

text \<open>The year of a numeric date: \<open>None\<close> is a failure, \<open>Some (None, \<dots>)\<close> a date without one; then whether it has two digits.\<close>

definition numeric_year :: "octets \<Rightarrow> nat \<Rightarrow> nat \<Rightarrow> (int option \<times> bool \<times> nat) option" where
  "numeric_year s sep i =
     (if peek s i = Some sep \<and> digit (ahead_at s i 1) then
        (case read_num s 2 4 (i + 1) of
           (Some (y, n), j) \<Rightarrow>
             if n = 4 \<and> plausible_year y then Some (Some (int y), False, j)
             else if n = 2 then Some (Some (if y < 70 then 2000 + int y else 1900 + int y), True, j)
             else None
         | (None, _) \<Rightarrow> None)
      else Some (None, False, i))"

definition day_comes_first :: "stamp_ctx \<Rightarrow> nat \<Rightarrow> nat \<Rightarrow> bool \<Rightarrow> bool \<Rightarrow> bool" where
  "day_comes_first ctx a b has_year month_style =
     (if 12 < a then True
      else if 12 < b then False
      else if \<not> has_year then False
      else case sx_day_first ctx of Some order \<Rightarrow> order | None \<Rightarrow> \<not> month_style)"

text \<open>The two numbers with their separator and the year: first, separator, second, year, whether it has two digits, end.\<close>

definition numeric_parts :: "octets \<Rightarrow> nat \<Rightarrow> (nat \<times> nat \<times> nat \<times> int option \<times> bool \<times> nat) option" where
  "numeric_parts s i =
     (case read_num s 1 2 i of
        (None, _) \<Rightarrow> None
      | (Some (a, _), i1) \<Rightarrow>
          (case peek s i1 of
             None \<Rightarrow> None
           | Some sep \<Rightarrow>
               if \<not> (sep = 47 \<or> sep = 45 \<or> sep = 46) then None
               else
                 (case read_num s 1 2 (i1 + 1) of
                    (None, _) \<Rightarrow> None
                  | (Some (b, _), i2) \<Rightarrow>
                      (case numeric_year s sep i2 of
                         None \<Rightarrow> None
                       | Some (year, short_year, date_end) \<Rightarrow>
                           if a = 0 \<or> b = 0 \<or> (12 < a \<and> 12 < b) \<or> 31 < a \<or> 31 < b then None
                           else Some (a, sep, b, year, short_year, date_end)))))"

text \<open>The time after it: whether a comma came before, the time, and where the cursor is; \<open>None\<close> is a failure.\<close>

definition numeric_time :: "octets \<Rightarrow> nat \<Rightarrow> int option \<Rightarrow> nat \<Rightarrow> (bool \<times> hms option \<times> nat) option" where
  "numeric_time s sep year date_end =
     (let (comma, time_value, i) =
        (if peek s date_end \<noteq> Some sep \<or> year \<noteq> None then
           (case date_time_separator s True (year \<noteq> None) date_end of
              (True, j) \<Rightarrow> (case read_time s (year = None) j of (t, k) \<Rightarrow> (peek s date_end = Some 44, t, k))
            | (False, j) \<Rightarrow> (peek s date_end = Some 44, None, j))
         else (False, None, date_end))
      in if time_value \<noteq> None then Some (comma, time_value, i)
         else if year = None \<or> alnum (peek s date_end) then None
         else Some (False, None, date_end))"

definition numeric :: "octets \<Rightarrow> stamp_ctx \<Rightarrow> nat \<Rightarrow> raw_date option \<times> nat" where
  "numeric s ctx i =
     (case numeric_parts s i of
        None \<Rightarrow> (None, i)
      | Some (a, sep, b, year, short_year, date_end) \<Rightarrow>
          (case numeric_time s sep year date_end of
             None \<Rightarrow> (None, i)
           | Some (comma, time_value, j) \<Rightarrow>
               let marker = (time_value \<noteq> None \<and> has_marker (between s date_end j));
                   snort = (time_value \<noteq> None \<and> sep = 47 \<and> peek s date_end = Some 45);
                   first = day_comes_first ctx a b (year \<noteq> None) (marker \<or> snort \<or> (short_year \<and> comma \<and> sep = 47));
                   (day, month) = (if first then (a, b) else (b, a))
               in if 12 < month then (None, i)
                  else
                    (case (if time_value \<noteq> None then read_zone s j else (None, j)) of (zone, e) \<Rightarrow>
                       (Some \<lparr>ra_date = Some (year, month, day), ra_time = time_value, ra_zone = zone,
                              ra_end = e, ra_ambiguous = (if a \<le> 31 \<and> b \<le> 31 then Some (a, b) else None)\<rparr>, e))))"

section \<open>Names of months\<close>

definition named_separator :: "octets \<Rightarrow> nat \<Rightarrow> (nat option \<times> nat) option" where
  "named_separator s i =
     (case peek s i of
        None \<Rightarrow> None
      | Some b \<Rightarrow>
          if b = 47 \<or> b = 45 \<or> b = 46 then Some (Some b, i + 1)
          else if b = 32 then Some (None, snd (spaces s i))
          else None)"

text \<open>Day, month and year with where they end.\<close>

definition named_parts :: "octets \<Rightarrow> nat \<Rightarrow> (nat \<times> nat \<times> int \<times> nat) option" where
  "named_parts s i =
     (case read_num s 1 2 i of
        (None, _) \<Rightarrow> None
      | (Some (day, _), i1) \<Rightarrow>
          (case named_separator s i1 of
             None \<Rightarrow> None
           | Some (sep, i2) \<Rightarrow>
               (case read_word s i2 of
                  (w, i3) \<Rightarrow>
                    (case month_of w of
                       None \<Rightarrow> None
                     | Some month \<Rightarrow>
                         let i4 = snd (eat s 46 i3);
                             (separated, i5) =
                               (case sep of
                                  Some b \<Rightarrow> eat s b i4
                                | None \<Rightarrow> (let (n, j) = spaces s i4 in (1 \<le> n, j)))
                         in if \<not> separated \<or> \<not> (1 \<le> day \<and> day \<le> 31) then None
                            else
                              (case read_num s 2 4 i5 of
                                 (None, _) \<Rightarrow> None
                               | (Some (y, n), date_end) \<Rightarrow>
                                   if n = 4 \<and> plausible_year y then Some (day, month, int y, date_end)
                                   else if n = 2 \<and> sep = Some 45 then Some (day, month, 2000 + int y, date_end)
                                   else None)))))"

definition day_month_name :: "octets \<Rightarrow> nat \<Rightarrow> raw_date option \<times> nat" where
  "day_month_name s i =
     (case named_parts s i of
        None \<Rightarrow> (None, i)
      | Some (day, month, year, date_end) \<Rightarrow>
          (case dated_time s (Some year, month, day) date_end of
             Some (raw, e) \<Rightarrow> (Some raw, e)
           | None \<Rightarrow>
               if alnum (peek s date_end) then (None, i)
               else (Some (bare_date (Some year, month, day) date_end), date_end)))"

definition eat_suffix :: "octets \<Rightarrow> rstr \<Rightarrow> nat \<Rightarrow> nat" where
  "eat_suffix s suffix i =
     (if 2 \<le> length (drop i s) \<and> eq_ignore_ascii_case (take 2 (drop i s)) suffix \<and> \<not> alnum (ahead_at s i 2) then i + 2 else i)"

definition eat_ordinal :: "octets \<Rightarrow> nat \<Rightarrow> nat" where
  "eat_ordinal s i = foldl (\<lambda>i suffix. eat_suffix s suffix i) i (map lit [''st'', ''nd'', ''rd'', ''th''])"

text \<open>The year between the day and the time, where there is one: where the cursor goes on and where the year ended.\<close>

definition inner_year :: "octets \<Rightarrow> nat \<Rightarrow> (int option \<times> nat \<times> nat) option" where
  "inner_year s i =
     (if digit (peek s i) \<and> digit (ahead_at s i 1) \<and> digit (ahead_at s i 2) \<and> digit (ahead_at s i 3)
         \<and> \<not> digit (ahead_at s i 4) \<and> ahead_at s i 4 \<noteq> Some 58 then
        (case read_fixed s 4 i of
           (None, _) \<Rightarrow> None
         | (Some y, j) \<Rightarrow>
             if \<not> plausible_year y then None
             else let k = snd (eat s 44 j);
                      (n, l) = spaces s k;
                      l = (if n = 0 \<and> peek s l \<noteq> Some 58 then j else l)
                  in Some (Some (int y), snd (eat s 58 l), j))
      else Some (None, i, i))"

definition trailing_year :: "octets \<Rightarrow> nat \<Rightarrow> int option \<times> nat" where
  "trailing_year s i =
     (let (n, j) = spaces s i
      in if 1 \<le> n \<and> digit (peek s j) then
           (case read_num s 4 4 j of
              (Some (y, _), k) \<Rightarrow> if plausible_year y \<and> \<not> alnum (peek s k) then (Some (int y), k) else (None, i)
            | (None, _) \<Rightarrow> (None, i))
         else (None, i))"

text \<open>From after the month's name to after the day: the day, and where the year or the time starts.\<close>

definition named_day :: "octets \<Rightarrow> nat \<Rightarrow> (nat \<times> nat) option" where
  "named_day s i =
     (case spaces s (snd (eat s 46 i)) of
        (n, i1) \<Rightarrow>
          if n = 0 then None
          else
            (case read_num s 1 2 i1 of
               (None, _) \<Rightarrow> None
             | (Some (day, _), i2) \<Rightarrow>
                 if \<not> (1 \<le> day \<and> day \<le> 31) then None
                 else (case spaces s (snd (eat s 44 (eat_ordinal s i2))) of (n, i3) \<Rightarrow> if n = 0 then None else Some (day, i3))))"

definition month_name_first :: "octets \<Rightarrow> nat \<Rightarrow> nat \<Rightarrow> raw_date option \<times> nat" where
  "month_name_first s month i =
     (case named_day s i of
        None \<Rightarrow> (None, i)
      | Some (day, i3) \<Rightarrow>
          (case inner_year s i3 of
             None \<Rightarrow> (None, i)
           | Some (year, i4, after_year) \<Rightarrow>
               (case read_time s (year = None) i4 of
                  (None, _) \<Rightarrow>
                    if year \<noteq> None \<and> \<not> alnum (peek s after_year) then
                      (Some (bare_date (year, month, day) after_year), after_year)
                    else (None, i)
                | (Some t, i5) \<Rightarrow>
                    (case read_zone s i5 of
                       (zone, i6) \<Rightarrow>
                         let (year, i7) = (if year = None then trailing_year s i6 else (year, i6))
                         in (Some \<lparr>ra_date = Some (year, month, day), ra_time = Some t, ra_zone = zone,
                                   ra_end = i7, ra_ambiguous = None\<rparr>, i7)))))"

definition named :: "octets \<Rightarrow> nat \<Rightarrow> raw_date option \<times> nat" where
  "named s i =
     (let (w, j) = read_word s i;
          (first, j) = (case month_of w of None \<Rightarrow> (None, j) | Some month \<Rightarrow> month_name_first s month j)
      in if first \<noteq> None then (first, j)
         else if \<not> weekday w then (None, i)
         else
           let k = (if take 6 (drop j s) = lit ''-feira'' then j + 6 else j);
               k = snd (eat s 44 (snd (eat s 46 k)));
               (n, k) = spaces s k
           in if n = 0 then (None, i)
              else
                let (found, l) =
                  (if digit (peek s k) then day_month_name s k
                   else case read_word s k of (w, l) \<Rightarrow>
                     (case month_of w of None \<Rightarrow> (None, l) | Some month \<Rightarrow> month_name_first s month l))
                in (found, if found = None then i else l))"

section \<open>Epochs\<close>

definition dec_value :: "octets \<Rightarrow> nat" where
  "dec_value ds = foldl (\<lambda>v b. v * 10 + (b - 48)) 0 ds"

definition read_epoch :: "octets \<Rightarrow> nat \<Rightarrow> int option \<times> nat" where
  "read_epoch s i =
     (case read_num s 9 13 i of
        (None, j) \<Rightarrow> (None, j)
      | (Some (_, n), j) \<Rightarrow>
          let whole = int (dec_value (between s i j))
          in if n = 9 \<or> n = 10 \<or> n = 13 then
               let (ms, k) =
                 (if n = 13 then (whole, j)
                  else if peek s j = Some 46 \<and> digit (ahead_at s j 1) then
                    (let (nanos, k) = fraction s (j + 1) in (whole * 1000 + int (nanos div 1000000), k))
                  else (whole * 1000, j))
               in if \<not> (946684800000 \<le> ms \<and> ms < 4102444800000)
                    \<or> (case peek s k of None \<Rightarrow> False | Some b \<Rightarrow> is_ascii_alnum b \<or> b = 46) then (None, i)
                  else (Some ms, k)
             else (None, i))"

section \<open>All of them\<close>

definition only_time :: "hms option \<Rightarrow> nat \<Rightarrow> raw_date" where
  "only_time t e = \<lparr>ra_date = None, ra_time = t, ra_zone = None, ra_end = e, ra_ambiguous = None\<rparr>"

definition scan_at :: "octets \<Rightarrow> nat \<Rightarrow> stamp_ctx \<Rightarrow> bool \<Rightarrow> (raw_date \<times> int option) option" where
  "scan_at s i ctx leading =
     (case peek s i of
        None \<Rightarrow> None
      | Some b \<Rightarrow>
          if is_ascii_digit b then
            (case iso s i of
               (Some raw, _) \<Rightarrow> Some (raw, None)
             | (None, i1) \<Rightarrow>
                 (case day_month_name s i1 of
                    (Some raw, _) \<Rightarrow> Some (raw, None)
                  | (None, i2) \<Rightarrow>
                      (case numeric s ctx i2 of
                         (Some raw, _) \<Rightarrow> Some (raw, None)
                       | (None, i3) \<Rightarrow>
                           if leading then
                             (case read_epoch s i3 of
                                (Some ms, e) \<Rightarrow> Some (only_time None e, Some ms)
                              | (None, i4) \<Rightarrow>
                                  (case read_time s True i4 of
                                     (Some t, e) \<Rightarrow>
                                       if \<not> alnum (peek s e) \<and> \<not> (peek s e = Some 47 \<or> peek s e = Some 45)
                                       then Some (only_time (Some t) e, None) else None
                                   | (None, _) \<Rightarrow> None))
                           else None)))
          else if is_ascii_alpha b then map_option (\<lambda>raw. (raw, None)) (fst (named s i))
          else None)"

end
