(* ===== verification/Stamp_Find.thy ===== *)
theory Stamp_Find
  imports Stamp_Dates
begin

text \<open>
  From what a recognizer read to a moment, and the searches over a line, a value, a sample and a file name
  (\<open>src-tauri/src/sources/stamp.rs\<close>). The calendar and the machine's zone are the \<open>chrono\<close> crate's: a date is its
  day number, a wall-clock date and time its nanoseconds from the epoch, and the operations used of it are a
  parameter.
\<close>

section \<open>The calendar\<close>

record chrono =
  ch_ymd :: "int \<Rightarrow> nat \<Rightarrow> nat \<Rightarrow> int option"
  ch_sunday :: "int \<Rightarrow> nat \<Rightarrow> nat \<Rightarrow> int option"
  ch_time :: "int \<Rightarrow> hms \<Rightarrow> int option"
  ch_year :: "int \<Rightarrow> int"
  ch_single :: "int \<Rightarrow> int option"

definition naive_to_ms :: "chrono \<Rightarrow> int \<Rightarrow> int" where
  "naive_to_ms ch wall = (case ch_single ch wall of Some ms \<Rightarrow> ms | None \<Rightarrow> wall div 1000000)"

definition last_sunday :: "chrono \<Rightarrow> int \<Rightarrow> nat \<Rightarrow> int option" where
  "last_sunday ch year month =
     (case ch_sunday ch year month 5 of Some d \<Rightarrow> Some d | None \<Rightarrow> ch_sunday ch year month 4)"

definition day_at :: "chrono \<Rightarrow> int option \<Rightarrow> nat \<Rightarrow> int option" where
  "day_at ch day hour = Option.bind day (\<lambda>d. ch_time ch d (hour, 0, 0, 0))"

definition summer_offset :: "int \<Rightarrow> int \<Rightarrow> int option \<Rightarrow> int option \<Rightarrow> int option" where
  "summer_offset standard moment first final =
     (case (first, final) of
        (Some a, Some b) \<Rightarrow> Some (standard + (if a \<le> moment \<and> moment < b then 3600 else 0))
      | _ \<Rightarrow> None)"

definition offset_seconds :: "chrono \<Rightarrow> stamp_zone \<Rightarrow> int \<Rightarrow> int option" where
  "offset_seconds ch zone wall =
     (case zone of
        Fixed offset \<Rightarrow> Some offset
      | LocalZone \<Rightarrow> None
      | EuZone standard \<Rightarrow>
          let year = ch_year ch wall
          in summer_offset standard (wall - standard * 1000000000)
               (day_at ch (last_sunday ch year 3) 1) (day_at ch (last_sunday ch year 10) 1)
      | UsZone standard \<Rightarrow>
          let year = ch_year ch wall
          in summer_offset standard wall
               (day_at ch (ch_sunday ch year 3 2) 2) (day_at ch (ch_sunday ch year 11 1) 2))"

section \<open>A found moment\<close>

datatype inferred = InferredNothing | InferredYear | InferredDate

record found =
  fd_ms :: int
  fd_start :: nat
  fd_end :: nat
  fd_inferred :: inferred
  fd_has_time :: bool
  fd_zoned :: bool

definition raw_day :: "chrono \<Rightarrow> raw_date \<Rightarrow> stamp_ctx \<Rightarrow> (int \<times> inferred) option" where
  "raw_day ch raw ctx =
     (case ra_date raw of
        Some (Some year, month, day) \<Rightarrow> map_option (\<lambda>d. (d, InferredNothing)) (ch_ymd ch year month day)
      | Some (None, month, day) \<Rightarrow> map_option (\<lambda>d. (d, InferredYear)) (ch_ymd ch (sx_year ctx) month day)
      | None \<Rightarrow> map_option (\<lambda>d. (d, InferredDate)) (sx_reference ctx))"

definition complete :: "chrono \<Rightarrow> raw_date \<Rightarrow> int option \<Rightarrow> nat \<Rightarrow> stamp_ctx \<Rightarrow> found option" where
  "complete ch raw epoch_ms start ctx =
     (case epoch_ms of
        Some ms \<Rightarrow>
          Some \<lparr>fd_ms = ms, fd_start = start, fd_end = ra_end raw, fd_inferred = InferredNothing,
                fd_has_time = True, fd_zoned = True\<rparr>
      | None \<Rightarrow>
          (case raw_day ch raw ctx of
             None \<Rightarrow> None
           | Some (date, inferred) \<Rightarrow>
               (case ch_time ch date (case ra_time raw of Some t \<Rightarrow> t | None \<Rightarrow> (0, 0, 0, 0)) of
                  None \<Rightarrow> None
                | Some wall \<Rightarrow>
                    let offset = Option.bind (ra_zone raw) (\<lambda>zone. offset_seconds ch zone wall);
                        ms = (case offset of Some offset \<Rightarrow> wall div 1000000 - offset * 1000 | None \<Rightarrow> naive_to_ms ch wall)
                    in Some \<lparr>fd_ms = ms, fd_start = start, fd_end = ra_end raw, fd_inferred = inferred,
                             fd_has_time = (ra_time raw \<noteq> None), fd_zoned = (offset \<noteq> None)\<rparr>)))"

section \<open>In a line\<close>

definition scan_limit :: nat where "scan_limit = 400"
definition date_only_limit :: nat where "date_only_limit = 64"

definition encode_char :: "nat \<Rightarrow> octets" where
  "encode_char c =
     (if c < 128 then [c]
      else if c < 2048 then [192 + c div 64, 128 + c mod 64]
      else if c < 65536 then [224 + c div 4096, 128 + c div 64 mod 64, 128 + c mod 64]
      else [240 + c div 262144, 128 + c div 4096 mod 64, 128 + c div 64 mod 64, 128 + c mod 64])"

definition as_bytes :: "rstr \<Rightarrow> octets" where
  "as_bytes t = concat (map encode_char t)"

definition version_like :: "octets \<Rightarrow> octets \<Rightarrow> bool \<Rightarrow> bool" where
  "version_like shown rest inside_line =
     (case split_char 46 shown of
        [a, b, c] \<Rightarrow>
          list_all (\<lambda>p. p \<noteq> [] \<and> list_all is_ascii_digit p) [a, b, c] \<and> length c = 2
          \<and> (inside_line \<or> (peek rest 0 = Some 46 \<and> digit (peek rest 1)))
      | _ \<Rightarrow> False)"

definition leading_marks :: "octets \<Rightarrow> nat" where
  "leading_marks s = length (takeWhile (\<lambda>b. b \<in> {91, 40, 42, 46, 60, 34}) (take 2 s))"

definition word_start :: "octets \<Rightarrow> nat \<Rightarrow> bool" where
  "word_start s i \<longleftrightarrow> alnum (peek s i) \<and> (i = 0 \<or> \<not> alnum (peek s (i - 1)))"

definition found_at :: "chrono \<Rightarrow> octets \<Rightarrow> stamp_ctx \<Rightarrow> nat \<Rightarrow> bool \<Rightarrow> found option" where
  "found_at ch s ctx i leading =
     (case scan_at s i ctx leading of None \<Rightarrow> None | Some (raw, epoch_ms) \<Rightarrow> complete ch raw epoch_ms i ctx)"

definition counts_alone :: "octets \<Rightarrow> nat \<Rightarrow> nat \<Rightarrow> found \<Rightarrow> bool" where
  "counts_alone s lead i f \<longleftrightarrow>
     i < date_only_limit \<and> \<not> version_like (between s i (fd_end f)) (drop (fd_end f) s) (lead < i)"

function find_loop :: "chrono \<Rightarrow> octets \<Rightarrow> stamp_ctx \<Rightarrow> nat \<Rightarrow> found option \<Rightarrow> nat \<Rightarrow> found option" where
  "find_loop ch s ctx limit date_only i =
     (if limit \<le> i then date_only
      else
        let lead = leading_marks s
        in case (if word_start s i then found_at ch s ctx i (i = lead) else None) of
             None \<Rightarrow> find_loop ch s ctx limit date_only (i + 1)
           | Some f \<Rightarrow>
               if fd_has_time f then Some f
               else find_loop ch s ctx limit
                      (if date_only = None \<and> counts_alone s lead i f then Some f else date_only) (i + 1))"
  by pat_completeness auto
termination by (relation "measure (\<lambda>(ch, s, ctx, limit, d, i). limit - i)") auto
declare find_loop.simps [simp del]

definition stamp_find :: "chrono \<Rightarrow> rstr \<Rightarrow> stamp_ctx \<Rightarrow> found option" where
  "stamp_find ch t ctx = (let s = as_bytes t in find_loop ch s ctx (min (length s) scan_limit) None 0)"

definition stamp_at :: "chrono \<Rightarrow> rstr \<Rightarrow> nat \<Rightarrow> stamp_ctx \<Rightarrow> found option" where
  "stamp_at ch t i ctx = found_at ch (as_bytes t) ctx i True"

section \<open>A whole value\<close>

definition exact_text :: "rstr \<Rightarrow> rstr" where
  "exact_text t =
     trim (rev (dropWhile (\<lambda>c. c \<in> {93, 41, 34, 39}) (rev (dropWhile (\<lambda>c. c \<in> {91, 40, 34, 39}) (trim t)))))"

definition exact_ordered :: "chrono \<Rightarrow> rstr \<Rightarrow> bool option \<Rightarrow> int option" where
  "exact_ordered ch t day_first =
     (let t = exact_text t
      in if utf8_len t < 6 then None
         else let s = as_bytes t; ctx = stamp_context_default\<lparr>sx_day_first := day_first\<rparr>
              in case scan_at s 0 ctx False of
                   None \<Rightarrow> None
                 | Some (raw, epoch_ms) \<Rightarrow>
                     if ra_end raw \<noteq> length s \<or> epoch_ms \<noteq> None
                       \<or> \<not> (case ra_date raw of Some (Some _, _, _) \<Rightarrow> True | _ \<Rightarrow> False) then None
                     else map_option fd_ms (complete ch raw None 0 ctx))"

definition exact :: "chrono \<Rightarrow> rstr \<Rightarrow> int option" where
  "exact ch t = exact_ordered ch t None"

section \<open>The order of a sample\<close>

text \<open>The pair of the first numeric date of a line that is not ISO; \<open>None\<close> when there is none or an ISO date comes first.\<close>

function learn_line :: "octets \<Rightarrow> nat \<Rightarrow> nat \<Rightarrow> (nat \<times> nat) option" where
  "learn_line s limit i =
     (if limit \<le> i then None
      else if digit (peek s i) \<and> (i = 0 \<or> \<not> alnum (peek s (i - 1))) then
        (if fst (iso s i) = None then
           (case fst (numeric s (context_year 2000) i) of
              Some raw \<Rightarrow> ra_ambiguous raw
            | None \<Rightarrow> learn_line s limit (i + 1))
         else None)
      else learn_line s limit (i + 1))"
  by pat_completeness auto
termination by (relation "measure (\<lambda>(s, limit, i). limit - i)") auto
declare learn_line.simps [simp del]

definition learn_count :: "nat \<times> nat \<Rightarrow> rstr \<Rightarrow> nat \<times> nat" where
  "learn_count n t =
     (case n of (day_first, month_first) \<Rightarrow>
        let s = as_bytes t
        in case learn_line s (min (length s) scan_limit) 0 of
             None \<Rightarrow> (day_first, month_first)
           | Some (a, b) \<Rightarrow>
               if 12 < a \<and> b \<le> 12 then (day_first + 1, month_first)
               else if 12 < b \<and> a \<le> 12 then (day_first, month_first + 1)
               else (day_first, month_first))"

definition learn_day_first :: "rstr list \<Rightarrow> bool option" where
  "learn_day_first lines =
     (case foldl learn_count (0, 0) lines of
        (day_first, month_first) \<Rightarrow>
          if 0 < day_first \<and> month_first = 0 then Some True
          else if day_first = 0 \<and> 0 < month_first then Some False
          else None)"

section \<open>The date of a file name\<close>

text \<open>\<open>str::parse::<u32>\<close>: a plus sign is allowed, nothing but digits otherwise.\<close>

definition parse_u32 :: "octets \<Rightarrow> nat option" where
  "parse_u32 t =
     (let ds = (case t of b # bs \<Rightarrow> if b = 43 \<and> bs \<noteq> [] then bs else t | [] \<Rightarrow> t)
      in if ds \<noteq> [] \<and> list_all is_ascii_digit ds \<and> dec_value ds \<le> u32_max then Some (dec_value ds) else None)"

definition separated_date :: "chrono \<Rightarrow> nat \<Rightarrow> octets \<Rightarrow> int option" where
  "separated_date ch sep t =
     (let parts = take 3 (split_char sep t);
          day = (if 2 < length parts then takeWhile is_ascii_digit (parts ! 2) else [])
      in case (parse_u32 (parts ! 0), if 1 < length parts then parse_u32 (parts ! 1) else None, parse_u32 day) of
           (Some y, Some m, Some d) \<Rightarrow>
             if plausible_year y \<and> length (parts ! 1) \<le> 2 \<and> 1 \<le> length day \<and> length day \<le> 2
             then ch_ymd ch (int y) m d else None
         | _ \<Rightarrow> None)"

definition run_date :: "chrono \<Rightarrow> octets \<Rightarrow> nat \<Rightarrow> nat \<Rightarrow> int option" where
  "run_date ch s i n =
     (if n = 4 \<and> (case peek s (i + 4) of Some b \<Rightarrow> b \<in> {45, 95, 46} | None \<Rightarrow> False) then
        separated_date ch (s ! (i + 4)) (drop i s)
      else if n = 8 then
        (let y = dec_value (between s i (i + 4));
             m = dec_value (between s (i + 4) (i + 6));
             d = dec_value (between s (i + 6) (i + 8))
         in if plausible_year y then ch_ymd ch (int y) m d else None)
      else if n = 6 \<and> 2 \<le> i \<and> eq_ignore_ascii_case (between s (i - 2) i) (lit ''ex'') then
        ch_ymd ch (2000 + int (dec_value (between s i (i + 2)))) (dec_value (between s (i + 2) (i + 4)))
          (dec_value (between s (i + 4) (i + 6)))
      else None)"

function name_loop :: "chrono \<Rightarrow> octets \<Rightarrow> nat \<Rightarrow> int option" where
  "name_loop ch s i =
     (if length s \<le> i then None
      else if is_ascii_digit (s ! i) \<and> (i = 0 \<or> \<not> is_ascii_digit (s ! (i - 1))) then
        let n = length (takeWhile is_ascii_digit (drop i s))
        in case run_date ch s i n of Some d \<Rightarrow> Some d | None \<Rightarrow> name_loop ch s (i + n)
      else name_loop ch s (i + 1))"
  by pat_completeness auto
termination
proof (relation "measure (\<lambda>(ch, s, i). length s - i)", simp_all, goal_cases)
  case (1 s i n)
  then show ?case by (simp add: Cons_nth_drop_Suc [symmetric] diff_less_mono2)
qed
declare name_loop.simps [simp del]

definition date_in_name :: "chrono \<Rightarrow> rstr \<Rightarrow> int option" where
  "date_in_name ch name =
     name_loop ch (as_bytes (rev (takeWhile (\<lambda>c. c \<noteq> 47 \<and> c \<noteq> 92) (rev name)))) 0"

end
