(* ===== verification/Split_Rule.thy ===== *)
theory Split_Rule
  imports Split_Codec Stamp_Find
begin

text \<open>
  The conditions of a separation: \<open>src-tauri/src/log_split/spec.rs\<close> (what the user asks for) and
  \<open>rule.rs\<close> (conditions compiled once, evaluated per item, combined in file order).

  What the code takes from crates is in the record \<open>world\<close>: compiled regular expressions, the
  Aho-Corasick automaton, Unicode lower-casing, \<open>chrono\<close>'s parsers and time zone, \<open>serde_json\<close>,
  and the \<open>f64\<close> epoch value; dates are those of the recognizer of \<open>sources/stamp.rs\<close>. A regular expression is the
  record of the methods the code calls on it.
\<close>

section \<open>The specification\<close>

datatype combine = CombineAll | CombineAny
datatype text_op = Contains | StartsWith | EndsWith | Equals
datatype scope = ScopeItem | FirstLine
datatype locate = LocateAuto | LineStart | LocateRegex | LocateField
datatype date_order = OrderAuto | DayFirst | MonthFirst
datatype zone = ZoneLocal | ZoneUtc
datatype missing = Previous | MatchMissing | NoMatch
datatype count_unit = UnitItem | UnitLine

datatype test =
    TText text_op "rstr list" bool scope
  | TRegex rstr bool scope
  | TDate "int option" "int option" locate "rstr option" "rstr option" date_order zone missing
  | TOrdinal count_unit "nat option" "nat option"

record condition =
  cn_negate :: bool
  cn_test :: test

record rule_spec =
  rs_combine :: combine
  rs_conditions :: "condition list"
  rs_sorted :: bool

section \<open>What comes from outside\<close>

record regex =
  rx_is_match :: "rstr \<Rightarrow> bool"
  rx_captures :: "rstr \<Rightarrow> (nat \<Rightarrow> rstr option) option"
  rx_names :: "rstr option list"

datatype json = JString rstr | JNumber rstr | JObject "(rstr \<times> json) list" | JOther

datatype date_format = Chrono rstr | Epoch | EpochSeconds | EpochMillis

record world =
  wd_lower :: "rstr \<Rightarrow> rstr"
  wd_aho :: "bool \<Rightarrow> rstr list \<Rightarrow> (rstr \<Rightarrow> bool) option"
  wd_regex :: "rstr \<Rightarrow> bool \<Rightarrow> regex option"
  wd_wall_to_utc :: "int \<Rightarrow> int option"
  wd_f64 :: "date_format \<Rightarrow> rstr \<Rightarrow> int option"
  wd_datetime :: "rstr \<Rightarrow> rstr \<Rightarrow> int option"
  wd_naive :: "rstr \<Rightarrow> rstr \<Rightarrow> int option"
  wd_naive_date :: "rstr \<Rightarrow> rstr \<Rightarrow> int option"
  wd_chrono :: chrono
  wd_json :: "rstr \<Rightarrow> json option"

datatype rule_error = NoText | BadTexts | NoRegex | BadRegex | NoField | NoConditions
  | TooManyConditions | NoDateBound | TooManyDates | NoPositionBound | NotEncodable

section \<open>Text conditions\<close>

definition max_conditions :: nat where "max_conditions = 32"
definition max_dates :: nat where "max_dates = 4"
definition date_scan :: nat where "date_scan = 8 * 1024"

datatype fold_kind = Exact | Ascii | Unicode

record matcher =
  mt_op :: text_op
  mt_values :: "rstr list"
  mt_fold :: fold_kind
  mt_any :: "(rstr \<Rightarrow> bool) option"

definition matcher_new :: "world \<Rightarrow> text_op \<Rightarrow> rstr list \<Rightarrow> bool \<Rightarrow> rule_error + matcher" where
  "matcher_new w op values0 ignore_case =
     (let values = filter (\<lambda>v. v \<noteq> []) values0
      in if values = [] then Inl NoText
         else let fk = (if \<not> ignore_case then Exact else if list_all is_ascii values then Ascii else Unicode);
                  vals = (if fk = Unicode then map (wd_lower w) values else values)
              in if op = Contains
                 then bind_res (opt_res BadTexts (wd_aho w (fk = Ascii) vals)) (\<lambda>any.
                        Inr \<lparr>mt_op = op, mt_values = vals, mt_fold = fk, mt_any = Some any\<rparr>)
                 else Inr \<lparr>mt_op = op, mt_values = vals, mt_fold = fk, mt_any = None\<rparr>)"

definition same_text :: "fold_kind \<Rightarrow> rstr \<Rightarrow> rstr \<Rightarrow> bool" where
  "same_text fk a b = (if fk = Ascii then eq_ignore_ascii_case a b else a = b)"

definition matcher_test :: "world \<Rightarrow> matcher \<Rightarrow> rstr \<Rightarrow> bool" where
  "matcher_test w m hay0 =
     (let hay = (if mt_fold m = Unicode then wd_lower w hay0 else hay0);
          same = same_text (mt_fold m)
      in case mt_op m of
           Contains \<Rightarrow> (case mt_any m of None \<Rightarrow> False | Some ac \<Rightarrow> ac hay)
         | StartsWith \<Rightarrow>
             list_ex (\<lambda>v. case get_prefix (utf8_len v) hay of None \<Rightarrow> False | Some h \<Rightarrow> same h v) (mt_values m)
         | EndsWith \<Rightarrow>
             (let hay = trim_end hay
              in list_ex (\<lambda>v. utf8_len v \<le> utf8_len hay
                    \<and> (case get_suffix (utf8_len hay - utf8_len v) hay of None \<Rightarrow> False | Some h \<Rightarrow> same h v))
                   (mt_values m))
         | Equals \<Rightarrow> (let hay = trim hay in list_ex (\<lambda>v. same hay (trim v)) (mt_values m)))"

definition compile_regex :: "world \<Rightarrow> rstr \<Rightarrow> bool \<Rightarrow> rule_error + regex" where
  "compile_regex w pattern ignore_case =
     (if pattern = [] then Inl NoRegex else opt_res BadRegex (wd_regex w pattern ignore_case))"

section \<open>Dates\<close>

text \<open>
  \<open>translate\<close>: a run of one format letter becomes one conversion; quoted text is copied. \<open>token_of_run\<close>
  is the table, \<open>None\<close> its default branch.
\<close>

definition token_of_run :: "nat \<Rightarrow> nat \<Rightarrow> rstr option" where
  "token_of_run c run =
     (if c = of_char CHR ''y'' then Some (if run = 2 then lit ''%y'' else lit ''%Y'')
      else if c = of_char CHR ''M'' then
        Some (if run = 3 then lit ''%b'' else if 4 \<le> run then lit ''%B'' else lit ''%m'')
      else if c = of_char CHR ''d'' then Some (lit ''%d'')
      else if c = of_char CHR ''H'' then Some (lit ''%H'')
      else if c = of_char CHR ''h'' then Some (lit ''%I'')
      else if c = of_char CHR ''m'' then Some (lit ''%M'')
      else if c = of_char CHR ''s'' then Some (lit ''%S'')
      else if c = of_char CHR ''S'' then
        Some (if run = 3 then lit ''%3f'' else if run = 6 then lit ''%6f''
              else if run = 9 then lit ''%9f'' else lit ''%f'')
      else if c = of_char CHR ''a'' then Some (lit ''%p'')
      else if c = of_char CHR ''E'' then Some (if 4 \<le> run then lit ''%A'' else lit ''%a'')
      else if c = of_char CHR ''X'' then Some (if 3 \<le> run then lit ''%:z'' else lit ''%z'')
      else if c = of_char CHR ''Z'' then Some (lit ''%z'')
      else None)"

function translate_chars :: "rstr \<Rightarrow> rstr" where
  "translate_chars [] = []"
| "translate_chars (c # s) =
     (if c = 39
      then takeWhile (\<lambda>x. x \<noteq> 39) s @ translate_chars (drop 1 (dropWhile (\<lambda>x. x \<noteq> 39) s))
      else let run = Suc (length (takeWhile (\<lambda>x. x = c) s))
           in (case token_of_run c run of Some t \<Rightarrow> t | None \<Rightarrow> replicate run c)
              @ translate_chars (dropWhile (\<lambda>x. x = c) s))"
  by pat_completeness auto
termination
  by (relation "measure length")
    (auto simp: le_imp_less_Suc length_dropWhile_le intro: le_less_trans [OF diff_le_self])

definition translate :: "rstr \<Rightarrow> rstr" where
  "translate format = (if of_char CHR ''%'' \<in> set format then format else translate_chars format)"

record date_reader =
  dr_locate :: locate
  dr_pattern :: "(regex \<times> nat) option"
  dr_field :: "rstr list"
  dr_format :: "date_format option"
  dr_ctx :: stamp_ctx
  dr_utc :: bool

definition local_wall_to_utc :: "world \<Rightarrow> int \<Rightarrow> int" where
  "local_wall_to_utc w ms = (case wd_wall_to_utc w ms of Some d \<Rightarrow> d | None \<Rightarrow> ms)"

text \<open>\<open>epoch\<close>: the digits are checked here; \<open>wd_f64\<close> is the parse, the scaling by the unit and \<open>as i64\<close>.\<close>

definition epoch :: "world \<Rightarrow> rstr \<Rightarrow> date_format \<Rightarrow> int option" where
  "epoch w text0 unt =
     (let text = trim_matches (\<lambda>c. c = 34) (trim text0)
      in if text = [] \<or> \<not> list_all (\<lambda>c. is_ascii_digit c \<or> c = 46 \<or> c = 45) text then None
         else wd_f64 w unt text)"

definition position_of :: "'a \<Rightarrow> 'a list \<Rightarrow> nat option" where
  "position_of x xs = (let k = length (takeWhile (\<lambda>y. y \<noteq> x) xs) in if k < length xs then Some k else None)"

text \<open>The capture group read: \<open>data\<close>, \<open>date\<close>, group 1, else the match.\<close>

definition date_group :: "regex \<Rightarrow> nat" where
  "date_group re =
     (case position_of (Some (lit ''data'')) (rx_names re) of
        Some k \<Rightarrow> k
      | None \<Rightarrow>
          (case position_of (Some (lit ''date'')) (rx_names re) of
             Some k \<Rightarrow> k
           | None \<Rightarrow> if 1 < length (rx_names re) then 1 else 0))"

definition reader_format :: "rstr option \<Rightarrow> date_format option" where
  "reader_format format =
     (case map_option trim format of
        None \<Rightarrow> None
      | Some f \<Rightarrow>
          if f = [] then None
          else if eq_ignore_ascii_case f (lit ''epoch'') then Some Epoch
          else if eq_ignore_ascii_case f (lit ''epoch_s'') then Some EpochSeconds
          else if eq_ignore_ascii_case f (lit ''epoch_ms'') then Some EpochMillis
          else Some (Chrono (translate f)))"

definition reader_new ::
  "world \<Rightarrow> locate \<Rightarrow> rstr option \<Rightarrow> rstr option \<Rightarrow> date_order \<Rightarrow> zone \<Rightarrow> stamp_ctx \<Rightarrow> rule_error + date_reader" where
  "reader_new w loc pattern format order zn ctx0 =
     (let pattern_text = (case pattern of None \<Rightarrow> [] | Some p \<Rightarrow> trim p);
          ctx = ctx0\<lparr>sx_day_first := (case order of OrderAuto \<Rightarrow> sx_day_first ctx0
                                                | DayFirst \<Rightarrow> Some True | MonthFirst \<Rightarrow> Some False)\<rparr>;
          reader = (\<lambda>pat field. \<lparr>dr_locate = loc, dr_pattern = pat, dr_field = field,
                                 dr_format = reader_format format, dr_ctx = ctx, dr_utc = (zn = ZoneUtc)\<rparr>)
      in case loc of
           LocateRegex \<Rightarrow>
             bind_res (compile_regex w pattern_text False) (\<lambda>re. Inr (reader (Some (re, date_group re)) []))
         | LocateField \<Rightarrow>
             (if pattern_text = [] then Inl NoField else Inr (reader None (split_char 46 pattern_text)))
         | _ \<Rightarrow> Inr (reader None []))"

definition reader_auto :: "stamp_ctx \<Rightarrow> date_reader" where
  "reader_auto ctx = \<lparr>dr_locate = LocateAuto, dr_pattern = None, dr_field = [], dr_format = None,
                      dr_ctx = ctx, dr_utc = False\<rparr>"

definition found_ms :: "world \<Rightarrow> date_reader \<Rightarrow> found \<Rightarrow> int" where
  "found_ms w r f = (if \<not> fd_zoned f \<and> dr_utc r then local_wall_to_utc w (fd_ms f) else fd_ms f)"

text \<open>A naive date and time is its count of nanoseconds.\<close>

definition chrono_prefix :: "world \<Rightarrow> date_reader \<Rightarrow> rstr \<Rightarrow> rstr \<Rightarrow> int option" where
  "chrono_prefix w r text format =
     (case wd_datetime w text format of
        Some ms \<Rightarrow> Some ms
      | None \<Rightarrow>
          map_option (\<lambda>naive. if dr_utc r then naive div 1000000 else naive_to_ms (wd_chrono w) naive)
            (case wd_naive w text format of Some n \<Rightarrow> Some n | None \<Rightarrow> wd_naive_date w text format))"

definition or_opt :: "'a option \<Rightarrow> 'a option \<Rightarrow> 'a option" where
  "or_opt a b = (case a of None \<Rightarrow> b | Some _ \<Rightarrow> a)"

definition reader_value :: "world \<Rightarrow> date_reader \<Rightarrow> rstr \<Rightarrow> int option" where
  "reader_value w r text0 =
     (let text = trim text0
      in case dr_format r of
           Some (Chrono format) \<Rightarrow> chrono_prefix w r text format
         | Some unt \<Rightarrow> epoch w text unt
         | None \<Rightarrow>
             or_opt (if 9 \<le> utf8_len text then epoch w text Epoch else None)
               (map_option (found_ms w r) (stamp_find (wd_chrono w) text (dr_ctx r))))"

text \<open>
  The places of a line a date may start at: an ASCII letter or digit, not after another one, in the
  first \<open>limit\<close> bytes.
\<close>

fun word_starts :: "nat \<Rightarrow> bool \<Rightarrow> rstr \<Rightarrow> rstr list" where
  "word_starts limit prev [] = []"
| "word_starts limit prev (c # s) =
     (if limit = 0 then []
      else (if is_ascii_alnum c \<and> \<not> prev then [c # s] else [])
           @ word_starts (limit - len_utf8 c) (is_ascii_alnum c) s)"

fun find_map :: "('a \<Rightarrow> 'b option) \<Rightarrow> 'a list \<Rightarrow> 'b option" where
  "find_map f [] = None"
| "find_map f (x # xs) = (case f x of None \<Rightarrow> find_map f xs | Some y \<Rightarrow> Some y)"

definition first_word :: "rstr \<Rightarrow> rstr" where
  "first_word s = (case split_whitespace s of [] \<Rightarrow> [] | x # _ \<Rightarrow> x)"

definition reader_in_line :: "world \<Rightarrow> date_reader \<Rightarrow> rstr \<Rightarrow> int option" where
  "reader_in_line w r line =
     (case dr_format r of
        Some (Chrono format) \<Rightarrow>
          find_map (\<lambda>tail. chrono_prefix w r tail format) (word_starts (min (utf8_len line) 400) False line)
      | Some unt \<Rightarrow> epoch w (first_word line) unt
      | None \<Rightarrow> map_option (found_ms w r) (stamp_find (wd_chrono w) line (dr_ctx r)))"

fun read_lines :: "world \<Rightarrow> date_reader \<Rightarrow> nat \<Rightarrow> rstr list \<Rightarrow> int option" where
  "read_lines w r taken [] = None"
| "read_lines w r taken (line # ls) =
     (if date_scan < taken then None
      else case reader_in_line w r (trim_break line) of
             Some ms \<Rightarrow> Some ms
           | None \<Rightarrow> read_lines w r (taken + utf8_len line + 1) ls)"

fun json_get :: "json \<Rightarrow> rstr list \<Rightarrow> json option" where
  "json_get j [] = Some j"
| "json_get (JObject kvs) (k # ks) = (case map_of kvs k of None \<Rightarrow> None | Some j \<Rightarrow> json_get j ks)"
| "json_get _ (k # ks) = None"

definition reader_read :: "world \<Rightarrow> date_reader \<Rightarrow> rstr \<Rightarrow> int option" where
  "reader_read w r text =
     (let first = trim_break (first_piece 10 text)
      in case dr_locate r of
           LocateAuto \<Rightarrow> read_lines w r 0 (split_char 10 text)
         | LineStart \<Rightarrow>
             (let k = (if take 1 first = [91] then 1 else 0)
              in case dr_format r of
                   Some (Chrono format) \<Rightarrow> chrono_prefix w r (drop k first) format
                 | Some unt \<Rightarrow> epoch w (first_word (drop k first)) unt
                 | None \<Rightarrow> map_option (found_ms w r) (stamp_at (wd_chrono w) first k (dr_ctx r)))
         | LocateRegex \<Rightarrow>
             (case dr_pattern r of
                None \<Rightarrow> None
              | Some (re, grp) \<Rightarrow>
                  (case rx_captures re text of
                     None \<Rightarrow> None
                   | Some caps \<Rightarrow>
                       (case or_opt (caps grp) (caps 0) of None \<Rightarrow> None | Some t \<Rightarrow> reader_value w r t)))
         | LocateField \<Rightarrow>
             (case wd_json w (trim first) of
                None \<Rightarrow> None
              | Some j \<Rightarrow>
                  (case json_get j (dr_field r) of
                     Some (JString s) \<Rightarrow> reader_value w r s
                   | Some (JNumber n) \<Rightarrow> epoch w n (case dr_format r of None \<Rightarrow> Epoch | Some u \<Rightarrow> u)
                   | _ \<Rightarrow> None)))"

section \<open>Rules\<close>

datatype kind =
    KText matcher bool
  | KRegex regex bool
  | KDate nat "int option" "int option" missing
  | KOrdinal bool "nat option" "nat option"

record cond =
  cd_negate :: bool
  cd_kind :: kind

record rule =
  rl_all :: bool
  rl_sorted :: bool
  rl_conds :: "cond list"
  rl_dates :: "date_reader list"

record facts =
  fa_bits :: "64 word"
  fa_dates :: "int option list"

record running =
  ru_last :: "int option list"
  ru_undated :: nat

definition facts_default :: facts where
  "facts_default = \<lparr>fa_bits = 0, fa_dates = replicate max_dates None\<rparr>"

definition running_default :: running where
  "running_default = \<lparr>ru_last = replicate max_dates None, ru_undated = 0\<rparr>"

fun compile_test :: "world \<Rightarrow> stamp_ctx \<Rightarrow> date_reader list \<Rightarrow> test \<Rightarrow> rule_error + (kind \<times> date_reader list)" where
  "compile_test w ctx dates (TText op values ignore_case scp) =
     bind_res (matcher_new w op values ignore_case) (\<lambda>m. Inr (KText m (scp = FirstLine), dates))"
| "compile_test w ctx dates (TRegex pattern ignore_case scp) =
     bind_res (compile_regex w pattern ignore_case) (\<lambda>re. Inr (KRegex re (scp = FirstLine), dates))"
| "compile_test w ctx dates (TDate from to loc pattern format order zn miss) =
     (if from = None \<and> to = None then Inl NoDateBound
      else if length dates = max_dates then Inl TooManyDates
      else bind_res (reader_new w loc pattern format order zn ctx) (\<lambda>reader.
             let dates = dates @ [reader] in Inr (KDate (length dates - 1) from to miss, dates)))"
| "compile_test w ctx dates (TOrdinal unt from to) =
     (if from = None \<and> to = None then Inl NoPositionBound
      else Inr (KOrdinal (unt = UnitLine) from to, dates))"

fun compile_conds ::
  "world \<Rightarrow> stamp_ctx \<Rightarrow> condition list \<Rightarrow> cond list \<Rightarrow> date_reader list \<Rightarrow> rule_error + (cond list \<times> date_reader list)" where
  "compile_conds w ctx [] conds dates = Inr (conds, dates)"
| "compile_conds w ctx (c # cs) conds dates =
     bind_res (compile_test w ctx dates (cn_test c)) (\<lambda>(kind, dates).
       compile_conds w ctx cs (conds @ [\<lparr>cd_negate = cn_negate c, cd_kind = kind\<rparr>]) dates)"

definition rule_compile :: "world \<Rightarrow> rule_spec \<Rightarrow> stamp_ctx \<Rightarrow> rule_error + rule" where
  "rule_compile w spec ctx =
     (if rs_conditions spec = [] then Inl NoConditions
      else if max_conditions < length (rs_conditions spec) then Inl TooManyConditions
      else bind_res (compile_conds w ctx (rs_conditions spec) [] []) (\<lambda>(conds, dates).
             Inr \<lparr>rl_all = (rs_combine spec = CombineAll \<or> length conds = 1), rl_sorted = rs_sorted spec,
                  rl_conds = conds, rl_dates = dates\<rparr>))"

fun is_ordinal :: "kind \<Rightarrow> bool" where
  "is_ordinal (KOrdinal _ _ _) = True"
| "is_ordinal _ = False"

definition has_ordinals :: "rule \<Rightarrow> bool" where
  "has_ordinals r = list_ex (\<lambda>c. is_ordinal (cd_kind c)) (rl_conds r)"

definition has_dates :: "rule \<Rightarrow> bool" where
  "has_dates r \<longleftrightarrow> rl_dates r \<noteq> []"

definition facts_cond :: "world \<Rightarrow> rule \<Rightarrow> rstr \<Rightarrow> nat \<times> cond \<Rightarrow> facts \<Rightarrow> facts" where
  "facts_cond w r text ic f =
     (let first = trim_break (first_piece 10 text);
          (hit, f) = (case cd_kind (snd ic) of
              KText m first_line \<Rightarrow> (matcher_test w m (if first_line then first else text), f)
            | KRegex re first_line \<Rightarrow> (rx_is_match re (if first_line then first else text), f)
            | KDate slot _ _ _ \<Rightarrow>
                (False, f\<lparr>fa_dates := (fa_dates f)[slot := reader_read w (rl_dates r ! slot) text]\<rparr>)
            | KOrdinal _ _ _ \<Rightarrow> (False, f))
      in f\<lparr>fa_bits := or (fa_bits f) (push_bit (fst ic) (of_bool hit))\<rparr>)"

definition rule_facts :: "world \<Rightarrow> rule \<Rightarrow> rstr \<Rightarrow> facts" where
  "rule_facts w r text = fold (facts_cond w r text) (enumerate 0 (rl_conds r)) facts_default"

definition in_dates :: "int option \<Rightarrow> int option \<Rightarrow> int \<Rightarrow> bool" where
  "in_dates from to d \<longleftrightarrow>
     (case from of None \<Rightarrow> True | Some f \<Rightarrow> f \<le> d) \<and> (case to of None \<Rightarrow> True | Some t \<Rightarrow> d < t)"

definition in_positions :: "nat option \<Rightarrow> nat option \<Rightarrow> nat \<Rightarrow> bool" where
  "in_positions from to p \<longleftrightarrow>
     (case from of None \<Rightarrow> True | Some f \<Rightarrow> f \<le> p) \<and> (case to of None \<Rightarrow> True | Some t \<Rightarrow> p \<le> t)"

text \<open>One round of the loop of \<open>decide\<close>: the flag \<open>undated\<close>, the result so far, the running state.\<close>

definition decide_cond ::
  "rule \<Rightarrow> facts \<Rightarrow> nat \<Rightarrow> nat \<Rightarrow> nat \<times> cond \<Rightarrow> bool \<times> bool \<times> running \<Rightarrow> bool \<times> bool \<times> running" where
  "decide_cond r f item line ic st =
     (let (undated, result, run) = st;
          (hit, undated, run) = (case cd_kind (snd ic) of
              KText _ _ \<Rightarrow> (and (drop_bit (fst ic) (fa_bits f)) 1 = 1, undated, run)
            | KRegex _ _ \<Rightarrow> (and (drop_bit (fst ic) (fa_bits f)) 1 = 1, undated, run)
            | KDate slot from to miss \<Rightarrow>
                (let (val, undated, run) = (case fa_dates f ! slot of
                     Some d \<Rightarrow> (Some (Some d), undated, run\<lparr>ru_last := (ru_last run)[slot := Some d]\<rparr>)
                   | None \<Rightarrow>
                       ((case miss of Previous \<Rightarrow> Some (ru_last run ! slot) | MatchMissing \<Rightarrow> None
                                    | NoMatch \<Rightarrow> Some None), True, run))
                 in ((case val of None \<Rightarrow> True | Some None \<Rightarrow> False | Some (Some d) \<Rightarrow> in_dates from to d),
                     undated, run))
            | KOrdinal lines from to \<Rightarrow> (in_positions from to (if lines then line else item), undated, run));
          hit = (hit \<noteq> cd_negate (snd ic))
      in (undated, (if rl_all r then result \<and> hit else result \<or> hit), run))"

definition decide :: "rule \<Rightarrow> facts \<Rightarrow> nat \<Rightarrow> nat \<Rightarrow> running \<Rightarrow> bool \<times> running" where
  "decide r f item line run =
     (let (undated, result, run) =
            fold (decide_cond r f item line) (enumerate 0 (rl_conds r)) (False, rl_all r, run)
      in (result, run\<lparr>ru_undated := ru_undated run + (if undated then 1 else 0)\<rparr>))"

definition cond_fate :: "bool \<Rightarrow> facts \<Rightarrow> nat \<Rightarrow> nat \<Rightarrow> running \<Rightarrow> cond \<Rightarrow> bool option" where
  "cond_fate sorted_file f item line run c =
     map_option (\<lambda>b. b \<noteq> cd_negate c)
       (case cd_kind c of
          KOrdinal lines from to \<Rightarrow>
            (let p = (if lines then line else item)
             in if (case to of None \<Rightarrow> False | Some t \<Rightarrow> t < p) then Some False
                else if to = None \<and> (case from of None \<Rightarrow> True | Some x \<Rightarrow> x \<le> p) then Some True
                else None)
        | KDate slot from to Previous \<Rightarrow>
            (if sorted_file
             then case or_opt (fa_dates f ! slot) (ru_last run ! slot) of
                    None \<Rightarrow> None
                  | Some d \<Rightarrow>
                      if (case to of None \<Rightarrow> False | Some t \<Rightarrow> t \<le> d) then Some False
                      else if to = None \<and> (case from of None \<Rightarrow> True | Some x \<Rightarrow> x \<le> d) then Some True
                      else None
             else None)
        | _ \<Rightarrow> None)"

text \<open>The loops of \<open>fate\<close>: the first absorbing fate, else the neutral one when every condition has it.\<close>

fun absorb_fates :: "bool \<Rightarrow> bool \<Rightarrow> bool option list \<Rightarrow> bool option" where
  "absorb_fates b neutral [] = (if neutral then Some (\<not> b) else None)"
| "absorb_fates b neutral (None # fs) = absorb_fates b False fs"
| "absorb_fates b neutral (Some x # fs) = (if x = b then Some b else absorb_fates b neutral fs)"

definition fate :: "rule \<Rightarrow> facts \<Rightarrow> nat \<Rightarrow> nat \<Rightarrow> running \<Rightarrow> bool option" where
  "fate r f item line run =
     absorb_fates (\<not> rl_all r) True (map (cond_fate (rl_sorted r) f item line run) (rl_conds r))"

definition may_settle :: "rule \<Rightarrow> bool" where
  "may_settle r =
     list_ex (\<lambda>c. case cd_kind c of KOrdinal _ _ _ \<Rightarrow> True | KDate _ _ _ Previous \<Rightarrow> rl_sorted r | _ \<Rightarrow> False)
       (rl_conds r)"

definition seek_bound :: "rule \<Rightarrow> (nat \<times> int) option" where
  "seek_bound r =
     (if \<not> rl_sorted r \<or> \<not> rl_all r \<or> has_ordinals r \<or> length (rl_dates r) \<noteq> 1 then None
      else find_map (\<lambda>c. case cd_kind c of
              KDate slot (Some from) _ Previous \<Rightarrow> if \<not> cd_negate c then Some (slot, from) else None
            | _ \<Rightarrow> None) (rl_conds r))"

definition pure_range :: "rule \<Rightarrow> (nat \<times> int option \<times> int option) option" where
  "pure_range r =
     (case rl_conds r of
        [c] \<Rightarrow> (case cd_kind c of
                  KDate slot from to Previous \<Rightarrow>
                    if \<not> cd_negate c \<and> rl_sorted r then Some (slot, from, to) else None
                | _ \<Rightarrow> None)
      | _ \<Rightarrow> None)"

end
