(* ===== verification/Split_Framing.thy ===== *)
theory Split_Framing
  imports Split_Rule
begin

text \<open>
  What one item of the file is, and the reader that cuts the file into items while it streams through a
  bounded buffer: \<open>src-tauri/src/log_split/framing.rs\<close>, with \<open>continuation_line\<close> of \<open>sources.rs\<close>.

  The file is a byte list and a read of it never fails; a slice or subtraction that would panic makes
  the reader answer \<open>None\<close>, and \<open>Split_Reader\<close> shows that none does.
\<close>

section \<open>Lines that continue an item\<close>

definition is_stacktrace_line :: "rstr \<Rightarrow> bool" where
  "is_stacktrace_line t \<longleftrightarrow> starts_with (lit ''at '') t \<or> starts_with (lit ''Caused by:'') t
     \<or> starts_with (lit ''Suppressed:'') t
     \<or> (starts_with (lit ''...'') t \<and> starts_with (rev (lit '' more'')) (rev t))"

definition ends_with :: "rstr \<Rightarrow> rstr \<Rightarrow> bool" where
  "ends_with p t = starts_with (rev p) (rev t)"

definition continuation_line :: "rstr \<Rightarrow> bool" where
  "continuation_line line \<longleftrightarrow>
     (case line of [] \<Rightarrow> False | c # _ \<Rightarrow> c \<in> set (lit [CHR '' '', CHR 0x09, CHR ''}'', CHR '']'', CHR '')''])) \<or>
     (let t = trim line
      in is_stacktrace_line t
         \<or> list_ex (\<lambda>p. starts_with (lit p) t)
             [''Traceback (most recent call last)'', ''During handling of the above exception'',
              ''The above exception was the direct cause'', ''--- End of'', ''goroutine '',
              ''SEVERE:'', ''WARNING:'', ''INFO:'', ''CONFIG:'', ''FINE:'', ''FINER:'', ''FINEST:'']
         \<or> (let head = takeWhile (\<lambda>c. c \<noteq> of_char CHR '':'' \<and> c \<noteq> of_char CHR '' '') t
            in head \<noteq> []
               \<and> list_all (\<lambda>c. is_ascii_alnum c \<or> c \<in> set (lit ''._$'')) head
               \<and> list_ex (\<lambda>s. ends_with (lit s) head)
                   [''Exception'', ''Error'', ''Throwable'', ''Warning'', ''Exit'', ''Interrupt'']))"

section \<open>Framings\<close>

definition head_bytes :: nat where "head_bytes = 64 * 1024"
definition max_item :: nat where "max_item = 16 * 2 ^ 20"
definition block_bytes :: nat where "block_bytes = 4 * 2 ^ 20"
definition batch_bytes :: nat where "batch_bytes = 8 * 2 ^ 20"

datatype framing =
    FrLine
  | FrStartRegex regex
  | FrStartDate stamp_ctx
  | FrContinuation
  | FrEndRegex regex
  | FrBlank
  | FrDelimiter "byte list"

fun line_based :: "framing \<Rightarrow> bool" where
  "line_based (FrDelimiter _) = False"
| "line_based _ = True"

definition blank :: "rstr \<Rightarrow> bool" where
  "blank text \<longleftrightarrow> trim text = []"

definition starts_with_date :: "world \<Rightarrow> rstr \<Rightarrow> stamp_ctx \<Rightarrow> bool" where
  "starts_with_date w text ctx \<longleftrightarrow> stamp_at (wd_chrono w) text (if take 1 text = [91] then 1 else 0) ctx \<noteq> None"

section \<open>The reader\<close>

record span =
  sp_start :: nat
  sp_end :: nat
  sp_item :: nat
  sp_line :: nat
  sp_first :: bool
  sp_last :: bool

record batch =
  ba_data :: "byte list"
  ba_base :: nat
  ba_spans :: "span list"

record line_state =
  st_lines :: nat
  st_prev_blank :: bool
  st_end_pending :: bool
  st_mid_line :: bool
  st_member :: bool
  st_search_from :: nat

definition line_state_default :: line_state where
  "line_state_default = \<lparr>st_lines = 0, st_prev_blank = False, st_end_pending = False,
     st_mid_line = False, st_member = False, st_search_from = 0\<rparr>"

record reader =
  re_limit :: nat
  re_buf :: "byte list"
  re_base :: nat
  re_next_read :: nat
  re_consumed :: nat
  re_item_start :: nat
  re_scan :: nat
  re_eof :: bool
  re_st :: line_state
  re_next_item :: nat
  re_next_line :: nat
  re_item_line :: nat
  re_partial :: bool

text \<open>What a reader borrows: the file, its framing and codec, and how bytes become text.\<close>

record framed =
  fr_file :: "byte list"
  fr_framing :: framing
  fr_codec :: codec
  fr_decode :: "byte list \<Rightarrow> rstr"
  fr_world :: world

definition reader_at :: "nat \<Rightarrow> nat \<Rightarrow> nat \<Rightarrow> nat \<Rightarrow> reader" where
  "reader_at start limit first_item first_line =
     \<lparr>re_limit = limit, re_buf = [], re_base = start, re_next_read = start, re_consumed = 0,
      re_item_start = 0, re_scan = 0, re_eof = (limit \<le> start), re_st = line_state_default,
      re_next_item = first_item, re_next_line = first_line, re_item_line = first_line, re_partial = False\<rparr>"

definition fill :: "framed \<Rightarrow> reader \<Rightarrow> reader" where
  "fill F r =
     (let want = min (re_limit r - re_next_read r) block_bytes
      in if want = 0 then r\<lparr>re_eof := True\<rparr>
         else let got = take want (drop (re_next_read r) (fr_file F))
              in r\<lparr>re_buf := re_buf r @ got, re_next_read := re_next_read r + length got,
                   re_eof := re_eof r \<or> length got < want\<rparr>)"

definition drop_consumed :: "reader \<Rightarrow> reader" where
  "drop_consumed r =
     (let n = re_consumed r
      in if n = 0 then r
         else r\<lparr>re_buf := drop n (re_buf r), re_base := re_base r + n, re_item_start := re_item_start r - n,
                re_scan := re_scan r - n,
                re_st := (re_st r)\<lparr>st_search_from := st_search_from (re_st r) - n\<rparr>, re_consumed := 0\<rparr>)"

definition cut_bytes :: "nat \<Rightarrow> nat \<Rightarrow> 'a list \<Rightarrow> 'a list" where
  "cut_bytes a b xs = take (b - a) (drop a xs)"

definition close_item :: "framed \<Rightarrow> nat \<Rightarrow> reader \<Rightarrow> span \<times> reader" where
  "close_item F stop r =
     (let line = re_next_line r + count_newlines (fr_codec F) (cut_bytes (re_item_start r) stop (re_buf r))
      in (\<lparr>sp_start = re_item_start r, sp_end = stop, sp_item = re_next_item r, sp_line = re_item_line r,
           sp_first = \<not> re_partial r, sp_last = True\<rparr>,
          r\<lparr>re_next_line := line, re_next_item := re_next_item r + 1, re_item_line := line,
            re_item_start := stop, re_scan := stop, re_st := line_state_default, re_partial := False\<rparr>))"

definition piece_end :: "framed \<Rightarrow> reader \<Rightarrow> nat" where
  "piece_end F r =
     (if \<not> line_based (fr_framing F) then re_scan r
      else if st_mid_line (re_st r) \<or> st_member (re_st r) \<or> st_lines (re_st r) = 0
      then codec_align (fr_codec F) (length (re_buf r))
      else re_scan r)"

definition piece :: "framed \<Rightarrow> nat \<Rightarrow> reader \<Rightarrow> span \<times> reader" where
  "piece F stop r =
     (let line = re_next_line r + count_newlines (fr_codec F) (cut_bytes (re_item_start r) stop (re_buf r));
          r' = r\<lparr>re_next_line := line, re_partial := True, re_item_start := stop\<rparr>
      in (\<lparr>sp_start = re_item_start r, sp_end = stop, sp_item = re_next_item r, sp_line = re_item_line r,
           sp_first = \<not> re_partial r, sp_last = False\<rparr>,
          if re_scan r < stop
          then r'\<lparr>re_st := (if line_based (fr_framing F)
                           then (re_st r)\<lparr>st_mid_line := True, st_member := False, st_search_from := 0\<rparr>
                           else re_st r),
                  re_scan := stop\<rparr>
          else r'))"

definition pending_end :: "reader \<Rightarrow> nat option" where
  "pending_end r =
     (let len = length (re_buf r)
      in if re_eof r \<and> (re_item_start r < len \<or> re_partial r) then Some len else None)"

subsection \<open>Where an item ends: a delimiter\<close>

text \<open>\<open>memmem::find\<close>: the first place a needle occurs.\<close>

fun find_sub :: "byte list \<Rightarrow> byte list \<Rightarrow> nat option" where
  "find_sub d [] = (if d = [] then Some 0 else None)"
| "find_sub d (x # xs) = (if starts_with d (x # xs) then Some 0 else map_option Suc (find_sub d xs))"

lemma find_sub_bound: "find_sub d xs = Some p \<Longrightarrow> p + length d \<le> length xs"
proof (induction d xs arbitrary: p rule: find_sub.induct)
  case (2 d x xs)
  show ?case
  proof (cases "starts_with d (x # xs)")
    case True
    then have "length (take (length d) (x # xs)) = length d" by (simp add: starts_with_def)
    then show ?thesis using 2 True by (simp add: min_def split: if_splits)
  qed (use 2 in auto)
qed (auto split: if_splits)

text \<open>
  The loop of \<open>find_delimiter\<close>: only occurrences on a unit of the item count. The slice past the end that
  the first branch answers is never taken for a separator that is not empty: what is found ends in the buffer.
\<close>

function scan_delimiter :: "nat \<Rightarrow> byte list \<Rightarrow> nat \<Rightarrow> byte list \<Rightarrow> nat \<Rightarrow> nat option" where
  "scan_delimiter w d item_start buf pos =
     (if length buf < pos then None
      else case find_sub d (drop pos buf) of
             None \<Rightarrow> None
           | Some k \<Rightarrow>
               if (pos + k - item_start) mod w = 0 then Some (pos + k + length d)
               else scan_delimiter w d item_start buf (pos + k + 1))"
  by pat_completeness auto
termination
  by (relation "measure (\<lambda>(w, d, i, buf, pos). Suc (length buf) - pos)") auto

declare scan_delimiter.simps [simp del]

definition find_delimiter :: "framed \<Rightarrow> byte list \<Rightarrow> reader \<Rightarrow> nat option \<times> reader" where
  "find_delimiter F d r =
     (let c = fr_codec F
      in case scan_delimiter (codec_width c) d (re_item_start r) (re_buf r) (max (re_scan r) (re_item_start r)) of
           Some stop \<Rightarrow> (Some stop, r)
         | None \<Rightarrow>
             if re_eof r then (pending_end r, r)
             else (None, r\<lparr>re_scan := max (re_item_start r) (codec_align c (length (re_buf r) - (length d - 1)))\<rparr>))"

subsection \<open>Where an item ends: lines\<close>

definition head_text :: "framed \<Rightarrow> reader \<Rightarrow> nat \<Rightarrow> nat option \<Rightarrow> rstr" where
  "head_text F r start newline =
     (let stop = min (case newline of None \<Rightarrow> length (re_buf r) | Some p \<Rightarrow> p) (start + head_bytes)
      in trim_break (fr_decode F (cut_bytes start (start + codec_align (fr_codec F) (stop - start)) (re_buf r))))"

text \<open>Whether the line starts an item, for the framings that look at its text.\<close>

definition head_starts :: "framed \<Rightarrow> bool \<Rightarrow> rstr \<Rightarrow> bool" where
  "head_starts F prev_blank text =
     (case fr_framing F of
        FrBlank \<Rightarrow> prev_blank \<and> \<not> blank text
      | FrStartRegex re \<Rightarrow> rx_is_match re text
      | FrStartDate ctx \<Rightarrow> starts_with_date (fr_world F) text ctx
      | FrContinuation \<Rightarrow> \<not> blank text \<and> \<not> continuation_line text
      | _ \<Rightarrow> False)"

definition wait_more :: "framed \<Rightarrow> nat \<Rightarrow> reader \<Rightarrow> reader" where
  "wait_more F start r =
     r\<lparr>re_st := (re_st r)\<lparr>st_search_from := max (codec_align (fr_codec F) (length (re_buf r))) start\<rparr>\<rparr>"

text \<open>
  The classification of the line at \<open>scan\<close>: \<open>Some True\<close> when it starts an item, \<open>Some False\<close> when it
  belongs to the current one, \<open>None\<close> when more bytes are needed.
\<close>

definition classify :: "framed \<Rightarrow> reader \<Rightarrow> nat option \<Rightarrow> bool option" where
  "classify F r newline =
     (let start = re_scan r; complete = (newline \<noteq> None \<or> re_eof r)
      in case fr_framing F of
           FrLine \<Rightarrow> Some True
         | FrEndRegex _ \<Rightarrow> Some (st_end_pending (re_st r))
         | _ \<Rightarrow>
             if \<not> complete \<and> length (re_buf r) - start < head_bytes then None
             else Some (head_starts F (st_prev_blank (re_st r)) (head_text F r start newline)))"

text \<open>The end of one round: the line at \<open>scan\<close> is taken into the item.\<close>

definition take_line :: "framed \<Rightarrow> nat option \<Rightarrow> reader \<Rightarrow> reader" where
  "take_line F newline r =
     (let start = re_scan r; st = re_st r;
          st = (if st_mid_line st then st\<lparr>st_end_pending := False, st_prev_blank := False\<rparr>
                else case fr_framing F of
                       FrEndRegex re \<Rightarrow> st\<lparr>st_end_pending := rx_is_match re (head_text F r start newline)\<rparr>
                     | FrBlank \<Rightarrow> st\<lparr>st_prev_blank := blank (head_text F r start newline)\<rparr>
                     | _ \<Rightarrow> st)
      in r\<lparr>re_st := st\<lparr>st_lines := st_lines st + 1, st_mid_line := False, st_member := False, st_search_from := 0\<rparr>,
           re_scan := (case newline of None \<Rightarrow> length (re_buf r) | Some p \<Rightarrow> p + codec_width (fr_codec F))\<rparr>)"

lemma unit_scan_ge: "unit_scan test nl buf pos = Some p \<Longrightarrow> pos \<le> p"
  by (induction test nl buf pos arbitrary: p rule: unit_scan.induct)
     (subst (asm) (2) unit_scan.simps, force split: if_splits option.splits)

lemma find_newline_ge: "find_newline c buf pos = Some p \<Longrightarrow> pos \<le> p"
  by (auto simp: find_newline_def dest!: unit_scan_ge split: encoding.splits if_splits)

lemma codec_width_pos [simp]: "0 < codec_width c"
  by (simp add: codec_width_def split: encoding.splits)

function find_line_end :: "framed \<Rightarrow> reader \<Rightarrow> nat option \<times> reader" where
  "find_line_end F r =
     (let start = re_scan r; len = length (re_buf r); st = re_st r
      in if len \<le> start then (pending_end r, r)
         else let newline = find_newline (fr_codec F) (re_buf r) (max start (st_search_from st));
                  asked = (\<not> st_mid_line st \<and> 0 < st_lines st \<and> \<not> st_member st);
                  cls = (if asked then classify F r newline else Some False)
              in case cls of
                   None \<Rightarrow> (None, wait_more F start r)
                 | Some True \<Rightarrow> (Some start, r)
                 | Some False \<Rightarrow>
                     let r = (if asked then r\<lparr>re_st := st\<lparr>st_member := True\<rparr>\<rparr> else r)
                     in if newline = None \<and> \<not> re_eof r then (None, wait_more F start r)
                        else find_line_end F (take_line F newline r))"
  by pat_completeness auto
termination
  by (relation "measure (\<lambda>(F, r). length (re_buf r) - re_scan r)")
     (auto simp: take_line_def Let_def dest!: find_newline_ge intro!: diff_less_mono2
       split: option.splits intro: less_le_trans [OF _ le_add1] le_less_trans [OF _ less_add_same_cancel1 [THEN iffD2]])

declare find_line_end.simps [simp del]

definition find_end :: "framed \<Rightarrow> reader \<Rightarrow> nat option \<times> reader" where
  "find_end F r = (case fr_framing F of FrDelimiter d \<Rightarrow> find_delimiter F d r | _ \<Rightarrow> find_line_end F r)"

subsection \<open>Batches\<close>

text \<open>Looking for an end moves only \<open>scan\<close> and the line state.\<close>

definition core :: "reader \<Rightarrow> reader" where
  "core r = r\<lparr>re_scan := 0, re_st := line_state_default\<rparr>"

lemma core_simps [simp]:
  "core (r\<lparr>re_scan := x\<rparr>) = core r" "core (r\<lparr>re_st := y\<rparr>) = core r" "core (wait_more F n r) = core r"
  "core (take_line F nl r) = core r"
  by (simp_all add: core_def wait_more_def take_line_def Let_def)

lemma find_line_end_core: "core (snd (find_line_end F r)) = core r"
proof (induction F r rule: find_line_end.induct)
  case (1 F r)
  let ?nl = "find_newline (fr_codec F) (re_buf r) (max (re_scan r) (st_search_from (re_st r)))"
  let ?asked = "\<not> st_mid_line (re_st r) \<and> 0 < st_lines (re_st r) \<and> \<not> st_member (re_st r)"
  define cls where "cls = (if ?asked then classify F r ?nl else Some False)"
  let ?r = "if ?asked then r\<lparr>re_st := (re_st r)\<lparr>st_member := True\<rparr>\<rparr> else r"
  consider (out) "length (re_buf r) \<le> re_scan r" | (more) "re_scan r < length (re_buf r)" "cls = None"
    | (starts) "re_scan r < length (re_buf r)" "cls = Some True"
    | (in_item) "re_scan r < length (re_buf r)" "cls = Some False"
    by (metis (full_types) not_le option.exhaust)
  then show ?case
  proof cases
    case in_item
    have ih: "core (snd (find_line_end F (take_line F ?nl ?r))) = core ?r" if "\<not> (?nl = None \<and> \<not> re_eof ?r)"
      using "1.IH" [OF refl refl refl _ refl refl refl in_item(2) [unfolded cls_def] _ refl that] in_item(1) by simp
    have step: "find_line_end F r = (if ?nl = None \<and> \<not> re_eof ?r then (None, wait_more F (re_scan r) ?r)
        else find_line_end F (take_line F ?nl ?r))"
      using in_item unfolding cls_def by (subst find_line_end.simps) (simp add: Let_def)
    have "core ?r = core r" by simp
    then show ?thesis using ih unfolding step by auto
  qed (subst find_line_end.simps, simp add: Let_def cls_def)+
qed

lemma find_end_const:
  "re_limit (snd (find_end F r)) = re_limit r" "re_next_read (snd (find_end F r)) = re_next_read r"
  "re_eof (snd (find_end F r)) = re_eof r" "re_buf (snd (find_end F r)) = re_buf r"
  "re_base (snd (find_end F r)) = re_base r" "re_item_start (snd (find_end F r)) = re_item_start r"
  "re_partial (snd (find_end F r)) = re_partial r" "re_consumed (snd (find_end F r)) = re_consumed r"
  "re_next_item (snd (find_end F r)) = re_next_item r" "re_next_line (snd (find_end F r)) = re_next_line r"
  "re_item_line (snd (find_end F r)) = re_item_line r"
proof -
  have c: "core (snd (find_end F r)) = core r"
    using find_line_end_core [of F r]
    by (auto simp: find_end_def find_delimiter_def Let_def split: framing.splits option.splits)
  have sel: "re_limit r = re_limit (core r)" "re_next_read r = re_next_read (core r)" "re_eof r = re_eof (core r)"
    "re_buf r = re_buf (core r)" "re_base r = re_base (core r)" "re_item_start r = re_item_start (core r)"
    "re_partial r = re_partial (core r)" "re_consumed r = re_consumed (core r)"
    "re_next_item r = re_next_item (core r)" "re_next_line r = re_next_line (core r)"
    "re_item_line r = re_item_line (core r)" for r
    by (simp_all add: core_def)
  show "re_limit (snd (find_end F r)) = re_limit r" "re_next_read (snd (find_end F r)) = re_next_read r"
    "re_eof (snd (find_end F r)) = re_eof r" "re_buf (snd (find_end F r)) = re_buf r"
    "re_base (snd (find_end F r)) = re_base r" "re_item_start (snd (find_end F r)) = re_item_start r"
    "re_partial (snd (find_end F r)) = re_partial r" "re_consumed (snd (find_end F r)) = re_consumed r"
    "re_next_item (snd (find_end F r)) = re_next_item r" "re_next_line (snd (find_end F r)) = re_next_line r"
    "re_item_line (snd (find_end F r)) = re_item_line r"
    unfolding sel [of "snd (find_end F r)"] sel [of r] c by simp_all
qed

text \<open>
  The inner loop: complete items until the batch holds \<open>batch_bytes\<close>. \<open>None\<close> is the panic of an end
  outside the buffer.
\<close>

function close_items :: "framed \<Rightarrow> nat \<Rightarrow> reader \<Rightarrow> (span list \<times> reader) option" where
  "close_items F bytes r =
     (if batch_bytes \<le> bytes then Some ([], r)
      else case find_end F r of
             (None, r') \<Rightarrow> Some ([], r')
           | (Some stop, r') \<Rightarrow>
               if stop = re_item_start r' \<and> \<not> re_partial r' then Some ([], r')
               else if stop < re_item_start r' \<or> length (re_buf r') < stop then None
               else let (sp, r'') = close_item F stop r'
                    in map_option (\<lambda>(sps, r''). (sp # sps, r''))
                         (close_items F (bytes + (stop - re_item_start r')) r''))"
  by pat_completeness auto
termination
proof (relation "measure (\<lambda>(F, bytes, r). 2 * (length (re_buf r) - re_item_start r) + (if re_partial r then 1 else 0))",
    simp, goal_cases)
  case (1 F bytes r x r' a stop sp r'')
  have "re_buf r' = re_buf r" "re_item_start r' = re_item_start r" "re_partial r' = re_partial r"
    using find_end_const [of F r] 1(2) [symmetric] by simp_all
  then show ?case using 1 by (auto simp: close_item_def Let_def)
qed

declare close_items.simps [simp del]

lemma close_items_const:
  "close_items F bytes r = Some (sps, r') \<Longrightarrow>
   re_limit r' = re_limit r \<and> re_next_read r' = re_next_read r \<and> re_eof r' = re_eof r"
proof (induction F bytes r arbitrary: sps r' rule: close_items.induct)
  case (1 F bytes r)
  obtain e s where e: "find_end F r = (e, s)" by (cases "find_end F r")
  then have c: "re_limit s = re_limit r" "re_next_read s = re_next_read r" "re_eof s = re_eof r"
    using find_end_const [of F r] by simp_all
  show ?case
  proof (cases "batch_bytes \<le> bytes \<or> e = None \<or> (e = Some (re_item_start s) \<and> \<not> re_partial s)")
    case True
    then show ?thesis using "1.prems" c by (auto simp: close_items.simps [of F bytes r] e split: if_splits)
  next
    case False
    then obtain stop where stop: "e = Some stop" by auto
    obtain sp s' where cl: "close_item F stop s = (sp, s')" by (cases "close_item F stop s")
    have "re_limit s' = re_limit s" "re_next_read s' = re_next_read s" "re_eof s' = re_eof s"
      using cl by (auto simp: close_item_def Let_def)
    moreover obtain sps' where "close_items F (bytes + (stop - re_item_start s)) s' = Some (sps', r')"
      using "1.prems" False stop by (auto simp: close_items.simps [of F bytes r] e cl split: if_splits)
    then have "re_limit r' = re_limit s' \<and> re_next_read r' = re_next_read s' \<and> re_eof r' = re_eof s'"
      using "1.IH" [of "Some stop" s stop "(sp, s')" sp s'] False
        "1.prems" stop by (auto simp: close_items.simps [of F bytes r] e cl split: if_splits)
    ultimately show ?thesis using c by simp
  qed
qed

lemma fill_measure:
  "\<not> re_eof r \<Longrightarrow> (if re_eof (fill F r) then 0 else Suc (re_limit (fill F r) - re_next_read (fill F r)))
     < Suc (re_limit r - re_next_read r)"
  by (auto simp: fill_def Let_def block_bytes_def)

text \<open>The loop of \<open>next_batch\<close>, after \<open>discard\<close>; the outer \<open>None\<close> is a panic.\<close>

function batch_loop :: "framed \<Rightarrow> reader \<Rightarrow> (batch option \<times> reader) option" where
  "batch_loop F r =
     (case close_items F 0 r of
        None \<Rightarrow> None
      | Some (sps, r') \<Rightarrow>
          if sps \<noteq> [] then
            Some (Some \<lparr>ba_data = take (re_item_start r') (re_buf r'), ba_base = re_base r', ba_spans = sps\<rparr>,
                  r'\<lparr>re_consumed := re_item_start r'\<rparr>)
          else if re_eof r' then Some (None, r')
          else if max_item \<le> length (re_buf r') - re_item_start r' then
            (let stop = piece_end F r'
             in if stop < re_item_start r' \<or> length (re_buf r') < stop then None
                else let (sp, r'') = piece F stop r'
                     in Some (Some \<lparr>ba_data = take (re_item_start r'') (re_buf r''), ba_base = re_base r'', ba_spans = [sp]\<rparr>,
                              r''\<lparr>re_consumed := re_item_start r''\<rparr>))
          else batch_loop F (fill F r'))"
  by pat_completeness auto
termination
proof (relation "measure (\<lambda>(F, r). if re_eof r then 0 else Suc (re_limit r - re_next_read r))", simp, goal_cases)
  case (1 F r x sps r')
  then have c: "re_limit r' = re_limit r" "re_next_read r' = re_next_read r" "re_eof r' = re_eof r"
    using close_items_const by blast+
  have "\<not> re_eof r'" using 1 by auto
  then show ?case using fill_measure [of r' F] c by simp
qed

declare batch_loop.simps [simp del]

definition next_batch :: "framed \<Rightarrow> reader \<Rightarrow> (batch option \<times> reader) option" where
  "next_batch F r =
     (if re_scan r < re_consumed r \<or> re_item_start r < re_consumed r \<or> length (re_buf r) < re_consumed r then None
      else batch_loop F (drop_consumed r))"

text \<open>Every batch of the reader, as the \<open>while let\<close> loops read it; \<open>None\<close> is a panic or a loop without end.\<close>

partial_function (option) read_all :: "framed \<Rightarrow> reader \<Rightarrow> batch list option" where
  "read_all F r =
     Option.bind (next_batch F r) (\<lambda>(b, r').
       case b of None \<Rightarrow> Some []
       | Some b \<Rightarrow> Option.bind (read_all F r') (\<lambda>bs. Some (b # bs)))"

declare read_all.simps [code]

end
