(* ===== verification/Split_Rule_Laws.thy ===== *)
theory Split_Rule_Laws
  imports Split_Rule
begin

text \<open>
  What the rule decides: the result of \<open>decide\<close> as a combination of the hits of the conditions, the
  soundness of the shortcuts \<open>fate\<close>, \<open>seek_bound\<close> and \<open>pure_range\<close> on a file in chronological order, and
  where the last one departs from the item by item evaluation.
\<close>

section \<open>Well-formed rules\<close>

definition date_slots :: "cond list \<Rightarrow> nat list" where
  "date_slots cs = concat (map (\<lambda>c. case cd_kind c of KDate s _ _ _ \<Rightarrow> [s] | _ \<Rightarrow> []) cs)"

fun bounded_kind :: "kind \<Rightarrow> bool" where
  "bounded_kind (KDate _ from to _) \<longleftrightarrow> from \<noteq> None \<or> to \<noteq> None"
| "bounded_kind (KOrdinal _ from to) \<longleftrightarrow> from \<noteq> None \<or> to \<noteq> None"
| "bounded_kind _ \<longleftrightarrow> True"

definition rule_ok :: "rule \<Rightarrow> bool" where
  "rule_ok r \<longleftrightarrow> rl_conds r \<noteq> [] \<and> length (rl_conds r) \<le> max_conditions \<and> length (rl_dates r) \<le> max_dates
     \<and> date_slots (rl_conds r) = [0..<length (rl_dates r)]
     \<and> list_all (\<lambda>c. bounded_kind (cd_kind c)) (rl_conds r)"

lemma date_slots_append [simp]: "date_slots (a @ b) = date_slots a @ date_slots b"
  by (simp add: date_slots_def)

lemma date_slots_simps [simp]:
  "date_slots [] = []"
  "date_slots (c # cs) = (case cd_kind c of KDate s _ _ _ \<Rightarrow> [s] | _ \<Rightarrow> []) @ date_slots cs"
  by (simp_all add: date_slots_def)

lemma date_slots_set: "set (date_slots cs) = {s. \<exists>c \<in> set cs. \<exists>from to m. cd_kind c = KDate s from to m}"
proof (induction cs)
  case (Cons c cs)
  then show ?case by (cases "cd_kind c") auto
qed simp

lemma rule_ok_slot:
  assumes "rule_ok r" "c \<in> set (rl_conds r)" "cd_kind c = KDate slot from to m"
  shows "slot < length (rl_dates r)" "slot < max_dates" "slot \<in> set (date_slots (rl_conds r))"
proof -
  show s: "slot \<in> set (date_slots (rl_conds r))" using assms(2,3) by (auto simp: date_slots_set)
  then show "slot < length (rl_dates r)" using assms(1) by (simp add: rule_ok_def)
  then show "slot < max_dates" using assms(1) by (simp add: rule_ok_def)
qed

lemma compile_test_ok:
  assumes "compile_test w ctx dates t = Inr (k, dates')" "length dates \<le> max_dates"
  shows "date_slots [\<lparr>cd_negate = n, cd_kind = k\<rparr>] = [length dates..<length dates'] \<and> length dates \<le> length dates'
    \<and> length dates' \<le> max_dates \<and> bounded_kind k"
  using assms by (cases t) (auto simp: res_simps Let_def split: if_splits)

lemma compile_conds_ok:
  assumes "compile_conds w ctx cs conds dates = Inr (conds', dates')"
    and "date_slots conds = [0..<length dates]" "length dates \<le> max_dates"
    and "list_all (\<lambda>c. bounded_kind (cd_kind c)) conds"
  shows "length conds' = length conds + length cs \<and> date_slots conds' = [0..<length dates']
    \<and> length dates' \<le> max_dates \<and> list_all (\<lambda>c. bounded_kind (cd_kind c)) conds'"
  using assms
proof (induction w ctx cs conds dates rule: compile_conds.induct)
  case (2 w ctx c cs conds dates)
  then obtain k d where t: "compile_test w ctx dates (cn_test c) = Inr (k, d)"
    and rest: "compile_conds w ctx cs (conds @ [\<lparr>cd_negate = cn_negate c, cd_kind = k\<rparr>]) d = Inr (conds', dates')"
    by (auto simp: res_simps)
  note ok = compile_test_ok [OF t "2.prems"(3), of "cn_negate c"]
  have "date_slots (conds @ [\<lparr>cd_negate = cn_negate c, cd_kind = k\<rparr>]) = [0..<length d]"
    using ok "2.prems"(2) upt_add_eq_append [of 0 "length dates" "length d - length dates"] by simp
  then show ?case using "2.IH" [OF rest] ok "2.prems"(4) by simp
qed simp

lemma rule_compile_ok:
  assumes "rule_compile w spec ctx = Inr r"
  shows "rule_ok r \<and> length (rl_conds r) = length (rs_conditions spec) \<and> (rl_sorted r \<longleftrightarrow> rs_sorted spec)
    \<and> (rl_all r \<longleftrightarrow> rs_combine spec = CombineAll \<or> length (rs_conditions spec) = 1)"
proof -
  obtain conds dates where
    n: "rs_conditions spec \<noteq> []" "length (rs_conditions spec) \<le> max_conditions"
    and c: "compile_conds w ctx (rs_conditions spec) [] [] = Inr (conds, dates)"
    and r: "r = \<lparr>rl_all = (rs_combine spec = CombineAll \<or> length conds = 1), rl_sorted = rs_sorted spec,
                rl_conds = conds, rl_dates = dates\<rparr>"
    using assms by (auto simp: rule_compile_def res_simps split: if_splits)
  have "length conds = length (rs_conditions spec)" "date_slots conds = [0..<length dates]" "length dates \<le> max_dates"
    "list_all (\<lambda>c. bounded_kind (cd_kind c)) conds"
    using compile_conds_ok [OF c] by simp_all
  then show ?thesis using n by (auto simp: r rule_ok_def)
qed

section \<open>Facts of an item\<close>

text \<open>What a text condition answers for an item.\<close>

definition text_hit :: "world \<Rightarrow> rstr \<Rightarrow> kind \<Rightarrow> bool" where
  "text_hit w text k =
     (let first = trim_break (first_piece 10 text) in
      case k of KText m fl \<Rightarrow> matcher_test w m (if fl then first else text)
              | KRegex re fl \<Rightarrow> rx_is_match re (if fl then first else text)
              | _ \<Rightarrow> False)"

lemma facts_cond_bits: "fa_bits (facts_cond w r text ic f) =
    or (fa_bits f) (push_bit (fst ic) (of_bool (text_hit w text (cd_kind (snd ic)))))"
  by (auto simp: facts_cond_def text_hit_def Let_def split: kind.splits prod.splits)

lemma facts_bits_fold:
  "n + length cs \<le> 64 \<Longrightarrow> j < 64 \<Longrightarrow>
   bit (fa_bits (fold (facts_cond w r text) (enumerate n cs) f)) j \<longleftrightarrow>
     bit (fa_bits f) j \<or> (n \<le> j \<and> j < n + length cs \<and> text_hit w text (cd_kind (cs ! (j - n))))"
proof (induction cs arbitrary: n f)
  case (Cons c cs)
  have b: "bit (push_bit n (of_bool h) :: 64 word) j \<longleftrightarrow> h \<and> j = n" for h
    using Cons.prems by (cases h) (auto simp: push_bit_of_1 bit_exp_iff)
  have fb: "bit (fa_bits (facts_cond w r text (n, c) f)) j \<longleftrightarrow> bit (fa_bits f) j \<or> (text_hit w text (cd_kind c) \<and> j = n)"
    unfolding facts_cond_bits bit_or_iff fst_conv snd_conv b by simp
  have "bit (fa_bits (fold (facts_cond w r text) (enumerate n (c # cs)) f)) j \<longleftrightarrow>
      bit (fa_bits (facts_cond w r text (n, c) f)) j
      \<or> (Suc n \<le> j \<and> j < Suc n + length cs \<and> text_hit w text (cd_kind (cs ! (j - Suc n))))"
    using Cons.prems Cons.IH [of "Suc n" "facts_cond w r text (n, c) f"] by simp
  also have "\<dots> \<longleftrightarrow> bit (fa_bits f) j \<or> (n \<le> j \<and> j < n + length (c # cs) \<and> text_hit w text (cd_kind ((c # cs) ! (j - n))))"
    unfolding fb by (cases "j = n") (auto simp: nth_Cons' Suc_le_eq)
  finally show ?case .
qed auto

lemma facts_dates_fold:
  "fa_dates (fold (facts_cond w r text) (enumerate n cs) f) =
     fold (\<lambda>s ds. ds[s := reader_read w (rl_dates r ! s) text]) (date_slots cs) (fa_dates f)"
proof (induction cs arbitrary: n f)
  case (Cons c cs)
  have "fa_dates (facts_cond w r text (n, c) f) =
      fold (\<lambda>s ds. ds[s := reader_read w (rl_dates r ! s) text]) (case cd_kind c of KDate s _ _ _ \<Rightarrow> [s] | _ \<Rightarrow> []) (fa_dates f)"
    by (auto simp: facts_cond_def Let_def split: kind.splits)
  then show ?case using Cons.IH [of "Suc n" "facts_cond w r text (n, c) f"] by (simp add: fold_append)
qed simp

lemma fold_update_nth:
  "distinct ss \<Longrightarrow> \<forall>s \<in> set ss. s < length ds \<Longrightarrow> k < length ds \<Longrightarrow>
   fold (\<lambda>s ds. ds[s := g s]) ss ds ! k = (if k \<in> set ss then g k else ds ! k)"
proof (induction ss arbitrary: ds)
  case (Cons s ss)
  then show ?case by (cases "k = s") auto
qed simp

text \<open>The facts of an item: bit \<open>i\<close> says whether its text meets condition \<open>i\<close>, date slot \<open>s\<close> holds what
  the \<open>s\<close>-th date reader reads, and the slots no reader has stay empty.\<close>

lemma rule_facts_spec:
  assumes "rule_ok r"
  shows "i < length (rl_conds r) \<Longrightarrow> bit (fa_bits (rule_facts w r text)) i = text_hit w text (cd_kind (rl_conds r ! i))"
    and "k < max_dates \<Longrightarrow> fa_dates (rule_facts w r text) ! k =
      (if k < length (rl_dates r) then reader_read w (rl_dates r ! k) text else None)"
proof -
  show "bit (fa_bits (rule_facts w r text)) i = text_hit w text (cd_kind (rl_conds r ! i))"
    if "i < length (rl_conds r)"
    using that assms facts_bits_fold [of 0 "rl_conds r" i w r "text" facts_default]
    by (simp add: rule_facts_def facts_default_def rule_ok_def max_conditions_def)
  show "fa_dates (rule_facts w r text) ! k =
      (if k < length (rl_dates r) then reader_read w (rl_dates r ! k) text else None)" if "k < max_dates"
    using that assms
    by (simp add: rule_facts_def facts_dates_fold fold_update_nth facts_default_def rule_ok_def)
qed

theorem facts_of_item:
  assumes "rule_compile w spec ctx = Inr r"
  shows "(\<forall>i < length (rl_conds r).
      (and (drop_bit i (fa_bits (rule_facts w r text))) 1 = 1) = text_hit w text (cd_kind (rl_conds r ! i)))
    \<and> (\<forall>k < max_dates. fa_dates (rule_facts w r text) ! k =
      (if k < length (rl_dates r) then reader_read w (rl_dates r ! k) text else None))"
  using rule_facts_spec [of r] rule_compile_ok [OF assms]
  by (simp add: and_one_eq mod_2_eq_odd bit_iff_odd_drop_bit [symmetric])

section \<open>What an item decides\<close>

definition hit_of :: "facts \<Rightarrow> nat \<Rightarrow> nat \<Rightarrow> int option list \<Rightarrow> nat \<Rightarrow> kind \<Rightarrow> bool" where
  "hit_of f item line prev i k =
     (case k of
        KText _ _ \<Rightarrow> and (drop_bit i (fa_bits f)) 1 = 1
      | KRegex _ _ \<Rightarrow> and (drop_bit i (fa_bits f)) 1 = 1
      | KDate slot from to miss \<Rightarrow>
          (case fa_dates f ! slot of
             Some d \<Rightarrow> in_dates from to d
           | None \<Rightarrow>
               (case miss of
                  Previous \<Rightarrow> (case prev ! slot of None \<Rightarrow> False | Some d \<Rightarrow> in_dates from to d)
                | MatchMissing \<Rightarrow> True
                | NoMatch \<Rightarrow> False))
      | KOrdinal lines from to \<Rightarrow> in_positions from to (if lines then line else item))"

definition cond_undated :: "facts \<Rightarrow> cond \<Rightarrow> bool" where
  "cond_undated f c = (case cd_kind c of KDate s _ _ _ \<Rightarrow> fa_dates f ! s = None | _ \<Rightarrow> False)"

definition see_dates :: "facts \<Rightarrow> nat list \<Rightarrow> int option list \<Rightarrow> int option list" where
  "see_dates f = fold (\<lambda>s ds. if fa_dates f ! s = None then ds else ds[s := fa_dates f ! s])"

definition combine_hits :: "rule \<Rightarrow> bool \<Rightarrow> bool list \<Rightarrow> bool" where
  "combine_hits r b hits = (if rl_all r then b \<and> list_all id hits else b \<or> list_ex id hits)"

definition cond_hits :: "facts \<Rightarrow> nat \<Rightarrow> nat \<Rightarrow> int option list \<Rightarrow> nat \<Rightarrow> cond list \<Rightarrow> bool list" where
  "cond_hits f item line prev n cs =
     map (\<lambda>(i, c). hit_of f item line prev i (cd_kind c) \<noteq> cd_negate c) (enumerate n cs)"

lemma see_dates_simps [simp]:
  "see_dates f [] ds = ds"
  "see_dates f (s # ss) ds = see_dates f ss (if fa_dates f ! s = None then ds else ds[s := fa_dates f ! s])"
  "see_dates f (ss @ tt) ds = see_dates f tt (see_dates f ss ds)"
  by (simp_all add: see_dates_def)

lemma length_see_dates [simp]: "length (see_dates f ss ds) = length ds"
  by (induction ss arbitrary: ds) auto

lemma see_dates_nth:
  "k < length ds \<Longrightarrow> see_dates f ss ds ! k =
     (if k \<in> set ss then or_opt (fa_dates f ! k) (ds ! k) else ds ! k)"
proof (induction ss arbitrary: ds)
  case (Cons s ss)
  then show ?case by (cases "k = s") (auto simp: or_opt_def split: option.splits)
qed simp

lemma update_other: "fa_dates f ! s = None \<Longrightarrow> fa_dates f ! k = Some y \<Longrightarrow> xs[k := z] ! s = xs ! s"
  by (cases "k = s") auto

lemma cond_hits_cong:
  assumes "\<forall>s. fa_dates f ! s = None \<longrightarrow> p ! s = q ! s"
  shows "cond_hits f item line p n cs = cond_hits f item line q n cs"
  using assms by (auto simp: cond_hits_def hit_of_def split: kind.splits missing.splits option.splits)

lemma decide_cond_step:
  "decide_cond r f item line (n, c) (u, b, run) =
     (u \<or> cond_undated f c,
      combine_hits r b [hit_of f item line (ru_last run) n (cd_kind c) \<noteq> cd_negate c],
      run\<lparr>ru_last := see_dates f (date_slots [c]) (ru_last run)\<rparr>)"
  by (cases "cd_kind c")
     (auto simp: decide_cond_def hit_of_def cond_undated_def combine_hits_def Let_def
       split: option.splits missing.splits)

lemma decide_fold:
  "fold (decide_cond r f item line) (enumerate n cs) (u, b, run) =
     (u \<or> list_ex (cond_undated f) cs,
      combine_hits r b (cond_hits f item line (ru_last run) n cs),
      run\<lparr>ru_last := see_dates f (date_slots cs) (ru_last run)\<rparr>)"
proof (induction cs arbitrary: n u b run)
  case (Cons c cs)
  have same: "cond_hits f item line (see_dates f (date_slots [c]) (ru_last run)) (Suc n) cs =
      cond_hits f item line (ru_last run) (Suc n) cs"
    by (rule cond_hits_cong) (auto simp: update_other split: kind.splits)
  have "fold (decide_cond r f item line) (enumerate n (c # cs)) (u, b, run) =
     ((u \<or> cond_undated f c) \<or> list_ex (cond_undated f) cs,
      combine_hits r (combine_hits r b [hit_of f item line (ru_last run) n (cd_kind c) \<noteq> cd_negate c])
        (cond_hits f item line (ru_last run) (Suc n) cs),
      run\<lparr>ru_last := see_dates f (date_slots cs) (see_dates f (date_slots [c]) (ru_last run))\<rparr>)"
    unfolding enumerate_simps fold_simps decide_cond_step Cons.IH using same by (simp del: date_slots_simps)
  then show ?case by (simp add: cond_hits_def combine_hits_def disj_assoc conj_assoc del: date_slots_simps)
     (simp add: date_slots_def)
qed (simp add: combine_hits_def cond_hits_def)

lemma decide_eq:
  "decide r f item line run =
     (combine_hits r (rl_all r) (cond_hits f item line (ru_last run) 0 (rl_conds r)),
      run\<lparr>ru_last := see_dates f (date_slots (rl_conds r)) (ru_last run),
         ru_undated := ru_undated run + of_bool (list_ex (cond_undated f) (rl_conds r))\<rparr>)"
  by (simp add: decide_def decide_fold of_bool_def)


section \<open>Sequences of items\<close>

type_synonym fact_item = "facts \<times> nat \<times> nat"

text \<open>The item by item evaluation: every item decided, none skipped.\<close>

fun decide_seq :: "rule \<Rightarrow> running \<Rightarrow> fact_item list \<Rightarrow> bool list" where
  "decide_seq r run [] = []"
| "decide_seq r run ((f, item, line) # rest) =
     fst (decide r f item line run) # decide_seq r (snd (decide r f item line run)) rest"

text \<open>Positions never go back and, in a file in chronological order, dates do not either.\<close>

fun chronological :: "rule \<Rightarrow> running \<Rightarrow> nat \<Rightarrow> nat \<Rightarrow> fact_item list \<Rightarrow> bool" where
  "chronological r run item0 line0 [] = True"
| "chronological r run item0 line0 ((f, item, line) # rest) =
     (item0 \<le> item \<and> line0 \<le> line
      \<and> (rl_sorted r \<longrightarrow> list_all (\<lambda>s. case ru_last run ! s of None \<Rightarrow> True
            | Some a \<Rightarrow> (case fa_dates f ! s of None \<Rightarrow> True | Some d \<Rightarrow> a \<le> d)) [0..<length (rl_dates r)])
      \<and> chronological r (snd (decide r f item line run)) item line rest)"

lemma length_decide_seq [simp]: "length (decide_seq r run items) = length items"
  by (induction r run items rule: decide_seq.induct) auto

lemma decide_last [simp]: "length (ru_last (snd (decide r f item line run))) = length (ru_last run)"
  by (simp add: decide_eq)

lemma decide_last_nth:
  assumes "rule_ok r" "slot < length (rl_dates r)" "length (ru_last run) = max_dates"
  shows "ru_last (snd (decide r f item line run)) ! slot = or_opt (fa_dates f ! slot) (ru_last run ! slot)"
  using assms by (simp add: decide_eq see_dates_nth rule_ok_def)

lemma set_cond_hits:
  "set (cond_hits f item line prev n cs) =
     {hit_of f item line prev (n + k) (cd_kind (cs ! k)) \<noteq> cd_negate (cs ! k) | k. k < length cs}"
proof -
  have "set (enumerate n cs) = (\<lambda>k. (n + k, cs ! k)) ` {..<length cs}"
    by (force simp: enumerate_eq_zip set_zip)
  then show ?thesis by (auto simp: cond_hits_def)
qed

lemma decide_all:
  "rl_all r \<Longrightarrow> fst (decide r f item line run) \<longleftrightarrow>
     (\<forall>k < length (rl_conds r). hit_of f item line (ru_last run) k (cd_kind (rl_conds r ! k)) \<noteq> cd_negate (rl_conds r ! k))"
  by (auto simp: decide_eq combine_hits_def list_all_iff set_cond_hits)

lemma decide_any:
  "\<not> rl_all r \<Longrightarrow> fst (decide r f item line run) \<longleftrightarrow>
     (\<exists>k < length (rl_conds r). hit_of f item line (ru_last run) k (cd_kind (rl_conds r ! k)) \<noteq> cd_negate (rl_conds r ! k))"
  by (auto simp: decide_eq combine_hits_def list_ex_iff set_cond_hits)

section \<open>Fates\<close>

lemma absorb_fates_Some:
  "absorb_fates b n fs = Some x \<longleftrightarrow>
     (x = b \<and> Some b \<in> set fs) \<or> (x = (\<not> b) \<and> n \<and> (\<forall>f \<in> set fs. f = Some (\<not> b)))"
  by (induction b n fs rule: absorb_fates.induct) auto

text \<open>A condition whose fate is known keeps it: its hit is that fate now and for every later item.\<close>

lemma cond_fate_hit:
  "cond_fate sf f item line run c = Some b \<Longrightarrow>
   (hit_of f item line (ru_last run) k (cd_kind c) \<noteq> cd_negate c) = b"
  by (cases "cd_kind c")
     (auto simp: cond_fate_def hit_of_def in_dates_def in_positions_def or_opt_def
       split: missing.splits option.splits if_splits)

lemma cond_fate_later:
  assumes ok: "rule_ok r" and c: "c \<in> set (rl_conds r)" and len: "length (ru_last run) = max_dates"
    and fate: "cond_fate (rl_sorted r) f item line run c = Some b"
    and later: "chronological r (snd (decide r f item line run)) item line ((f', item', line') # rest)"
  shows "cond_fate (rl_sorted r) f' item' line' (snd (decide r f item line run)) c = Some b"
proof (cases "cd_kind c")
  case (KOrdinal lines frm to)
  then show ?thesis using fate later by (auto simp: cond_fate_def split: option.splits if_splits)
next
  case (KDate slot frm to miss)
  have slot: "slot < length (rl_dates r)" using rule_ok_slot [OF ok c KDate] by simp
  have m: "miss = Previous" "rl_sorted r"
    using fate by (auto simp: cond_fate_def KDate split: missing.splits if_splits)
  obtain d where d: "or_opt (fa_dates f ! slot) (ru_last run ! slot) = Some d"
    using fate by (auto simp: cond_fate_def KDate m split: option.splits)
  then have last: "ru_last (snd (decide r f item line run)) ! slot = Some d"
    using decide_last_nth [OF ok slot len] by simp
  obtain e where e: "or_opt (fa_dates f' ! slot) (ru_last (snd (decide r f item line run)) ! slot) = Some e" "d \<le> e"
  proof (cases "fa_dates f' ! slot")
    case None
    then show ?thesis using that last by (simp add: or_opt_def)
  next
    case (Some e)
    have "\<forall>s \<in> {0..<length (rl_dates r)}. case ru_last (snd (decide r f item line run)) ! s of None \<Rightarrow> True
        | Some a \<Rightarrow> (case fa_dates f' ! s of None \<Rightarrow> True | Some d \<Rightarrow> a \<le> d)"
      using later m(2) by (simp add: list_all_iff)
    from this [THEN bspec, of slot] have "d \<le> e" using slot last Some by simp
    then show ?thesis using that Some by (simp add: or_opt_def)
  qed
  show ?thesis using fate d e by (auto simp: cond_fate_def KDate m split: option.splits if_splits)
qed (use fate in \<open>auto simp: cond_fate_def\<close>)

lemma fate_decides:
  assumes "fate r f item line run = Some b"
  shows "fst (decide r f item line run) = b"
proof (cases "rl_all r")
  case True
  then have "(b = False \<and> (\<exists>c \<in> set (rl_conds r). cond_fate (rl_sorted r) f item line run c = Some False))
    \<or> (b = True \<and> (\<forall>c \<in> set (rl_conds r). cond_fate (rl_sorted r) f item line run c = Some True))"
    using assms by (auto simp: fate_def absorb_fates_Some)
  then show ?thesis
    using True by (auto simp: decide_all in_set_conv_nth)
      (metis cond_fate_hit nth_mem)+
next
  case False
  then have "(b = True \<and> (\<exists>c \<in> set (rl_conds r). cond_fate (rl_sorted r) f item line run c = Some True))
    \<or> (b = False \<and> (\<forall>c \<in> set (rl_conds r). cond_fate (rl_sorted r) f item line run c = Some False))"
    using assms by (auto simp: fate_def absorb_fates_Some)
  then show ?thesis
    using False by (auto simp: decide_any in_set_conv_nth) (metis cond_fate_hit nth_mem)+
qed

lemma fate_later:
  assumes "rule_ok r" "length (ru_last run) = max_dates" "fate r f item line run = Some b"
    and "chronological r (snd (decide r f item line run)) item line ((f', item', line') # rest)"
  shows "fate r f' item' line' (snd (decide r f item line run)) = Some b"
proof -
  have "cond_fate (rl_sorted r) f' item' line' (snd (decide r f item line run)) c = Some x"
    if "c \<in> set (rl_conds r)" "cond_fate (rl_sorted r) f item line run c = Some x" for c x
    using cond_fate_later [OF assms(1) that(1) assms(2) that(2) assms(4)] .
  then show ?thesis using assms(3) by (auto simp: fate_def absorb_fates_Some image_iff) metis+
qed

lemma fate_settles:
  "rule_ok r \<Longrightarrow> length (ru_last run) = max_dates \<Longrightarrow> fate r f item line run = Some b \<Longrightarrow>
   chronological r (snd (decide r f item line run)) item line rest \<Longrightarrow>
   decide_seq r run ((f, item, line) # rest) = replicate (Suc (length rest)) b"
proof (induction rest arbitrary: f item line run)
  case (Cons p rest)
  obtain f' item' line' where p: "p = (f', item', line')" by (cases p)
  have "decide_seq r (snd (decide r f item line run)) (p # rest) = replicate (Suc (length rest)) b"
    unfolding p by (rule Cons.IH) (use Cons.prems p in \<open>auto intro: fate_later\<close>)
  then show ?case using fate_decides [OF Cons.prems(3)] by (simp add: p)
qed (simp add: fate_decides)

text \<open>C32. A fate is never wrong: once \<open>fate\<close> answers for an item, \<open>decide\<close> gives that answer for it and
  for every item after it, so writing the rest of the file as one region loses nothing.\<close>

theorem fate_sound:
  assumes "rule_compile w spec ctx = Inr r" "length (ru_last run) = max_dates"
    and "chronological r run item line ((f, item, line) # rest)"
    and "fate r f item line run = Some b"
  shows "decide_seq r run ((f, item, line) # rest) = replicate (Suc (length rest)) b"
  using assms rule_compile_ok [OF assms(1)] by (intro fate_settles) auto

text \<open>A file of dated lines and the rule \<open>from 10 to 20\<close>, sorted.\<close>

definition no_calendar :: chrono where
  "no_calendar = \<lparr>ch_ymd = (\<lambda>_ _ _. None), ch_sunday = (\<lambda>_ _ _. None), ch_time = (\<lambda>_ _. None),
     ch_year = (\<lambda>_. 1970), ch_single = (\<lambda>_. None)\<rparr>"

definition plain_world :: world where
  "plain_world = \<lparr>wd_lower = map ascii_lower, wd_aho = (\<lambda>_ vs. Some (\<lambda>h. list_ex (\<lambda>v. str_contains v h) vs)),
     wd_regex = (\<lambda>_ _. None), wd_wall_to_utc = Some, wd_f64 = (\<lambda>_ _. None),
     wd_datetime = (\<lambda>_ _. None), wd_naive = (\<lambda>_ _. None), wd_naive_date = (\<lambda>_ _. None),
     wd_chrono = no_calendar, wd_json = (\<lambda>_. None)\<rparr>"

definition sample_ctx :: stamp_ctx where
  "sample_ctx = \<lparr>sx_year = 2026, sx_reference = None, sx_day_first = None\<rparr>"

definition range_spec :: "int option \<Rightarrow> int option \<Rightarrow> rule_spec" where
  "range_spec from to = \<lparr>rs_combine = CombineAll, rs_conditions =
     [\<lparr>cn_negate = False, cn_test = TDate from to LocateAuto None None OrderAuto ZoneLocal Previous\<rparr>], rs_sorted = True\<rparr>"

definition range_rule :: "int option \<Rightarrow> int option \<Rightarrow> rule" where
  "range_rule from to = \<lparr>rl_all = True, rl_sorted = True,
     rl_conds = [\<lparr>cd_negate = False, cd_kind = KDate 0 from to Previous\<rparr>], rl_dates = [reader_auto sample_ctx]\<rparr>"

definition dated :: "int option \<Rightarrow> facts" where
  "dated d = \<lparr>fa_bits = 0, fa_dates = [d, None, None, None]\<rparr>"

lemma range_compiles:
  "from \<noteq> None \<or> to \<noteq> None \<Longrightarrow> rule_compile plain_world (range_spec from to) sample_ctx = Inr (range_rule from to)"
  by (auto simp: rule_compile_def range_spec_def range_rule_def max_conditions_def max_dates_def
      reader_new_def reader_format_def reader_auto_def sample_ctx_def)

theorem facts_of_item_witness:
  "fa_dates (rule_facts plain_world (range_rule (Some 10) (Some 20)) (lit ''x'')) ! 0 = None"
proof -
  have "fa_dates (rule_facts plain_world (range_rule (Some 10) (Some 20)) (lit ''x'')) ! 0 =
      reader_read plain_world (rl_dates (range_rule (Some 10) (Some 20)) ! 0) (lit ''x'')"
    using facts_of_item [OF range_compiles [of "Some 10" "Some 20"], of "lit ''x''"]
    by (auto simp: max_dates_def range_rule_def)
  also have "\<dots> = None" by code_simp
  finally show ?thesis .
qed

theorem fate_sound_witness:
  "decide_seq (range_rule (Some 10) (Some 20)) running_default
     [(dated (Some 25), 1, 1), (dated None, 2, 2), (dated (Some 30), 3, 4)] = [False, False, False]"
proof -
  let ?r = "range_rule (Some 10) (Some 20)"
  have "length (ru_last running_default) = max_dates" by (simp add: running_default_def)
  moreover have "chronological ?r running_default 1 1
      [(dated (Some 25), 1, 1), (dated None, 2, 2), (dated (Some 30), 3, 4)]" by code_simp
  moreover have "fate ?r (dated (Some 25)) 1 1 running_default = Some False" by code_simp
  ultimately have "decide_seq ?r running_default ((dated (Some 25), 1, 1) # [(dated None, 2, 2), (dated (Some 30), 3, 4)])
      = replicate (Suc (length [(dated None, 2::nat, 2::nat), (dated (Some 30), 3, 4)])) False"
    by (intro fate_sound [OF range_compiles [of "Some 10" "Some 20"]]) (simp_all only: option.distinct simp_thms)
  also have "\<dots> = [False, False, False]" by simp
  finally show ?thesis .
qed

section \<open>The binary search\<close>

text \<open>The date in force at each item: its own, else the one above.\<close>

fun effective :: "nat \<Rightarrow> int option \<Rightarrow> fact_item list \<Rightarrow> int option list" where
  "effective slot prev [] = []"
| "effective slot prev ((f, item, line) # rest) =
     or_opt (fa_dates f ! slot) prev # effective slot (or_opt (fa_dates f ! slot) prev) rest"

definition reaches :: "int \<Rightarrow> int option \<Rightarrow> bool" where
  "reaches bound d = (case d of None \<Rightarrow> False | Some x \<Rightarrow> bound \<le> x)"

lemma find_map_Some: "find_map f xs = Some y \<Longrightarrow> \<exists>x \<in> set xs. f x = Some y"
  by (induction xs) (auto split: option.splits)

lemma seek_bound_cond:
  assumes "seek_bound r = Some (slot, bound)"
  obtains c to where "c \<in> set (rl_conds r)" "cd_kind c = KDate slot (Some bound) to Previous" "\<not> cd_negate c"
    "rl_sorted r" "rl_all r" "\<not> has_ordinals r" "length (rl_dates r) = 1"
proof -
  let ?g = "\<lambda>c. case cd_kind c of
      KDate slot (Some from) _ Previous \<Rightarrow> if \<not> cd_negate c then Some (slot, from) else None | _ \<Rightarrow> None"
  have b: "rl_sorted r" "rl_all r" "\<not> has_ordinals r" "length (rl_dates r) = 1" "find_map ?g (rl_conds r) = Some (slot, bound)"
    using assms by (auto simp: seek_bound_def split: if_splits)
  obtain c where c: "c \<in> set (rl_conds r)" "?g c = Some (slot, bound)" using find_map_Some [OF b(5)] by (elim bexE)
  then obtain to where "cd_kind c = KDate slot (Some bound) to Previous" "\<not> cd_negate c"
    by (auto split: kind.splits option.splits missing.splits if_splits)
  then show ?thesis using that c b by blast
qed

lemma decide_misses:
  assumes "rl_all r" "c \<in> set (rl_conds r)" "\<not> cd_negate c" "cd_kind c = KDate slot (Some bound) to Previous"
    and "\<not> reaches bound (or_opt (fa_dates f ! slot) (ru_last run ! slot))"
  shows "\<not> fst (decide r f item line run)"
proof -
  obtain k where "k < length (rl_conds r)" "rl_conds r ! k = c" using assms(2) by (auto simp: in_set_conv_nth)
  moreover have "\<not> hit_of f item line (ru_last run) k (cd_kind c)"
    using assms(4,5) by (auto simp: hit_of_def in_dates_def reaches_def or_opt_def split: option.splits)
  ultimately show ?thesis using assms(1,3) by (auto simp: decide_all)
qed

text \<open>Two evaluations in which the same dates are in force agree, wherever they count from.\<close>

definition same_dates :: "rule \<Rightarrow> facts \<Rightarrow> running \<Rightarrow> running \<Rightarrow> bool" where
  "same_dates r f p q \<longleftrightarrow> (\<forall>s < length (rl_dates r).
     or_opt (fa_dates f ! s) (ru_last p ! s) = or_opt (fa_dates f ! s) (ru_last q ! s))"

lemma decide_same:
  assumes ok: "rule_ok r" and "\<not> has_ordinals r" and same: "same_dates r f p q"
  shows "fst (decide r f i l p) = fst (decide r f i' l' q)"
proof -
  have "hit_of f i l (ru_last p) k (cd_kind c) = hit_of f i' l' (ru_last q) k (cd_kind c)" if c: "c \<in> set (rl_conds r)" for c k
  proof (cases "cd_kind c")
    case (KDate slot frm to miss)
    have "or_opt (fa_dates f ! slot) (ru_last p ! slot) = or_opt (fa_dates f ! slot) (ru_last q ! slot)"
      using same rule_ok_slot(1) [OF ok c KDate] by (simp add: same_dates_def)
    then show ?thesis by (cases "fa_dates f ! slot") (simp_all add: hit_of_def KDate or_opt_def)
  next
    case (KOrdinal a b d)
    then show ?thesis using assms(2) c by (auto simp: has_ordinals_def list_ex_iff)
  qed (simp_all add: hit_of_def)
  then have "(hit_of f i l (ru_last p) k (cd_kind (rl_conds r ! k)) \<noteq> cd_negate (rl_conds r ! k)) =
      (hit_of f i' l' (ru_last q) k (cd_kind (rl_conds r ! k)) \<noteq> cd_negate (rl_conds r ! k))"
    if "k < length (rl_conds r)" for k
    using that by simp
  then show ?thesis by (cases "rl_all r") (auto simp: decide_all decide_any)
qed

lemma decide_seq_same:
  assumes "rule_ok r" "\<not> has_ordinals r" "length (ru_last p) = max_dates" "length (ru_last q) = max_dates"
    and "items = [] \<or> same_dates r (fst (hd items)) p q" "map fst items' = map fst items"
  shows "decide_seq r p items = decide_seq r q items'"
  using assms(3-6)
proof (induction items arbitrary: items' p q)
  case (Cons x items)
  obtain f i l where x: "x = (f, i, l)" by (cases x)
  obtain i' l' rest where x': "items' = (f, i', l') # rest" "map fst rest = map fst items"
    using Cons.prems(4) x by (cases items') auto
  have same: "same_dates r f p q" using Cons.prems(3) x by simp
  have "same_dates r g (snd (decide r f i l p)) (snd (decide r f i' l' q))" for g
    using same Cons.prems(1,2) decide_last_nth [OF assms(1)] by (simp add: same_dates_def)
  then have "decide_seq r (snd (decide r f i l p)) items = decide_seq r (snd (decide r f i' l' q)) rest"
    using Cons.prems(1,2) x'(2) by (intro Cons.IH) auto
  then show ?case using decide_same [OF assms(1,2) same] by (simp add: x x')
qed simp

lemma decide_seq_misses:
  assumes "rule_ok r" "seek_bound r = Some (slot, bound)" "length (ru_last run) = max_dates"
    and "\<forall>d \<in> set (effective slot (ru_last run ! slot) pre). \<not> reaches bound d"
  shows "\<exists>run'. length (ru_last run') = max_dates
    \<and> decide_seq r run (pre @ suf) = replicate (length pre) False @ decide_seq r run' suf"
  using assms(3,4)
proof (induction pre arbitrary: run)
  case (Cons x pre)
  obtain f i l where x: "x = (f, i, l)" by (cases x)
  obtain c to where c: "c \<in> set (rl_conds r)" "cd_kind c = KDate slot (Some bound) to Previous" "\<not> cd_negate c"
    "rl_all r" using assms(2) by (rule seek_bound_cond)
  have slot: "slot < length (rl_dates r)" using rule_ok_slot [OF assms(1) c(1,2)] by simp
  have "\<not> fst (decide r f i l run)"
    by (rule decide_misses [OF c(4,1,3,2)]) (use Cons.prems x in auto)
  moreover obtain run' where "length (ru_last run') = max_dates"
    "decide_seq r (snd (decide r f i l run)) (pre @ suf) = replicate (length pre) False @ decide_seq r run' suf"
    using Cons.IH [of "snd (decide r f i l run)"] Cons.prems decide_last_nth [OF assms(1) slot Cons.prems(1)]
    by (auto simp: x)
  ultimately show ?case by (auto simp: x)
qed auto

text \<open>The jump of \<open>seek_bound\<close> is exact: the items before the first one whose date in force reaches
  the bound do not match, and an evaluation started there, with no inherited date and counting items and
  lines from one again, decides the rest as the evaluation from the top does.\<close>

theorem seek_bound_exact:
  assumes "rule_compile w spec ctx = Inr r" "seek_bound r = Some (slot, bound)"
    and "\<forall>d \<in> set (effective slot None pre). \<not> reaches bound d"
    and "suf = [] \<or> fa_dates (fst (hd suf)) ! slot \<noteq> None"
    and "map fst suf' = map fst suf"
  shows "decide_seq r running_default (pre @ suf)
    = replicate (length pre) False @ decide_seq r running_default suf'"
proof -
  have ok: "rule_ok r" using rule_compile_ok [OF assms(1)] by simp
  obtain c to where c: "c \<in> set (rl_conds r)" "cd_kind c = KDate slot (Some bound) to Previous"
    and n: "\<not> has_ordinals r" "length (rl_dates r) = 1" using assms(2) by (rule seek_bound_cond)
  have slot: "slot = 0" using rule_ok_slot [OF ok c] n by simp
  have d: "length (ru_last running_default) = max_dates" "ru_last running_default ! slot = None"
    by (simp_all add: running_default_def max_dates_def slot)
  obtain run' where run': "length (ru_last run') = max_dates"
    "decide_seq r running_default (pre @ suf) = replicate (length pre) False @ decide_seq r run' suf"
    using decide_seq_misses [OF ok assms(2) d(1), of pre suf] assms(3) d(2) by auto
  have "suf = [] \<or> same_dates r (fst (hd suf)) run' running_default"
    using assms(4) n(2) slot by (auto simp: same_dates_def or_opt_def)
  then have "decide_seq r run' suf = decide_seq r running_default suf'"
    using run'(1) d(1) assms(5) by (intro decide_seq_same [OF ok n(1)])
  then show ?thesis using run'(2) by simp
qed

theorem seek_bound_exact_witness:
  "decide_seq (range_rule (Some 10) (Some 20)) running_default
     ([(dated None, 1, 1), (dated (Some 5), 2, 3)] @ [(dated (Some 12), 3, 4), (dated None, 4, 5)])
   = [False, False, True, True]"
proof -
  let ?r = "range_rule (Some 10) (Some 20)"
  have "seek_bound ?r = Some (0, 10)" by code_simp
  moreover have "decide_seq ?r running_default [(dated (Some 12), 1, 1), (dated None, 2, 2)] = [True, True]" by code_simp
  moreover have "decide_seq ?r running_default
      ([(dated None, 1, 1), (dated (Some 5), 2, 3)] @ [(dated (Some 12), 3, 4), (dated None, 4, 5)])
    = replicate (length [(dated None, 1::nat, 1::nat), (dated (Some 5), 2, 3)]) False
      @ decide_seq ?r running_default [(dated (Some 12), 1, 1), (dated None, 2, 2)]"
    by (rule seek_bound_exact [OF range_compiles [of "Some 10" "Some 20"]])
      (use calculation(1) in \<open>auto simp: dated_def reaches_def or_opt_def\<close>)
  ultimately show ?thesis by (simp del: decide_seq.simps)
qed

end
