(* ===== verification/Split_Reader.thy ===== *)
theory Split_Reader
  imports Split_Framing Split_Rule_Laws
begin

text \<open>
  The reader reads every byte once: whatever the framing and however the file falls into blocks, the
  spans it hands out follow one another from the start to the end of the file, items and lines are
  numbered in order, huge items are announced as pieces of one item, no slice is out of range and the
  loops end. This asks for a separator shorter than a piece; with a longer one the reader never ends.
\<close>

section \<open>Slices\<close>

lemma length_slice [simp]: "length (cut_bytes a b xs) = min (b - a) (length xs - a)"
  by (simp add: cut_bytes_def)

lemma slice_append: "a \<le> b \<Longrightarrow> b \<le> c \<Longrightarrow> cut_bytes a b xs @ cut_bytes b c xs = cut_bytes a c xs"
proof -
  assume le: "a \<le> b" "b \<le> c"
  have "take (c - a) (drop a xs) = take (b - a) (drop a xs) @ take (c - b) (drop (b - a) (drop a xs))"
    using take_add [of "b - a" "c - b" "drop a xs"] le by simp
  then show ?thesis using le by (simp add: cut_bytes_def)
qed

lemma slice_slice: "d \<le> b - a \<Longrightarrow> cut_bytes c d (cut_bytes a b xs) = cut_bytes (a + c) (a + d) xs"
  by (simp add: cut_bytes_def drop_take add.commute)

section \<open>The invariant\<close>

definition framing_ok :: "framing \<Rightarrow> bool" where
  "framing_ok fr = (case fr of FrDelimiter d \<Rightarrow> d \<noteq> [] \<and> length d < max_item | _ \<Rightarrow> True)"

definition buffered :: "framed \<Rightarrow> reader \<Rightarrow> bool" where
  "buffered F r \<longleftrightarrow> re_base r + length (re_buf r) = re_next_read r
     \<and> re_buf r = cut_bytes (re_base r) (re_next_read r) (fr_file F)"

lemma buffered_simps [simp]:
  "buffered F (r\<lparr>re_scan := x\<rparr>) = buffered F r" "buffered F (r\<lparr>re_st := y\<rparr>) = buffered F r"
  "buffered F (r\<lparr>re_item_start := x\<rparr>) = buffered F r" "buffered F (r\<lparr>re_partial := b\<rparr>) = buffered F r"
  "buffered F (r\<lparr>re_next_item := x\<rparr>) = buffered F r" "buffered F (r\<lparr>re_next_line := x\<rparr>) = buffered F r"
  "buffered F (r\<lparr>re_item_line := x\<rparr>) = buffered F r" "buffered F (r\<lparr>re_consumed := x\<rparr>) = buffered F r"
  "buffered F (r\<lparr>re_eof := b\<rparr>) = buffered F r" "buffered F (take_line F nl r) = buffered F r"
  "buffered F (wait_more F n r) = buffered F r"
  by (simp_all add: buffered_def take_line_def wait_more_def Let_def)

definition reader_ok :: "framed \<Rightarrow> reader \<Rightarrow> bool" where
  "reader_ok F r \<longleftrightarrow> framing_ok (fr_framing F)
     \<and> buffered F r
     \<and> re_next_read r \<le> re_limit r \<and> re_next_read r \<le> length (fr_file F)
     \<and> re_item_start r \<le> re_scan r \<and> re_scan r \<le> length (re_buf r)
     \<and> (re_eof r \<longrightarrow> re_next_read r = min (re_limit r) (length (fr_file F)))
     \<and> (0 < st_lines (re_st r) \<longrightarrow> re_partial r \<or> re_item_start r < re_scan r \<or> \<not> line_based (fr_framing F))"

lemma reader_at_ok:
  "framing_ok (fr_framing F) \<Longrightarrow> start \<le> limit \<Longrightarrow> start \<le> length (fr_file F) \<Longrightarrow> reader_ok F (reader_at start limit n l)"
  by (simp add: reader_ok_def buffered_def reader_at_def cut_bytes_def line_state_default_def)

lemma reader_ok_buffer:
  "reader_ok F r \<Longrightarrow> re_base r + length (re_buf r) = re_next_read r"
  "reader_ok F r \<Longrightarrow> re_buf r = cut_bytes (re_base r) (re_next_read r) (fr_file F)"
  "reader_ok F r \<Longrightarrow> re_next_read r \<le> re_limit r"
  "reader_ok F r \<Longrightarrow> re_next_read r \<le> length (fr_file F)"
  unfolding reader_ok_def buffered_def by blast+

lemma reader_ok_scan: "reader_ok F r \<Longrightarrow> re_item_start r \<le> re_scan r \<and> re_scan r \<le> length (re_buf r)"
  by (simp add: reader_ok_def)

lemma codec_align_le: "codec_align c n \<le> n"
  by (simp add: codec_align_def)

lemma codec_align_gt: "n - 1 \<le> codec_align c n"
proof -
  have "codec_width c \<le> 2" by (simp add: codec_width_def split: encoding.splits)
  moreover have "n mod codec_width c < codec_width c" by simp
  ultimately have "n mod codec_width c \<le> 1" by linarith
  then show ?thesis by (simp add: codec_align_def)
qed

text \<open>What looking for the end of the item answers.\<close>

definition end_answer :: "framed \<Rightarrow> nat option \<times> reader \<Rightarrow> bool" where
  "end_answer F er = (case er of
     (Some stop, r) \<Rightarrow> reader_ok F r \<and> re_item_start r \<le> stop \<and> stop \<le> length (re_buf r)
        \<and> (stop = re_item_start r \<longrightarrow> re_partial r)
   | (None, r) \<Rightarrow> reader_ok F r \<and> (re_eof r \<longrightarrow> re_item_start r = length (re_buf r) \<and> \<not> re_partial r)
        \<and> (\<not> re_eof r \<and> max_item \<le> length (re_buf r) - re_item_start r \<longrightarrow>
             re_item_start r < piece_end F r \<and> piece_end F r \<le> length (re_buf r)))"

lemma pending_end_answer:
  assumes "reader_ok F r" "re_eof r"
  shows "end_answer F (pending_end r, r)"
  using assms by (auto simp: end_answer_def pending_end_def Let_def reader_ok_def)

lemma scan_delimiter_bound:
  "scan_delimiter w d i buf pos = Some stop \<Longrightarrow> pos + length d \<le> stop \<and> stop \<le> length buf"
proof (induction w d i buf pos arbitrary: stop rule: scan_delimiter.induct)
  case (1 w d i buf pos)
  show ?case
  proof (cases "find_sub d (drop pos buf)")
    case None
    then show ?thesis using "1.prems" by (simp add: scan_delimiter.simps [of w d i buf pos] split: if_splits)
  next
    case (Some k)
    have k: "k + length d \<le> length buf - pos" using find_sub_bound [OF Some] by simp
    show ?thesis
    proof (cases "(pos + k - i) mod w = 0")
      case True
      then show ?thesis using "1.prems" Some k by (auto simp: scan_delimiter.simps [of w d i buf pos] split: if_splits)
    next
      case False
      then have "scan_delimiter w d i buf (pos + k + 1) = Some stop" "\<not> length buf < pos"
        using "1.prems" Some by (auto simp: scan_delimiter.simps [of w d i buf pos] split: if_splits)
      then show ?thesis using "1.IH" [OF _ Some False] by simp
    qed
  qed
qed

lemma find_delimiter_answer:
  assumes ok: "reader_ok F r" and d: "fr_framing F = FrDelimiter d"
  shows "end_answer F (find_delimiter F d r)"
proof -
  have nd: "d \<noteq> []" "length d < max_item" using ok d by (simp_all add: reader_ok_def framing_ok_def)
  let ?c = "fr_codec F"
  show ?thesis
  proof (cases "scan_delimiter (codec_width ?c) d (re_item_start r) (re_buf r) (max (re_scan r) (re_item_start r))")
    case (Some stop)
    then have "re_item_start r + length d \<le> stop" "stop \<le> length (re_buf r)"
      using scan_delimiter_bound [OF Some] by auto
    then show ?thesis using Some ok nd by (auto simp: find_delimiter_def end_answer_def)
  next
    case None
    show ?thesis
    proof (cases "re_eof r")
      case True
      then show ?thesis using None ok by (simp add: find_delimiter_def pending_end_answer)
    next
      case False
      let ?n = "length (re_buf r) - (length d - 1)"
      have n: "codec_align ?c ?n \<le> length (re_buf r)" using codec_align_le [of ?c ?n] by simp
      have "re_item_start r < codec_align ?c ?n" if "max_item \<le> length (re_buf r) - re_item_start r"
        using codec_align_gt [of ?n ?c] that nd(2) length_greater_0_conv [THEN iffD2, OF nd(1)] by linarith
      then show ?thesis
        using None False ok n d by (auto simp: find_delimiter_def Let_def end_answer_def reader_ok_def piece_end_def)
    qed
  qed
qed

lemma unit_scan_less: "unit_scan test nl buf pos = Some p \<Longrightarrow> p < length buf"
  using unit_scan_spec [of test nl buf pos p] by (simp add: first_at_def)

lemma find_newline_end:
  assumes "find_newline c buf pos = Some p" "pos \<le> length buf"
  shows "pos \<le> p \<and> p + codec_width c \<le> length buf"
proof -
  have f: "first_at (break_at c buf pos) pos p" using find_newline_spec [OF assms(2), of c] assms(1) by simp
  then show ?thesis by (auto simp: first_at_def break_at_def codec_width_def split: encoding.splits)
qed

lemma find_newline_in_range: "find_newline c buf pos = Some p \<Longrightarrow> pos \<le> length buf"
proof (cases "length buf < pos")
  case True
  then have "unit_scan t nl buf pos = None" "unit_scan t nl buf (pos + 1) = None" for t nl
    by (simp_all add: unit_scan.simps)
  then show "find_newline c buf pos = Some p \<Longrightarrow> pos \<le> length buf"
    using True by (auto simp: find_newline_def split: encoding.splits)
qed simp

lemma head_less_max: "head_bytes < max_item" "2 \<le> max_item"
  by (simp_all add: head_bytes_def max_item_def)

lemma whole_piece:
  "max_item \<le> n - i \<Longrightarrow> i < codec_align c n \<and> codec_align c n \<le> n"
  using codec_align_le [of c n] codec_align_gt [of n c] head_less_max(2) by linarith

lemma wait_more_answer:
  assumes ok: "reader_ok F r" and lb: "line_based (fr_framing F)" and "\<not> re_eof r" "re_scan r < length (re_buf r)"
    and "st_mid_line (re_st r) \<or> st_member (re_st r) \<or> st_lines (re_st r) = 0
      \<or> length (re_buf r) - re_scan r < head_bytes"
  shows "end_answer F (None, wait_more F (re_scan r) r)"
proof -
  let ?w = "wait_more F (re_scan r) r"
  have "re_item_start r < piece_end F ?w \<and> piece_end F ?w \<le> length (re_buf r)"
    if m: "max_item \<le> length (re_buf r) - re_item_start r"
  proof (cases "st_mid_line (re_st r) \<or> st_member (re_st r) \<or> st_lines (re_st r) = 0")
    case True
    then have "piece_end F ?w = codec_align (fr_codec F) (length (re_buf r))"
      using lb by (auto simp: piece_end_def wait_more_def)
    then show ?thesis using whole_piece [OF m] by simp
  next
    case False
    then have "piece_end F ?w = re_scan r" using lb by (auto simp: piece_end_def wait_more_def)
    moreover have "length (re_buf r) - re_scan r < head_bytes" using False assms(5) by metis
    ultimately show ?thesis using m assms(4) head_less_max by linarith
  qed
  then show ?thesis using assms(1,3) by (simp add: end_answer_def wait_more_def reader_ok_def)
qed

lemma take_line_ok:
  assumes "reader_ok F r" "re_scan r < length (re_buf r)"
    and "case nl of None \<Rightarrow> True | Some p \<Rightarrow> re_scan r \<le> p \<and> p + codec_width (fr_codec F) \<le> length (re_buf r)"
  shows "reader_ok F (take_line F nl r)"
  using assms codec_width_pos [of "fr_codec F"]
  by (auto simp: reader_ok_def take_line_def Let_def simp del: codec_width_pos split: option.splits)

lemma find_line_end_answer:
  "reader_ok F r \<Longrightarrow> line_based (fr_framing F) \<Longrightarrow> end_answer F (find_line_end F r)"
proof (induction F r rule: find_line_end.induct)
  case (1 F r)
  let ?nl = "find_newline (fr_codec F) (re_buf r) (max (re_scan r) (st_search_from (re_st r)))"
  let ?asked = "\<not> st_mid_line (re_st r) \<and> 0 < st_lines (re_st r) \<and> \<not> st_member (re_st r)"
  define cls where "cls = (if ?asked then classify F r ?nl else Some False)"
  let ?r = "if ?asked then r\<lparr>re_st := (re_st r)\<lparr>st_member := True\<rparr>\<rparr> else r"
  note ok = "1.prems"(1)
  consider (out) "length (re_buf r) \<le> re_scan r" | (more) "re_scan r < length (re_buf r)" "cls = None"
    | (starts) "re_scan r < length (re_buf r)" "cls = Some True"
    | (in_item) "re_scan r < length (re_buf r)" "cls = Some False"
    by (metis (full_types) not_le option.exhaust)
  then show ?case
  proof cases
    case out
    then have eq: "find_line_end F r = (pending_end r, r)" by (subst find_line_end.simps) (simp add: Let_def)
    show ?thesis
    proof (cases "re_eof r")
      case True
      then show ?thesis using ok eq by (simp add: pending_end_answer)
    next
      case False
      have "re_item_start r < piece_end F r \<and> piece_end F r \<le> length (re_buf r)"
        if m: "max_item \<le> length (re_buf r) - re_item_start r"
      proof -
        have "re_item_start r < re_scan r \<and> re_scan r \<le> length (re_buf r)"
          using reader_ok_scan [OF ok] out m head_less_max(2) by linarith
        then show ?thesis using whole_piece [OF m] "1.prems"(2) by (auto simp: piece_end_def)
      qed
      then show ?thesis using ok False by (auto simp: eq pending_end_def Let_def end_answer_def)
    qed
  next
    case more
    then have "find_line_end F r = (None, wait_more F (re_scan r) r)" unfolding cls_def
      by (subst find_line_end.simps) (simp add: Let_def)
    moreover have "\<not> re_eof r" "length (re_buf r) - re_scan r < head_bytes"
      using more by (auto simp: cls_def classify_def Let_def split: if_splits framing.splits)
    ultimately show ?thesis using wait_more_answer [OF ok "1.prems"(2) _ more(1)] by metis
  next
    case starts
    then have eq: "find_line_end F r = (Some (re_scan r), r)" unfolding cls_def
      by (subst find_line_end.simps) (simp add: Let_def)
    moreover have "0 < st_lines (re_st r)" using starts by (auto simp: cls_def split: if_splits)
    ultimately show ?thesis using ok "1.prems"(2) by (auto simp: end_answer_def reader_ok_def)
  next
    case in_item
    have step: "find_line_end F r = (if ?nl = None \<and> \<not> re_eof ?r then (None, wait_more F (re_scan r) ?r)
        else find_line_end F (take_line F ?nl ?r))"
      using in_item unfolding cls_def by (subst find_line_end.simps) (simp add: Let_def)
    have ok': "reader_ok F ?r" using ok by (simp add: reader_ok_def)
    show ?thesis
    proof (cases "?nl = None \<and> \<not> re_eof ?r")
      case True
      then have "end_answer F (None, wait_more F (re_scan ?r) ?r)"
        using in_item(1) by (intro wait_more_answer [OF ok' "1.prems"(2)]) auto
      moreover have "re_scan ?r = re_scan r" by simp
      ultimately show ?thesis unfolding step if_P [OF True] by metis
    next
      case False
      have nl: "case ?nl of None \<Rightarrow> True | Some p \<Rightarrow> re_scan ?r \<le> p \<and> p + codec_width (fr_codec F) \<le> length (re_buf ?r)"
      proof (cases ?nl)
        case (Some p)
        then have "max (re_scan r) (st_search_from (re_st r)) \<le> length (re_buf r)"
          by (rule find_newline_in_range)
        then show ?thesis using find_newline_end [OF Some] Some by auto
      qed simp
      have "reader_ok F (take_line F ?nl ?r)" by (rule take_line_ok [OF ok' _ nl]) (use in_item in simp)
      then have "end_answer F (find_line_end F (take_line F ?nl ?r))"
        using "1.IH" [OF refl refl refl _ refl refl refl in_item(2) [unfolded cls_def] _ refl False] in_item(1) "1.prems"(2)
        by simp
      then show ?thesis unfolding step if_not_P [OF False] .
    qed
  qed
qed

lemma find_end_answer: "reader_ok F r \<Longrightarrow> end_answer F (find_end F r)"
  using find_line_end_answer [of F r] find_delimiter_answer [of F r]
  by (auto simp: find_end_def split: framing.splits)

section \<open>The spans\<close>

text \<open>
  Where the reader stands in the file: the position, the item, the line the item began at, the line
  reached, and whether the item is in the middle of its pieces. \<open>walks\<close> says that spans, at positions of
  the file, continue one another: no byte skipped or repeated, items numbered one by one, the line of
  an item one more than the line breaks before it.
\<close>

type_synonym mark = "nat \<times> nat \<times> nat \<times> nat \<times> bool"

fun after_span :: "codec \<Rightarrow> byte list \<Rightarrow> span \<Rightarrow> mark \<Rightarrow> mark" where
  "after_span c file s (p, n, il, nl, part) =
     (let nl' = nl + count_newlines c (cut_bytes p (sp_end s) file)
      in (sp_end s, if sp_last s then n + 1 else n, if sp_last s then nl' else il, nl', \<not> sp_last s))"

fun span_fits :: "span \<Rightarrow> mark \<Rightarrow> bool" where
  "span_fits s (p, n, il, nl, part) \<longleftrightarrow>
     sp_start s = p \<and> p \<le> sp_end s \<and> sp_item s = n \<and> sp_line s = il \<and> (sp_first s \<longleftrightarrow> \<not> part)
     \<and> (p = sp_end s \<longrightarrow> part \<and> sp_last s)"

fun walks :: "codec \<Rightarrow> byte list \<Rightarrow> mark \<Rightarrow> span list \<Rightarrow> mark \<Rightarrow> bool" where
  "walks c file m [] m' \<longleftrightarrow> m' = m"
| "walks c file m (s # ss) m' \<longleftrightarrow> span_fits s m \<and> walks c file (after_span c file s m) ss m'"

lemma walks_append: "walks c file m (a @ b) m'' \<longleftrightarrow> (\<exists>m'. walks c file m a m' \<and> walks c file m' b m'')"
  by (induction a arbitrary: m) auto

definition shift_span :: "nat \<Rightarrow> span \<Rightarrow> span" where
  "shift_span b s = s\<lparr>sp_start := b + sp_start s, sp_end := b + sp_end s\<rparr>"

definition mark_of :: "reader \<Rightarrow> mark" where
  "mark_of r = (re_base r + re_item_start r, re_next_item r, re_item_line r, re_next_line r, re_partial r)"

lemma buffered_slice:
  assumes "buffered F r" "b \<le> length (re_buf r)"
  shows "cut_bytes a b (re_buf r) = cut_bytes (re_base r + a) (re_base r + b) (fr_file F)"
proof -
  have "re_buf r = cut_bytes (re_base r) (re_next_read r) (fr_file F)" "b \<le> re_next_read r - re_base r"
    using assms by (simp_all add: buffered_def)
  then show ?thesis using slice_slice by metis
qed

lemma close_item_walks:
  assumes ok: "reader_ok F r" and b: "re_item_start r \<le> stop" "stop \<le> length (re_buf r)"
    "stop = re_item_start r \<longrightarrow> re_partial r" and cl: "close_item F stop r = (sp, r')"
  shows "reader_ok F r'" "re_base r' = re_base r" "re_buf r' = re_buf r" "re_item_start r' = stop" "re_partial r' = False"
    "re_consumed r' = re_consumed r"
    "span_fits (shift_span (re_base r) sp) (mark_of r)"
    "after_span (fr_codec F) (fr_file F) (shift_span (re_base r) sp) (mark_of r) = mark_of r'"
proof -
  have bu: "buffered F r" using ok by (simp add: reader_ok_def)
  show "reader_ok F r'" "re_base r' = re_base r" "re_buf r' = re_buf r" "re_item_start r' = stop" "re_partial r' = False"
    "re_consumed r' = re_consumed r"
    using ok b cl by (auto simp: close_item_def Let_def reader_ok_def line_state_default_def)
  show "span_fits (shift_span (re_base r) sp) (mark_of r)"
    using b cl by (auto simp: close_item_def Let_def shift_span_def mark_of_def)
  show "after_span (fr_codec F) (fr_file F) (shift_span (re_base r) sp) (mark_of r) = mark_of r'"
    using cl buffered_slice [OF bu b(2), of "re_item_start r"]
    by (auto simp: close_item_def Let_def shift_span_def mark_of_def)
qed

lemma piece_walks:
  assumes ok: "reader_ok F r" and b: "re_item_start r < stop" "stop \<le> length (re_buf r)"
    and pc: "piece F stop r = (sp, r')"
  shows "reader_ok F r'" "re_base r' = re_base r" "re_buf r' = re_buf r" "re_item_start r' = stop"
    "span_fits (shift_span (re_base r) sp) (mark_of r)"
    "after_span (fr_codec F) (fr_file F) (shift_span (re_base r) sp) (mark_of r) = mark_of r'"
proof -
  have bu: "buffered F r" using ok by (simp add: reader_ok_def)
  show "reader_ok F r'" "re_base r' = re_base r" "re_buf r' = re_buf r" "re_item_start r' = stop"
    using ok b pc by (auto simp: piece_def Let_def reader_ok_def split: if_splits)
  show "span_fits (shift_span (re_base r) sp) (mark_of r)"
    using b pc by (auto simp: piece_def Let_def shift_span_def mark_of_def split: if_splits)
  show "after_span (fr_codec F) (fr_file F) (shift_span (re_base r) sp) (mark_of r) = mark_of r'"
    using pc buffered_slice [OF bu b(2), of "re_item_start r"]
    by (auto simp: piece_def Let_def shift_span_def mark_of_def split: if_splits)
qed

text \<open>
  How the inner loop steps: it stops, or takes one item and goes on. The state is kept as the pair of
  the buffer fields that never change in it.
\<close>

lemma close_items_step:
  assumes ok: "reader_ok F r" and nb: "bytes < batch_bytes"
  obtains (none) r' where "find_end F r = (None, r')" "close_items F bytes r = Some ([], r')"
  | (item) stop r' sp r'' where "find_end F r = (Some stop, r')" "re_item_start r' \<le> stop" "stop \<le> length (re_buf r')"
      "stop = re_item_start r' \<longrightarrow> re_partial r'" "close_item F stop r' = (sp, r'')"
      "close_items F bytes r = map_option (\<lambda>(sps, r3). (sp # sps, r3))
         (close_items F (bytes + (stop - re_item_start r')) r'')"
proof -
  obtain e r' where e: "find_end F r = (e, r')" by (cases "find_end F r")
  show ?thesis
  proof (cases e)
    case None
    then show ?thesis using none [of r'] e nb by (simp add: close_items.simps [of F bytes r])
  next
    case (Some stop)
    have a: "re_item_start r' \<le> stop" "stop \<le> length (re_buf r')" "stop = re_item_start r' \<longrightarrow> re_partial r'"
      using find_end_answer [OF ok] e Some by (auto simp: end_answer_def)
    obtain sp r'' where c: "close_item F stop r' = (sp, r'')" by (cases "close_item F stop r'")
    have "close_items F bytes r = map_option (\<lambda>(sps, r3). (sp # sps, r3))
         (close_items F (bytes + (stop - re_item_start r')) r'')"
      using e Some a nb c by (auto simp: close_items.simps [of F bytes r])
    then show ?thesis using item e Some a c by metis
  qed
qed

lemma mark_of_end:
  assumes "find_end F r = (e, r')"
  shows "mark_of r' = mark_of r" "re_base r' = re_base r" "re_buf r' = re_buf r" "re_consumed r' = re_consumed r"
    "re_item_start r' = re_item_start r" "re_partial r' = re_partial r" "re_eof r' = re_eof r"
  using find_end_const [of F r] assms by (simp_all add: mark_of_def)

definition items_left :: "reader \<Rightarrow> nat" where
  "items_left r = 2 * (length (re_buf r) - re_item_start r) + of_bool (re_partial r)"

text \<open>The inner loop never panics; what it hands out walks from the old mark to the new one.\<close>

lemma close_items_walks:
  "reader_ok F r \<Longrightarrow> \<exists>sps r'. close_items F bytes r = Some (sps, r') \<and> reader_ok F r' \<and> re_base r' = re_base r
     \<and> re_buf r' = re_buf r \<and> re_consumed r' = re_consumed r \<and> re_eof r' = re_eof r
     \<and> walks (fr_codec F) (fr_file F) (mark_of r) (map (shift_span (re_base r)) sps) (mark_of r')
     \<and> (sps = [] \<and> bytes < batch_bytes \<longrightarrow> end_answer F (None, r'))"
proof (induction "items_left r" arbitrary: r bytes rule: less_induct)
  case less
  note ok = less.prems
  show ?case
  proof (cases "bytes < batch_bytes")
    case False
    then have "close_items F bytes r = Some ([], r)" by (simp add: close_items.simps)
    then show ?thesis using ok False by simp
  next
    case True
    show ?thesis
    proof (cases rule: close_items_step [OF ok True])
      case (1 r')
      have a: "end_answer F (None, r')" using find_end_answer [OF ok] 1(1) by simp
      then have "reader_ok F r'" by (simp add: end_answer_def)
      then show ?thesis using 1(2) a mark_of_end [OF 1(1)] by simp
    next
      case (2 stop r' sp r'')
      have ok': "reader_ok F r'" using find_end_answer [OF ok] 2(1) by (simp add: end_answer_def)
      note cw = close_item_walks [OF ok' 2(2,3,4,5)]
      note me = mark_of_end [OF 2(1)]
      have "items_left r'' < items_left r"
        using 2(2,3,4) cw(3,4,5) me by (auto simp: items_left_def)
      then obtain sps r3 where r3: "close_items F (bytes + (stop - re_item_start r')) r'' = Some (sps, r3)"
        "reader_ok F r3" "re_base r3 = re_base r''" "re_buf r3 = re_buf r''" "re_consumed r3 = re_consumed r''"
        "re_eof r3 = re_eof r''"
        "walks (fr_codec F) (fr_file F) (mark_of r'') (map (shift_span (re_base r'')) sps) (mark_of r3)"
        using less.hyps [OF _ cw(1)] by blast
      have "re_eof r'' = re_eof r'" using 2(5) by (auto simp: close_item_def Let_def)
      then show ?thesis using r3 cw me 2(6) by simp
    qed
  qed
qed

section \<open>Batches\<close>

definition file_end :: "framed \<Rightarrow> reader \<Rightarrow> nat" where
  "file_end F r = min (re_limit r) (length (fr_file F))"

lemma fill_ok:
  assumes ok: "reader_ok F r"
  shows "reader_ok F (fill F r)" "mark_of (fill F r) = mark_of r" "re_base (fill F r) = re_base r"
    "re_item_start (fill F r) = re_item_start r" "re_limit (fill F r) = re_limit r"
    "re_consumed (fill F r) = re_consumed r"
proof -
  show "mark_of (fill F r) = mark_of r" "re_base (fill F r) = re_base r"
    "re_item_start (fill F r) = re_item_start r" "re_limit (fill F r) = re_limit r"
    "re_consumed (fill F r) = re_consumed r"
    by (simp_all add: fill_def mark_of_def Let_def)
  let ?want = "min (re_limit r - re_next_read r) block_bytes"
  let ?got = "take ?want (drop (re_next_read r) (fr_file F))"
  have b: "re_base r + length (re_buf r) = re_next_read r"
    "re_buf r = cut_bytes (re_base r) (re_next_read r) (fr_file F)"
    and n: "re_next_read r \<le> re_limit r" "re_next_read r \<le> length (fr_file F)"
    using reader_ok_buffer [OF ok] by blast+
  show "reader_ok F (fill F r)"
  proof (cases "?want = 0")
    case True
    then have "re_next_read r = re_limit r" using n by (simp add: block_bytes_def)
    then show ?thesis using ok True n by (simp add: fill_def reader_ok_def)
  next
    case False
    have "?got = cut_bytes (re_next_read r) (re_next_read r + length ?got) (fr_file F)"
      by (simp add: cut_bytes_def min_def)
    then have "re_buf r @ ?got = cut_bytes (re_base r) (re_next_read r + length ?got) (fr_file F)"
      using b slice_append [of "re_base r" "re_next_read r" "re_next_read r + length ?got" "fr_file F"] by simp
    moreover have f: "re_buf (fill F r) = re_buf r @ ?got" "re_next_read (fill F r) = re_next_read r + length ?got"
      "re_base (fill F r) = re_base r"
      using False by (simp_all add: fill_def Let_def)
    ultimately have bu: "buffered F (fill F r)"
      unfolding buffered_def f length_append using b(1) by (simp only: add.assoc [symmetric] simp_thms)
    have l: "length ?got = min ?want (length (fr_file F) - re_next_read r)" by simp
    show ?thesis using ok False n bu
      by (simp add: reader_ok_def fill_def Let_def l del: length_take length_drop) (auto simp: min_def split: if_splits)
  qed
qed

text \<open>What one batch is.\<close>

definition batch_answer :: "framed \<Rightarrow> reader \<Rightarrow> batch option \<times> reader \<Rightarrow> bool" where
  "batch_answer F r br = (case br of
     (None, r') \<Rightarrow> mark_of r' = mark_of r \<and> re_item_start r' = length (re_buf r') \<and> \<not> re_partial r'
        \<and> re_base r' + length (re_buf r') = file_end F r
   | (Some b, r') \<Rightarrow> reader_ok F r' \<and> re_limit r' = re_limit r \<and> re_consumed r' = re_item_start r'
        \<and> ba_base b = re_base r' \<and> ba_data b = take (re_item_start r') (re_buf r') \<and> ba_spans b \<noteq> []
        \<and> walks (fr_codec F) (fr_file F) (mark_of r) (map (shift_span (ba_base b)) (ba_spans b)) (mark_of r'))"

lemma batch_answer_cong:
  assumes "file_end F r = file_end F s" "mark_of r = mark_of s" "re_limit r = re_limit s"
  shows "batch_answer F r br = batch_answer F s br"
  unfolding batch_answer_def assms ..

lemma reader_ok_consumed [simp]: "reader_ok F (r\<lparr>re_consumed := n\<rparr>) = reader_ok F r"
  by (simp add: reader_ok_def)

lemma mark_of_consumed [simp]: "mark_of (r\<lparr>re_consumed := n\<rparr>) = mark_of r"
  by (simp add: mark_of_def)

lemma batch_loop_answer: "reader_ok F r \<Longrightarrow> \<exists>br. batch_loop F r = Some br \<and> batch_answer F r br"
proof (induction F r rule: batch_loop.induct)
  case (1 F r)
  obtain sps r' where c: "close_items F 0 r = Some (sps, r')" and ok': "reader_ok F r'"
    and base: "re_base r' = re_base r" "re_eof r' = re_eof r"
    and w: "walks (fr_codec F) (fr_file F) (mark_of r) (map (shift_span (re_base r)) sps) (mark_of r')"
    and a: "sps = [] \<and> 0 < batch_bytes \<longrightarrow> end_answer F (None, r')"
    using close_items_walks [OF "1.prems", of 0] by blast
  have lim: "re_limit r' = re_limit r" using close_items_const [OF c] by simp
  consider (items) "sps \<noteq> []" | (stop) "sps = []" "re_eof r'"
    | (huge) "sps = []" "\<not> re_eof r'" "max_item \<le> length (re_buf r') - re_item_start r'"
    | (more) "sps = []" "\<not> re_eof r'" "\<not> max_item \<le> length (re_buf r') - re_item_start r'" by blast
  then show ?case
  proof cases
    case items
    then show ?thesis using c w ok' lim base
      by (subst batch_loop.simps) (simp add: batch_answer_def)
  next
    case stop
    have "end_answer F (None, r')" using a stop by (simp add: batch_bytes_def)
    then have "re_item_start r' = length (re_buf r')" "\<not> re_partial r'" using stop by (simp_all add: end_answer_def)
    moreover have "re_base r' + length (re_buf r') = file_end F r"
      using ok' stop lim by (simp add: reader_ok_def buffered_def file_end_def)
    moreover have "mark_of r' = mark_of r" using w stop by simp
    ultimately show ?thesis using c stop by (subst batch_loop.simps) (simp add: batch_answer_def)
  next
    case huge
    have e: "re_item_start r' < piece_end F r'" "piece_end F r' \<le> length (re_buf r')"
      using a huge by (simp_all add: end_answer_def batch_bytes_def)
    obtain sp r'' where pc: "piece F (piece_end F r') r' = (sp, r'')" by (cases "piece F (piece_end F r') r'")
    note pw = piece_walks [OF ok' e pc]
    have "re_limit r'' = re_limit r'" using pc by (auto simp: piece_def Let_def split: if_splits)
    moreover have "mark_of r' = mark_of r" using w huge by simp
    ultimately show ?thesis using c huge e pc pw lim
      by (subst batch_loop.simps) (simp add: batch_answer_def Let_def)
  next
    case more
    have m: "mark_of r' = mark_of r" using w more by simp
    obtain br where br: "batch_loop F (fill F r') = Some br" "batch_answer F (fill F r') br"
      using "1.IH" [OF c refl _ more(2,3)] more(1) fill_ok(1) [OF ok'] by auto
    have "file_end F (fill F r') = file_end F r" using fill_ok(5) [OF ok'] lim by (simp add: file_end_def)
    then have "batch_answer F r br"
      using br(2) batch_answer_cong [of F "fill F r'" r br] fill_ok(2,5) [OF ok'] m lim by simp
    then show ?thesis using c more br(1) by (subst batch_loop.simps) simp
  qed
qed

lemma drop_consumed_ok:
  assumes ok: "reader_ok F r" and n: "re_consumed r \<le> re_item_start r"
  shows "reader_ok F (drop_consumed r)" "mark_of (drop_consumed r) = mark_of r" "re_limit (drop_consumed r) = re_limit r"
    "re_item_start (drop_consumed r) = re_item_start r - re_consumed r"
proof -
  have le: "re_consumed r \<le> length (re_buf r)" using n reader_ok_scan [OF ok] by linarith
  have b: "re_base r + length (re_buf r) = re_next_read r"
    "re_buf r = cut_bytes (re_base r) (re_next_read r) (fr_file F)"
    using reader_ok_buffer [OF ok] by blast+
  have "drop (re_consumed r) (re_buf r) = cut_bytes (re_base r + re_consumed r) (re_next_read r) (fr_file F)"
    by (subst b(2)) (simp add: cut_bytes_def drop_take add.commute)
  then have "buffered F (drop_consumed r)"
    using b le by (simp add: buffered_def drop_consumed_def Let_def)
  then show "reader_ok F (drop_consumed r)"
    using ok n le by (auto simp: reader_ok_def drop_consumed_def Let_def)
  show "mark_of (drop_consumed r) = mark_of r" "re_limit (drop_consumed r) = re_limit r"
    "re_item_start (drop_consumed r) = re_item_start r - re_consumed r"
    using n by (auto simp: drop_consumed_def Let_def mark_of_def)
qed

lemma next_batch_answer:
  assumes ok: "reader_ok F r" and n: "re_consumed r \<le> re_item_start r"
  shows "\<exists>br. next_batch F r = Some br \<and> batch_answer F r br"
proof -
  note d = drop_consumed_ok [OF ok n]
  obtain br where br: "batch_loop F (drop_consumed r) = Some br" "batch_answer F (drop_consumed r) br"
    using batch_loop_answer [OF d(1)] by blast
  have "file_end F (drop_consumed r) = file_end F r" using d by (simp add: file_end_def)
  then have "batch_answer F r br" using br(2) batch_answer_cong [of F "drop_consumed r" r br] d by simp
  then show ?thesis using br(1) n reader_ok_scan [OF ok] by (auto simp: next_batch_def)
qed

section \<open>The whole file\<close>

lemma walks_positions:
  "walks c file (p, n, il, nl, part) ss (p', n', il', nl', part') \<Longrightarrow>
   p \<le> p' \<and> (\<forall>s \<in> set ss. p \<le> sp_start s \<and> sp_start s \<le> sp_end s \<and> sp_end s \<le> p') \<and>
   concat (map (\<lambda>s. cut_bytes (sp_start s) (sp_end s) file) ss) = cut_bytes p p' file"
proof (induction ss arbitrary: p n il nl part)
  case Nil
  then show ?case by (simp add: cut_bytes_def)
next
  case (Cons s ss)
  let ?m = "after_span c file s (p, n, il, nl, part)"
  obtain q n2 il2 nl2 part2 where m: "?m = (q, n2, il2, nl2, part2)" by (cases ?m)
  have f: "sp_start s = p" "p \<le> sp_end s" "q = sp_end s" using Cons.prems m by (auto simp: Let_def)
  have "walks c file (q, n2, il2, nl2, part2) ss (p', n', il', nl', part')" using Cons.prems m by simp
  then have "q \<le> p' \<and> (\<forall>s \<in> set ss. q \<le> sp_start s \<and> sp_start s \<le> sp_end s \<and> sp_end s \<le> p') \<and>
      concat (map (\<lambda>s. cut_bytes (sp_start s) (sp_end s) file) ss) = cut_bytes q p' file"
    by (rule Cons.IH)
  then show ?case using f by (auto simp: slice_append)
qed

definition marks_left :: "nat \<Rightarrow> mark \<Rightarrow> nat" where
  "marks_left stop m = (case m of (p, n, il, nl, part) \<Rightarrow> 2 * (stop - p) + of_bool part)"

lemma walks_left:
  assumes "walks c file m ss m'" "ss \<noteq> []" "fst m' \<le> stop"
  shows "marks_left stop m' < marks_left stop m"
proof -
  have one: "marks_left stop (after_span c file s m) < marks_left stop m"
    if "span_fits s m" "sp_end s \<le> stop" for s m
    using that by (cases m) (auto simp: marks_left_def Let_def)
  have "marks_left stop m' \<le> marks_left stop m" if "walks c file m ss m'" for m ss
    using that
  proof (induction ss arbitrary: m)
    case (Cons s ss)
    have "sp_end s \<le> fst m'"
      using Cons.prems walks_positions [of c "file" "fst m" "fst (snd m)" "fst (snd (snd m))" "fst (snd (snd (snd m)))" "snd (snd (snd (snd m)))" "s # ss"
        "fst m'" "fst (snd m')" "fst (snd (snd m'))" "fst (snd (snd (snd m')))" "snd (snd (snd (snd m')))"] by simp
    then show ?case using one [of s m] Cons.prems Cons.IH [of "after_span c file s m"] assms(3) by fastforce
  qed simp
  moreover obtain s t where st: "ss = s # t" using assms(2) by (cases ss) auto
  moreover have "sp_end s \<le> fst m'"
    using assms(1) st walks_positions [of c "file" "fst m" "fst (snd m)" "fst (snd (snd m))" "fst (snd (snd (snd m)))" "snd (snd (snd (snd m)))" "s # t"
        "fst m'" "fst (snd m')" "fst (snd (snd m'))" "fst (snd (snd (snd m')))" "snd (snd (snd (snd m')))"] by simp
  ultimately show ?thesis using one [of s m] assms(1,3) by fastforce
qed

text \<open>The spans of all batches, at positions of the file, and the bytes they show.\<close>

definition spans_of :: "batch list \<Rightarrow> span list" where
  "spans_of bs = concat (map (\<lambda>b. map (shift_span (ba_base b)) (ba_spans b)) bs)"

definition bytes_of :: "batch list \<Rightarrow> byte list" where
  "bytes_of bs = concat (map (\<lambda>b. concat (map (\<lambda>s. cut_bytes (sp_start s) (sp_end s) (ba_data b)) (ba_spans b))) bs)"

lemma batch_shows:
  assumes "batch_answer F r (Some b, r')"
  shows "map (\<lambda>s. cut_bytes (sp_start s) (sp_end s) (ba_data b)) (ba_spans b) =
    map (\<lambda>s. cut_bytes (sp_start s) (sp_end s) (fr_file F)) (map (shift_span (ba_base b)) (ba_spans b))"
proof -
  have b: "buffered F r'" "ba_base b = re_base r'" "ba_data b = take (re_item_start r') (re_buf r')"
    "re_item_start r' \<le> length (re_buf r')"
  proof -
    have a: "reader_ok F r'" "ba_base b = re_base r'" "ba_data b = take (re_item_start r') (re_buf r')"
      using assms by (simp_all add: batch_answer_def)
    show "buffered F r'" using a(1) by (simp add: reader_ok_def)
    show "re_item_start r' \<le> length (re_buf r')" using reader_ok_scan [OF a(1)] by linarith
    show "ba_base b = re_base r'" "ba_data b = take (re_item_start r') (re_buf r')" by fact+
  qed
  have w: "walks (fr_codec F) (fr_file F) (mark_of r) (map (shift_span (ba_base b)) (ba_spans b)) (mark_of r')"
    using assms unfolding batch_answer_def by auto
  then have e: "\<forall>s \<in> set (ba_spans b). sp_end s \<le> re_item_start r'"
    using walks_positions [OF w [unfolded mark_of_def]] by (auto simp: b(2) shift_span_def)
  have "cut_bytes (sp_start s) (sp_end s) (ba_data b) = cut_bytes (ba_base b + sp_start s) (ba_base b + sp_end s) (fr_file F)"
    if "s \<in> set (ba_spans b)" for s
  proof -
    have "cut_bytes (sp_start s) (sp_end s) (take (re_item_start r') (re_buf r')) = cut_bytes (sp_start s) (sp_end s) (re_buf r')"
      using slice_slice [of "sp_end s" "re_item_start r'" 0 "sp_start s" "re_buf r'"] bspec [OF e that]
      by (simp add: cut_bytes_def)
    then show ?thesis using b buffered_slice [OF b(1), of "sp_end s" "sp_start s"] bspec [OF e that] by simp
  qed
  then show ?thesis by (simp add: shift_span_def)
qed

text \<open>The bytes of a batch under its spans are those of the file.\<close>

definition shows_file :: "framed \<Rightarrow> batch \<Rightarrow> bool" where
  "shows_file F b \<longleftrightarrow> (\<forall>s \<in> set (ba_spans b). cut_bytes (sp_start s) (sp_end s) (ba_data b) =
     cut_bytes (ba_base b + sp_start s) (ba_base b + sp_end s) (fr_file F))"

lemma read_all_walks:
  "reader_ok F r \<Longrightarrow> re_consumed r \<le> re_item_start r \<Longrightarrow> \<exists>bs m. read_all F r = Some bs
     \<and> walks (fr_codec F) (fr_file F) (mark_of r) (spans_of bs) m \<and> fst m = file_end F r \<and> \<not> snd (snd (snd (snd m)))
     \<and> bytes_of bs = concat (map (\<lambda>s. cut_bytes (sp_start s) (sp_end s) (fr_file F)) (spans_of bs))
     \<and> (\<forall>b \<in> set bs. shows_file F b)"
proof (induction "marks_left (file_end F r) (mark_of r)" arbitrary: r rule: less_induct)
  case less
  obtain b r' where nb: "next_batch F r = Some (b, r')" "batch_answer F r (b, r')"
    using next_batch_answer [OF less.prems] by auto
  show ?case
  proof (cases b)
    case None
    then have "read_all F r = Some []" using nb by (simp add: read_all.simps)
    moreover have "fst (mark_of r) = file_end F r" "\<not> snd (snd (snd (snd (mark_of r))))"
      using nb(2) None by (auto simp: batch_answer_def mark_of_def)
    ultimately show ?thesis by (intro exI [of _ "[]"] exI [of _ "mark_of r"]) (simp add: spans_of_def bytes_of_def)
  next
    case (Some ba)
    have a: "batch_answer F r (Some ba, r')" using nb(2) Some by simp
    then have r': "reader_ok F r'" "re_limit r' = re_limit r" "re_consumed r' \<le> re_item_start r'"
      and w: "walks (fr_codec F) (fr_file F) (mark_of r) (map (shift_span (ba_base ba)) (ba_spans ba)) (mark_of r')"
      and ne: "ba_spans ba \<noteq> []"
      by (auto simp: batch_answer_def)
    have fe: "file_end F r' = file_end F r" using r'(2) by (simp add: file_end_def)
    have "fst (mark_of r') \<le> file_end F r'"
      using r'(1) reader_ok_scan [OF r'(1)] by (auto simp: mark_of_def file_end_def reader_ok_def buffered_def)
    then have "marks_left (file_end F r') (mark_of r') < marks_left (file_end F r) (mark_of r)"
      using walks_left [OF w] ne fe by simp
    then obtain bs m where ih: "read_all F r' = Some bs" "walks (fr_codec F) (fr_file F) (mark_of r') (spans_of bs) m"
      "fst m = file_end F r'" "\<not> snd (snd (snd (snd m)))"
      "bytes_of bs = concat (map (\<lambda>s. cut_bytes (sp_start s) (sp_end s) (fr_file F)) (spans_of bs))"
      "\<forall>b \<in> set bs. shows_file F b"
      using less.hyps [OF _ r'(1,3)] by blast
    have "read_all F r = Some (ba # bs)" using nb(1) Some ih(1) by (subst read_all.simps) simp
    moreover have "walks (fr_codec F) (fr_file F) (mark_of r) (spans_of (ba # bs)) m"
    proof -
      have "spans_of (ba # bs) = map (shift_span (ba_base ba)) (ba_spans ba) @ spans_of bs" by (simp add: spans_of_def)
      then show ?thesis using w ih(2) walks_append by metis
    qed
    moreover have "bytes_of (ba # bs) = concat (map (\<lambda>s. cut_bytes (sp_start s) (sp_end s) (fr_file F)) (spans_of (ba # bs)))"
      unfolding bytes_of_def spans_of_def list.map concat.simps map_append concat_append batch_shows [OF a]
      using ih(5) unfolding bytes_of_def spans_of_def by simp
    moreover have "shows_file F ba" using batch_shows [OF a] by (simp add: shows_file_def shift_span_def)
    ultimately show ?thesis using ih(3,4,6) fe by (intro exI [of _ "ba # bs"] exI [of _ m]) simp
  qed
qed

lemma read_all_tiles:
  assumes "framing_ok (fr_framing F)" "start \<le> limit" "limit \<le> length (fr_file F)"
  obtains bs n il nl where "read_all F (reader_at start limit item line) = Some bs"
    "walks (fr_codec F) (fr_file F) (start, item, line, line, False) (spans_of bs) (limit, n, il, nl, False)"
    "bytes_of bs = cut_bytes start limit (fr_file F)" "\<forall>b \<in> set bs. shows_file F b"
proof -
  have ok: "reader_ok F (reader_at start limit item line)" using assms by (intro reader_at_ok) auto
  obtain bs m where bs: "read_all F (reader_at start limit item line) = Some bs"
    "walks (fr_codec F) (fr_file F) (mark_of (reader_at start limit item line)) (spans_of bs) m"
    "fst m = file_end F (reader_at start limit item line)" "\<not> snd (snd (snd (snd m)))"
    "bytes_of bs = concat (map (\<lambda>s. cut_bytes (sp_start s) (sp_end s) (fr_file F)) (spans_of bs))"
    "\<forall>b \<in> set bs. shows_file F b"
    using read_all_walks [OF ok] by (auto simp: reader_at_def)
  have m: "m = (limit, fst (snd m), fst (snd (snd m)), fst (snd (snd (snd m))), False)"
    using bs(3,4) assms(3) by (cases m) (simp add: file_end_def reader_at_def)
  have s: "mark_of (reader_at start limit item line) = (start, item, line, line, False)"
    by (simp add: mark_of_def reader_at_def)
  have w: "walks (fr_codec F) (fr_file F) (start, item, line, line, False) (spans_of bs)
      (limit, fst (snd m), fst (snd (snd m)), fst (snd (snd (snd m))), False)"
    using bs(2) unfolding s by (subst (asm) m)
  then show ?thesis using that [OF bs(1) w] bs(5,6) walks_positions [OF w] by auto
qed

section \<open>A separator longer than a piece\<close>

text \<open>
  A buffer of one piece that holds no separator because the separator is longer: the next piece is
  empty and leaves the reader where it was.
\<close>

definition stuck :: "framed \<Rightarrow> byte list \<Rightarrow> reader \<Rightarrow> bool" where
  "stuck F d r \<longleftrightarrow> fr_framing F = FrDelimiter d \<and> max_item < length d \<and> \<not> re_eof r
     \<and> re_item_start r = 0 \<and> re_consumed r = 0 \<and> length (re_buf r) = max_item"

lemma scan_longer: "length buf < length d \<Longrightarrow> scan_delimiter w d i buf pos = None"
  using scan_delimiter_bound [of w d i buf pos] by (cases "scan_delimiter w d i buf pos") auto

lemma close_items_longer:
  assumes "fr_framing F = FrDelimiter d" "length (re_buf r) < length d" "\<not> re_eof r" "re_item_start r = 0"
  shows "close_items F 0 r = Some ([], r\<lparr>re_scan := 0\<rparr>)"
proof -
  have "find_end F r = (None, r\<lparr>re_scan := 0\<rparr>)"
    using assms by (simp add: find_end_def find_delimiter_def scan_longer codec_align_def)
  then show ?thesis by (subst close_items.simps) (simp add: batch_bytes_def)
qed

lemma batch_loop_stuck:
  assumes "stuck F d r"
  shows "\<exists>b r'. batch_loop F r = Some (Some b, r') \<and> stuck F d r'"
proof -
  have c: "close_items F 0 r = Some ([], r\<lparr>re_scan := 0\<rparr>)"
    using assms by (intro close_items_longer) (auto simp: stuck_def)
  have "piece_end F (r\<lparr>re_scan := 0\<rparr>) = 0" using assms by (simp add: piece_end_def stuck_def)
  then show ?thesis using assms c
    by (subst batch_loop.simps) (simp add: stuck_def piece_def Let_def)
qed

lemma next_batch_stuck: "stuck F d r \<Longrightarrow> next_batch F r = batch_loop F r"
  by (simp add: next_batch_def drop_consumed_def stuck_def)

lemma batch_loop_fills:
  assumes d: "fr_framing F = FrDelimiter d" "max_item < length d"
  shows "\<not> re_eof r \<Longrightarrow> re_item_start r = 0 \<Longrightarrow> re_consumed r = 0 \<Longrightarrow> length (re_buf r) + k * block_bytes = max_item \<Longrightarrow>
    re_next_read r + k * block_bytes \<le> re_limit r \<Longrightarrow> re_limit r \<le> length (fr_file F) \<Longrightarrow>
    \<exists>b r'. batch_loop F r = Some (Some b, r') \<and> stuck F d r'"
proof (induction k arbitrary: r)
  case 0
  then show ?case using batch_loop_stuck [of F d r] d by (simp add: stuck_def)
next
  case (Suc k)
  let ?r = "fill F (r\<lparr>re_scan := 0\<rparr>)"
  have block: "0 < block_bytes" "re_next_read r + block_bytes \<le> re_limit r"
    using Suc.prems(5) by (simp_all add: block_bytes_def)
  have c: "close_items F 0 r = Some ([], r\<lparr>re_scan := 0\<rparr>)"
    using Suc.prems(1,2,4) d by (intro close_items_longer) auto
  have lt: "length (re_buf r) < max_item" using Suc.prems(4) block(1) by simp
  have "\<not> re_eof ?r" "re_item_start ?r = 0" "re_consumed ?r = 0" "re_limit ?r = re_limit r"
    "length (re_buf ?r) = length (re_buf r) + block_bytes" "re_next_read ?r = re_next_read r + block_bytes"
    using Suc.prems(1-3,6) block by (auto simp: fill_def Let_def min_def)
  then have "\<exists>b r'. batch_loop F ?r = Some (Some b, r') \<and> stuck F d r'"
    using Suc.prems(4-6) by (intro Suc.IH) simp_all
  moreover have "batch_loop F r = batch_loop F ?r"
    using c lt Suc.prems(1,2) by (subst batch_loop.simps) simp
  ultimately show ?case by simp
qed

lemma stuck_not_read:
  assumes "read_all F r = Some bs"
  shows "\<forall>b r'. next_batch F r = Some (Some b, r') \<longrightarrow> \<not> stuck F d r'"
proof (rule read_all.raw_induct [OF _ assms, where P = "\<lambda>F r bs. \<forall>b r'. next_batch F r = Some (Some b, r') \<longrightarrow> \<not> stuck F d r'"],
    intro allI impI notI)
  fix read F r bs b r'
  assume ih: "\<And>F r y. read F r = Some y \<Longrightarrow> \<forall>b r'. next_batch F r = Some (Some b, r') \<longrightarrow> \<not> stuck F d r'"
    and body: "Option.bind (next_batch F r) (\<lambda>(b, r'). case b of None \<Rightarrow> Some []
       | Some b \<Rightarrow> Option.bind (read F r') (\<lambda>bs. Some (b # bs))) = Some bs"
    and n: "next_batch F r = Some (Some b, r')" and st: "stuck F d r'"
  obtain b2 r2 where "next_batch F r' = Some (Some b2, r2)" "stuck F d r2"
    using batch_loop_stuck [OF st] next_batch_stuck [OF st] by auto
  moreover obtain bs' where "read F r' = Some bs'"
    using body n by (auto simp: bind_eq_Some_conv)
  ultimately show False using ih by blast
qed

lemma stuck_never_ends:
  "next_batch F r = Some (Some b, r') \<Longrightarrow> stuck F d r' \<Longrightarrow> read_all F r = None"
  using stuck_not_read by (cases "read_all F r") blast+

lemma long_separator_loops:
  assumes "fr_framing F = FrDelimiter d" "max_item < length d" "start + max_item \<le> limit" "limit \<le> length (fr_file F)"
  shows "read_all F (reader_at start limit item line) = None"
proof -
  let ?r = "reader_at start limit item line"
  have four: "4 * block_bytes = max_item" by (simp add: block_bytes_def max_item_def)
  have "next_batch F ?r = batch_loop F ?r" by (simp add: next_batch_def drop_consumed_def reader_at_def)
  moreover have "\<exists>b r'. batch_loop F ?r = Some (Some b, r') \<and> stuck F d r'"
    using assms(3,4) four
    by (intro batch_loop_fills [OF assms(1,2), where k = 4]) (auto simp: reader_at_def max_item_def)
  ultimately show ?thesis using stuck_never_ends by metis
qed

text \<open>C9. The reader gives the file back, when its separator, if it has one, is neither empty nor as long as
  the 16 MiB of a piece: from an item boundary to the limit it ends without a panic, its spans continue
  one another from the first byte to the last with items numbered in order and the line of each counted
  over all spans before it, and their bytes in order are the bytes of the file. A separator longer than
  16 MiB, which \<open>compile_framing\<close> accepts, makes it hand out empty pieces for ever once 16 MiB are left
  to read.\<close>

theorem reader_tiles_file:
  assumes "start \<le> limit" "limit \<le> length (fr_file F)"
  shows "(framing_ok (fr_framing F) \<longrightarrow> (\<exists>bs n il nl. read_all F (reader_at start limit item line) = Some bs
      \<and> walks (fr_codec F) (fr_file F) (start, item, line, line, False) (spans_of bs) (limit, n, il, nl, False)
      \<and> bytes_of bs = cut_bytes start limit (fr_file F)))
    \<and> (\<forall>d. fr_framing F = FrDelimiter d \<and> max_item < length d \<and> start + max_item \<le> limit \<longrightarrow>
      read_all F (reader_at start limit item line) = None)"
  using read_all_tiles [OF _ assms, of item line] long_separator_loops [OF _ _ _ assms(2), of _ start item line] by metis

definition plain_framed :: "framing \<Rightarrow> byte list \<Rightarrow> framed" where
  "plain_framed fr bytes = \<lparr>fr_file = bytes, fr_framing = fr,
     fr_codec = \<lparr>cd_encoding = Utf8, cd_bom = 0, cd_newline = 10\<rparr>,
     fr_decode = map (\<lambda>b. unat b), fr_world = plain_world\<rparr>"

theorem reader_tiles_file_witness:
  "\<exists>bs n il nl. read_all (plain_framed FrLine [97, 10, 98]) (reader_at 0 3 1 1) = Some bs
    \<and> walks (fr_codec (plain_framed FrLine [97, 10, 98])) [97, 10, 98] (0, 1, 1, 1, False) (spans_of bs) (3, n, il, nl, False)
    \<and> bytes_of bs = [97, 10, 98]"
  using reader_tiles_file [of 0 3 "plain_framed FrLine [97, 10, 98]" 1 1]
  by (auto simp: plain_framed_def framing_ok_def cut_bytes_def)

end
