(* ===== verification/Split_Stream.thy ===== *)
theory Split_Stream
  imports Split_Reader Split_Map
begin

text \<open>
  One pass over the file: \<open>src-tauri/src/log_split/stream.rs\<close> and the sink of \<open>outputs.rs\<close>. Items are framed
  in order and handed to a sink; regions whose result is known go to it as byte ranges.

  The file does not change while it is read, so the batches a loop asks for are those of \<open>read_all\<close>. The
  worker threads of \<open>facts_of\<close> compute a map and give it back in order. Cancellation, progress and
  i/o errors other than the disk running full are left out.
\<close>

section \<open>What is prepared\<close>

record prepared =
  pr_framed :: framed
  pr_rule :: rule

definition pr_len :: "prepared \<Rightarrow> nat" where
  "pr_len p = length (fr_file (pr_framed p))"

definition pr_start :: "prepared \<Rightarrow> nat" where
  "pr_start p = min (cd_bom (fr_codec (pr_framed p))) (pr_len p)"

definition probe_bytes :: nat where "probe_bytes = 2 ^ 20"

definition read_at :: "byte list \<Rightarrow> nat \<Rightarrow> nat \<Rightarrow> byte list" where
  "read_at file pos want = take want (drop pos file)"

subsection \<open>Separators typed by the user\<close>

definition radix16_value :: "nat \<Rightarrow> nat option" where
  "radix16_value c = (if is_ascii_digit c then Some (c - 48)
     else if 97 \<le> c \<and> c \<le> 102 then Some (c - 87)
     else if 65 \<le> c \<and> c \<le> 70 then Some (c - 55) else None)"

fun hex_digits :: "nat \<Rightarrow> rstr \<Rightarrow> nat option" where
  "hex_digits acc [] = Some acc"
| "hex_digits acc (c # s) = (case radix16_value c of None \<Rightarrow> None | Some v \<Rightarrow> hex_digits (acc * 16 + v) s)"

text \<open>\<open>u8::from_str_radix(s, 16)\<close> on at most two characters.\<close>

definition parse_hex :: "rstr \<Rightarrow> nat option" where
  "parse_hex s = (case s of [] \<Rightarrow> None
     | c # t \<Rightarrow> if c = 43 \<and> t \<noteq> [] then hex_digits 0 t else hex_digits 0 s)"

function unescape :: "rstr \<Rightarrow> rule_error + rstr" where
  "unescape [] = Inr []"
| "unescape (c # s) =
     (if c \<noteq> 92 then bind_res (unescape s) (\<lambda>out. Inr (c # out))
      else case s of
             [] \<Rightarrow> Inr [92]
           | d # t \<Rightarrow>
               if d = of_char CHR ''n'' then bind_res (unescape t) (\<lambda>out. Inr (10 # out))
               else if d = of_char CHR ''r'' then bind_res (unescape t) (\<lambda>out. Inr (13 # out))
               else if d = of_char CHR ''t'' then bind_res (unescape t) (\<lambda>out. Inr (9 # out))
               else if d = of_char CHR ''0'' then bind_res (unescape t) (\<lambda>out. Inr (0 # out))
               else if d = 92 then bind_res (unescape t) (\<lambda>out. Inr (92 # out))
               else if d = of_char CHR ''x'' then
                 bind_res (opt_res BadTexts (parse_hex (take 2 t))) (\<lambda>code.
                   bind_res (unescape (drop 2 t)) (\<lambda>out. Inr (code # out)))
               else bind_res (unescape t) (\<lambda>out. Inr (92 # d # out)))"
  by pat_completeness auto
termination by (relation "measure length") auto

datatype framing_spec =
    FsAuto
  | FsLine
  | FsStartDate
  | FsContinuation
  | FsStartRegex rstr bool
  | FsEndRegex rstr bool
  | FsBlankLine
  | FsDelimiter rstr

subsection \<open>The separator in the encoding of the file\<close>

text \<open>\<open>CP850_HIGH\<close> of \<open>workspace.rs\<close>: the characters of the bytes from 128 on.\<close>

definition cp850_high :: rstr where
  "cp850_high =
     [199, 252, 233, 226, 228, 224, 229, 231, 234, 235, 232, 239, 238, 236, 196, 197,
      201, 230, 198, 244, 246, 242, 251, 249, 255, 214, 220, 248, 163, 216, 215, 402,
      225, 237, 243, 250, 241, 209, 170, 186, 191, 174, 172, 189, 188, 161, 171, 187,
      9617, 9618, 9619, 9474, 9508, 193, 194, 192, 169, 9571, 9553, 9559, 9565, 162, 165, 9488,
      9492, 9524, 9516, 9500, 9472, 9532, 227, 195, 9562, 9556, 9577, 9574, 9568, 9552, 9580, 164,
      240, 208, 202, 203, 200, 305, 205, 206, 207, 9496, 9484, 9608, 9604, 166, 204, 9600,
      211, 223, 212, 210, 245, 213, 181, 254, 222, 218, 219, 217, 253, 221, 175, 180,
      173, 177, 8215, 190, 182, 167, 247, 184, 176, 168, 183, 185, 179, 178, 9632, 160]"

definition cp850_byte :: "nat \<Rightarrow> byte option" where
  "cp850_byte c = (if c < 128 then Some (word_of_nat c)
     else map_option (\<lambda>p. word_of_nat (128 + p)) (position_of c cp850_high))"

definition utf16_units :: "nat \<Rightarrow> nat list" where
  "utf16_units c = (if c < 65536 then [c]
     else [55296 + (c - 65536) div 1024, 56320 + (c - 65536) mod 1024])"

definition little_endian :: "nat \<Rightarrow> byte list" where
  "little_endian u = [word_of_nat (u mod 256), word_of_nat (u div 256)]"

text \<open>An encoder of \<open>encoding_rs\<close>: the bytes and whether some character has none in the encoding.\<close>

type_synonym legacy_encoder = "string \<Rightarrow> rstr \<Rightarrow> byte list \<times> bool"

definition codec_encode :: "legacy_encoder \<Rightarrow> codec \<Rightarrow> rstr \<Rightarrow> rule_error + byte list" where
  "codec_encode legacy c text =
     (let text = (if cd_newline c = 13 then map (\<lambda>x. if x = 10 then 13 else x) text else text)
      in case cd_encoding c of
           Utf8 \<Rightarrow> Inr (map word_of_nat (as_bytes text))
         | Legacy name \<Rightarrow>
             (let (bytes, unmappable) = legacy name text in if unmappable then Inl NotEncodable else Inr bytes)
         | Cp850 \<Rightarrow> opt_res NotEncodable (those (map cp850_byte text))
         | Utf16Le \<Rightarrow> Inr (concat (map little_endian (concat (map utf16_units text))))
         | Utf16Be \<Rightarrow> Inr (concat (map (rev \<circ> little_endian) (concat (map utf16_units text)))))"

text \<open>An encoder gives some byte for a text it can write.\<close>

definition encoder_law :: "legacy_encoder \<Rightarrow> bool" where
  "encoder_law legacy \<longleftrightarrow> (\<forall>name text. text \<noteq> [] \<longrightarrow> \<not> snd (legacy name text) \<longrightarrow> fst (legacy name text) \<noteq> [])"

lemma those_length: "those xs = Some ys \<Longrightarrow> length ys = length xs"
  by (induction xs arbitrary: ys) (auto split: option.splits)

lemma codec_encode_nonempty:
  assumes "encoder_law legacy" "codec_encode legacy c text = Inr bytes" "text \<noteq> []"
  shows "bytes \<noteq> []"
proof -
  define t where "t = (if cd_newline c = 13 then map (\<lambda>x. if x = 10 then 13 else x) text else text)"
  have t: "t \<noteq> []" using assms(3) by (simp add: t_def)
  then have units: "concat (map utf16_units t) \<noteq> []" by (cases t) (simp_all add: utf16_units_def)
  have utf16: "concat (map little_endian (concat (map utf16_units t))) \<noteq> []"
    "concat (map (rev \<circ> little_endian) (concat (map utf16_units t))) \<noteq> []"
    using units by (cases "concat (map utf16_units t)"; simp only: list.map concat.simps; simp add: little_endian_def)+
  have utf8: "as_bytes t \<noteq> []"
  proof (cases t)
    case (Cons a u)
    have "encode_char a \<noteq> []" by (simp add: encode_char_def)
    then show ?thesis by (simp add: Cons as_bytes_def)
  qed (use t in simp)
  show ?thesis
  proof (cases "cd_encoding c")
    case Cp850
    then show ?thesis using assms(2) t those_length [of "map cp850_byte t" bytes]
      by (auto simp: codec_encode_def t_def [symmetric] res_simps split: option.splits)
  next
    case (Legacy name)
    then show ?thesis using assms(1,2) t
      by (auto simp: codec_encode_def t_def [symmetric] encoder_law_def split: prod.splits if_splits) (metis fst_conv snd_conv)
  next
    case Utf8
    then show ?thesis using assms(2) utf8 by (auto simp: codec_encode_def t_def [symmetric])
  qed (use assms(2) utf16 in \<open>auto simp: codec_encode_def t_def [symmetric]\<close>)
qed

text \<open>
  \<open>detect\<close> is \<open>sources::detect_record_start\<close>; the explanatory note of the framing is left out.
\<close>

definition compile_framing ::
  "world \<Rightarrow> (rstr \<Rightarrow> rstr option) \<Rightarrow> legacy_encoder \<Rightarrow> framing_spec \<Rightarrow> codec \<Rightarrow> rstr \<Rightarrow> stamp_ctx
     \<Rightarrow> rule_error + framing" where
  "compile_framing w detect legacy spec c text ctx =
     (case spec of
        FsAuto \<Rightarrow>
          (case detect text of
             Some pattern \<Rightarrow> bind_res (compile_regex w pattern False) (\<lambda>re. Inr (FrStartRegex re))
           | None \<Rightarrow> Inr FrContinuation)
      | FsLine \<Rightarrow> Inr FrLine
      | FsStartDate \<Rightarrow> Inr (FrStartDate ctx)
      | FsContinuation \<Rightarrow> Inr FrContinuation
      | FsStartRegex pattern ic \<Rightarrow> bind_res (compile_regex w pattern ic) (\<lambda>re. Inr (FrStartRegex re))
      | FsEndRegex pattern ic \<Rightarrow> bind_res (compile_regex w pattern ic) (\<lambda>re. Inr (FrEndRegex re))
      | FsBlankLine \<Rightarrow> Inr FrBlank
      | FsDelimiter t \<Rightarrow>
          bind_res (unescape t) (\<lambda>delimiter.
            if delimiter = [] then Inl NoText
            else bind_res (codec_encode legacy c delimiter) (\<lambda>bytes. Inr (FrDelimiter bytes))))"

text \<open>The separator, if there is one, is shorter than a piece: the one thing acceptance does not check.\<close>

definition separator_short :: "framing \<Rightarrow> bool" where
  "separator_short fr = (case fr of FrDelimiter d \<Rightarrow> length d < max_item | _ \<Rightarrow> True)"

lemma compile_framing_ok:
  assumes "compile_framing w detect legacy spec c text ctx = Inr fr" "encoder_law legacy" "separator_short fr"
  shows "framing_ok fr"
proof (cases fr)
  case (FrDelimiter d)
  then obtain t delimiter where "delimiter \<noteq> []" "codec_encode legacy c delimiter = Inr d"
    using assms(1) by (auto simp: compile_framing_def res_simps split: framing_spec.splits option.splits if_splits)
  then show ?thesis using codec_encode_nonempty [OF assms(2)] assms(3) FrDelimiter
    by (auto simp: framing_ok_def separator_short_def)
qed (simp_all add: framing_ok_def)

section \<open>Binary search\<close>

text \<open>The position and offset of the first line at or after a place, and the bytes read there.\<close>

definition line_start_after :: "prepared \<Rightarrow> nat \<Rightarrow> (nat \<times> nat) option \<times> byte list" where
  "line_start_after p pos0 =
     (let F = pr_framed p; c = fr_codec F; start = pr_start p;
          pos = start + codec_align c (pos0 - start);
          buf = read_at (fr_file F) pos (min (pr_len p - pos) (probe_bytes + head_bytes))
      in (if pos = start then Some (pos, 0)
          else if find_newline c (read_at (fr_file F) (pos - codec_width c) (codec_width c)) 0 = Some 0 then Some (pos, 0)
          else map_option (\<lambda>q. (pos + (q + codec_width c), q + codec_width c)) (find_newline c buf 0), buf))"

text \<open>The first line that certainly starts an item, whatever came before it.\<close>

definition line_certain :: "framed \<Rightarrow> bool \<Rightarrow> bool \<Rightarrow> bool \<Rightarrow> rstr \<Rightarrow> bool option" where
  "line_certain F is_first prev_end prev_blank head =
     (case fr_framing F of
        FrLine \<Rightarrow> Some True
      | FrStartRegex re \<Rightarrow> Some (rx_is_match re head)
      | FrStartDate ctx \<Rightarrow> Some (starts_with_date (fr_world F) head ctx)
      | FrContinuation \<Rightarrow> Some (\<not> blank head \<and> \<not> continuation_line head)
      | FrEndRegex _ \<Rightarrow> Some (\<not> is_first \<and> prev_end)
      | FrBlank \<Rightarrow> Some (\<not> is_first \<and> prev_blank \<and> \<not> blank head)
      | FrDelimiter _ \<Rightarrow> None)"

definition line_head :: "framed \<Rightarrow> byte list \<Rightarrow> nat \<Rightarrow> nat \<Rightarrow> rstr" where
  "line_head F buf pos newline =
     (let stop = min newline (pos + head_bytes)
      in trim_break (fr_decode F (cut_bytes pos (pos + codec_align (fr_codec F) (stop - pos)) buf)))"

function resync_loop :: "framed \<Rightarrow> byte list \<Rightarrow> nat \<Rightarrow> bool \<Rightarrow> bool \<Rightarrow> bool \<Rightarrow> nat option" where
  "resync_loop F buf pos is_first prev_end prev_blank =
     (case find_newline (fr_codec F) buf pos of
        None \<Rightarrow> None
      | Some newline \<Rightarrow>
          (let head = line_head F buf pos newline
           in case line_certain F is_first prev_end prev_blank head of
                None \<Rightarrow> None
              | Some starts \<Rightarrow>
                  if starts then Some pos
                  else resync_loop F buf (newline + codec_width (fr_codec F)) False
                         (case fr_framing F of FrEndRegex re \<Rightarrow> rx_is_match re head | _ \<Rightarrow> False) (blank head)))"
  by pat_completeness auto
termination
proof (relation "measure (\<lambda>(F, buf, pos, _). Suc (length buf) - pos)", simp, goal_cases)
  case (1 F buf pos is_first prev_end prev_blank newline)
  have "pos \<le> length buf" using find_newline_in_range 1(1) by blast
  then show ?case using find_newline_ge [OF 1(1)] codec_width_pos [of "fr_codec F"] by (simp del: codec_width_pos)
qed

declare resync_loop.simps [simp del]

definition resync :: "framed \<Rightarrow> byte list \<Rightarrow> nat \<Rightarrow> nat option" where
  "resync F buf from = resync_loop F buf from True False False"

definition span_text :: "framed \<Rightarrow> batch \<Rightarrow> span \<Rightarrow> rstr" where
  "span_text F b s = fr_decode F (cut_bytes (sp_start s) (sp_end s) (ba_data b))"

definition first_spans :: "batch list \<Rightarrow> (batch \<times> span) list" where
  "first_spans bs = concat (map (\<lambda>b. map (Pair b) (filter sp_first (ba_spans b))) bs)"

text \<open>\<open>probe\<close>: the outer \<open>None\<close> is a panic of the reader.\<close>

definition probe :: "prepared \<Rightarrow> date_reader \<Rightarrow> nat \<Rightarrow> (nat \<times> int) option option" where
  "probe p reader pos =
     (let F = pr_framed p
      in case line_start_after p pos of
           (None, _) \<Rightarrow> Some None
         | (Some (line, offset), buf) \<Rightarrow>
             (case resync F buf offset of
                None \<Rightarrow> Some None
              | Some found \<Rightarrow>
                  (let boundary = line + (found - offset)
                   in map_option (\<lambda>bs.
                        map_option (Pair boundary)
                          (find_map (\<lambda>(b, s). reader_read (fr_world F) reader (span_text F b s))
                             (take 256 (first_spans bs))))
                        (read_all F (reader_at boundary (min (pr_len p) (boundary + probe_bytes)) 1 1)))))"

function narrow :: "prepared \<Rightarrow> date_reader \<Rightarrow> int \<Rightarrow> nat \<Rightarrow> nat \<Rightarrow> nat option" where
  "narrow p reader bound lo hi =
     (if hi - lo \<le> probe_bytes then Some lo
      else let mid = lo + (hi - lo) div 2
           in case probe p reader mid of
                None \<Rightarrow> None
              | Some (Some (boundary, date)) \<Rightarrow>
                  if date < bound \<and> lo < boundary \<and> boundary < hi then narrow p reader bound boundary hi
                  else narrow p reader bound lo mid
              | Some None \<Rightarrow> narrow p reader bound lo mid)"
  by pat_completeness auto
termination
  by (relation "measure (\<lambda>(p, reader, bound, lo, hi). hi - lo)") (auto simp: probe_bytes_def)

declare narrow.simps [simp del]

text \<open>The scan of \<open>seek_first\<close>: the first item whose date in force reaches the bound.\<close>

fun scan_dates :: "framed \<Rightarrow> date_reader \<Rightarrow> int \<Rightarrow> int option \<Rightarrow> (batch \<times> span) list \<Rightarrow> nat option" where
  "scan_dates F reader bound prev [] = None"
| "scan_dates F reader bound prev ((b, s) # rest) =
     (let date = or_opt (reader_read (fr_world F) reader (span_text F b s)) prev
      in if (case date of None \<Rightarrow> False | Some d \<Rightarrow> bound \<le> d) then Some (ba_base b + sp_start s)
         else scan_dates F reader bound date rest)"

definition seek_first :: "prepared \<Rightarrow> nat \<Rightarrow> int \<Rightarrow> nat \<Rightarrow> nat option" where
  "seek_first p slot bound lo =
     (let F = pr_framed p; reader = rl_dates (pr_rule p) ! slot
      in Option.bind (narrow p reader bound lo (pr_len p)) (\<lambda>lo.
           map_option (\<lambda>bs. case scan_dates F reader bound None (first_spans bs) of
               Some stop \<Rightarrow> stop | None \<Rightarrow> pr_len p)
             (read_all F (reader_at lo (pr_len p) 1 1))))"

section \<open>The pass\<close>

record stats =
  ss_items :: nat
  ss_matched_items :: nat
  ss_undated :: nat
  ss_oversized :: nat
  ss_region_bytes :: nat

definition stats_default :: stats where
  "stats_default = \<lparr>ss_items = 0, ss_matched_items = 0, ss_undated = 0, ss_oversized = 0, ss_region_bytes = 0\<rparr>"

text \<open>The trait \<open>Sink\<close>.\<close>

record ('s, 'e) sink =
  sk_write :: "byte list \<Rightarrow> bool \<Rightarrow> 's \<Rightarrow> 'e + 's"
  sk_region :: "nat \<Rightarrow> nat \<Rightarrow> bool \<Rightarrow> 's \<Rightarrow> 'e + 's"
  sk_keeps :: "bool \<Rightarrow> 's \<Rightarrow> bool"

definition region :: "('s, 'e) sink \<Rightarrow> nat \<Rightarrow> nat \<Rightarrow> bool \<Rightarrow> stats \<times> 's \<Rightarrow> 'e + stats \<times> 's" where
  "region K from to matched st =
     (let (ss, s) = st
      in if from < to then
           (let ss = ss\<lparr>ss_region_bytes := ss_region_bytes ss + (to - from)\<rparr>
            in if sk_keeps K matched s then bind_res (sk_region K from to matched s) (\<lambda>s. Inr (ss, s))
               else Inr (ss, s))
         else Inr (ss, s))"

definition facts_of :: "prepared \<Rightarrow> batch \<Rightarrow> facts option list" where
  "facts_of p b = map (\<lambda>s. if sp_first s
       then Some (rule_facts (fr_world (pr_framed p)) (pr_rule p) (span_text (pr_framed p) b s)) else None) (ba_spans b)"

text \<open>
  The loop over the spans of a batch. Its state is the statistics and sink, the running dates and the
  result carried to the later pieces of a huge item; \<open>True\<close> says the rest of the file was settled.
\<close>

fun run_spans ::
  "prepared \<Rightarrow> ('s, 'e) sink \<Rightarrow> batch \<Rightarrow> (span \<times> facts option) list \<Rightarrow> (stats \<times> 's) \<times> running \<times> bool
     \<Rightarrow> 'e + (bool \<times> (stats \<times> 's) \<times> running \<times> bool)" where
  "run_spans p K b [] st = Inr (False, st)"
| "run_spans p K b ((sp, None) # rest) ((ss, s), run, carry) =
     bind_res (sk_write K (cut_bytes (sp_start sp) (sp_end sp) (ba_data b)) carry s) (\<lambda>s.
       run_spans p K b rest ((ss, s), run, carry))"
| "run_spans p K b ((sp, Some f) # rest) ((ss, s), run, carry) =
     (case (if may_settle (pr_rule p) then fate (pr_rule p) f (sp_item sp) (sp_line sp) run else None) of
        Some settled \<Rightarrow>
          bind_res (region K (ba_base b + sp_start sp) (pr_len p) settled (ss, s)) (\<lambda>(ss, s).
            Inr (True, (ss\<lparr>ss_undated := ru_undated run\<rparr>, s), run, carry))
      | None \<Rightarrow>
          (let (matched, run) = decide (pr_rule p) f (sp_item sp) (sp_line sp) run;
               ss = ss\<lparr>ss_items := ss_items ss + 1,
                      ss_matched_items := ss_matched_items ss + (if matched then 1 else 0),
                      ss_oversized := ss_oversized ss + (if sp_last sp then 0 else 1)\<rparr>
           in bind_res (sk_write K (cut_bytes (sp_start sp) (sp_end sp) (ba_data b)) matched s) (\<lambda>s.
                run_spans p K b rest ((ss, s), run, matched))))"

fun run_batches ::
  "prepared \<Rightarrow> ('s, 'e) sink \<Rightarrow> batch list \<Rightarrow> (stats \<times> 's) \<times> running \<times> bool \<Rightarrow> 'e + stats \<times> 's" where
  "run_batches p K [] ((ss, s), run, carry) = Inr (ss\<lparr>ss_undated := ru_undated run\<rparr>, s)"
| "run_batches p K (b # bs) st =
     bind_res (run_spans p K b (zip (ba_spans b) (facts_of p b)) st) (\<lambda>(settled, st).
       if settled then Inr (fst st) else run_batches p K bs st)"

definition run_pass :: "prepared \<Rightarrow> ('s, 'e) sink \<Rightarrow> 's \<Rightarrow> ('e + stats \<times> 's) option" where
  "run_pass p K s =
     (let F = pr_framed p; r = pr_rule p; start = pr_start p; lb = line_based (fr_framing F)
      in case (if lb then pure_range r else None) of
           Some (slot, from, to) \<Rightarrow>
             Option.bind (case from of Some f \<Rightarrow> seek_first p slot f start | None \<Rightarrow> Some start) (\<lambda>first.
             Option.bind (case to of Some t \<Rightarrow> seek_first p slot t first | None \<Rightarrow> Some (pr_len p)) (\<lambda>stop.
               Some (bind_res (region K start first False (stats_default, s)) (\<lambda>st.
                     bind_res (region K first stop True st) (\<lambda>st.
                     region K stop (pr_len p) False st)))))
         | None \<Rightarrow>
             Option.bind (case (if lb then seek_bound r else None) of
                 Some (slot, from) \<Rightarrow> seek_first p slot from start | None \<Rightarrow> Some start) (\<lambda>begin.
             Option.bind (read_all F (reader_at begin (pr_len p) 1 1)) (\<lambda>bs.
               Some (bind_res (region K start begin False (stats_default, s)) (\<lambda>st.
                     run_batches p K bs (st, running_default, False))))))"

section \<open>Output files\<close>

definition out_reserve :: nat where "out_reserve = 256 * 2 ^ 20"
definition check_every :: nat where "check_every = 64 * 2 ^ 20"

record out_file =
  of_content :: "byte list"
  of_bytes :: nat
  of_unchecked :: nat

record outputs =
  ou_matched :: out_file
  ou_rest :: "out_file option"

datatype out_error = DiskLow | OriginalShrank

definition out_create :: "byte list \<Rightarrow> out_file" where
  "out_create bom = \<lparr>of_content = bom, of_bytes = length bom, of_unchecked = 0\<rparr>"

text \<open>\<open>free n\<close> is the free space the disk reports when \<open>n\<close> bytes were written, if it reports any.\<close>

definition out_write :: "(nat \<Rightarrow> nat option) \<Rightarrow> byte list \<Rightarrow> out_file \<Rightarrow> out_error + out_file" where
  "out_write free bytes f =
     (let f = f\<lparr>of_content := of_content f @ bytes, of_bytes := of_bytes f + length bytes,
               of_unchecked := of_unchecked f + length bytes\<rparr>
      in if check_every \<le> of_unchecked f then
           (let f = f\<lparr>of_unchecked := 0\<rparr>
            in case free (of_bytes f) of
                 Some n \<Rightarrow> if n < out_reserve then Inl DiskLow else Inr f
               | None \<Rightarrow> Inr f)
         else Inr f)"

definition outputs_create :: "bool \<Rightarrow> byte list \<Rightarrow> outputs" where
  "outputs_create with_rest bom =
     \<lparr>ou_matched = out_create bom, ou_rest = (if with_rest then Some (out_create bom) else None)\<rparr>"

definition outputs_write :: "(nat \<Rightarrow> nat option) \<Rightarrow> byte list \<Rightarrow> bool \<Rightarrow> outputs \<Rightarrow> out_error + outputs" where
  "outputs_write free bytes matched u =
     (if matched then bind_res (out_write free bytes (ou_matched u)) (\<lambda>f. Inr (u\<lparr>ou_matched := f\<rparr>))
      else case ou_rest u of
             Some rest \<Rightarrow> bind_res (out_write free bytes rest) (\<lambda>f. Inr (u\<lparr>ou_rest := Some f\<rparr>))
           | None \<Rightarrow> Inr u)"

definition copy_bytes :: nat where "copy_bytes = 4 * 2 ^ 20"

function outputs_region ::
  "(nat \<Rightarrow> nat option) \<Rightarrow> byte list \<Rightarrow> nat \<Rightarrow> nat \<Rightarrow> bool \<Rightarrow> outputs \<Rightarrow> out_error + outputs" where
  "outputs_region free file pos to matched u =
     (if to \<le> pos then Inr u
      else let got = read_at file pos (min (to - pos) copy_bytes)
           in if got = [] then Inl OriginalShrank
              else bind_res (outputs_write free got matched u) (\<lambda>u.
                     outputs_region free file (pos + length got) to matched u))"
  by pat_completeness auto
termination
  by (relation "measure (\<lambda>(free, file, pos, to, _). to - pos)") (auto simp: read_at_def diff_less_mono2)

declare outputs_region.simps [simp del]

definition outputs_keeps :: "bool \<Rightarrow> outputs \<Rightarrow> bool" where
  "outputs_keeps matched u \<longleftrightarrow> matched \<or> ou_rest u \<noteq> None"

definition outputs_sink :: "(nat \<Rightarrow> nat option) \<Rightarrow> byte list \<Rightarrow> (outputs, out_error) sink" where
  "outputs_sink free file =
     \<lparr>sk_write = outputs_write free, sk_region = outputs_region free file, sk_keeps = outputs_keeps\<rparr>"

definition map_sink_ops :: "(map_sink, out_error) sink" where
  "map_sink_ops = \<lparr>sk_write = (\<lambda>bytes matched s. Inr (map_write bytes matched s)),
     sk_region = (\<lambda>from to matched s. Inr (map_region from to matched s)), sk_keeps = (\<lambda>_ _. True)\<rparr>"

text \<open>\<open>run_stream\<close>: the byte order mark, the pass, the two files.\<close>

definition run_stream :: "prepared \<Rightarrow> (nat \<Rightarrow> nat option) \<Rightarrow> bool \<Rightarrow> (out_error + stats \<times> outputs) option" where
  "run_stream p free with_rest =
     (let file = fr_file (pr_framed p)
      in run_pass p (outputs_sink free file)
           (outputs_create with_rest (read_at file 0 (cd_bom (fr_codec (pr_framed p))))))"

end
