(* ===== verification/Split_Pass.thy ===== *)
theory Split_Pass
  imports Split_Stream
begin

text \<open>
  What a pass writes. \<open>plan_pass\<close> is the pass with no sink: the bytes of the file in order, each with the
  side it goes to. The locale \<open>byte_sink\<close> states what \<open>stream.rs\<close> asks of a sink; both sinks of the code
  keep it, so a finished pass has written exactly its plan. The plan has every byte once, and without a
  jump it is the evaluation item by item.
\<close>

section \<open>The plan of a pass\<close>

type_synonym flow = "(byte \<times> bool) list"

definition tag :: "bool \<Rightarrow> byte list \<Rightarrow> flow" where
  "tag m bs = map (\<lambda>b. (b, m)) bs"

lemma map_fst_tag [simp]: "map fst (tag m bs) = bs"
  by (simp add: tag_def comp_def)

lemma map_snd_tag [simp]: "map snd (tag m bs) = replicate (length bs) m"
  by (simp add: tag_def comp_def map_replicate_const)

lemma tag_Nil [simp]: "tag m [] = []"
  by (simp add: tag_def)

lemma tag_append [simp]: "tag m (a @ b) = tag m a @ tag m b"
  by (simp add: tag_def)

definition shown :: "batch \<Rightarrow> span \<Rightarrow> byte list" where
  "shown b s = cut_bytes (sp_start s) (sp_end s) (ba_data b)"

fun plan_spans :: "prepared \<Rightarrow> batch \<Rightarrow> (span \<times> facts option) list \<Rightarrow> running \<times> bool
    \<Rightarrow> flow \<times> bool \<times> running \<times> bool" where
  "plan_spans p b [] st = ([], False, st)"
| "plan_spans p b ((sp, None) # rest) (run, carry) =
     (let (flw, x) = plan_spans p b rest (run, carry) in (tag carry (shown b sp) @ flw, x))"
| "plan_spans p b ((sp, Some f) # rest) (run, carry) =
     (case (if may_settle (pr_rule p) then fate (pr_rule p) f (sp_item sp) (sp_line sp) run else None) of
        Some settled \<Rightarrow>
          (tag settled (cut_bytes (ba_base b + sp_start sp) (pr_len p) (fr_file (pr_framed p))), True, run, carry)
      | None \<Rightarrow>
          (let (matched, run) = decide (pr_rule p) f (sp_item sp) (sp_line sp) run;
               (flw, x) = plan_spans p b rest (run, matched)
           in (tag matched (shown b sp) @ flw, x)))"

fun plan_batches :: "prepared \<Rightarrow> batch list \<Rightarrow> running \<times> bool \<Rightarrow> flow" where
  "plan_batches p [] st = []"
| "plan_batches p (b # bs) st =
     (let (flw, settled, st) = plan_spans p b (zip (ba_spans b) (facts_of p b)) st
      in flw @ (if settled then [] else plan_batches p bs st))"

definition plan_region :: "prepared \<Rightarrow> nat \<Rightarrow> nat \<Rightarrow> bool \<Rightarrow> flow" where
  "plan_region p from to matched = tag matched (cut_bytes from to (fr_file (pr_framed p)))"

definition plan_pass :: "prepared \<Rightarrow> flow option" where
  "plan_pass p =
     (let F = pr_framed p; r = pr_rule p; start = pr_start p; lb = line_based (fr_framing F)
      in case (if lb then pure_range r else None) of
           Some (slot, from, to) \<Rightarrow>
             Option.bind (case from of Some f \<Rightarrow> seek_first p slot f start | None \<Rightarrow> Some start) (\<lambda>first.
             Option.bind (case to of Some t \<Rightarrow> seek_first p slot t first | None \<Rightarrow> Some (pr_len p)) (\<lambda>stop.
               Some (plan_region p start first False @ plan_region p first stop True
                     @ plan_region p stop (pr_len p) False)))
         | None \<Rightarrow>
             Option.bind (case (if lb then seek_bound r else None) of
                 Some (slot, from) \<Rightarrow> seek_first p slot from start | None \<Rightarrow> Some start) (\<lambda>begin.
             Option.bind (read_all F (reader_at begin (pr_len p) 1 1)) (\<lambda>bs.
               Some (plan_region p start begin False @ plan_batches p bs (running_default, False)))))"

section \<open>What a sink promises\<close>

locale byte_sink =
  fixes K :: "('s, 'e) sink"
    and original :: "byte list"
    and holds :: "'s \<Rightarrow> flow \<Rightarrow> bool"
  assumes writes: "holds s flw \<Longrightarrow> sk_write K bytes m s = Inr s' \<Longrightarrow> holds s' (flw @ tag m bytes)"
    and regions: "holds s flw \<Longrightarrow> from \<le> to \<Longrightarrow> to \<le> length original \<Longrightarrow> sk_region K from to m s = Inr s'
      \<Longrightarrow> holds s' (flw @ tag m (cut_bytes from to original))"
    and skips: "holds s flw \<Longrightarrow> \<not> sk_keeps K m s \<Longrightarrow> holds s (flw @ tag m bytes)"
begin

lemma region_holds:
  assumes "holds s flw" "region K from to m (ss, s) = Inr (ss', s')" "to \<le> length original"
  shows "holds s' (flw @ tag m (cut_bytes from to original))"
proof (cases "from < to")
  case True
  then show ?thesis using assms regions [OF assms(1), of "from" to] skips [OF assms(1)]
    by (auto simp: region_def Let_def res_simps split: if_splits)
next
  case False
  then show ?thesis using assms by (auto simp: region_def cut_bytes_def)
qed

lemma run_spans_holds:
  assumes "original = fr_file (pr_framed p)"
  shows "holds s flw \<Longrightarrow> run_spans p K b xs ((ss, s), run, carry) = Inr (settled, (ss', s'), run', carry')
    \<Longrightarrow> holds s' (flw @ fst (plan_spans p b xs (run, carry)))
      \<and> snd (plan_spans p b xs (run, carry)) = (settled, run', carry')"
proof (induction xs arbitrary: ss s flw run carry)
  case (Cons x xs)
  obtain sp fo where x: "x = (sp, fo)" by (cases x)
  show ?case
  proof (cases fo)
    case None
    obtain s2 where w: "sk_write K (shown b sp) carry s = Inr s2"
      and r: "run_spans p K b xs ((ss, s2), run, carry) = Inr (settled, (ss', s'), run', carry')"
      using Cons.prems(2) by (auto simp: x None res_simps shown_def)
    have "holds s2 (flw @ tag carry (shown b sp))" by (rule writes [OF Cons.prems(1) w])
    from Cons.IH [OF this r] show ?thesis by (simp add: x None split_beta)
  next
    case (Some f)
    let ?fate = "if may_settle (pr_rule p) then fate (pr_rule p) f (sp_item sp) (sp_line sp) run else None"
    show ?thesis
    proof (cases ?fate)
      case (Some v)
      obtain ss2 where r: "region K (ba_base b + sp_start sp) (pr_len p) v (ss, s) = Inr (ss2, s')"
        and e: "settled = True" "run' = run" "carry' = carry"
        using Cons.prems(2) Some by (auto simp: x \<open>fo = Some f\<close> res_simps)
      have "pr_len p \<le> length original" by (simp add: pr_len_def assms)
      from region_holds [OF Cons.prems(1) r this]
      show ?thesis using Some e by (simp add: x \<open>fo = Some f\<close> assms)
    next
      case None
      obtain m run2 where d: "decide (pr_rule p) f (sp_item sp) (sp_line sp) run = (m, run2)"
        by (cases "decide (pr_rule p) f (sp_item sp) (sp_line sp) run")
      obtain s2 ss2 where w: "sk_write K (shown b sp) m s = Inr s2"
        and r: "run_spans p K b xs ((ss2, s2), run2, m) = Inr (settled, (ss', s'), run', carry')"
        using Cons.prems(2) None by (auto simp: x \<open>fo = Some f\<close> d res_simps shown_def)
      have "holds s2 (flw @ tag m (shown b sp))" by (rule writes [OF Cons.prems(1) w])
      from Cons.IH [OF this r] show ?thesis using None by (simp add: x \<open>fo = Some f\<close> d split_beta)
    qed
  qed
qed simp

lemma run_batches_holds:
  assumes o: "original = fr_file (pr_framed p)"
  shows "holds s flw \<Longrightarrow> run_batches p K bs ((ss, s), run, carry) = Inr (ss', s')
    \<Longrightarrow> holds s' (flw @ plan_batches p bs (run, carry))"
proof (induction bs arbitrary: ss s flw run carry)
  case (Cons b bs)
  obtain settled ss2 s2 run2 carry2 where
    r: "run_spans p K b (zip (ba_spans b) (facts_of p b)) ((ss, s), run, carry) = Inr (settled, (ss2, s2), run2, carry2)"
    and t: "(if settled then Inr (ss2, s2) else run_batches p K bs ((ss2, s2), run2, carry2)) = Inr (ss', s')"
    using Cons.prems(2) by (fastforce simp: res_simps split: if_splits)
  note h = run_spans_holds [OF o Cons.prems(1) r]
  show ?case
  proof (cases settled)
    case True
    then show ?thesis using h t by (simp add: split_beta)
  next
    case False
    then have t': "run_batches p K bs ((ss2, s2), run2, carry2) = Inr (ss', s')" using t by simp
    from Cons.IH [OF _ t'] h show ?thesis using False by (fastforce simp: split_beta)
  qed
qed simp

lemma run_pass_holds:
  assumes o: "original = fr_file (pr_framed p)" and h: "holds s []"
    and run: "run_pass p K s = Some (Inr (ss, s'))"
    and stops: "\<forall>slot b lo n. lo \<le> pr_len p \<longrightarrow> seek_first p slot b lo = Some n \<longrightarrow> n \<le> pr_len p"
  shows "\<exists>flw. plan_pass p = Some flw \<and> holds s' flw"
proof -
  have len: "length original = pr_len p" by (simp add: pr_len_def o)
  have st: "pr_start p \<le> pr_len p" by (simp add: pr_start_def)
  have reg: "holds t (flw @ plan_region p from to m)"
    if "holds s flw" "region K from to m (ss, s) = Inr (ss', t)" "to \<le> pr_len p" for s flw "from" to m ss ss' t
    using region_holds [OF that(1,2)] that(3) len by (simp add: plan_region_def o)
  show ?thesis
  proof (cases "if line_based (fr_framing (pr_framed p)) then pure_range (pr_rule p) else None")
    case (Some q)
    obtain slot frm to where q: "q = (slot, frm, to)" by (cases q)
    obtain first stop where f: "(case frm of Some f \<Rightarrow> seek_first p slot f (pr_start p) | None \<Rightarrow> Some (pr_start p)) = Some first"
      and t: "(case to of Some t \<Rightarrow> seek_first p slot t first | None \<Rightarrow> Some (pr_len p)) = Some stop"
      and r: "bind_res (region K (pr_start p) first False (stats_default, s)) (\<lambda>st.
          bind_res (region K first stop True st) (\<lambda>st. region K stop (pr_len p) False st)) = Inr (ss, s')"
      using run Some by (auto simp: run_pass_def Let_def q bind_eq_Some_conv)
    have le1: "first \<le> pr_len p" using f st stops by (auto split: option.splits)
    have le: "first \<le> pr_len p" "stop \<le> pr_len p"
      using t le1 stops by (auto split: option.splits)
    obtain s1 s2 s3 s4 where r3: "region K (pr_start p) first False (stats_default, s) = Inr (s1, s2)"
      "region K first stop True (s1, s2) = Inr (s3, s4)" "region K stop (pr_len p) False (s3, s4) = Inr (ss, s')"
      using r by (auto simp: res_simps)
    note r3h = reg [OF reg [OF reg [OF h r3(1) le(1)] r3(2) le(2)] r3(3) order_refl]
    show ?thesis using r3h f t Some by (simp add: plan_pass_def Let_def q)
  next
    case None
    obtain start bs where b: "(case (if line_based (fr_framing (pr_framed p)) then seek_bound (pr_rule p) else None) of
          Some (slot, from) \<Rightarrow> seek_first p slot from (pr_start p) | None \<Rightarrow> Some (pr_start p)) = Some start"
      and bs: "read_all (pr_framed p) (reader_at start (pr_len p) 1 1) = Some bs"
      and r: "bind_res (region K (pr_start p) start False (stats_default, s)) (\<lambda>st.
          run_batches p K bs (st, running_default, False)) = Inr (ss, s')"
      using run None by (auto simp: run_pass_def Let_def bind_eq_Some_conv split: option.splits if_splits)
    have le: "start \<le> pr_len p" using b st stops by (auto split: option.splits prod.splits if_splits)
    obtain s1 s2 where r2: "region K (pr_start p) start False (stats_default, s) = Inr (s1, s2)"
      "run_batches p K bs ((s1, s2), running_default, False) = Inr (ss, s')"
      using r by (auto simp: res_simps)
    note rh = run_batches_holds [OF o reg [OF h r2(1) le] r2(2)]
    show ?thesis using rh b bs None by (simp add: plan_pass_def Let_def)
  qed
qed

end

end
