(* ===== verification/Split_Outputs.thy ===== *)
theory Split_Outputs
  imports Split_Pass
begin

text \<open>
  The two sinks keep the contract of \<open>byte_sink\<close>; the places a binary search answers lie in the file; the
  plan of a pass always exists and has every byte once. Together: a finished \<open>run_stream\<close> has split the
  file, and the decision map of the low-space path describes the same split.
\<close>

section \<open>Where the binary search lands\<close>

lemma line_start_after_bound:
  assumes "line_start_after p pos = (Some (line, offset), buf)" "pos \<le> pr_len p"
  shows "offset \<le> length buf \<and> line \<le> pr_len p \<and> (\<forall>n. offset \<le> n \<and> n \<le> length buf \<longrightarrow> line + (n - offset) \<le> pr_len p)"
proof -
  let ?c = "fr_codec (pr_framed p)"
  let ?q = "pr_start p + codec_align ?c (pos - pr_start p)"
  have q: "?q \<le> pr_len p" using assms(2) codec_align_le [of ?c "pos - pr_start p"] by (simp add: pr_start_def)
  have buf: "buf = read_at (fr_file (pr_framed p)) ?q (min (pr_len p - ?q) (probe_bytes + head_bytes))"
    using assms(1) by (auto simp: line_start_after_def Let_def)
  then have lb: "?q + length buf \<le> pr_len p" using q by (auto simp: read_at_def pr_len_def)
  have cases: "(line, offset) = (?q, 0) \<or> (\<exists>n. find_newline ?c buf 0 = Some n \<and> (line, offset) = (?q + (n + codec_width ?c), n + codec_width ?c))"
    using assms(1) buf by (auto simp: line_start_after_def Let_def split: if_splits)
  then show ?thesis
  proof
    assume "(line, offset) = (?q, 0)"
    then show ?thesis using lb by auto
  next
    assume "\<exists>n. find_newline ?c buf 0 = Some n \<and> (line, offset) = (?q + (n + codec_width ?c), n + codec_width ?c)"
    then obtain n where n: "find_newline ?c buf 0 = Some n" "line = ?q + offset" "offset = n + codec_width ?c" by auto
    have "offset \<le> length buf" using find_newline_end [OF n(1)] n(3) by simp
    then show ?thesis using n(2) lb by auto
  qed
qed

lemma resync_loop_bound:
  "resync_loop F buf pos fi pe pb = Some n \<Longrightarrow> pos \<le> n \<and> n \<le> length buf"
proof (induction F buf pos fi pe pb rule: resync_loop.induct)
  case (1 F buf pos fi pe pb)
  obtain newline where nl: "find_newline (fr_codec F) buf pos = Some newline"
    using "1.prems" by (auto simp: resync_loop.simps [of F buf pos fi pe pb] Let_def split: option.splits)
  have le: "pos \<le> newline" "newline + codec_width (fr_codec F) \<le> length buf" "pos \<le> length buf"
    using find_newline_end [OF nl find_newline_in_range [OF nl]] find_newline_in_range [OF nl] by auto
  let ?head = "line_head F buf pos newline"
  consider "n = pos" | "line_certain F fi pe pb ?head = Some False" "resync_loop F buf (newline + codec_width (fr_codec F)) False
      (case fr_framing F of FrEndRegex re \<Rightarrow> rx_is_match re ?head | _ \<Rightarrow> False) (blank ?head) = Some n"
    using "1.prems" nl
    by (auto simp: resync_loop.simps [of F buf pos fi pe pb] Let_def split: option.splits if_splits)
  then show ?case
  proof cases
    case 2
    then have "newline + codec_width (fr_codec F) \<le> n \<and> n \<le> length buf"
      using "1.IH" [OF nl refl 2(1)] by simp
    then show ?thesis using le by simp
  qed (use le in simp)
qed

lemma probe_total:
  assumes "framing_ok (fr_framing (pr_framed p))" "pos \<le> pr_len p"
  shows "\<exists>x. probe p reader pos = Some x"
proof (cases "line_start_after p pos")
  case (Pair l buf)
  show ?thesis
  proof (cases l)
    case None
    then show ?thesis using Pair by (simp add: probe_def)
  next
    case (Some lo)
    obtain line offset where lo: "lo = (line, offset)" by (cases lo)
    have b: "offset \<le> length buf" "\<And>n. offset \<le> n \<Longrightarrow> n \<le> length buf \<Longrightarrow> line + (n - offset) \<le> pr_len p"
      using line_start_after_bound [of p pos line offset buf] Pair Some lo assms(2) by auto
    show ?thesis
    proof (cases "resync (pr_framed p) buf offset")
      case None
      then show ?thesis using Pair Some lo by (simp add: probe_def)
    next
      case (Some n)
      let ?bd = "line + (n - offset)"
      have "offset \<le> n \<and> n \<le> length buf" using Some resync_loop_bound by (simp add: resync_def)
      then have "?bd \<le> pr_len p" using b by simp
      then obtain bs where "read_all (pr_framed p) (reader_at ?bd (min (pr_len p) (?bd + probe_bytes)) 1 1) = Some bs"
        using read_all_tiles [OF assms(1), of ?bd "min (pr_len p) (?bd + probe_bytes)" 1 1] by (auto simp: pr_len_def)
      then show ?thesis using Pair \<open>l = Some lo\<close> lo Some by (simp add: probe_def Let_def)
    qed
  qed
qed

lemma narrow_bounds:
  assumes "framing_ok (fr_framing (pr_framed p))"
  shows "hi \<le> pr_len p \<Longrightarrow> lo \<le> hi \<Longrightarrow> \<exists>n. narrow p reader bound lo hi = Some n \<and> lo \<le> n \<and> n \<le> hi"
proof (induction "hi - lo" arbitrary: lo hi rule: less_induct)
  case less
  show ?case
  proof (cases "hi - lo \<le> probe_bytes")
    case True
    then show ?thesis using less.prems by (simp add: narrow.simps [of p reader bound lo hi])
  next
    case False
    let ?mid = "lo + (hi - lo) div 2"
    have mid: "lo \<le> ?mid" "?mid \<le> hi" "?mid \<le> pr_len p" "?mid - lo < hi - lo"
      using less.prems False by (auto simp: probe_bytes_def)
    obtain x where x: "probe p reader ?mid = Some x" using probe_total [OF assms mid(3)] by blast
    show ?thesis
    proof (cases "\<exists>b d. x = Some (b, d) \<and> d < bound \<and> lo < b \<and> b < hi")
      case True
      then obtain b d where b: "x = Some (b, d)" "d < bound" "lo < b" "b < hi" by blast
      then have "\<exists>n. narrow p reader bound b hi = Some n \<and> b \<le> n \<and> n \<le> hi"
        using less.prems by (intro less.hyps) auto
      then show ?thesis using x b False by (auto simp: narrow.simps [of p reader bound lo hi] Let_def)
    next
      case no: False
      have "\<exists>n. narrow p reader bound lo ?mid = Some n \<and> lo \<le> n \<and> n \<le> ?mid"
        using mid less.prems by (intro less.hyps) auto
      moreover have "narrow p reader bound lo hi = narrow p reader bound lo ?mid"
        using x no False by (auto simp: narrow.simps [of p reader bound lo hi] Let_def split: option.splits)
      ultimately show ?thesis using mid(2) by (metis order_trans)
    qed
  qed
qed

lemma scan_dates_in:
  "scan_dates F reader bound prev xs = Some n \<Longrightarrow> \<exists>b s. (b, s) \<in> set xs \<and> n = ba_base b + sp_start s"
  by (induction F reader bound prev xs rule: scan_dates.induct) (fastforce simp: Let_def split: if_splits)+

lemma first_spans_in: "(b, s) \<in> set (first_spans bs) \<Longrightarrow> b \<in> set bs \<and> s \<in> set (ba_spans b) \<and> sp_first s"
  by (auto simp: first_spans_def)

lemma span_in_spans: "b \<in> set bs \<Longrightarrow> s \<in> set (ba_spans b) \<Longrightarrow> shift_span (ba_base b) s \<in> set (spans_of bs)"
  by (auto simp: spans_of_def)

lemma whole_read:
  assumes "framing_ok (fr_framing (pr_framed p))" "lo \<le> pr_len p"
  shows "\<exists>bs n il nl. read_all (pr_framed p) (reader_at lo (pr_len p) 1 1) = Some bs
    \<and> walks (fr_codec (pr_framed p)) (fr_file (pr_framed p)) (lo, 1, 1, 1, False) (spans_of bs) (pr_len p, n, il, nl, False)
    \<and> (\<forall>b \<in> set bs. shows_file (pr_framed p) b)"
proof -
  have "pr_len p \<le> length (fr_file (pr_framed p))" by (simp add: pr_len_def)
  then show ?thesis using read_all_tiles [OF assms, of 1 1] by metis
qed

lemma seek_first_bounds:
  assumes "framing_ok (fr_framing (pr_framed p))" "lo \<le> pr_len p"
  shows "\<exists>n. seek_first p slot bound lo = Some n \<and> lo \<le> n \<and> n \<le> pr_len p"
proof -
  let ?F = "pr_framed p" let ?reader = "rl_dates (pr_rule p) ! slot"
  obtain lo' where lo': "narrow p ?reader bound lo (pr_len p) = Some lo'" "lo \<le> lo'" "lo' \<le> pr_len p"
    using narrow_bounds [OF assms(1) order_refl assms(2)] by blast
  obtain bs n il nl where bs: "read_all ?F (reader_at lo' (pr_len p) 1 1) = Some bs"
    "walks (fr_codec ?F) (fr_file ?F) (lo', 1, 1, 1, False) (spans_of bs) (pr_len p, n, il, nl, False)"
    using whole_read [OF assms(1) lo'(3)] by metis
  show ?thesis
  proof (cases "scan_dates ?F ?reader bound None (first_spans bs)")
    case None
    then show ?thesis using lo' bs(1) assms(2) by (simp add: seek_first_def)
  next
    case (Some stop)
    obtain b s where s: "(b, s) \<in> set (first_spans bs)" "stop = ba_base b + sp_start s"
      using scan_dates_in [OF Some] by blast
    then have "shift_span (ba_base b) s \<in> set (spans_of bs)" using first_spans_in span_in_spans by blast
    then have "lo' \<le> sp_start (shift_span (ba_base b) s)" "sp_start (shift_span (ba_base b) s) \<le> pr_len p"
      using walks_positions [OF bs(2)] by (fastforce dest: bspec)+
    then show ?thesis using s(2) lo' bs(1) Some by (simp add: seek_first_def shift_span_def)
  qed
qed

section \<open>The plan has every byte once\<close>

lemma plan_spans_bytes:
  assumes "shows_file (pr_framed p) b" "set sps \<subseteq> set (ba_spans b)"
    and "walks c (fr_file (pr_framed p)) (m, n, il, nl, part) (map (shift_span (ba_base b)) sps) (m', n', il', nl', part')"
    and "m' \<le> pr_len p" "length fos = length sps"
  shows "map fst (fst (plan_spans p b (zip sps fos) st)) =
    cut_bytes m (if fst (snd (plan_spans p b (zip sps fos) st)) then pr_len p else m') (fr_file (pr_framed p))"
  using assms(2,3,5)
proof (induction sps arbitrary: fos st m n il nl part)
  case Nil
  then show ?case by (simp add: cut_bytes_def)
next
  case (Cons s sps)
  let ?file = "fr_file (pr_framed p)"
  obtain fo fos' where fos: "fos = fo # fos'" using Cons.prems(3) by (cases fos) auto
  obtain run carry where st: "st = (run, carry)" by (cases st)
  let ?q = "ba_base b + sp_end s"
  obtain n2 il2 nl2 part2 where w: "walks c ?file (?q, n2, il2, nl2, part2) (map (shift_span (ba_base b)) sps) (m', n', il', nl', part')"
    and s: "m = ba_base b + sp_start s" "m \<le> ?q"
  proof -
    let ?s = "shift_span (ba_base b) s"
    obtain n2 il2 nl2 part2 where a: "after_span c ?file ?s (m, n, il, nl, part) = (?q, n2, il2, nl2, part2)"
      by (simp add: Let_def shift_span_def)
    have "span_fits ?s (m, n, il, nl, part)" using Cons.prems(2) by simp
    then have "m = ba_base b + sp_start s" "m \<le> ?q" by (simp_all add: shift_span_def)
    then show ?thesis using that [of n2 il2 nl2 part2] Cons.prems(2) a by (simp del: after_span.simps)
  qed
  have le: "?q \<le> m'" using walks_positions [OF w] by simp
  have sh: "shown b s = cut_bytes m ?q ?file"
    using assms(1) Cons.prems(1) s(1) by (simp add: shown_def shows_file_def)
  have rest: "map fst (fst (plan_spans p b (zip sps fos') st')) =
      cut_bytes ?q (if fst (snd (plan_spans p b (zip sps fos') st')) then pr_len p else m') ?file" for st'
    using Cons.IH [OF _ w, of fos' st'] Cons.prems(1,3) fos by simp
  have join: "cut_bytes m ?q ?file @ cut_bytes ?q (if x then pr_len p else m') ?file = cut_bytes m (if x then pr_len p else m') ?file" for x
    using s(2) le assms(4) by (simp add: slice_append)
  show ?case
  proof (cases fo)
    case None
    then show ?thesis using rest [of "(run, carry)"] join by (simp add: fos st sh split_beta)
  next
    case (Some f)
    show ?thesis
    proof (cases "if may_settle (pr_rule p) then fate (pr_rule p) f (sp_item s) (sp_line s) run else None")
      case settled: (Some v)
      then show ?thesis using s(1) by (simp add: fos st Some)
    next
      case None
      obtain md run2 where "decide (pr_rule p) f (sp_item s) (sp_line s) run = (md, run2)"
        by (cases "decide (pr_rule p) f (sp_item s) (sp_line s) run")
      then show ?thesis using rest [of "(run2, md)"] join None by (simp add: fos st Some sh split_beta)
    qed
  qed
qed

lemma plan_batches_bytes:
  assumes "walks c (fr_file (pr_framed p)) (m, n, il, nl, part) (spans_of bs) (pr_len p, n', il', nl', part')"
    and "\<forall>b \<in> set bs. shows_file (pr_framed p) b"
  shows "map fst (plan_batches p bs st) = cut_bytes m (pr_len p) (fr_file (pr_framed p))"
  using assms
proof (induction bs arbitrary: m n il nl part st)
  case Nil
  then show ?case by (simp add: spans_of_def cut_bytes_def)
next
  case (Cons b bs)
  let ?file = "fr_file (pr_framed p)"
  have "spans_of (b # bs) = map (shift_span (ba_base b)) (ba_spans b) @ spans_of bs" by (simp add: spans_of_def)
  then have "walks c ?file (m, n, il, nl, part) (map (shift_span (ba_base b)) (ba_spans b) @ spans_of bs)
      (pr_len p, n', il', nl', part')" using Cons.prems(1) by (simp del: walks.simps)
  then obtain x where x: "walks c ?file (m, n, il, nl, part) (map (shift_span (ba_base b)) (ba_spans b)) x"
    "walks c ?file x (spans_of bs) (pr_len p, n', il', nl', part')"
    unfolding walks_append by (elim exE conjE)
  obtain q n2 il2 nl2 part2 where q: "x = (q, n2, il2, nl2, part2)" by (cases x)
  have le: "m \<le> q" "q \<le> pr_len p"
    using walks_positions [OF x(1) [unfolded q]] walks_positions [OF x(2) [unfolded q]] by auto
  have rest: "map fst (plan_batches p bs st') = cut_bytes q (pr_len p) ?file" for st'
    using Cons.IH [OF x(2) [unfolded q]] Cons.prems(2) by simp
  have len: "length (facts_of p b) = length (ba_spans b)" by (simp add: facts_of_def)
  have "map fst (fst (plan_spans p b (zip (ba_spans b) (facts_of p b)) st)) =
      cut_bytes m (if fst (snd (plan_spans p b (zip (ba_spans b) (facts_of p b)) st)) then pr_len p else q) ?file"
    by (rule plan_spans_bytes [OF _ _ x(1) [unfolded q] le(2) len]) (use Cons.prems(2) in auto)
  then show ?case using rest le by (auto simp: split_beta slice_append)
qed

lemma plan_pass_bytes:
  assumes ok: "framing_ok (fr_framing (pr_framed p))"
  shows "\<exists>flw. plan_pass p = Some flw \<and> map fst flw = drop (pr_start p) (fr_file (pr_framed p))"
proof -
  let ?F = "pr_framed p" let ?file = "fr_file (pr_framed p)"
  have st: "pr_start p \<le> pr_len p" by (simp add: pr_start_def)
  have all: "cut_bytes (pr_start p) (pr_len p) ?file = drop (pr_start p) ?file"
    by (simp add: cut_bytes_def pr_len_def)
  show ?thesis
  proof (cases "if line_based (fr_framing ?F) then pure_range (pr_rule p) else None")
    case (Some q)
    obtain slot frm to where q: "q = (slot, frm, to)" by (cases q)
    obtain first where f: "(case frm of Some f \<Rightarrow> seek_first p slot f (pr_start p) | None \<Rightarrow> Some (pr_start p)) = Some first"
      "pr_start p \<le> first" "first \<le> pr_len p"
      using seek_first_bounds [OF ok st] st by (cases frm) auto
    obtain stop where t: "(case to of Some t \<Rightarrow> seek_first p slot t first | None \<Rightarrow> Some (pr_len p)) = Some stop"
      "first \<le> stop" "stop \<le> pr_len p"
      using seek_first_bounds [OF ok f(3)] f(3) by (cases to) auto
    have "cut_bytes (pr_start p) first ?file @ cut_bytes first stop ?file @ cut_bytes stop (pr_len p) ?file
        = drop (pr_start p) ?file"
      using f t by (simp add: slice_append all)
    then show ?thesis using Some q f(1) t(1) by (simp add: plan_pass_def Let_def plan_region_def)
  next
    case None
    obtain start where b: "(case (if line_based (fr_framing ?F) then seek_bound (pr_rule p) else None) of
          Some (slot, from) \<Rightarrow> seek_first p slot from (pr_start p) | None \<Rightarrow> Some (pr_start p)) = Some start"
      "pr_start p \<le> start" "start \<le> pr_len p"
    proof (cases "if line_based (fr_framing ?F) then seek_bound (pr_rule p) else None")
      case None
      then show ?thesis using that [of "pr_start p"] st by simp
    next
      case (Some q)
      obtain slot frm where q: "q = (slot, frm)" by (cases q)
      obtain n where "seek_first p slot frm (pr_start p) = Some n" "pr_start p \<le> n" "n \<le> pr_len p"
        using seek_first_bounds [OF ok st] by blast
      then show ?thesis using that [of n] Some q by simp
    qed
    obtain bs n il nl where bs: "read_all ?F (reader_at start (pr_len p) 1 1) = Some bs"
      "walks (fr_codec ?F) ?file (start, 1, 1, 1, False) (spans_of bs) (pr_len p, n, il, nl, False)"
      "\<forall>b \<in> set bs. shows_file ?F b"
      using whole_read [OF ok b(3)] by metis
    have "cut_bytes (pr_start p) start ?file @ cut_bytes start (pr_len p) ?file = drop (pr_start p) ?file"
      using b by (simp add: slice_append all)
    then show ?thesis
      using None b(1) bs(1) plan_batches_bytes [OF bs(2,3)] by (simp add: plan_pass_def Let_def plan_region_def)
  qed
qed

section \<open>The sinks keep the contract\<close>

definition outputs_hold :: "byte list \<Rightarrow> bool \<Rightarrow> outputs \<Rightarrow> flow \<Rightarrow> bool" where
  "outputs_hold bom with_rest u flw \<longleftrightarrow>
     of_content (ou_matched u) = bom @ map fst (filter snd flw)
     \<and> (case ou_rest u of None \<Rightarrow> \<not> with_rest
        | Some f \<Rightarrow> with_rest \<and> of_content f = bom @ map fst (filter (\<lambda>x. \<not> snd x) flw))"

lemma filter_tag [simp]:
  "filter snd (tag m bs) = (if m then tag m bs else [])"
  "filter (\<lambda>x. \<not> snd x) (tag m bs) = (if m then [] else tag m bs)"
  by (auto simp: tag_def filter_map comp_def)

lemma out_write_content: "out_write free bytes f = Inr f' \<Longrightarrow> of_content f' = of_content f @ bytes"
  by (auto simp: out_write_def Let_def split: if_splits option.splits)

lemma outputs_write_holds:
  assumes "outputs_hold bom wr u flw" "outputs_write free bytes m u = Inr u'"
  shows "outputs_hold bom wr u' (flw @ tag m bytes)"
  using assms by (auto simp: outputs_write_def outputs_hold_def res_simps out_write_content split: option.splits if_splits)

lemma outputs_region_holds:
  "outputs_hold bom wr u flw \<Longrightarrow> pos \<le> to \<Longrightarrow> to \<le> length bytes \<Longrightarrow> outputs_region free bytes pos to m u = Inr u'
   \<Longrightarrow> outputs_hold bom wr u' (flw @ tag m (cut_bytes pos to bytes))"
proof (induction free bytes pos to m u arbitrary: flw rule: outputs_region.induct)
  case (1 free bytes pos to m u)
  show ?case
  proof (cases "to \<le> pos")
    case True
    then have "u' = u" using "1.prems"(4) by (subst (asm) outputs_region.simps) simp
    then show ?thesis using "1.prems"(1,2) True by (simp add: cut_bytes_def)
  next
    case False
    let ?got = "read_at bytes pos (min (to - pos) copy_bytes)"
    obtain u2 where w: "?got \<noteq> []" "outputs_write free ?got m u = Inr u2"
      and r: "outputs_region free bytes (pos + length ?got) to m u2 = Inr u'"
      using "1.prems"(4) False by (auto simp: outputs_region.simps [of free bytes pos to m u] Let_def res_simps split: if_splits)
    have le: "pos + length ?got \<le> to" using False by (simp add: read_at_def)
    have g: "?got = cut_bytes pos (pos + length ?got) bytes"
      by (simp add: read_at_def cut_bytes_def min_def)
    have "outputs_hold bom wr u2 (flw @ tag m ?got)" by (rule outputs_write_holds [OF "1.prems"(1) w(2)])
    then have "outputs_hold bom wr u' ((flw @ tag m ?got) @ tag m (cut_bytes (pos + length ?got) to bytes))"
      using "1.IH" [OF False refl w(1) _ le "1.prems"(3) r] by blast
    then show ?thesis using g slice_append [of pos "pos + length ?got" to bytes] le
      by (simp del: tag_append add: tag_append [symmetric])
  qed
qed

interpretation outs: byte_sink "outputs_sink free original" original "outputs_hold bom with_rest"
  for free original bom with_rest
proof
  show "outputs_hold bom with_rest s' (flw @ tag m bytes)"
    if "outputs_hold bom with_rest s flw" "sk_write (outputs_sink free original) bytes m s = Inr s'" for s flw bytes m s'
    using outputs_write_holds that by (simp add: outputs_sink_def)
  show "outputs_hold bom with_rest s' (flw @ tag m (cut_bytes from to original))"
    if "outputs_hold bom with_rest s flw" "from \<le> to" "to \<le> length original"
      "sk_region (outputs_sink free original) from to m s = Inr s'" for s flw "from" to m s'
    using outputs_region_holds that by (simp add: outputs_sink_def)
  show "outputs_hold bom with_rest s (flw @ tag m bytes)"
    if "outputs_hold bom with_rest s flw" "\<not> sk_keeps (outputs_sink free original) m s" for s flw m bytes
    using that by (auto simp: outputs_sink_def outputs_keeps_def outputs_hold_def)
qed

text \<open>The decision map counts in 63 bits; longer flows are not claimed.\<close>

definition map_holds :: "map_sink \<Rightarrow> flow \<Rightarrow> bool" where
  "map_holds s flw \<longleftrightarrow> length flw < 2 ^ 63 \<longrightarrow>
     sink_ok s \<and> mp_matched s + mp_rest s = length flw \<and> expand (sink_runs s) = map snd flw"

lemma map_push_holds:
  assumes "map_holds s flw" "n = length bytes"
  shows "map_holds (map_push m n s) (flw @ tag m bytes)"
  unfolding map_holds_def
proof
  assume len: "length (flw @ tag m bytes) < 2 ^ 63"
  then have s: "sink_ok s" "mp_matched s + mp_rest s = length flw" "expand (sink_runs s) = map snd flw"
    and n: "mp_matched s + mp_rest s + n < 2 ^ 63"
    using assms by (simp_all add: map_holds_def tag_def)
  show "sink_ok (map_push m n s) \<and> mp_matched (map_push m n s) + mp_rest (map_push m n s) = length (flw @ tag m bytes)
      \<and> expand (sink_runs (map_push m n s)) = map snd (flw @ tag m bytes)"
    using map_push_runs [OF s(1) n, of m] s expand_snoc_run [of "sink_runs s" "(m, n)"] assms(2)
    by (simp add: tag_def del: snoc_run.simps) (simp add: comp_def map_replicate_const)
qed

interpretation maps: byte_sink map_sink_ops original map_holds
  for original
proof
  show "map_holds s' (flw @ tag m bytes)"
    if "map_holds s flw" "sk_write map_sink_ops bytes m s = Inr s'" for s flw bytes m s'
    using that map_push_holds [OF that(1) refl, of m bytes] by (auto simp: map_sink_ops_def map_write_def)
  show "map_holds s' (flw @ tag m (cut_bytes from to original))"
    if "map_holds s flw" "from \<le> to" "to \<le> length original" "sk_region map_sink_ops from to m s = Inr s'"
    for s flw "from" to m s'
    using that map_push_holds [OF that(1), of "to - from" "cut_bytes from to original" m]
    by (auto simp: map_sink_ops_def map_region_def)
qed (simp add: map_sink_ops_def)

section \<open>A finished separation\<close>

lemma seek_first_le:
  assumes "framing_ok (fr_framing (pr_framed p))"
  shows "\<forall>slot b lo n. lo \<le> pr_len p \<longrightarrow> seek_first p slot b lo = Some n \<longrightarrow> n \<le> pr_len p"
proof (intro allI impI)
  fix slot b lo n
  assume "lo \<le> pr_len p" "seek_first p slot b lo = Some n"
  then show "n \<le> pr_len p" using seek_first_bounds [OF assms, of lo slot b] by simp
qed

lemma run_stream_plan:
  assumes ok: "framing_ok (fr_framing (pr_framed p))"
    and run: "run_stream p free with_rest = Some (Inr (ss, u))"
  shows "\<exists>flw. plan_pass p = Some flw \<and> map fst flw = drop (pr_start p) (fr_file (pr_framed p))
    \<and> outputs_hold (take (cd_bom (fr_codec (pr_framed p))) (fr_file (pr_framed p))) with_rest u flw"
proof -
  let ?file = "fr_file (pr_framed p)"
  let ?bom = "take (cd_bom (fr_codec (pr_framed p))) ?file"
  have "outputs_hold ?bom with_rest (outputs_create with_rest ?bom) []"
    by (simp add: outputs_hold_def outputs_create_def out_create_def)
  moreover have "run_pass p (outputs_sink free ?file) (outputs_create with_rest ?bom) = Some (Inr (ss, u))"
    using run by (simp add: run_stream_def read_at_def Let_def)
  ultimately obtain flw where f: "plan_pass p = Some flw" "outputs_hold ?bom with_rest u flw"
    using outs.run_pass_holds [OF refl _ _ seek_first_le [OF ok]] by blast
  then show ?thesis using plan_pass_bytes [OF ok] by auto
qed

text \<open>C3. A separation that ends well, its separator, if it has one, not being empty and under 16 MiB, splits
  the file: every byte after the byte order mark is given to
  one side exactly, in order; the first file is the mark and the bytes of the matching side, the second,
  when it is kept, the mark and all the others.\<close>

theorem run_stream_splits:
  assumes "framing_ok (fr_framing (pr_framed p))"
    and "run_stream p free with_rest = Some (Inr (ss, u))"
  shows "\<exists>flw. plan_pass p = Some flw \<and> map fst flw = drop (pr_start p) (fr_file (pr_framed p))
    \<and> of_content (ou_matched u) = take (cd_bom (fr_codec (pr_framed p))) (fr_file (pr_framed p)) @ map fst (filter snd flw)
    \<and> (case ou_rest u of None \<Rightarrow> \<not> with_rest
       | Some f \<Rightarrow> with_rest \<and> of_content f =
           take (cd_bom (fr_codec (pr_framed p))) (fr_file (pr_framed p)) @ map fst (filter (\<lambda>x. \<not> snd x) flw))"
  using run_stream_plan [OF assms] by (auto simp: outputs_hold_def)

text \<open>C33. Both strategies make the same split of a file under \<open>2 ^ 63\<close> bytes, the separator, if there is
  one, not being empty and under 16 MiB: the decision map of the low-space path, read back, flags
  every byte with the side the one-pass strategy writes it to, whatever the free space it meets.\<close>

theorem strategies_agree:
  assumes ok: "framing_ok (fr_framing (pr_framed p))" and small: "pr_len p < 2 ^ 63"
    and stream: "run_stream p free True = Some (Inr (ss, u))"
    and parts: "run_pass p map_sink_ops map_create = Some (Inr (ss', ms))"
  shows "\<exists>flw. expand (runs_list (map_finish ms)) = map snd flw
    \<and> map fst flw = drop (pr_start p) (fr_file (pr_framed p))
    \<and> outputs_hold (take (cd_bom (fr_codec (pr_framed p))) (fr_file (pr_framed p))) True u flw"
proof -
  obtain flw where f: "plan_pass p = Some flw" "map fst flw = drop (pr_start p) (fr_file (pr_framed p))"
    "outputs_hold (take (cd_bom (fr_codec (pr_framed p))) (fr_file (pr_framed p))) True u flw"
    using run_stream_plan [OF ok stream] by blast
  have "length (map fst flw) \<le> pr_len p" by (simp add: f(2) pr_len_def)
  then have len: "length flw < 2 ^ 63" using small by simp
  have h: "map_holds map_create []"
    using sink_ok_create by (simp add: map_holds_def) (simp add: map_create_def sink_runs_def)
  obtain flw' where "plan_pass p = Some flw'" "map_holds ms flw'"
    using maps.run_pass_holds [OF refl h parts seek_first_le [OF ok]] by blast
  then have "sink_ok ms" "mp_matched ms + mp_rest ms = length flw" "expand (sink_runs ms) = map snd flw"
    using f(1) len by (auto simp: map_holds_def)
  then show ?thesis using f(2,3) map_finish_runs len by (intro exI [of _ flw]) simp
qed

text \<open>C34. A pass ends: for any framing \<open>compile_framing\<close> accepts whose separator, if it has one, is under the
  16 MiB of a piece, and for any rule and sink, no loop runs for ever and no slice is out of range, so the
  pass answers with the sink it reached or the error of a write. Relied on: an encoder of a legacy
  encoding writes some byte for a text it can write.\<close>

theorem run_pass_ends:
  assumes accepted: "compile_framing w detect legacy spec (fr_codec (pr_framed p)) text ctx = Inr (fr_framing (pr_framed p))"
    and law: "encoder_law legacy" and short: "separator_short (fr_framing (pr_framed p))"
  shows "\<exists>result. run_pass p K s = Some result"
proof -
  note ok = compile_framing_ok [OF accepted law short]
  have st: "pr_start p \<le> pr_len p" by (simp add: pr_start_def)
  note seek = seek_first_bounds [OF ok]
  show ?thesis
  proof (cases "if line_based (fr_framing (pr_framed p)) then pure_range (pr_rule p) else None")
    case (Some q)
    obtain slot frm to where q: "q = (slot, frm, to)" by (cases q)
    obtain first where f: "(case frm of Some f \<Rightarrow> seek_first p slot f (pr_start p) | None \<Rightarrow> Some (pr_start p)) = Some first"
      "first \<le> pr_len p" using seek [OF st] st by (cases frm) auto
    obtain stop where "(case to of Some t \<Rightarrow> seek_first p slot t first | None \<Rightarrow> Some (pr_len p)) = Some stop"
      using seek [OF f(2)] by (cases to) auto
    then show ?thesis using Some q f(1) by (simp add: run_pass_def Let_def)
  next
    case None
    obtain start where b: "(case (if line_based (fr_framing (pr_framed p)) then seek_bound (pr_rule p) else None) of
          Some (slot, from) \<Rightarrow> seek_first p slot from (pr_start p) | None \<Rightarrow> Some (pr_start p)) = Some start"
      "start \<le> pr_len p"
      using seek [OF st] st
      by (cases "if line_based (fr_framing (pr_framed p)) then seek_bound (pr_rule p) else None") fastforce+
    obtain bs where "read_all (pr_framed p) (reader_at start (pr_len p) 1 1) = Some bs"
      using whole_read [OF ok b(2)] by blast
    then show ?thesis using None b(1) by (simp add: run_pass_def Let_def)
  qed
qed

text \<open>The file \<open>a, line feed, b\<close>, its first item kept.\<close>

definition first_item_spec :: rule_spec where
  "first_item_spec = \<lparr>rs_combine = CombineAll,
     rs_conditions = [\<lparr>cn_negate = False, cn_test = TOrdinal UnitItem None (Some 1)\<rparr>], rs_sorted = False\<rparr>"

definition first_item_rule :: rule where
  "first_item_rule = \<lparr>rl_all = True, rl_sorted = False,
     rl_conds = [\<lparr>cd_negate = False, cd_kind = KOrdinal False None (Some 1)\<rparr>], rl_dates = []\<rparr>"

definition two_lines :: prepared where
  "two_lines = \<lparr>pr_framed = plain_framed FrLine [97, 10, 98], pr_rule = first_item_rule\<rparr>"

definition two_outputs :: outputs where
  "two_outputs = \<lparr>ou_matched = \<lparr>of_content = [97, 10], of_bytes = 2, of_unchecked = 2\<rparr>,
     ou_rest = Some \<lparr>of_content = [98], of_bytes = 1, of_unchecked = 1\<rparr>\<rparr>"

definition two_stats :: stats where
  "two_stats = \<lparr>ss_items = 1, ss_matched_items = 1, ss_undated = 0, ss_oversized = 0, ss_region_bytes = 1\<rparr>"

definition two_map :: map_sink where
  "two_map = \<lparr>mp_out = to_le_bytes (map_word True 2), mp_run = Some (False, 1), mp_matched = 2, mp_rest = 1\<rparr>"

lemma two_lines_ok: "framing_ok (fr_framing (pr_framed two_lines))"
  by (simp add: two_lines_def plain_framed_def framing_ok_def)

lemma two_lines_stream: "run_stream two_lines (\<lambda>_. None) True = Some (Inr (two_stats, two_outputs))"
  by code_simp

theorem run_stream_splits_witness:
  "\<exists>flw. plan_pass two_lines = Some flw \<and> map fst flw = [97, 10, 98]
    \<and> [97, 10] = map fst (filter snd flw) \<and> [98] = map fst (filter (\<lambda>x. \<not> snd x) flw)"
proof -
  have e: "drop (pr_start two_lines) (fr_file (pr_framed two_lines)) = [97, 10, 98]"
    "take (cd_bom (fr_codec (pr_framed two_lines))) (fr_file (pr_framed two_lines)) = []" by code_simp+
  show ?thesis using run_stream_splits [OF two_lines_ok two_lines_stream] unfolding e
    by (simp add: two_outputs_def)
qed

theorem strategies_agree_witness:
  "\<exists>flw :: flow. expand (runs_list (map_finish two_map)) = map snd flw \<and> map fst flw = [97, 10, 98]"
proof -
  have small: "pr_len two_lines < 2 ^ 63" by (simp add: pr_len_def two_lines_def plain_framed_def)
  have parts: "run_pass two_lines map_sink_ops map_create = Some (Inr (two_stats, two_map))" by code_simp
  have f: "drop (pr_start two_lines) (fr_file (pr_framed two_lines)) = [97, 10, 98]" by code_simp
  show ?thesis using strategies_agree [OF two_lines_ok small two_lines_stream parts] unfolding f
    by (elim exE conjE) (intro exI conjI)
qed

text \<open>The separator \<open>;\<close> typed for a UTF-8 file, and an encoder that can write nothing.\<close>

definition split_at_semicolon :: prepared where
  "split_at_semicolon = \<lparr>pr_framed = plain_framed (FrDelimiter [59]) [97, 59, 98], pr_rule = first_item_rule\<rparr>"

theorem run_pass_ends_witness: "\<exists>result. run_pass split_at_semicolon map_sink_ops map_create = Some result"
proof -
  have "compile_framing plain_world (\<lambda>_. None) (\<lambda>_ _. ([], True)) (FsDelimiter [59])
      (fr_codec (pr_framed split_at_semicolon)) [] sample_ctx = Inr (fr_framing (pr_framed split_at_semicolon))"
    by (simp add: compile_framing_def split_at_semicolon_def plain_framed_def codec_encode_def as_bytes_def
        encode_char_def res_simps)
  moreover have "encoder_law (\<lambda>_ _. ([], True))" by (simp add: encoder_law_def)
  moreover have "separator_short (fr_framing (pr_framed split_at_semicolon))"
    by (simp add: separator_short_def split_at_semicolon_def plain_framed_def max_item_def)
  ultimately show ?thesis by (rule run_pass_ends)
qed

end
