(* ===== verification/Split_Scan.thy ===== *)
theory Split_Scan
  imports Split_Outputs
begin

text \<open>
  The pass against the scan: \<open>full_flow\<close> decides every item of the file and skips none. A pass that does
  not jump writes the same flow although it stops framing once a fate is known; a date range over a
  chronological file is three runs of items, as the two binary searches assume, unless the file begins
  with items that have no date.
\<close>

section \<open>The scan\<close>

type_synonym piece_item = "byte list \<times> fact_item option"

fun full_flow :: "rule \<Rightarrow> piece_item list \<Rightarrow> running \<times> bool \<Rightarrow> flow" where
  "full_flow r [] st = []"
| "full_flow r ((bs, None) # rest) (run, carry) = tag carry bs @ full_flow r rest (run, carry)"
| "full_flow r ((bs, Some (f, item, line)) # rest) (run, carry) =
     (let (m, run) = decide r f item line run in tag m bs @ full_flow r rest (run, m))"

definition pieces_of :: "prepared \<Rightarrow> batch \<Rightarrow> span list \<Rightarrow> piece_item list" where
  "pieces_of p b sps = map (\<lambda>s. (shown b s, if sp_first s
     then Some (rule_facts (fr_world (pr_framed p)) (pr_rule p) (span_text (pr_framed p) b s), sp_item s, sp_line s)
     else None)) sps"

definition items_of :: "prepared \<Rightarrow> batch list \<Rightarrow> piece_item list" where
  "items_of p bs = concat (map (\<lambda>b. pieces_of p b (ba_spans b)) bs)"

definition fact_items :: "piece_item list \<Rightarrow> fact_item list" where
  "fact_items xs = List.map_filter snd xs"

lemma fact_items_simps [simp]:
  "fact_items [] = []" "fact_items ((bs, None) # xs) = fact_items xs"
  "fact_items ((bs, Some x) # xs) = x # fact_items xs" "fact_items (a @ b) = fact_items a @ fact_items b"
  by (simp_all add: fact_items_def List.map_filter_simps) (simp add: List.map_filter_def)

lemma full_flow_settled:
  "decide_seq r run (fact_items xs) = replicate (length (fact_items xs)) b \<Longrightarrow> full_flow r xs (run, b) = tag b (concat (map fst xs))"
proof (induction xs arbitrary: run)
  case (Cons x xs)
  obtain bs o1 where x: "x = (bs, o1)" by (cases x)
  show ?case
  proof (cases o1)
    case None
    then show ?thesis using Cons by (simp add: x)
  next
    case (Some y)
    obtain f i l where y: "y = (f, i, l)" by (cases y)
    have "fst (decide r f i l run) = b"
      "decide_seq r (snd (decide r f i l run)) (fact_items xs) = replicate (length (fact_items xs)) b"
      using Cons.prems by (simp_all add: x Some y)
    then show ?thesis using Cons.IH by (simp add: x Some y split_beta)
  qed
qed simp

subsection \<open>Order of positions and dates\<close>

fun positions_from :: "nat \<Rightarrow> nat \<Rightarrow> (nat \<times> nat) list \<Rightarrow> bool" where
  "positions_from i l [] = True"
| "positions_from i l ((i', l') # ps) \<longleftrightarrow> i \<le> i' \<and> l \<le> l' \<and> positions_from i' l' ps"

fun dates_in_order :: "rule \<Rightarrow> running \<Rightarrow> fact_item list \<Rightarrow> bool" where
  "dates_in_order r run [] = True"
| "dates_in_order r run ((f, item, line) # rest) =
     (list_all (\<lambda>s. case ru_last run ! s of None \<Rightarrow> True
        | Some a \<Rightarrow> (case fa_dates f ! s of None \<Rightarrow> True | Some d \<Rightarrow> a \<le> d)) [0..<length (rl_dates r)]
      \<and> dates_in_order r (snd (decide r f item line run)) rest)"

lemma chronological_iff:
  "chronological r run i l xs \<longleftrightarrow> positions_from i l (map snd xs) \<and> (rl_sorted r \<longrightarrow> dates_in_order r run xs)"
  by (induction r run i l xs rule: chronological.induct) auto

lemma positions_from_mono: "positions_from i l ps \<Longrightarrow> i0 \<le> i \<Longrightarrow> l0 \<le> l \<Longrightarrow> positions_from i0 l0 ps"
  by (cases ps) auto

lemma walks_positions_from:
  "walks c bytes (p, n, il, nl, part) ss m' \<Longrightarrow> il \<le> nl \<Longrightarrow>
   positions_from n il (map (\<lambda>s. (sp_item s, sp_line s)) (filter sp_first ss))"
proof (induction ss arbitrary: p n il nl part)
  case (Cons s ss)
  let ?nl = "nl + count_newlines c (cut_bytes p (sp_end s) bytes)"
  have s: "sp_item s = n" "sp_line s = il"
    and w: "walks c bytes (sp_end s, if sp_last s then n + 1 else n, if sp_last s then ?nl else il, ?nl, \<not> sp_last s) ss m'"
    using Cons.prems(1) by (auto simp: Let_def)
  have "positions_from (if sp_last s then n + 1 else n) (if sp_last s then ?nl else il)
      (map (\<lambda>s. (sp_item s, sp_line s)) (filter sp_first ss))"
    using Cons.IH [OF w] Cons.prems(2) by simp
  then have "positions_from n il (map (\<lambda>s. (sp_item s, sp_line s)) (filter sp_first ss))"
    by (rule positions_from_mono) (use Cons.prems(2) in auto)
  then show ?case using s by simp
qed simp

lemma items_of_positions:
  "map snd (fact_items (items_of p bs)) = map (\<lambda>s. (sp_item s, sp_line s)) (filter sp_first (spans_of bs))"
proof -
  have one: "map snd (fact_items (pieces_of p b ss)) = map (\<lambda>s. (sp_item s, sp_line s)) (filter sp_first ss)" for b ss
    by (induction ss) (auto simp: pieces_of_def)
  have sh: "map (\<lambda>s. (sp_item s, sp_line s)) (filter sp_first (map (shift_span n) ss)) =
      map (\<lambda>s. (sp_item s, sp_line s)) (filter sp_first ss)" for n ss
    by (induction ss) (auto simp: shift_span_def)
  show ?thesis by (induction bs) (simp_all add: items_of_def spans_of_def one sh)
qed

subsection \<open>The pass without a jump\<close>

text \<open>What the spans of one batch leave: the flow so far and, when a fate was met, the whole rest.\<close>

lemma plan_spans_full:
  assumes ok: "rule_ok (pr_rule p)" and sf: "shows_file (pr_framed p) b" "set sps \<subseteq> set (ba_spans b)"
    and w: "walks c (fr_file (pr_framed p)) (m, n, il, nl, part) (map (shift_span (ba_base b)) sps) (m', n', il', nl', part')"
    and rest: "concat (map fst rest) = cut_bytes m' (pr_len p) (fr_file (pr_framed p))" "m' \<le> pr_len p"
    and ru: "length (ru_last run) = max_dates"
    and chron: "chronological (pr_rule p) run i0 l0 (fact_items (pieces_of p b sps @ rest))"
    and plan: "plan_spans p b (zip sps (map (\<lambda>s. if sp_first s
        then Some (rule_facts (fr_world (pr_framed p)) (pr_rule p) (span_text (pr_framed p) b s)) else None) sps)) (run, carry)
      = (flw, settled, run', carry')"
  shows "full_flow (pr_rule p) (pieces_of p b sps @ rest) (run, carry) =
      flw @ (if settled then [] else full_flow (pr_rule p) rest (run', carry'))
    \<and> (\<not> settled \<longrightarrow> length (ru_last run') = max_dates
        \<and> (\<exists>i l. chronological (pr_rule p) run' i l (fact_items rest)))"
  using sf(2) w ru chron plan
proof (induction sps arbitrary: m n il nl part run carry flw i0 l0)
  case Nil
  then show ?case by (auto simp: pieces_of_def)
next
  case (Cons s sps)
  let ?file = "fr_file (pr_framed p)" let ?r = "pr_rule p"
  let ?f = "rule_facts (fr_world (pr_framed p)) ?r (span_text (pr_framed p) b s)"
  let ?fo = "\<lambda>s. if sp_first s then Some (rule_facts (fr_world (pr_framed p)) ?r (span_text (pr_framed p) b s)) else None"
  let ?q = "ba_base b + sp_end s"
  let ?s = "shift_span (ba_base b) s"
  obtain n2 il2 nl2 part2 where a: "after_span c ?file ?s (m, n, il, nl, part) = (?q, n2, il2, nl2, part2)"
    by (simp add: Let_def shift_span_def)
  have w2: "walks c ?file (?q, n2, il2, nl2, part2) (map (shift_span (ba_base b)) sps) (m', n', il', nl', part')"
    using Cons.prems(2) a by (simp del: after_span.simps)
  have "span_fits ?s (m, n, il, nl, part)" using Cons.prems(2) by simp
  then have mq: "m = ba_base b + sp_start s" "m \<le> ?q" by (simp_all add: shift_span_def)
  have sub: "set sps \<subseteq> set (ba_spans b)" using Cons.prems(1) by simp
  have pc: "pieces_of p b (s # sps) = (shown b s, map_option (\<lambda>f. (f, sp_item s, sp_line s)) (?fo s)) # pieces_of p b sps"
    by (simp add: pieces_of_def)
  have whole: "concat (map fst (pieces_of p b (s # sps) @ rest)) = cut_bytes m (pr_len p) ?file"
  proof -
    have "map fst (pieces_of p b (s # sps)) = map (\<lambda>s. cut_bytes (sp_start s) (sp_end s) ?file) (map (shift_span (ba_base b)) (s # sps))"
      using sf(1) Cons.prems(1) by (auto simp: pieces_of_def shown_def shows_file_def shift_span_def)
    then show ?thesis using walks_positions [OF Cons.prems(2)] rest by (simp add: slice_append del: list.map)
  qed
  show ?case
  proof (cases "sp_first s")
    case False
    obtain flw2 where p2: "plan_spans p b (zip sps (map ?fo sps)) (run, carry) = (flw2, settled, run', carry')"
      and f2: "flw = tag carry (shown b s) @ flw2"
      using Cons.prems(5) False by (auto split: prod.splits)
    have "chronological ?r run i0 l0 (fact_items (pieces_of p b sps @ rest))" using Cons.prems(4) False by (simp add: pc)
    from Cons.IH [OF sub w2 Cons.prems(3) this p2] show ?thesis using False f2 by (simp add: pc)
  next
    case True
    let ?fate = "if may_settle ?r then fate ?r ?f (sp_item s) (sp_line s) run else None"
    have ch: "chronological ?r run i0 l0 ((?f, sp_item s, sp_line s) # fact_items (pieces_of p b sps @ rest))"
      using Cons.prems(4) True by (simp add: pc)
    show ?thesis
    proof (cases ?fate)
      case (Some v)
      then have fv: "fate ?r ?f (sp_item s) (sp_line s) run = Some v" by (auto split: if_splits)
      have pl: "flw = tag v (cut_bytes m (pr_len p) ?file)" "settled"
        using Cons.prems(5) True Some mq(1) by auto
      have seq: "decide_seq ?r run ((?f, sp_item s, sp_line s) # fact_items (pieces_of p b sps @ rest))
          = replicate (Suc (length (fact_items (pieces_of p b sps @ rest)))) v"
      proof (rule fate_settles [OF ok Cons.prems(3) fv])
        show "chronological ?r (snd (decide ?r ?f (sp_item s) (sp_line s) run)) (sp_item s) (sp_line s)
            (fact_items (pieces_of p b sps @ rest))" using ch by simp
      qed
      then have d: "fst (decide ?r ?f (sp_item s) (sp_line s) run) = v" by simp
      have "full_flow ?r (pieces_of p b (s # sps) @ rest) (run, carry) =
          tag v (shown b s) @ full_flow ?r (pieces_of p b sps @ rest) (snd (decide ?r ?f (sp_item s) (sp_line s) run), v)"
        using True d by (simp add: pc split_beta)
      also have "\<dots> = tag v (shown b s) @ tag v (concat (map fst (pieces_of p b sps @ rest)))"
        using full_flow_settled [of ?r _ "pieces_of p b sps @ rest" v] seq by simp
      also have "\<dots> = tag v (concat (map fst (pieces_of p b (s # sps) @ rest)))" by (simp add: pc)
      finally have "full_flow ?r (pieces_of p b (s # sps) @ rest) (run, carry) = flw" unfolding whole pl(1) .
      then show ?thesis using pl(2) by simp
    next
      case None
      obtain md run2 where d: "decide ?r ?f (sp_item s) (sp_line s) run = (md, run2)"
        by (cases "decide ?r ?f (sp_item s) (sp_line s) run")
      obtain flw2 where p2: "plan_spans p b (zip sps (map ?fo sps)) (run2, md) = (flw2, settled, run', carry')"
        and f2: "flw = tag md (shown b s) @ flw2"
        using Cons.prems(5) True None d by (auto split: prod.splits)
      have "chronological ?r run2 (sp_item s) (sp_line s) (fact_items (pieces_of p b sps @ rest))" using ch d by simp
      moreover have "length (ru_last run2) = max_dates"
        using Cons.prems(3) d decide_last [of ?r ?f "sp_item s" "sp_line s" run] by simp
      ultimately show ?thesis using Cons.IH [OF sub w2 _ _ p2] True f2 d by (simp add: pc)
    qed
  qed
qed

text \<open>The bytes of the items from a batch on.\<close>

lemma items_of_bytes:
  assumes "walks c (fr_file (pr_framed p)) (m, n, il, nl, part) (spans_of bs) (m', n', il', nl', part')"
    and "\<forall>b \<in> set bs. shows_file (pr_framed p) b"
  shows "concat (map fst (items_of p bs)) = cut_bytes m m' (fr_file (pr_framed p))"
proof -
  have one: "map fst (pieces_of p b (ba_spans b)) =
      map (\<lambda>s. cut_bytes (sp_start s) (sp_end s) (fr_file (pr_framed p))) (map (shift_span (ba_base b)) (ba_spans b))"
    if "b \<in> set bs" for b
    using assms(2) that by (auto simp: pieces_of_def shown_def shows_file_def shift_span_def)
  have "map fst (items_of p bs) = map (\<lambda>s. cut_bytes (sp_start s) (sp_end s) (fr_file (pr_framed p))) (spans_of bs)"
    using one by (induction bs) (auto simp: items_of_def spans_of_def)
  then show ?thesis using walks_positions [OF assms(1)] by simp
qed

lemma plan_batches_full:
  assumes ok: "rule_ok (pr_rule p)"
  shows "walks c (fr_file (pr_framed p)) (m, n, il, nl, part) (spans_of bs) (pr_len p, n', il', nl', part') \<Longrightarrow>
    \<forall>b \<in> set bs. shows_file (pr_framed p) b \<Longrightarrow> length (ru_last run) = max_dates \<Longrightarrow>
    chronological (pr_rule p) run i0 l0 (fact_items (items_of p bs)) \<Longrightarrow>
    plan_batches p bs (run, carry) = full_flow (pr_rule p) (items_of p bs) (run, carry)"
proof (induction bs arbitrary: m n il nl part run carry i0 l0)
  case Nil
  then show ?case by (simp add: items_of_def)
next
  case (Cons b bs)
  let ?file = "fr_file (pr_framed p)"
  have "spans_of (b # bs) = map (shift_span (ba_base b)) (ba_spans b) @ spans_of bs" by (simp add: spans_of_def)
  then have "walks c ?file (m, n, il, nl, part) (map (shift_span (ba_base b)) (ba_spans b) @ spans_of bs)
      (pr_len p, n', il', nl', part')" using Cons.prems(1) by (simp del: walks.simps)
  then obtain x where x: "walks c ?file (m, n, il, nl, part) (map (shift_span (ba_base b)) (ba_spans b)) x"
    "walks c ?file x (spans_of bs) (pr_len p, n', il', nl', part')"
    unfolding walks_append by (elim exE conjE)
  obtain q n2 il2 nl2 part2 where q: "x = (q, n2, il2, nl2, part2)" by (cases x)
  have le: "q \<le> pr_len p" using walks_positions [OF x(2) [unfolded q]] by simp
  have sf: "shows_file (pr_framed p) b" "\<forall>b \<in> set bs. shows_file (pr_framed p) b" using Cons.prems(2) by auto
  have items: "items_of p (b # bs) = pieces_of p b (ba_spans b) @ items_of p bs" by (simp add: items_of_def)
  obtain flw settled run' carry' where plan: "plan_spans p b (zip (ba_spans b) (facts_of p b)) (run, carry) = (flw, settled, run', carry')"
    by (cases "plan_spans p b (zip (ba_spans b) (facts_of p b)) (run, carry)")
  have h: "full_flow (pr_rule p) (items_of p (b # bs)) (run, carry) =
      flw @ (if settled then [] else full_flow (pr_rule p) (items_of p bs) (run', carry'))
    \<and> (\<not> settled \<longrightarrow> length (ru_last run') = max_dates
        \<and> (\<exists>i l. chronological (pr_rule p) run' i l (fact_items (items_of p bs))))"
    unfolding items
    by (rule plan_spans_full [OF ok sf(1) order_refl x(1) [unfolded q] items_of_bytes [OF x(2) [unfolded q] sf(2)] le
        Cons.prems(3) Cons.prems(4) [unfolded items] plan [unfolded facts_of_def]])
  show ?case
  proof (cases settled)
    case True
    then show ?thesis using h plan by simp
  next
    case False
    then obtain i l where "length (ru_last run') = max_dates" "chronological (pr_rule p) run' i l (fact_items (items_of p bs))"
      using h by blast
    then have "plan_batches p bs (run', carry') = full_flow (pr_rule p) (items_of p bs) (run', carry')"
      by (rule Cons.IH [OF x(2) [unfolded q] sf(2)])
    then show ?thesis using h plan False by simp
  qed
qed

text \<open>The plan of such a pass is the scan.\<close>

lemma plan_pass_scans:
  assumes fok: "framing_ok (fr_framing (pr_framed p))"
    and rule: "rule_compile w spec ctx = Inr (pr_rule p)"
    and jump: "line_based (fr_framing (pr_framed p)) \<longrightarrow> pure_range (pr_rule p) = None \<and> seek_bound (pr_rule p) = None"
    and read: "read_all (pr_framed p) (reader_at (pr_start p) (pr_len p) 1 1) = Some bs"
    and dates: "rl_sorted (pr_rule p) \<longrightarrow> dates_in_order (pr_rule p) running_default (fact_items (items_of p bs))"
  shows "plan_pass p = Some (full_flow (pr_rule p) (items_of p bs) (running_default, False))"
proof -
  have st: "pr_start p \<le> pr_len p" by (simp add: pr_start_def)
  obtain n il nl where w: "walks (fr_codec (pr_framed p)) (fr_file (pr_framed p)) (pr_start p, 1, 1, 1, False) (spans_of bs)
      (pr_len p, n, il, nl, False)" "\<forall>b \<in> set bs. shows_file (pr_framed p) b"
    using whole_read [OF fok st] read by auto
  have "positions_from 1 1 (map snd (fact_items (items_of p bs)))"
    unfolding items_of_positions by (rule walks_positions_from [OF w(1)]) simp
  then have c: "chronological (pr_rule p) running_default 1 1 (fact_items (items_of p bs))"
    using dates by (simp add: chronological_iff)
  have "length (ru_last running_default) = max_dates" by (simp add: running_default_def)
  from plan_batches_full [OF conjunct1 [OF rule_compile_ok [OF rule]] w this c, of False]
  show ?thesis using jump read by (auto simp: plan_pass_def Let_def plan_region_def cut_bytes_def)
qed

text \<open>C8. Where no binary search applies, and the dates of the file do not go back if the rule says the file
  is sorted, a separation that ends well writes to each output what deciding every item of the file
  would: stopping at a known fate and writing the rest as one region changes no byte's side. The
  separator, if there is one, is not empty and under 16 MiB.\<close>

theorem pass_decides_every_item:
  assumes "framing_ok (fr_framing (pr_framed p))"
    and "rule_compile w spec ctx = Inr (pr_rule p)"
    and "line_based (fr_framing (pr_framed p)) \<longrightarrow> pure_range (pr_rule p) = None \<and> seek_bound (pr_rule p) = None"
    and "read_all (pr_framed p) (reader_at (pr_start p) (pr_len p) 1 1) = Some bs"
    and "rl_sorted (pr_rule p) \<longrightarrow> dates_in_order (pr_rule p) running_default (fact_items (items_of p bs))"
    and "run_stream p free with_rest = Some (Inr (ss, u))"
  shows "outputs_hold (take (cd_bom (fr_codec (pr_framed p))) (fr_file (pr_framed p))) with_rest u
    (full_flow (pr_rule p) (items_of p bs) (running_default, False))"
  using run_stream_plan [OF assms(1,6)] plan_pass_scans [OF assms(1-5)] by auto

definition two_batches :: "batch list" where
  "two_batches =
     [\<lparr>ba_data = [97, 10], ba_base = 0, ba_spans =
        [\<lparr>sp_start = 0, sp_end = 2, sp_item = 1, sp_line = 1, sp_first = True, sp_last = True\<rparr>]\<rparr>,
      \<lparr>ba_data = [98], ba_base = 2, ba_spans =
        [\<lparr>sp_start = 0, sp_end = 1, sp_item = 2, sp_line = 2, sp_first = True, sp_last = True\<rparr>]\<rparr>]"

theorem pass_decides_every_item_witness:
  "outputs_hold [] True two_outputs [(97, True), (10, True), (98, False)]"
proof -
  have rule: "rule_compile plain_world first_item_spec sample_ctx = Inr (pr_rule two_lines)"
    by (simp add: rule_compile_def first_item_spec_def first_item_rule_def two_lines_def max_conditions_def)
  have read: "read_all (pr_framed two_lines) (reader_at (pr_start two_lines) (pr_len two_lines) 1 1) = Some two_batches"
    by code_simp
  have jump: "line_based (fr_framing (pr_framed two_lines)) \<longrightarrow>
      pure_range (pr_rule two_lines) = None \<and> seek_bound (pr_rule two_lines) = None" by code_simp
  have dates: "rl_sorted (pr_rule two_lines) \<longrightarrow>
      dates_in_order (pr_rule two_lines) running_default (fact_items (items_of two_lines two_batches))" by code_simp
  have flow: "full_flow (pr_rule two_lines) (items_of two_lines two_batches) (running_default, False)
      = [(97, True), (10, True), (98, False)]" by code_simp
  have bom: "take (cd_bom (fr_codec (pr_framed two_lines))) (fr_file (pr_framed two_lines)) = []" by code_simp
  show ?thesis
    using pass_decides_every_item [OF two_lines_ok rule jump read dates two_lines_stream] unfolding flow bom .
qed

section \<open>A date range\<close>

text \<open>What the items of a date range decide, from the dates in force.\<close>

lemma range_rule_decides:
  assumes "pure_range r = Some (slot, frm, to)" "rule_ok r" "length (ru_last run) = max_dates"
  shows "decide_seq r run items =
    map (\<lambda>d. case d of None \<Rightarrow> False | Some d \<Rightarrow> in_dates frm to d) (effective slot (ru_last run ! slot) items)"
proof -
  obtain c where c: "rl_conds r = [c]" "cd_kind c = KDate slot frm to Previous" "\<not> cd_negate c"
    using assms(1) by (auto simp: pure_range_def split: list.splits kind.splits missing.splits if_splits)
  have slot: "slot < length (rl_dates r)" using rule_ok_slot [OF assms(2) _ c(2)] c(1) by simp
  have one: "fst (decide r f i l run) = (case or_opt (fa_dates f ! slot) (ru_last run ! slot) of
      None \<Rightarrow> False | Some d \<Rightarrow> in_dates frm to d)" for f i l run
    by (cases "rl_all r") (auto simp: decide_all decide_any c hit_of_def or_opt_def split: option.splits)
  show ?thesis using assms(3)
  proof (induction items arbitrary: run)
    case (Cons x items)
    obtain f i l where x: "x = (f, i, l)" by (cases x)
    show ?case
      using Cons.IH [of "snd (decide r f i l run)"] Cons.prems decide_last_nth [OF assms(2) slot Cons.prems]
      by (simp add: x one)
  qed simp
qed

text \<open>The number of items a binary search for \<open>bound\<close> passes over, starting after the first \<open>n\<close>.\<close>

definition seek_items :: "int \<Rightarrow> int option list \<Rightarrow> nat \<Rightarrow> nat" where
  "seek_items bound ds n = n + length (takeWhile (\<lambda>d. \<not> reaches bound d) (drop n ds))"

text \<open>The three regions \<open>run\<close> writes for a range, as item counts.\<close>

definition range_regions :: "int option \<Rightarrow> int option \<Rightarrow> int option list \<Rightarrow> bool list" where
  "range_regions frm to ds =
     (let a = (case frm of Some f \<Rightarrow> seek_items f ds 0 | None \<Rightarrow> 0);
          b = (case to of Some t \<Rightarrow> seek_items t ds a | None \<Rightarrow> length ds)
      in replicate a False @ replicate (b - a) True @ replicate (length ds - b) False)"

fun dates_rise :: "int option list \<Rightarrow> bool" where
  "dates_rise [] = True"
| "dates_rise [d] = True"
| "dates_rise (d # e # ds) =
     ((case d of None \<Rightarrow> True | Some x \<Rightarrow> (case e of None \<Rightarrow> False | Some y \<Rightarrow> x \<le> y)) \<and> dates_rise (e # ds))"

lemma rise_reaches: "dates_rise (d # ds) \<Longrightarrow> reaches b d \<Longrightarrow> e \<in> set ds \<Longrightarrow> reaches b e"
proof (induction ds arbitrary: d)
  case (Cons x ds)
  have "reaches b x" using Cons.prems(1,2) by (auto simp: reaches_def split: option.splits)
  then show ?case using Cons by auto
qed simp

lemma rise_tl: "dates_rise (d # ds) \<Longrightarrow> dates_rise ds"
  by (cases ds) auto

lemma after_seek:
  "dates_rise ds \<Longrightarrow> map (reaches b) ds = replicate (length (takeWhile (\<lambda>d. \<not> reaches b d) ds)) False
     @ replicate (length ds - length (takeWhile (\<lambda>d. \<not> reaches b d) ds)) True"
proof (induction ds)
  case (Cons d ds)
  show ?case
  proof (cases "reaches b d")
    case True
    then have "map (reaches b) ds = replicate (length ds) True"
      using rise_reaches [OF Cons.prems True] by (simp add: map_replicate_const [symmetric])
    then show ?thesis using True by simp
  next
    case False
    then show ?thesis using Cons.IH [OF rise_tl [OF Cons.prems]] by simp
  qed
qed simp

lemma rise_drop: "dates_rise ds \<Longrightarrow> dates_rise (drop n ds)"
proof (induction n arbitrary: ds)
  case (Suc n)
  then show ?case by (cases ds) (auto dest: rise_tl)
qed simp

lemma rise_dated: "dates_rise (d # ds) \<Longrightarrow> d \<noteq> None \<Longrightarrow> e \<in> set ds \<Longrightarrow> e \<noteq> None"
proof (induction ds arbitrary: d)
  case (Cons x ds)
  have "x \<noteq> None" using Cons.prems(1,2) by (auto split: option.splits)
  then show ?case using Cons by auto
qed simp

definition in_range_opt :: "int option \<Rightarrow> int option \<Rightarrow> int option \<Rightarrow> bool" where
  "in_range_opt frm to d = (case d of None \<Rightarrow> False | Some x \<Rightarrow> in_dates frm to x)"

lemma in_range_reaches:
  "d \<noteq> None \<Longrightarrow> in_range_opt frm to d \<longleftrightarrow>
     (case frm of None \<Rightarrow> True | Some f \<Rightarrow> reaches f d) \<and> (case to of None \<Rightarrow> True | Some t \<Rightarrow> \<not> reaches t d)"
  by (auto simp: in_range_opt_def in_dates_def reaches_def split: option.splits)

lemma before_seek: "map (in_range_opt (Some f) to) (takeWhile (\<lambda>d. \<not> reaches f d) ds)
    = replicate (length (takeWhile (\<lambda>d. \<not> reaches f d) ds)) False"
proof -
  have "\<not> in_range_opt (Some f) to d" if "d \<in> set (takeWhile (\<lambda>d. \<not> reaches f d) ds)" for d
    using set_takeWhileD [OF that] by (cases d) (auto simp: in_range_opt_def in_dates_def reaches_def)
  then show ?thesis by (simp add: map_replicate_const [symmetric])
qed

text \<open>After the first bound the items in range are those before the second.\<close>

lemma upto_seek:
  assumes "dates_rise ds" "\<forall>d \<in> set ds. d \<noteq> None \<and> (case frm of None \<Rightarrow> True | Some f \<Rightarrow> reaches f d)"
  shows "map (in_range_opt frm (Some t)) ds = replicate (length (takeWhile (\<lambda>d. \<not> reaches t d) ds)) True
    @ replicate (length ds - length (takeWhile (\<lambda>d. \<not> reaches t d) ds)) False"
proof -
  have "map (in_range_opt frm (Some t)) ds = map Not (map (reaches t) ds)"
    using assms(2) by (simp add: in_range_reaches)
  then show ?thesis unfolding after_seek [OF assms(1), of t] by simp
qed

lemma range_tail:
  assumes "dates_rise ds" "\<forall>d \<in> set ds. d \<noteq> None \<and> (case frm of None \<Rightarrow> True | Some f \<Rightarrow> reaches f d)"
  shows "map (in_range_opt frm to) ds =
    (let k = (case to of Some t \<Rightarrow> length (takeWhile (\<lambda>d. \<not> reaches t d) ds) | None \<Rightarrow> length ds)
     in replicate k True @ replicate (length ds - k) False)"
proof (cases to)
  case None
  then have "map (in_range_opt frm to) ds = replicate (length ds) True"
    using assms(2) by (simp add: in_range_reaches map_replicate_const [symmetric])
  then show ?thesis using None by simp
next
  case (Some t)
  then show ?thesis using upto_seek [OF assms, of t] by (simp add: Let_def)
qed

lemma range_regions_eq:
  assumes rise: "dates_rise ds" and head: "frm \<noteq> None \<or> ds = [] \<or> hd ds \<noteq> None"
  shows "map (in_range_opt frm to) ds = range_regions frm to ds"
proof (cases frm)
  case None
  have "\<forall>d \<in> set ds. d \<noteq> None"
    using head None rise rise_dated by (cases ds) auto
  then show ?thesis using range_tail [OF rise, of None to] None
    by (cases to) (simp_all add: range_regions_def seek_items_def Let_def)
next
  case (Some f)
  let ?a = "length (takeWhile (\<lambda>d. \<not> reaches f d) ds)"
  have tail: "drop ?a ds = dropWhile (\<lambda>d. \<not> reaches f d) ds" by (simp add: dropWhile_eq_drop)
  have "\<forall>d \<in> set (drop ?a ds). reaches f d"
  proof (cases "drop ?a ds")
    case (Cons x xs)
    have dw: "dropWhile (\<lambda>d. \<not> reaches f d) ds = x # xs" using Cons tail by simp
    then have "dropWhile (\<lambda>d. \<not> reaches f d) ds \<noteq> []" by simp
    from hd_dropWhile [OF this] have "reaches f x" by (simp add: dw)
    moreover have "dates_rise (x # xs)" using rise_drop [OF rise, of ?a] Cons by simp
    ultimately show ?thesis using rise_reaches Cons by auto
  qed simp
  moreover have "d \<noteq> None" if "reaches f d" for d using that by (cases d) (simp_all add: reaches_def)
  ultimately have all: "\<forall>d \<in> set (drop ?a ds). d \<noteq> None \<and> (case frm of None \<Rightarrow> True | Some f \<Rightarrow> reaches f d)"
    unfolding Some option.case by metis
  have "map (in_range_opt frm to) ds = map (in_range_opt frm to) (takeWhile (\<lambda>d. \<not> reaches f d) ds)
      @ map (in_range_opt frm to) (drop ?a ds)"
    unfolding tail by (simp flip: map_append)
  also have "\<dots> = replicate ?a False @ map (in_range_opt frm to) (drop ?a ds)"
    unfolding Some before_seek ..
  finally show ?thesis
    using range_tail [OF rise_drop [OF rise] all, of to] Some
    by (cases to) (simp_all add: range_regions_def seek_items_def Let_def diff_diff_add)
qed

text \<open>A date range over rising dates is three runs of items, cut where the two binary searches land,
  when it has a lower bound or the first item has a date.\<close>

theorem date_range_is_three_regions:
  assumes "rule_compile w spec ctx = Inr r" "pure_range r = Some (slot, frm, to)"
    and "dates_rise (effective slot None items)"
    and "frm \<noteq> None \<or> items = [] \<or> fa_dates (fst (hd items)) ! slot \<noteq> None"
  shows "decide_seq r running_default items = range_regions frm to (effective slot None items)"
proof -
  have ok: "rule_ok r" using rule_compile_ok [OF assms(1)] by simp
  obtain c where c: "c \<in> set (rl_conds r)" "cd_kind c = KDate slot frm to Previous"
    using assms(2) by (auto simp: pure_range_def split: list.splits kind.splits missing.splits if_splits)
  have slot: "slot < max_dates" using rule_ok_slot [OF ok c] by simp
  have d: "length (ru_last running_default) = max_dates" "ru_last running_default ! slot = None"
    using slot by (simp_all add: running_default_def)
  have "frm \<noteq> None \<or> effective slot None items = [] \<or> hd (effective slot None items) \<noteq> None"
    using assms(4) by (cases items) (auto simp: or_opt_def)
  then have "map (in_range_opt frm to) (effective slot None items) = range_regions frm to (effective slot None items)"
    by (rule range_regions_eq [OF assms(3)])
  then show ?thesis using range_rule_decides [OF assms(2) ok d(1)] d(2) by (simp add: in_range_opt_def [abs_def])
qed

theorem date_range_is_three_regions_witness:
  "decide_seq (range_rule (Some 10) (Some 20)) running_default
     [(dated None, 1, 1), (dated (Some 12), 2, 2), (dated None, 3, 3), (dated (Some 20), 4, 4)]
   = [False, True, True, False]"
proof -
  let ?xs = "[(dated None, 1, 1), (dated (Some 12), 2, 2), (dated None, 3, 3), (dated (Some 20), 4, 4)]"
  have "decide_seq (range_rule (Some 10) (Some 20)) running_default ?xs
      = range_regions (Some 10) (Some 20) (effective 0 None ?xs)"
    by (rule date_range_is_three_regions [OF range_compiles [of "Some 10" "Some 20"]]) code_simp+
  also have "\<dots> = [False, True, True, False]" by code_simp
  finally show ?thesis .
qed

subsection \<open>Items before the first date\<close>










end
