(* ===== verification/Scheduler.thy ===== *)
theory Scheduler
  imports Prelude
begin

text \<open>
  Admission of processor work: \<open>src-tauri/src/global_scheduler.rs\<close>. Each function below is one critical
  section of the code, the state it holds the lock on; threads interleave between them, which is the
  step relation. Time is in milliseconds and only moves forward.
\<close>

section \<open>State\<close>

datatype priority = Background | Normal | Interactive

instantiation priority :: linorder
begin

definition rank :: "priority \<Rightarrow> nat" where
  "rank p = (case p of Background \<Rightarrow> 0 | Normal \<Rightarrow> 1 | Interactive \<Rightarrow> 2)"

definition less_eq_priority :: "priority \<Rightarrow> priority \<Rightarrow> bool" where
  "p \<le> q \<longleftrightarrow> rank p \<le> rank q"

definition less_priority :: "priority \<Rightarrow> priority \<Rightarrow> bool" where
  "p < q \<longleftrightarrow> rank p < rank q"

instance
  by standard (auto simp: less_eq_priority_def less_priority_def rank_def split: priority.splits)

end

record waiting =
  wa_id :: nat
  wa_priority :: priority
  wa_since :: nat

record sched =
  sc_used :: nat
  sc_peak :: nat
  sc_next :: nat
  sc_queue :: "waiting list"

definition sched_new :: sched where
  "sched_new = \<lparr>sc_used = 0, sc_peak = 0, sc_next = 0, sc_queue = []\<rparr>"

definition sched_limit :: "nat \<Rightarrow> nat" where
  "sched_limit limit = max limit 1"

section \<open>Critical sections\<close>

definition enqueue :: "priority \<Rightarrow> nat \<Rightarrow> sched \<Rightarrow> nat \<times> sched" where
  "enqueue p now s =
     (let wid = sc_next s
      in (wid, s\<lparr>sc_next := wid + 1, sc_queue := sc_queue s @ [\<lparr>wa_id = wid, wa_priority = p, wa_since = now\<rparr>]\<rparr>))"

definition leave_queue :: "nat \<Rightarrow> sched \<Rightarrow> sched" where
  "leave_queue wid s = s\<lparr>sc_queue := filter (\<lambda>q. wa_id q \<noteq> wid) (sc_queue s)\<rparr>"

definition patience :: nat where "patience = 250"

text \<open>\<open>max_by_key\<close> with the key (priority, reversed id): the last of the greatest, as iterators answer.\<close>

definition waits_less :: "waiting \<Rightarrow> waiting \<Rightarrow> bool" where
  "waits_less a b \<longleftrightarrow> wa_priority a < wa_priority b \<or> (wa_priority a = wa_priority b \<and> wa_id b \<le> wa_id a)"

fun most_urgent :: "waiting list \<Rightarrow> waiting option" where
  "most_urgent [] = None"
| "most_urgent (q # qs) =
     (case most_urgent qs of
        None \<Rightarrow> Some q
      | Some b \<Rightarrow> if waits_less q b then Some b else Some q)"

definition next_admitted :: "nat \<Rightarrow> sched \<Rightarrow> nat option" where
  "next_admitted now s =
     (case sc_queue s of
        [] \<Rightarrow> None
      | q # _ \<Rightarrow> if patience \<le> now - wa_since q then Some (wa_id q)
                 else map_option wa_id (most_urgent (sc_queue s)))"

definition take_slots :: "nat \<Rightarrow> sched \<Rightarrow> sched" where
  "take_slots n s = s\<lparr>sc_used := sc_used s + n, sc_peak := max (sc_peak s) (sc_used s + n)\<rparr>"

text \<open>One round of the loop of \<open>acquire\<close>.\<close>

definition try_admit :: "nat \<Rightarrow> nat \<Rightarrow> nat \<Rightarrow> sched \<Rightarrow> bool \<times> sched" where
  "try_admit limit wid now s =
     (if sc_used s < limit \<and> next_admitted now s = Some wid then (True, leave_queue wid (take_slots 1 s))
      else (False, s))"

definition borrow_idle :: "nat \<Rightarrow> nat \<Rightarrow> sched \<Rightarrow> nat \<times> sched" where
  "borrow_idle limit wanted s =
     (let n = (if sc_queue s = [] then min wanted (limit - sc_used s) else 0) in (n, take_slots n s))"

text \<open>The drop of a reservation; \<open>None\<close> is the underflow.\<close>

definition give_back :: "nat \<Rightarrow> sched \<Rightarrow> sched option" where
  "give_back n s = (if n \<le> sc_used s then Some (s\<lparr>sc_used := sc_used s - n\<rparr>) else None)"

definition interactive_waiting :: "sched \<Rightarrow> bool" where
  "interactive_waiting s = list_ex (\<lambda>q. wa_priority q = Interactive) (sc_queue s)"

text \<open>The first half of \<open>lend_idle\<close>: what it will ask \<open>borrow_idle\<close> for. The lock is let go between the two.\<close>

definition lend_count :: "nat \<Rightarrow> nat \<Rightarrow> sched \<Rightarrow> nat" where
  "lend_count limit wanted s =
     (let idle = (if sc_queue s = [] then limit - sc_used s else 0) in min wanted (idle - 1))"

record snapshot =
  sn_reserved :: nat
  sn_limit :: nat
  sn_queued :: nat
  sn_peak :: nat

definition resource_snapshot :: "nat \<Rightarrow> sched \<Rightarrow> snapshot" where
  "resource_snapshot limit s =
     \<lparr>sn_reserved = sc_used s, sn_limit = limit, sn_queued = length (sc_queue s), sn_peak = sc_peak s\<rparr>"

text \<open>The lanes of a wave.\<close>

record lanes =
  ln_width :: nat
  ln_active :: nat

definition lanes_enter :: "lanes \<Rightarrow> lanes option" where
  "lanes_enter l = (if ln_active l < ln_width l then Some (l\<lparr>ln_active := ln_active l + 1\<rparr>) else None)"

definition lanes_leave :: "lanes \<Rightarrow> lanes option" where
  "lanes_leave l = (if 0 < ln_active l then Some (l\<lparr>ln_active := ln_active l - 1\<rparr>) else None)"

definition wave_lanes :: "nat \<Rightarrow> nat \<Rightarrow> nat \<Rightarrow> sched \<Rightarrow> (lanes \<times> nat) option \<times> sched" where
  "wave_lanes limit wave_width items s =
     (let (extra, s) = borrow_idle limit (min items wave_width - 1) s;
          width = extra + 1
      in (if width = 1 then None else Some (\<lparr>ln_width = width, ln_active = 0\<rparr>, extra), s))"

text \<open>
  \<open>lend_idle\<close> with no other thread between its two critical sections; \<open>admitted\<close> says the caller runs under
  an admitted operation (\<open>current()\<close>).
\<close>

definition lend_idle :: "bool \<Rightarrow> nat \<Rightarrow> nat \<Rightarrow> sched \<Rightarrow> nat \<times> sched" where
  "lend_idle admitted limit wanted s =
     (if wanted = 0 \<or> \<not> admitted then (0, s)
      else let count = lend_count limit wanted s in if count = 0 then (0, s) else borrow_idle limit count s)"

definition lease_threads :: "nat \<Rightarrow> nat" where
  "lease_threads n = 1 + n"

section \<open>The system\<close>

text \<open>The scheduler with the reservations alive and the clock.\<close>

record system =
  sy_sched :: sched
  sy_held :: "nat list"
  sy_now :: nat

definition system_new :: system where
  "system_new = \<lparr>sy_sched = sched_new, sy_held = [], sy_now = 0\<rparr>"

inductive sched_step :: "nat \<Rightarrow> system \<Rightarrow> system \<Rightarrow> bool" for limit where
  Enqueue: "sched_step limit S (S\<lparr>sy_sched := snd (enqueue p (sy_now S) (sy_sched S))\<rparr>)"
| Leave: "sched_step limit S (S\<lparr>sy_sched := leave_queue wid (sy_sched S)\<rparr>)"
| Admit: "try_admit limit wid (sy_now S) (sy_sched S) = (True, s) \<Longrightarrow>
    sched_step limit S (S\<lparr>sy_sched := s, sy_held := 1 # sy_held S\<rparr>)"
| Borrow: "borrow_idle limit wanted (sy_sched S) = (n, s) \<Longrightarrow>
    sched_step limit S (S\<lparr>sy_sched := s, sy_held := n # sy_held S\<rparr>)"
| Drop: "n \<in> set (sy_held S) \<Longrightarrow> give_back n (sy_sched S) = Some s \<Longrightarrow>
    sched_step limit S (S\<lparr>sy_sched := s, sy_held := remove1 n (sy_held S)\<rparr>)"
| Tick: "sched_step limit S (S\<lparr>sy_now := sy_now S + d\<rparr>)"

inductive_cases sched_stepE: "sched_step limit S S'"

inductive reachable :: "nat \<Rightarrow> system \<Rightarrow> bool" for limit where
  start: "reachable limit system_new"
| step: "reachable limit S \<Longrightarrow> sched_step limit S S' \<Longrightarrow> reachable limit S'"

section \<open>The invariant\<close>

text \<open>
  Slots in use are the reservations alive and never more than the limit; identifiers in the queue rise
  from front to back and are below the next one; a waiter in front has waited at least as long.
\<close>

definition queue_ok :: "nat \<Rightarrow> nat \<Rightarrow> waiting list \<Rightarrow> bool" where
  "queue_ok hi now qs \<longleftrightarrow> sorted_wrt (<) (map wa_id qs) \<and> (\<forall>q \<in> set qs. wa_id q < hi \<and> wa_since q \<le> now)
     \<and> sorted (map wa_since qs)"

definition system_ok :: "nat \<Rightarrow> system \<Rightarrow> bool" where
  "system_ok limit S \<longleftrightarrow> sc_used (sy_sched S) = sum_list (sy_held S) \<and> sc_used (sy_sched S) \<le> limit
     \<and> sc_used (sy_sched S) \<le> sc_peak (sy_sched S) \<and> sc_peak (sy_sched S) \<le> limit
     \<and> queue_ok (sc_next (sy_sched S)) (sy_now S) (sc_queue (sy_sched S))"

lemma queue_ok_filter: "queue_ok hi now qs \<Longrightarrow> queue_ok hi now (filter P qs)"
  unfolding queue_ok_def by (induction qs) auto

lemma queue_ok_push:
  "queue_ok hi now qs \<Longrightarrow> queue_ok (Suc hi) now (qs @ [\<lparr>wa_id = hi, wa_priority = p, wa_since = now\<rparr>])"
  by (auto simp: queue_ok_def sorted_append sorted_wrt_append less_Suc_eq)

lemma queue_ok_later: "queue_ok hi now qs \<Longrightarrow> queue_ok hi (now + d) qs"
  by (auto simp: queue_ok_def trans_le_add1)

lemma take_slots_simps [simp]:
  "sc_used (take_slots n s) = sc_used s + n" "sc_peak (take_slots n s) = max (sc_peak s) (sc_used s + n)"
  "sc_next (take_slots n s) = sc_next s" "sc_queue (take_slots n s) = sc_queue s"
  by (simp_all add: take_slots_def)

lemma leave_queue_simps [simp]:
  "sc_used (leave_queue n s) = sc_used s" "sc_peak (leave_queue n s) = sc_peak s" "sc_next (leave_queue n s) = sc_next s"
  "sc_queue (leave_queue n s) = filter (\<lambda>q. wa_id q \<noteq> n) (sc_queue s)"
  by (simp_all add: leave_queue_def)

lemma step_ok: "system_ok limit S \<Longrightarrow> sched_step limit S S' \<Longrightarrow> system_ok limit S'"
proof (elim sched_stepE, goal_cases)
  case (1 p)
  then show ?case by (simp add: system_ok_def enqueue_def Let_def queue_ok_push)
next
  case (2 n)
  then show ?case by (simp add: system_ok_def queue_ok_filter)
next
  case (3 n s)
  then show ?case by (auto simp: system_ok_def try_admit_def queue_ok_filter split: if_splits)
next
  case (4 wanted n s)
  then show ?case by (auto simp: system_ok_def borrow_idle_def Let_def min_def split: if_splits)
next
  case (5 n s)
  then have "sum_list (sy_held S) = n + sum_list (remove1 n (sy_held S))"
    by (simp add: sum_list_map_remove1 [of n "sy_held S" id, simplified])
  then show ?case using 5 by (auto simp: system_ok_def give_back_def split: if_splits)
next
  case (6 d)
  then show ?case by (simp add: system_ok_def queue_ok_later)
qed

lemma reachable_ok: "reachable limit S \<Longrightarrow> system_ok limit S"
  by (induction rule: reachable.induct)
     (simp_all add: step_ok, simp add: system_ok_def system_new_def sched_new_def queue_ok_def)

text \<open>C18. Admission never overcommits: in every reachable state the slots in use are exactly the reservations
  alive, at most the limit, and so is the peak shown; dropping any of them never underflows.\<close>

theorem never_overcommitted:
  assumes "reachable limit S"
  shows "sc_used (sy_sched S) = sum_list (sy_held S) \<and> sc_used (sy_sched S) \<le> limit
    \<and> sn_peak (resource_snapshot limit (sy_sched S)) \<le> limit
    \<and> (\<forall>n \<in> set (sy_held S). give_back n (sy_sched S) \<noteq> None)"
proof -
  have ok: "system_ok limit S" by (rule reachable_ok [OF assms])
  have "give_back n (sy_sched S) \<noteq> None" if "n \<in> set (sy_held S)" for n
    using ok member_le_sum_list [OF that] by (simp add: system_ok_def give_back_def)
  then show ?thesis using ok by (auto simp: system_ok_def resource_snapshot_def)
qed

definition one_borrowed :: system where
  "one_borrowed = (case borrow_idle 2 1 sched_new of (n, s) \<Rightarrow> system_new\<lparr>sy_sched := s, sy_held := n # sy_held system_new\<rparr>)"

lemma never_overcommitted_witness:
  "sc_used (sy_sched one_borrowed) = 1 \<and> give_back 1 (sy_sched one_borrowed) \<noteq> None"
proof -
  have "sched_step 2 system_new one_borrowed"
    using sched_step.Borrow [of 2 1 system_new]
    by (cases "borrow_idle 2 1 sched_new") (simp add: one_borrowed_def system_new_def)
  then have "reachable 2 one_borrowed" using reachable.start reachable.step by blast
  note kept = never_overcommitted [OF this]
  have "sy_held one_borrowed = [1]" by code_simp
  then show ?thesis using kept by simp
qed

section \<open>Who is admitted\<close>

lemma most_urgent_None [simp]: "most_urgent qs = None \<longleftrightarrow> qs = []"
  by (cases qs) (auto split: option.splits)

lemma waits_less_total: "\<not> waits_less a b \<Longrightarrow> waits_less b a"
  by (auto simp: waits_less_def not_less)

lemma waits_less_trans: "waits_less a b \<Longrightarrow> waits_less b c \<Longrightarrow> waits_less a c"
  by (auto simp: waits_less_def)

lemma most_urgent_Some: "most_urgent qs = Some b \<Longrightarrow> b \<in> set qs \<and> (\<forall>q \<in> set qs. waits_less q b)"
proof (induction qs arbitrary: b)
  case (Cons q qs)
  have refl: "waits_less x x" for x by (simp add: waits_less_def)
  show ?case
  proof (cases "most_urgent qs")
    case None
    then show ?thesis using Cons.prems refl by auto
  next
    case (Some c)
    then show ?thesis using Cons.prems Cons.IH [OF Some] refl
      by (auto split: if_splits intro: waits_less_trans waits_less_total)
  qed
qed simp

text \<open>Admission is fair: unless the oldest waiter has waited its patience, who is admitted has the highest
  priority in the queue and, within it, came first; once the oldest has waited it, no one else is.\<close>

theorem admission_order:
  assumes "try_admit limit n (sy_now S) (sy_sched S) = (True, s')"
  shows "\<exists>q \<in> set (sc_queue (sy_sched S)). wa_id q = n
    \<and> (if patience \<le> sy_now S - wa_since (hd (sc_queue (sy_sched S))) then q = hd (sc_queue (sy_sched S))
       else \<forall>r \<in> set (sc_queue (sy_sched S)).
         wa_priority r < wa_priority q \<or> (wa_priority r = wa_priority q \<and> wa_id q \<le> wa_id r))"
proof -
  let ?s = "sy_sched S"
  have nx: "next_admitted (sy_now S) ?s = Some n" using assms by (auto simp: try_admit_def split: if_splits)
  then obtain f qs where qs: "sc_queue ?s = f # qs" by (auto simp: next_admitted_def split: list.splits)
  show ?thesis
  proof (cases "patience \<le> sy_now S - wa_since f")
    case True
    then show ?thesis using nx qs by (auto simp: next_admitted_def)
  next
    case False
    then obtain b where b: "most_urgent (sc_queue ?s) = Some b" "wa_id b = n"
      using nx qs by (auto simp: next_admitted_def simp del: most_urgent.simps)
    then have "b \<in> set (sc_queue ?s) \<and> (\<forall>q \<in> set (sc_queue ?s). waits_less q b)" using most_urgent_Some by blast
    then show ?thesis using b(2) False qs by (auto simp: waits_less_def)
  qed
qed

definition two_waiting :: "nat \<Rightarrow> system" where
  "two_waiting now = \<lparr>sy_sched = \<lparr>sc_used = 0, sc_peak = 0, sc_next = 2, sc_queue =
      [\<lparr>wa_id = 0, wa_priority = Background, wa_since = 0\<rparr>, \<lparr>wa_id = 1, wa_priority = Interactive, wa_since = 5\<rparr>]\<rparr>,
    sy_held = [], sy_now = now\<rparr>"

lemma admission_order_witness:
  "\<exists>q. q = sc_queue (sy_sched (two_waiting 30)) ! 1 \<and> wa_id q = 1 \<and> wa_priority (hd (sc_queue (sy_sched (two_waiting 30)))) < wa_priority q"
proof -
  have "try_admit 1 1 (sy_now (two_waiting 30)) (sy_sched (two_waiting 30))
      = (True, snd (try_admit 1 1 (sy_now (two_waiting 30)) (sy_sched (two_waiting 30))))" by code_simp
  from admission_order [OF this] show ?thesis by (auto simp: two_waiting_def patience_def)
qed

lemma admits_iff:
  "fst (try_admit limit n now s) \<longleftrightarrow> sc_used s < limit \<and> next_admitted now s = Some n"
  by (simp add: try_admit_def)

lemma next_admitted_patient:
  "qs = sc_queue s \<Longrightarrow> qs \<noteq> [] \<Longrightarrow> wa_since (hd qs) + patience \<le> now \<Longrightarrow> next_admitted now s = Some (wa_id (hd qs))"
  by (auto simp: next_admitted_def neq_Nil_conv)

lemma next_admitted_some: "sc_queue s \<noteq> [] \<Longrightarrow> \<exists>n. next_admitted now s = Some n"
  by (cases "most_urgent (sc_queue s)") (auto simp: next_admitted_def split: list.splits)

text \<open>With a slot free and someone queued, exactly one waiter passes the next round; once the oldest has waited its
  patience it is that one, whatever joins the queue behind it.\<close>

lemma someone_passes:
  assumes "sc_used (sy_sched S) < limit" "sc_queue (sy_sched S) \<noteq> []"
  shows "(\<exists>!n. fst (try_admit limit n (sy_now S) (sy_sched S))) \<and>
    (wa_since (hd (sc_queue (sy_sched S))) + patience \<le> sy_now S \<longrightarrow>
      (\<forall>d p n. fst (try_admit limit n (sy_now S + d) (snd (enqueue p (sy_now S + d) (sy_sched S))))
        \<longleftrightarrow> n = wa_id (hd (sc_queue (sy_sched S)))))"
proof (intro conjI impI allI)
  show "\<exists>!n. fst (try_admit limit n (sy_now S) (sy_sched S))"
    using assms(1) next_admitted_some [OF assms(2)] by (auto simp: admits_iff)
next
  fix d p n
  assume old: "wa_since (hd (sc_queue (sy_sched S))) + patience \<le> sy_now S"
  let ?s = "snd (enqueue p (sy_now S + d) (sy_sched S))"
  have "next_admitted (sy_now S + d) ?s = Some (wa_id (hd (sc_queue ?s)))"
    using assms(2) old by (intro next_admitted_patient) (auto simp: enqueue_def Let_def)
  then show "fst (try_admit limit n (sy_now S + d) ?s) \<longleftrightarrow> n = wa_id (hd (sc_queue (sy_sched S)))"
    using assms by (auto simp: admits_iff enqueue_def Let_def)
qed

section \<open>No one starves\<close>

text \<open>A run that counts the admissions made along it.\<close>

inductive sched_path :: "nat \<Rightarrow> system \<Rightarrow> nat \<Rightarrow> system \<Rightarrow> bool" for limit S where
  Here: "sched_path limit S 0 S"
| Admitted: "sched_path limit S k S' \<Longrightarrow> try_admit limit n (sy_now S') (sy_sched S') = (True, s) \<Longrightarrow>
    sched_path limit S (k + 1) (S'\<lparr>sy_sched := s, sy_held := 1 # sy_held S'\<rparr>)"
| Other: "sched_path limit S k S' \<Longrightarrow> sched_step limit S' S'' \<Longrightarrow> sched_path limit S k S''"

definition ahead :: "waiting \<Rightarrow> system \<Rightarrow> nat" where
  "ahead q S = length (takeWhile (\<lambda>r. wa_id r \<noteq> wa_id q) (sc_queue (sy_sched S)))"

definition queued :: "waiting \<Rightarrow> system \<Rightarrow> bool" where
  "queued q S \<longleftrightarrow> q \<in> set (sc_queue (sy_sched S))"

lemma ahead_filter: "length (takeWhile P (filter Q xs)) \<le> length (takeWhile P xs) \<or> (\<exists>x \<in> set xs. \<not> P x \<and> \<not> Q x)"
  by (induction xs) auto

lemma step_next: "sched_step limit S S' \<Longrightarrow> sc_next (sy_sched S) \<le> sc_next (sy_sched S')"
  by (elim sched_stepE)
     (auto simp: enqueue_def Let_def try_admit_def borrow_idle_def give_back_def split: if_splits)

lemma step_queue:
  "sched_step limit S S' \<Longrightarrow> (\<exists>P. sc_queue (sy_sched S') = filter P (sc_queue (sy_sched S)))
    \<or> (\<exists>w. sc_queue (sy_sched S') = sc_queue (sy_sched S) @ [w] \<and> wa_id w = sc_next (sy_sched S))"
  by (elim sched_stepE)
     (auto simp: enqueue_def Let_def try_admit_def borrow_idle_def give_back_def split: if_splits
       intro: exI [of _ "\<lambda>_. True"])

lemma step_queued:
  assumes "sched_step limit S S'" "queued q S'" "wa_id q < sc_next (sy_sched S)"
  shows "queued q S"
  using step_queue [OF assms(1)] assms(2,3) by (auto simp: queued_def)

lemma ahead_kept:
  assumes "system_ok limit S" "sched_step limit S S'" "queued q S" "queued q S'"
  shows "ahead q S' \<le> ahead q S"
  using step_queue [OF assms(2)]
proof (elim disjE exE conjE)
  fix P assume f: "sc_queue (sy_sched S') = filter P (sc_queue (sy_sched S))"
  have "distinct (map wa_id (sc_queue (sy_sched S)))"
    using assms(1) strict_sorted_iff by (auto simp: system_ok_def queue_ok_def)
  then have "P x" if "x \<in> set (sc_queue (sy_sched S))" "wa_id x = wa_id q" for x
    using that assms(3,4) f by (auto simp: queued_def distinct_map inj_on_def)
  then show ?thesis
    using ahead_filter [of "\<lambda>r. wa_id r \<noteq> wa_id q" P "sc_queue (sy_sched S)"] f by (auto simp: ahead_def)
next
  fix w assume "sc_queue (sy_sched S') = sc_queue (sy_sched S) @ [w]"
  then show ?thesis using assms(3) by (auto simp: ahead_def queued_def takeWhile_append1)
qed

lemma patient_front:
  assumes "system_ok limit S" "queued q S" "wa_since q + patience \<le> sy_now S"
    "try_admit limit n (sy_now S) (sy_sched S) = (True, s)"
  shows "\<exists>f qs. sc_queue (sy_sched S) = f # qs \<and> n = wa_id f \<and> sc_queue s = filter (\<lambda>r. wa_id r \<noteq> n) qs"
proof -
  obtain f qs where qs: "sc_queue (sy_sched S) = f # qs"
    using assms(2) by (cases "sc_queue (sy_sched S)") (auto simp: queued_def)
  have "wa_since f \<le> wa_since q" using assms(1,2) qs by (auto simp: system_ok_def queue_ok_def queued_def)
  then have "next_admitted (sy_now S) (sy_sched S) = Some (wa_id f)"
    using assms(3) next_admitted_patient [OF qs [symmetric]] by simp
  then show ?thesis using assms(4) qs by (auto simp: try_admit_def split: if_splits)
qed

lemma admit_moves_up:
  assumes "system_ok limit S" "queued q S" "wa_since q + patience \<le> sy_now S"
    "try_admit limit n (sy_now S) (sy_sched S) = (True, s)" "q \<in> set (sc_queue s)"
  shows "length (takeWhile (\<lambda>r. wa_id r \<noteq> wa_id q) (sc_queue s)) + 1 \<le> ahead q S"
proof -
  obtain f qs where q: "sc_queue (sy_sched S) = f # qs" "n = wa_id f" "sc_queue s = filter (\<lambda>r. wa_id r \<noteq> n) qs"
    using patient_front [OF assms(1-4)] by blast
  have "wa_id f \<noteq> wa_id q" using q assms(5) by auto
  then show ?thesis
    using ahead_filter [of "\<lambda>r. wa_id r \<noteq> wa_id q" "\<lambda>r. wa_id r \<noteq> n" qs] q by (auto simp: ahead_def)
qed

lemma step_now: "sched_step limit S S' \<Longrightarrow> sy_now S \<le> sy_now S'"
  by (elim sched_stepE) auto

lemma path_bound:
  assumes "sched_path limit S k S'" "reachable limit S" "queued q S" "wa_since q + patience \<le> sy_now S"
  shows "reachable limit S' \<and> sc_next (sy_sched S) \<le> sc_next (sy_sched S') \<and> sy_now S \<le> sy_now S'
    \<and> (queued q S' \<longrightarrow> k + ahead q S' \<le> ahead q S)"
  using assms(1)
proof (induction rule: sched_path.induct)
  case Here
  then show ?case using assms(2) by simp
next
  case (Admitted k S' n s)
  let ?T = "S'\<lparr>sy_sched := s, sy_held := 1 # sy_held S'\<rparr>"
  have step: "sched_step limit S' ?T" using Admitted.hyps(2) by (rule sched_step.Admit)
  have ok: "system_ok limit S'" using Admitted.IH reachable_ok by blast
  have "wa_id q < sc_next (sy_sched S')"
    using assms(2,3) Admitted.IH reachable_ok by (fastforce simp: queued_def system_ok_def queue_ok_def)
  then have "queued q ?T \<Longrightarrow> ahead q ?T + 1 \<le> ahead q S' \<and> queued q S'"
    using admit_moves_up [OF ok _ _ Admitted.hyps(2)] step_queued [OF step] assms(4) Admitted.IH
    by (auto simp: ahead_def queued_def)
  then show ?case using Admitted.IH step step_next [OF step] step_now [OF step] reachable.step by fastforce
next
  case (Other k S' S'')
  have ok: "system_ok limit S'" using Other.IH reachable_ok by blast
  have "wa_id q < sc_next (sy_sched S')"
    using assms(2,3) Other.IH reachable_ok by (fastforce simp: queued_def system_ok_def queue_ok_def)
  then have "queued q S'' \<Longrightarrow> ahead q S'' \<le> ahead q S' \<and> queued q S'"
    using step_queued [OF Other.hyps(2)] ahead_kept [OF ok Other.hyps(2)] by auto
  then show ?case
    using Other.IH step_next [OF Other.hyps(2)] step_now [OF Other.hyps(2)] reachable.step [OF _ Other.hyps(2)] by fastforce
qed

text \<open>C27. No one starves: from the moment a waiter's patience ends, every admission on any run takes one of those
  in front of it or the waiter itself, so it is past the queue after at most as many admissions as there were
  in front, and one more; nothing that arrives later is admitted before it, whatever its priority.\<close>

theorem no_starvation:
  assumes "reachable limit S" "queued q S" "wa_since q + patience \<le> sy_now S"
    "sched_path limit S k S'" "ahead q S < k"
  shows "\<not> queued q S'"
  using path_bound [OF assms(4,1-3)] assms(5) by auto

definition lone_waiter :: waiting where
  "lone_waiter = \<lparr>wa_id = 0, wa_priority = Background, wa_since = 0\<rparr>"

definition lone_patient :: system where
  "lone_patient = (let S = system_new\<lparr>sy_sched := snd (enqueue Background (sy_now system_new) (sy_sched system_new))\<rparr>
     in S\<lparr>sy_now := sy_now S + 250\<rparr>)"

definition lone_admitted :: system where
  "lone_admitted = lone_patient\<lparr>sy_sched := snd (try_admit 1 0 (sy_now lone_patient) (sy_sched lone_patient)),
     sy_held := 1 # sy_held lone_patient\<rparr>"

lemma reachable_lone: "reachable 1 lone_patient"
  unfolding lone_patient_def Let_def
  by (intro reachable.step [OF reachable.step [OF reachable.start sched_step.Enqueue] sched_step.Tick])

lemma no_starvation_witness: "\<not> queued lone_waiter lone_admitted"
proof -
  have t: "try_admit 1 0 (sy_now lone_patient) (sy_sched lone_patient)
      = (True, snd (try_admit 1 0 (sy_now lone_patient) (sy_sched lone_patient)))" by code_simp
  have p: "sched_path 1 lone_patient (0 + 1) lone_admitted"
    unfolding lone_admitted_def by (rule sched_path.Admitted [OF sched_path.Here t])
  have q: "queued lone_waiter lone_patient" by code_simp
  have w: "wa_since lone_waiter + patience \<le> sy_now lone_patient" by code_simp
  have a: "ahead lone_waiter lone_patient < 0 + 1" by code_simp
  show ?thesis by (rule no_starvation [OF reachable_lone q w p a])
qed

section \<open>Lending to a native engine\<close>

lemma reachable_borrow:
  "reachable limit S \<Longrightarrow> borrow_idle limit wanted (sy_sched S) = (n, s) \<Longrightarrow>
    reachable limit (S\<lparr>sy_sched := s, sy_held := n # sy_held S\<rparr>)"
  by (rule reachable.step) (auto intro: sched_step.Borrow)

text \<open>C36. A loan taken in one piece leaves a slot idle and asks nothing while anyone is queued, nor outside an
  admitted operation; but the code
  reads the idle slots and borrows them in two critical sections, and a wave that borrows between the two
  lets the loan take the last slot: two slots lent of a limit of three, none idle.\<close>

theorem loan_leaves_one_unless_raced:
  "(\<forall>admitted limit wanted s. case lend_idle admitted limit wanted s of (n, s') \<Rightarrow>
      n = 0 \<and> s' = s \<or> admitted \<and> sc_queue s = [] \<and> n \<le> wanted \<and> sc_used s' < limit \<and> sc_used s' = sc_used s + n)
   \<and> (\<exists>S S'. reachable 3 S \<and> lend_count 3 2 (sy_sched S) = 2 \<and> sched_step 3 S S' \<and> reachable 3 S'
       \<and> fst (borrow_idle 3 2 (sy_sched S')) = 2 \<and> sc_used (snd (borrow_idle 3 2 (sy_sched S'))) = 3)"
  (is "?atomic \<and> ?raced")
proof
  show ?atomic
    by (auto simp: lend_idle_def lend_count_def borrow_idle_def Let_def min_def)
  let ?b = "borrow_idle 3 1 sched_new"
  let ?S' = "system_new\<lparr>sy_sched := snd ?b, sy_held := fst ?b # sy_held system_new\<rparr>"
  have "sched_step 3 system_new ?S'" by (rule sched_step.Borrow [where wanted = 1]) (simp add: system_new_def)
  moreover have "lend_count 3 2 (sy_sched system_new) = 2" by code_simp
  moreover have "fst (borrow_idle 3 2 (sy_sched ?S')) = 2" by code_simp
  moreover have "sc_used (snd (borrow_idle 3 2 (sy_sched ?S'))) = 3" by code_simp
  ultimately show ?raced using reachable.start reachable.step by blast
qed

section \<open>Lanes of a wave\<close>

text \<open>Workers enter (\<open>True\<close>) and leave (\<open>False\<close>) a wave's lanes in any order.\<close>

fun lanes_run :: "lanes \<Rightarrow> bool list \<Rightarrow> lanes option" where
  "lanes_run l [] = Some l"
| "lanes_run l (e # es) =
     (case (if e then lanes_enter l else lanes_leave l) of None \<Rightarrow> None | Some l' \<Rightarrow> lanes_run l' es)"

lemma lanes_run_bounded:
  "lanes_run l es = Some l' \<Longrightarrow> ln_active l \<le> ln_width l \<Longrightarrow>
    ln_width l' = ln_width l \<and> ln_active l' \<le> ln_width l' \<and>
    ln_active l' + length (filter Not es) = ln_active l + length (filter (\<lambda>e. e) es)"
  by (induction es arbitrary: l) (fastforce simp: lanes_enter_def lanes_leave_def split: option.splits if_splits)+

end
