(* ===== verification/Stamp_Moves.thy ===== *)
theory Stamp_Moves
  imports Stamp_Find
begin

text \<open>
  Where the recognizers of \<open>stamp.rs\<close> leave the cursor: a date that is read ends inside the line, past where it
  starts.
\<close>

lemma moves_peek: "peek s i = Some b \<Longrightarrow> moves s i (i + 1)"
  by (auto simp: moves_def dest: peek_Some)

lemma read_fixed_length: "read_fixed s n i = (Some v, j) \<Longrightarrow> j = i + n"
  by (simp add: read_fixed_bound)

lemma moves_step:
  "moves s (i + 1) j \<Longrightarrow> peek s i = Some b \<Longrightarrow> moves s i j"
  "moves s (i + 1) j \<Longrightarrow> digit (peek s i) \<Longrightarrow> moves s i j"
  by (auto simp: moves_def dest: peek_Some digit_peek)

lemma read_seconds_moves [moves_rules]: "read_seconds s i = (r, j) \<Longrightarrow> moves s i j"
proof -
  assume r: "read_seconds s i = (r, j)"
  show ?thesis
  proof (cases "peek s i = Some 58 \<and> digit (ahead_at s i 1) \<and> digit (ahead_at s i 2) \<and> \<not> digit (ahead_at s i 3)")
    case True
    obtain v k where f: "read_fixed s 2 (i + 1) = (v, k)" by (cases "read_fixed s 2 (i + 1)") auto
    have k: "moves s i k" using moves_step(1) [OF read_fixed_moves [OF f]] True by blast
    have "moves s k j"
      using r True f by (auto simp: read_seconds_def Let_def split: option.splits if_splits prod.splits
        dest!: fraction_moves read_fixed_moves intro: moves_step)
    then show ?thesis using k moves_trans by blast
  next
    case False
    then have "j = i" using r by (simp add: read_seconds_def split: if_splits)
    then show ?thesis by simp
  qed
qed

lemmas reader_moves = read_num_moves eat_moves read_fixed_moves fraction_moves spaces_moves meridiem_moves read_word_moves

lemma moves_chain:
  "moves s i j \<Longrightarrow> moves s j k \<Longrightarrow> moves s k l \<Longrightarrow> moves s i l"
  "moves s i j \<Longrightarrow> moves s j k \<Longrightarrow> moves s k l \<Longrightarrow> moves s l m \<Longrightarrow> moves s i m"
  "moves s i j \<Longrightarrow> moves s j k \<Longrightarrow> moves s k l \<Longrightarrow> moves s l m \<Longrightarrow> moves s m n \<Longrightarrow> moves s i n"
  by (auto simp: moves_def)

lemma read_half_moves [moves_rules]: "read_half s h i = (r, j) \<Longrightarrow> moves s i j"
  by (auto simp: read_half_def Let_def split: option.splits if_splits prod.splits
      dest!: reader_moves intro: moves_trans)

lemma read_time_moves [moves_rules]: "read_time s b i = (r, j) \<Longrightarrow> moves s i j"
  by (auto simp: read_time_def Let_def split: option.splits if_splits prod.splits bool.splits
      dest!: reader_moves read_seconds_moves read_half_moves intro: moves_trans moves_chain)

lemma numeric_offset_moves [moves_rules]: "numeric_offset s i = (r, j) \<Longrightarrow> moves s i j"
proof -
  assume r: "numeric_offset s i = (r, j)"
  show ?thesis
  proof (cases "peek s i = Some 43 \<or> peek s i = Some 45")
    case True
    then obtain b where b: "peek s i = Some b" by blast
    obtain v k where f: "read_fixed s 2 (i + 1) = (v, k)" by (cases "read_fixed s 2 (i + 1)") auto
    have "moves s i k" using moves_step(1) [OF read_fixed_moves [OF f] b] .
    moreover have "moves s k j \<or> j = i"
      using r True f by (auto simp: numeric_offset_def Let_def split: option.splits if_splits prod.splits
        dest!: read_fixed_moves intro: moves_step)
    ultimately show ?thesis using moves_trans by blast
  next
    case False
    then show ?thesis using r by (auto simp: numeric_offset_def)
  qed
qed

lemma base_moves: "moves s i (i + length (takeWhile P (between s i (run_end Q s i))))"
proof -
  have "length (takeWhile P (between s i (run_end Q s i))) \<le> length (between s i (run_end Q s i))"
    by (rule length_takeWhile_le)
  also have "\<dots> \<le> length s - i" by (simp add: between_def)
  finally show ?thesis by (auto simp: moves_def)
qed

lemma named_zone_moves [moves_rules]: "named_zone s i = (r, j) \<Longrightarrow> moves s i j"
  by (auto simp: named_zone_def Let_def split: if_splits prod.splits
      dest!: numeric_offset_moves intro: run_end_moves base_moves moves_trans [OF base_moves])

lemma zone_suffix_moves [moves_rules]: "moves s i (zone_suffix s i)"
  by (auto simp: zone_suffix_def Let_def split: if_splits prod.splits bool.splits option.splits
      dest!: eat_moves spaces_moves intro: moves_trans [OF _ moves_trans [OF run_end_moves]] moves_trans [OF _ run_end_moves])

lemma read_zone_moves [moves_rules]: "read_zone s i = (r, j) \<Longrightarrow> moves s i j"
proof -
  assume r: "read_zone s i = (r, j)"
  obtain n k where k: "spaces s i = (n, k)" by (cases "spaces s i") auto
  have "j = i \<or> (\<exists>l. moves s k l \<and> j = zone_suffix s l)"
    using r k by (auto simp: read_zone_def Let_def split: option.splits if_splits prod.splits
      dest!: numeric_offset_moves named_zone_moves intro: moves_peek)
  then show ?thesis using spaces_moves [OF k] zone_suffix_moves moves_trans by blast
qed

lemma separator_moves [moves_rules]: "date_time_separator s a b i = (r, j) \<Longrightarrow> moves s i j"
proof -
  assume r: "date_time_separator s a b i = (r, j)"
  show ?thesis
  proof (cases "peek s i")
    case None
    then show ?thesis using r by (auto simp: date_time_separator_def)
  next
    case (Some c)
    obtain n k where k: "spaces s i = (n, k)" by (cases "spaces s i") auto
    obtain n' k' where k': "spaces s (i + 1) = (n', k')" by (cases "spaces s (i + 1)") auto
    have "j \<in> {i, i + 1, k, k'}"
      using r Some k k' by (auto simp: date_time_separator_def Let_def split: if_splits prod.splits)
    then show ?thesis
      using moves_peek [OF Some] spaces_moves [OF k] moves_trans [OF moves_peek [OF Some] spaces_moves [OF k']] by auto
  qed
qed

text \<open>What a reader of a whole date promises: the cursor is back when it fails, and ends where the date ends when it reads one.\<close>

definition leaps :: "octets \<Rightarrow> nat \<Rightarrow> nat \<Rightarrow> bool" where
  "leaps s i j \<longleftrightarrow> moves s i j \<and> i < j"

lemma leaps_chain:
  "leaps s i j \<Longrightarrow> moves s j k \<Longrightarrow> leaps s i k"
  "leaps s i j \<Longrightarrow> moves s j k \<Longrightarrow> moves s k l \<Longrightarrow> leaps s i l"
  "leaps s i j \<Longrightarrow> moves s j k \<Longrightarrow> moves s k l \<Longrightarrow> moves s l m \<Longrightarrow> leaps s i m"
  "leaps s i j \<Longrightarrow> moves s j k \<Longrightarrow> moves s k l \<Longrightarrow> moves s l m \<Longrightarrow> moves s m n \<Longrightarrow> leaps s i n"
  by (auto simp: leaps_def moves_def)

lemma leaps_trans: "leaps s i j \<Longrightarrow> leaps s j k \<Longrightarrow> leaps s i k"
  by (auto simp: leaps_def moves_def)

lemma moves_leaps:
  "moves s i j \<Longrightarrow> leaps s j k \<Longrightarrow> leaps s i k"
  "moves s i j \<Longrightarrow> leaps s j k \<Longrightarrow> moves s k l \<Longrightarrow> leaps s i l"
  by (auto simp: leaps_def moves_def)

definition reads :: "octets \<Rightarrow> nat \<Rightarrow> raw_date option \<times> nat \<Rightarrow> bool" where
  "reads s i r = (case r of (None, j) \<Rightarrow> j = i | (Some raw, j) \<Rightarrow> leaps s i j \<and> ra_end raw = j)"

lemma readsE:
  "reads s i (None, j) \<Longrightarrow> j = i"
  "reads s i (Some raw, j) \<Longrightarrow> leaps s i j \<and> ra_end raw = j"
  by (simp_all add: reads_def)

lemma read_num_advances: "read_num s (Suc a) b i = (Some (v, n), j) \<Longrightarrow> i < j"
  by (auto simp: read_num_def Let_def split: prod.splits if_splits)

lemma read_fixed_advances: "read_fixed s (Suc n) i = (Some v, j) \<Longrightarrow> i < j"
  using read_fixed_length by fastforce

lemma spaces_advance: "spaces s i = (n, j) \<Longrightarrow> n \<noteq> 0 \<Longrightarrow> i < j"
  by (auto simp: spaces_def Let_def)

lemma moves_le: "moves s i j \<Longrightarrow> i \<le> j"
  by (simp add: moves_def)

lemma dated_time_reads: "dated_time s d i = Some (raw, j) \<Longrightarrow> moves s i j \<and> ra_end raw = j"
  by (auto simp: dated_time_def split: option.splits prod.splits bool.splits
      dest!: separator_moves read_time_moves read_zone_moves intro: moves_chain)

lemma iso_parts_moves: "iso_parts s i = Some (m, d, p, j) \<Longrightarrow> moves s i j"
proof -
  assume r: "iso_parts s i = Some (m, d, p, j)"
  then obtain b where b: "peek s i = Some b" by (auto simp: iso_parts_def split: option.splits)
  note b1 = moves_peek [OF b]
  show ?thesis
    using r b by (auto simp: iso_parts_def split: option.splits prod.splits bool.splits if_splits
      dest!: reader_moves intro: moves_chain(2) [OF b1, simplified] moves_trans)
qed

lemma compact_start_moves: "compact_start s i = Some j \<Longrightarrow> moves s i j"
  by (auto simp: compact_start_def split: if_splits prod.splits dest: spaces_moves moves_peek)

lemma compact_time_moves: "compact_time s i = (Some t, j) \<Longrightarrow> moves s i j"
proof (cases "digit (peek s i) \<and> digit (ahead_at s i 1) \<and> digit (ahead_at s i 2) \<and> digit (ahead_at s i 3)
         \<and> digit (ahead_at s i 4) \<and> digit (ahead_at s i 5)")
  case True
  assume r: "compact_time s i = (Some t, j)"
  have frac: "moves s l j" if "fraction s (l + 1) = (n, j)" "peek s l = Some b" for l n b
    using fraction_moves [OF that(1)] moves_step(1) that(2) by blast
  show ?thesis
    using r True by (auto simp: compact_time_def Let_def split: option.splits prod.splits if_splits
      dest!: frac read_fixed_moves dest: frac [simplified] intro: moves_chain)
next
  case False
  assume "compact_time s i = (Some t, j)"
  then show ?thesis using False by (auto simp: compact_time_def dest: read_time_moves)
qed

lemma iso_reads: "reads s i (iso s i)"
proof (cases "read_fixed s 4 i")
  case (Pair y j)
  show ?thesis
  proof (cases y)
    case None
    then show ?thesis using Pair by (auto simp: iso_def reads_def read_fixed_def split: prod.splits option.splits)
  next
    case (Some v)
    have j: "leaps s i j" using Pair Some read_fixed_moves read_fixed_length by (fastforce simp: leaps_def)
    show ?thesis
      using Pair Some j unfolding iso_def reads_def
      by (auto simp: Let_def bare_date_def split: option.splits prod.splits if_splits
        dest!: iso_parts_moves compact_start_moves compact_time_moves read_zone_moves dated_time_reads
        intro: leaps_chain)
  qed
qed

lemma numeric_year_moves: "numeric_year s sep i = Some (y, short, j) \<Longrightarrow> moves s i j"
  by (auto simp: numeric_year_def split: option.splits prod.splits if_splits dest!: read_num_moves intro: moves_step)

lemma read_num_leaps: "read_num s (Suc a) b i = (Some (v, n), j) \<Longrightarrow> leaps s i j"
  by (simp add: leaps_def read_num_moves read_num_advances)

lemma leaps_next: "moves s (Suc i) j \<Longrightarrow> peek s i = Some b \<Longrightarrow> leaps s i j"
  using moves_step(1) [of s i j] by (simp add: leaps_def moves_def)

lemma read_num_forms:
  "read_num s (Suc 0) 2 i = (Some v, j) \<Longrightarrow> leaps s i j"
  "read_num s 2 4 i = (Some v, j) \<Longrightarrow> moves s i j"
  using read_num_leaps [of s 0 2 i "fst v" "snd v" j] by (auto dest: read_num_moves)

lemma read_num_next: "read_num s n m (Suc i) = (Some v, j) \<Longrightarrow> peek s i = Some b \<Longrightarrow> leaps s i j"
  by (drule read_num_moves) (rule leaps_next)

lemma numeric_parts_leaps:
  assumes "numeric_parts s i = Some (a, sep, b, y, short, j)"
  shows "leaps s i j"
proof -
  obtain n i1 where a: "read_num s 1 2 i = (Some (a, n), i1)"
    using assms by (auto simp: numeric_parts_def split: option.splits prod.splits if_splits)
  obtain c where c: "peek s i1 = Some c"
    using assms a by (auto simp: numeric_parts_def split: option.splits)
  obtain v m i2 where b: "read_num s 1 2 (i1 + 1) = (Some (v, m), i2)"
    using assms a c by (auto simp: numeric_parts_def split: option.splits prod.splits if_splits)
  have y: "numeric_year s sep i2 = Some (y, short, j)"
    using assms a b c by (auto simp: numeric_parts_def split: option.splits prod.splits if_splits)
  have "leaps s i i1" using read_num_forms(1) a by simp
  moreover have "moves s i1 i2" using moves_step(1) [OF read_num_moves [OF b] c] .
  ultimately show ?thesis using numeric_year_moves [OF y] leaps_chain(2) by blast
qed

lemma numeric_time_moves: "numeric_time s sep y i = Some (c, t, j) \<Longrightarrow> moves s i j"
  by (auto simp: numeric_time_def Let_def split: prod.splits if_splits bool.splits
    dest!: separator_moves read_time_moves intro: moves_trans)

lemma numeric_reads: "reads s i (numeric s ctx i)"
  unfolding numeric_def reads_def
  by (auto simp: Let_def split: option.splits prod.splits if_splits
    dest!: numeric_parts_leaps numeric_time_moves read_zone_moves intro: leaps_chain)

lemma snd_eat_moves: "moves s i (snd (eat s c i))"
  by (cases "eat s c i") (auto dest: eat_moves)

lemma snd_spaces_moves: "moves s i (snd (spaces s i))"
  by (cases "spaces s i") (auto dest: spaces_moves)

lemma named_separator_moves: "named_separator s i = Some (b, j) \<Longrightarrow> moves s i j"
  by (cases "i < length s")
     (auto simp: named_separator_def peek_def moves_def snd_spaces_moves [unfolded moves_def] split: if_splits)

lemma eat_then:
  "eat s c (snd (eat s d i)) = (b, j) \<Longrightarrow> moves s i j"
  "spaces s (snd (eat s d i)) = (n, j) \<Longrightarrow> moves s i j"
  by (auto intro: moves_trans [OF snd_eat_moves] dest!: eat_moves spaces_moves)

lemma leaps_chain5:
  "leaps s i j \<Longrightarrow> moves s j k \<Longrightarrow> moves s k l \<Longrightarrow> moves s l m \<Longrightarrow> moves s m n \<Longrightarrow> leaps s i n"
  by (auto simp: leaps_def moves_def)

lemma named_parts_leaps: "named_parts s i = Some (d, m, y, j) \<Longrightarrow> leaps s i j"
  by (auto simp: named_parts_def Let_def split: option.splits prod.splits if_splits
    dest!: read_num_forms named_separator_moves read_word_moves eat_then
    intro: leaps_chain5)

lemma day_month_name_reads: "reads s i (day_month_name s i)"
  unfolding day_month_name_def reads_def
  by (auto simp: bare_date_def split: option.splits prod.splits
    dest!: named_parts_leaps dated_time_reads intro: leaps_chain)

lemma eat_suffix_moves: "moves s i (eat_suffix s x i)"
  by (auto simp: eat_suffix_def moves_def)

lemma eat_ordinal_moves: "moves s i (eat_ordinal s i)"
proof -
  have "moves s i (foldl (\<lambda>i suffix. eat_suffix s suffix i) i xs)" for xs
    by (induction xs arbitrary: i) (auto intro: moves_trans [OF eat_suffix_moves])
  then show ?thesis unfolding eat_ordinal_def by this
qed

lemma named_day_leaps:
  assumes "named_day s i = Some (d, j)"
  shows "leaps s i j"
proof -
  obtain n i1 where a: "spaces s (snd (eat s 46 i)) = (n, i1)" by (cases "spaces s (snd (eat s 46 i))") auto
  obtain v i2 where b: "read_num s 1 2 i1 = (Some v, i2)"
    using assms a by (auto simp: named_day_def split: option.splits prod.splits if_splits)
  obtain m where c: "spaces s (snd (eat s 44 (eat_ordinal s i2))) = (m, j)"
    using assms a b by (auto simp: named_day_def split: option.splits prod.splits if_splits)
  have "leaps s i1 i2" using b read_num_forms(1) by simp
  then show ?thesis
    using moves_leaps(2) [OF eat_then(2) [OF a]] moves_trans [OF eat_ordinal_moves eat_then(2) [OF c]] by blast
qed

lemma inner_year_moves:
  assumes "inner_year s i = Some (y, j, k)"
  shows "moves s i j \<and> moves s i k"
proof (cases "y = None")
  case True
  then show ?thesis using assms by (auto simp: inner_year_def Let_def split: if_splits option.splits prod.splits)
next
  case False
  obtain v where v: "read_fixed s 4 i = (Some v, k)"
    using assms False by (auto simp: inner_year_def Let_def split: if_splits option.splits prod.splits)
  obtain n l where l: "spaces s (snd (eat s 44 k)) = (n, l)" by (cases "spaces s (snd (eat s 44 k))") auto
  have "j = snd (eat s 58 (if n = 0 \<and> peek s l \<noteq> Some 58 then k else l))"
    using assms False v l by (auto simp: inner_year_def Let_def split: if_splits)
  then have "moves s k j" using eat_then(2) [OF l] snd_eat_moves moves_trans by (auto split: if_splits)
  then show ?thesis using read_fixed_moves [OF v] moves_trans by blast
qed

lemma trailing_year_moves: "trailing_year s i = (y, j) \<Longrightarrow> moves s i j"
  by (auto simp: trailing_year_def Let_def split: option.splits prod.splits if_splits
    dest!: spaces_moves read_num_moves intro: moves_trans)

lemma month_name_first_reads: "reads s i (month_name_first s m i)"
  unfolding month_name_first_def reads_def
  by (auto simp: Let_def bare_date_def split: option.splits prod.splits if_splits
    dest!: named_day_leaps inner_year_moves read_time_moves read_zone_moves trailing_year_moves
    intro: leaps_chain)

lemma named_reads: "reads s i (named s i)"
proof -
  obtain w j where w: "read_word s i = (w, j)" by (cases "read_word s i") auto
  obtain first j1 where f: "(case month_of w of None \<Rightarrow> (None, j) | Some month \<Rightarrow> month_name_first s month j) = (first, j1)"
    by (cases "case month_of w of None \<Rightarrow> (None, j) | Some month \<Rightarrow> month_name_first s month j") auto
  have fr: "reads s j (first, j1)" 
  proof (cases "month_of w")
    case (Some m)
    then show ?thesis using f month_name_first_reads [of s j m] by simp
  qed (use f in \<open>auto simp: reads_def\<close>)
  show ?thesis
  proof (cases first)
    case (Some raw)
    then show ?thesis using w f fr by (auto simp: named_def reads_def dest: read_word_moves intro: moves_leaps)
  next
    case None
    then have j1: "j1 = j" using fr by (simp add: reads_def)
    let ?k = "snd (eat s 44 (snd (eat s 46 (if take 6 (drop j s) = lit ''-feira'' then j + 6 else j))))"
    obtain n k where k: "spaces s ?k = (n, k)" by (cases "spaces s ?k") auto
    have "6 \<le> length s - j" if t: "take 6 (drop j s) = lit ''-feira''"
      using arg_cong [OF t, of length] by (simp add: lit_def)
    then have jk: "moves s j (if take 6 (drop j s) = lit ''-feira'' then j + 6 else j)"
      by (auto simp: moves_def)
    have ik: "moves s i k"
      using moves_chain(2) [OF read_word_moves [OF w] jk snd_eat_moves eat_then(2) [OF k]] .
    obtain v l where v: "read_word s k = (v, l)" by (cases "read_word s k") auto
    define r where "r = (if digit (peek s k) then day_month_name s k
      else case month_of v of None \<Rightarrow> (None, l) | Some month \<Rightarrow> month_name_first s month l)"
    have "leaps s i (snd r) \<and> ra_end raw = snd r" if some: "fst r = Some raw" for raw
    proof (cases "digit (peek s k)")
      case True
      then show ?thesis using some day_month_name_reads [of s k] ik
        by (cases r) (auto simp: r_def dest: readsE intro: moves_leaps)
    next
      case False
      then obtain m where m: "month_of v = Some m" using some by (auto simp: r_def split: option.splits)
      then show ?thesis using False some month_name_first_reads [of s l m] moves_trans [OF ik read_word_moves [OF v]]
        by (cases r) (auto simp: r_def dest: readsE intro: moves_leaps)
    qed
    moreover have "named s i = (if \<not> weekday w \<or> n = 0 then (None, i) else (fst r, if fst r = None then i else snd r))"
      using w f None j1 k v by (auto simp: named_def Let_def r_def split: prod.splits)
    ultimately show ?thesis by (auto simp: reads_def split: option.splits)
  qed
qed

lemma read_epoch_leaps: "read_epoch s i = (Some ms, j) \<Longrightarrow> leaps s i j"
  by (auto simp: read_epoch_def Let_def split: option.splits prod.splits if_splits
    dest!: read_num_leaps [of s 8, simplified] fraction_moves leaps_next intro: leaps_chain leaps_trans)

lemma read_time_leaps: "read_time s b i = (Some t, j) \<Longrightarrow> leaps s i j"
  by (auto simp: read_time_def split: option.splits if_splits prod.splits bool.splits
      dest!: read_num_forms eat_moves read_fixed_moves read_seconds_moves read_half_moves intro: leaps_chain)

lemma scan_at_leaps:
  assumes "scan_at s i ctx leading = Some (raw, ms)"
  shows "leaps s i (ra_end raw)"
proof -
  obtain b where b: "peek s i = Some b" using assms by (auto simp: scan_at_def split: option.splits)
  obtain r0 i0 where r0: "iso s i = (r0, i0)" by (cases "iso s i") auto
  obtain r1 i1 where r1: "day_month_name s i0 = (r1, i1)" by (cases "day_month_name s i0") auto
  obtain r2 i2 where r2: "numeric s ctx i1 = (r2, i2)" by (cases "numeric s ctx i1") auto
  obtain r3 i3 where r3: "read_epoch s i2 = (r3, i3)" by (cases "read_epoch s i2") auto
  obtain r5 i5 where r5: "named s i = (r5, i5)" by (cases "named s i") auto
  note rs = iso_reads [of s i, unfolded r0] day_month_name_reads [of s i0, unfolded r1]
    numeric_reads [of s i1 ctx, unfolded r2] named_reads [of s i, unfolded r5]
  have e: "i3 = i2" if "r3 = None"
    using r3 that by (auto simp: read_epoch_def read_num_def Let_def split: prod.splits if_splits option.splits)
  show ?thesis
    using assms b r0 r1 r2 r3 r5 rs e
    by (auto simp: scan_at_def only_time_def reads_def split: option.splits prod.splits if_splits
      dest: read_epoch_leaps read_time_leaps)
qed

section \<open>In a line\<close>

lemma found_at_ends: "found_at ch s ctx i leading = Some f \<Longrightarrow> fd_start f = i \<and> leaps s i (fd_end f)"
  by (auto simp: found_at_def complete_def Let_def split: option.splits prod.splits dest!: scan_at_leaps)

lemma find_loop_found:
  "find_loop ch s ctx limit d i = Some f \<Longrightarrow> d = Some f \<or>
    (\<exists>j. i \<le> j \<and> j < limit \<and> word_start s j \<and> found_at ch s ctx j (j = leading_marks s) = Some f)"
proof (induction ch s ctx limit d i rule: find_loop.induct)
  case (1 ch s ctx limit d i)
  note unfold = find_loop.simps [of ch s ctx limit d i]
  show ?case
  proof (cases "limit \<le> i")
    case True
    then show ?thesis using "1.prems" unfold by simp
  next
    case False
    show ?thesis
    proof (cases "if word_start s i then found_at ch s ctx i (i = leading_marks s) else None")
      case None
      then have "find_loop ch s ctx limit d (i + 1) = Some f" using "1.prems" unfold False by (simp add: Let_def)
      then show ?thesis using "1.IH"(1) [OF False refl None] by (meson le_add1 le_trans)
    next
      case (Some g)
      then have here: "word_start s i" "found_at ch s ctx i (i = leading_marks s) = Some g" by (auto split: if_splits)
      show ?thesis
      proof (cases "fd_has_time g")
        case True
        then have "g = f" using "1.prems" unfold False Some by (simp add: Let_def)
        then show ?thesis using here False by auto
      next
        case no: False
        let ?d = "if d = None \<and> counts_alone s (leading_marks s) i g then Some g else d"
        have "find_loop ch s ctx limit ?d (i + 1) = Some f" using "1.prems" unfold False Some no by (simp add: Let_def)
        then have "?d = Some f \<or> (\<exists>j. i + 1 \<le> j \<and> j < limit \<and> word_start s j \<and> found_at ch s ctx j (j = leading_marks s) = Some f)"
          using "1.IH"(2) [OF False refl Some no] by blast
        then show ?thesis using here False by (auto split: if_splits intro: Suc_leD)
      qed
    qed
  qed
qed

text \<open>A date found in a line lies in it: it starts before the 400th byte at the start of a word and ends after
  its start and not past the end of the line, so cutting the line at both places never panics.\<close>

theorem found_inside_line:
  assumes "stamp_find ch t ctx = Some f"
  shows "fd_start f < fd_end f \<and> fd_end f \<le> length (as_bytes t) \<and> fd_start f < scan_limit \<and> word_start (as_bytes t) (fd_start f)"
proof -
  let ?s = "as_bytes t"
  obtain j where j: "j < min (length ?s) scan_limit" "word_start ?s j" "found_at ch ?s ctx j (j = leading_marks ?s) = Some f"
    using assms find_loop_found by (fastforce simp: stamp_find_def Let_def)
  then show ?thesis using found_at_ends [OF j(3)] by (auto simp: leaps_def moves_def)
qed

end
