(* ===== verification/Stamp_Ranges.thy ===== *)
theory Stamp_Ranges
  imports Stamp_Moves
begin

text \<open>
  What the recognizers of \<open>stamp.rs\<close> answer is in range: a month, a day and a year of the calendar, a time of
  day, an offset of at most fifteen hours.
\<close>

section \<open>Well-formed values\<close>

definition hms_ok :: "hms \<Rightarrow> bool" where
  "hms_ok t \<longleftrightarrow> (case t of (h, m, s, n) \<Rightarrow> h < 24 \<and> m < 60 \<and> s < 60 \<and> n < 1000000000)"

definition offset_ok :: "int \<Rightarrow> bool" where
  "offset_ok z \<longleftrightarrow> \<bar>z\<bar> < 54000"

fun zone_ok :: "stamp_zone \<Rightarrow> bool" where
  "zone_ok (Fixed z) = offset_ok z"
| "zone_ok (EuZone z) = offset_ok z"
| "zone_ok (UsZone z) = offset_ok z"
| "zone_ok LocalZone = True"

definition day_ok :: "int option \<times> nat \<times> nat \<Rightarrow> bool" where
  "day_ok x \<longleftrightarrow> (case x of (y, m, d) \<Rightarrow> pred_option (\<lambda>y. 1970 \<le> y \<and> y \<le> 2100) y \<and> 1 \<le> m \<and> m \<le> 12 \<and> 1 \<le> d \<and> d \<le> 31)"

definition raw_ok :: "raw_date \<Rightarrow> bool" where
  "raw_ok r \<longleftrightarrow> pred_option day_ok (ra_date r) \<and> pred_option hms_ok (ra_time r) \<and> pred_option zone_ok (ra_zone r)"

section \<open>Times\<close>

lemma read_seconds_ok:
  "read_seconds s i = (Some (sec, nanos, has), j) \<Longrightarrow> sec < 100 \<and> nanos < 1000000000"
  by (auto simp: read_seconds_def Let_def split: option.splits if_splits prod.splits
      dest!: read_fixed_bound fraction_bound)

lemma read_half_ok: "read_half s h i = (h', j) \<Longrightarrow> h < 24 \<Longrightarrow> h' < 24"
  by (auto simp: read_half_def Let_def split: option.splits if_splits prod.splits)

lemma read_time_ok: "read_time s b i = (Some t, j) \<Longrightarrow> hms_ok t"
  by (auto simp: read_time_def hms_ok_def Let_def split: option.splits if_splits prod.splits bool.splits
      dest!: read_seconds_ok dest: read_half_ok)

lemma compact_time_ok: "compact_time s i = (Some t, j) \<Longrightarrow> hms_ok t"
  by (auto simp: compact_time_def hms_ok_def Let_def split: option.splits if_splits prod.splits
      dest: fraction_bound dest!: read_time_ok)

section \<open>Zones\<close>

lemma numeric_offset_ok: "numeric_offset s i = (Some z, j) \<Longrightarrow> offset_ok z"
  by (auto simp: numeric_offset_def offset_ok_def Let_def split: option.splits if_splits prod.splits)

lemma abbreviations_ok: "map_of abbreviations n = Some m \<Longrightarrow> offset_ok (m * 60)"
proof -
  assume "map_of abbreviations n = Some m"
  then have "(n, m) \<in> set abbreviations" by (rule map_of_SomeD)
  moreover have "list_all (\<lambda>m. offset_ok (m * 60)) (map snd abbreviations)"
    by (simp add: abbreviations_def offset_ok_def)
  ultimately show ?thesis by (force simp: list_all_iff)
qed

lemma find_zone_ok:
  "find_zone n table = Some z \<Longrightarrow> list_all (\<lambda>m. offset_ok (m * 60)) (map snd table) \<Longrightarrow> offset_ok z"
  by (auto simp: find_zone_def find_Some_iff list_all_length)

lemma tables_ok:
  "list_all (\<lambda>m. offset_ok (m * 60)) (map snd fixed_zones)"
  "list_all (\<lambda>m. offset_ok (m * 60)) (map snd eu_zones)"
  "list_all (\<lambda>m. offset_ok (m * 60)) (map snd us_zones)"
  by (simp_all add: fixed_zones_def eu_zones_def us_zones_def offset_ok_def)

lemma iana_ok: "iana n = Some z \<Longrightarrow> zone_ok z"
  using find_zone_ok tables_ok by (auto simp: iana_def split: option.splits if_splits)

lemma named_zone_ok: "named_zone s i = (Some z, j) \<Longrightarrow> zone_ok z"
proof -
  assume "named_zone s i = (Some z, j)"
  then have "(\<exists>n. iana n = Some z) \<or> (\<exists>k l o'. numeric_offset s k = (o', l) \<and> z = Fixed (case o' of None \<Rightarrow> 0 | Some n \<Rightarrow> n))
    \<or> (\<exists>n m. map_of abbreviations n = Some m \<and> z = Fixed (m * 60))"
    by (auto simp: named_zone_def Let_def split: if_splits prod.splits)
  then show ?thesis
    using iana_ok numeric_offset_ok abbreviations_ok by (auto simp: offset_ok_def [of 0] split: option.splits)
qed

lemma read_zone_ok: "read_zone s i = (Some z, j) \<Longrightarrow> zone_ok z"
  by (auto simp: read_zone_def Let_def offset_ok_def [of 0] split: option.splits if_splits prod.splits
      dest!: numeric_offset_ok named_zone_ok)

lemma read_zone_pred: "read_zone s i = (z, j) \<Longrightarrow> pred_option zone_ok z"
  by (cases z) (auto dest: read_zone_ok)

section \<open>Dates\<close>

lemma dated_time_ok: "dated_time s d i = Some (raw, j) \<Longrightarrow> day_ok d \<Longrightarrow> raw_ok raw"
  by (auto simp: dated_time_def raw_ok_def split: option.splits prod.splits bool.splits
      dest: read_time_ok read_zone_pred)

lemma bare_date_ok: "day_ok d \<Longrightarrow> raw_ok (bare_date d i)"
  by (simp add: bare_date_def raw_ok_def)

lemma iso_ok: "iso s i = (Some raw, j) \<Longrightarrow> raw_ok raw"
proof -
  assume r: "iso s i = (Some raw, j)"
  obtain y k m d p l where y: "read_fixed s 4 i = (Some y, k)" "plausible_year y" "iso_parts s k = Some (m, d, p, l)"
    "1 \<le> m" "m \<le> 12" "1 \<le> d" "d \<le> 31"
    using r by (auto simp: iso_def Let_def split: option.splits prod.splits if_splits)
  have d: "day_ok (Some (int y), m, d)" using y by (auto simp: day_ok_def plausible_year_def)
  show ?thesis
    using r y d dated_time_ok [OF _ d] bare_date_ok [OF d]
    by (auto simp: iso_def Let_def split: option.splits prod.splits if_splits)
      (auto simp: raw_ok_def dest: compact_time_ok read_zone_pred)
qed

lemma num_loop_bound: "num_loop s k v i = (w, j) \<Longrightarrow> i \<le> j \<and> w < (v + 1) * 10 ^ (j - i)"
proof (induction s k v i arbitrary: w rule: num_loop.induct)
  case (2 s k v i)
  show ?case
  proof (cases "digit (peek s i)")
    case True
    let ?v = "sat_digit v (s ! i)"
    have "s ! i - 48 \<le> 9" using digit_peek [OF True] by (auto simp: is_ascii_digit_def)
    then have v: "?v + 1 \<le> (v + 1) * 10" by (auto simp: sat_digit_def)
    have ih: "i + 1 \<le> j" "w < (?v + 1) * 10 ^ (j - (i + 1))" using "2.IH" [OF True] "2.prems" True by auto
    have "(?v + 1) * 10 ^ (j - (i + 1)) \<le> (v + 1) * 10 * 10 ^ (j - (i + 1))" using v by (rule mult_right_mono) simp
    also have "\<dots> = (v + 1) * 10 ^ Suc (j - (i + 1))" by (simp only: power_Suc mult.assoc)
    also have "Suc (j - (i + 1)) = j - i" using ih(1) by simp
    finally show ?thesis using ih by simp
  qed (use "2.prems" in auto)
qed auto

lemma read_num_bound: "read_num s a b i = (Some (v, n), j) \<Longrightarrow> v < 10 ^ n"
  by (auto simp: read_num_def Let_def split: prod.splits if_splits dest!: num_loop_bound)

lemma numeric_year_ok: "numeric_year s sep i = Some (y, short, j) \<Longrightarrow> pred_option (\<lambda>y. 1970 \<le> y \<and> y \<le> 2100) y"
  by (auto simp: numeric_year_def plausible_year_def split: option.splits prod.splits if_splits dest!: read_num_bound)

lemma numeric_parts_ok:
  "numeric_parts s i = Some (a, sep, b, y, short, j) \<Longrightarrow>
    1 \<le> a \<and> a \<le> 31 \<and> 1 \<le> b \<and> b \<le> 31 \<and> \<not> (12 < a \<and> 12 < b) \<and> pred_option (\<lambda>y. 1970 \<le> y \<and> y \<le> 2100) y"
  by (auto simp: numeric_parts_def split: option.splits prod.splits if_splits dest: numeric_year_ok)

lemma numeric_time_ok: "numeric_time s sep y i = Some (c, t, j) \<Longrightarrow> pred_option hms_ok t"
  by (auto simp: numeric_time_def Let_def split: option.splits prod.splits if_splits bool.splits dest: read_time_ok)

lemma numeric_ok: "numeric s ctx i = (Some raw, j) \<Longrightarrow> raw_ok raw"
  by (auto simp: numeric_def Let_def raw_ok_def day_ok_def split: option.splits prod.splits if_splits
      dest!: numeric_parts_ok numeric_time_ok dest: read_zone_pred)

lemma named_parts_ok: "named_parts s i = Some (d, m, y, j) \<Longrightarrow> day_ok (Some y, m, d)"
  by (auto simp: named_parts_def day_ok_def Let_def plausible_year_def split: option.splits prod.splits if_splits
      dest: month_of_range dest!: read_num_bound)

lemma day_month_name_ok: "day_month_name s i = (Some raw, j) \<Longrightarrow> raw_ok raw"
  by (auto simp: day_month_name_def split: option.splits prod.splits if_splits
      dest!: named_parts_ok dest: dated_time_ok bare_date_ok)

lemma inner_year_ok: "inner_year s i = Some (y, j, k) \<Longrightarrow> pred_option (\<lambda>y. 1970 \<le> y \<and> y \<le> 2100) y"
  by (auto simp: inner_year_def Let_def plausible_year_def split: option.splits prod.splits if_splits)

lemma trailing_year_ok: "trailing_year s i = (y, j) \<Longrightarrow> pred_option (\<lambda>y. 1970 \<le> y \<and> y \<le> 2100) y"
  by (auto simp: trailing_year_def Let_def plausible_year_def split: option.splits prod.splits if_splits)

lemma month_name_first_ok: "month_name_first s m i = (Some raw, j) \<Longrightarrow> 1 \<le> m \<Longrightarrow> m \<le> 12 \<Longrightarrow> raw_ok raw"
proof -
  assume r: "month_name_first s m i = (Some raw, j)" and m: "1 \<le> m" "m \<le> 12"
  obtain d k where d: "named_day s i = Some (d, k)" using r by (auto simp: month_name_first_def split: option.splits)
  then have d31: "1 \<le> d \<and> d \<le> 31" by (auto simp: named_day_def split: option.splits prod.splits if_splits)
  have day: "day_ok (y, m, d)" if "pred_option (\<lambda>y. 1970 \<le> y \<and> y \<le> 2100) y" for y
    using that m d31 by (simp add: day_ok_def)
  show ?thesis
    using r d by (auto simp: month_name_first_def Let_def split: option.splits prod.splits if_splits
        intro!: bare_date_ok day dest!: inner_year_ok trailing_year_ok)
      (auto simp: raw_ok_def intro!: day dest: read_zone_pred read_time_ok)
qed

lemma named_ok: "named s i = (Some raw, j) \<Longrightarrow> raw_ok raw"
proof -
  assume "named s i = (Some raw, j)"
  then have "(\<exists>m k w e. month_of w = Some m \<and> month_name_first s m k = (Some raw, e)) \<or> (\<exists>k e. day_month_name s k = (Some raw, e))"
    by (auto simp: named_def Let_def split: option.splits prod.splits if_splits)
  then show ?thesis using month_of_range month_name_first_ok day_month_name_ok by blast
qed

lemma scan_at_ok: "scan_at s i ctx leading = Some (raw, ms) \<Longrightarrow> raw_ok raw"
proof -
  assume r: "scan_at s i ctx leading = Some (raw, ms)"
  then obtain b where b: "peek s i = Some b" by (auto simp: scan_at_def split: option.splits)
  show ?thesis
  proof (cases "is_ascii_digit b")
    case True
    then show ?thesis using r b
      by (auto simp: scan_at_def only_time_def split: option.splits prod.splits if_splits
        dest: iso_ok day_month_name_ok numeric_ok dest!: read_time_ok)
        (auto simp: raw_ok_def)
  next
    case False
    then have "named s i = (Some raw, snd (named s i))"
      using r b by (auto simp: scan_at_def prod_eq_iff split: if_splits)
    then show ?thesis by (rule named_ok)
  qed
qed

text \<open>C26. Every date the recognizers read has a month, a day and a year of the calendar's ranges, a time of day
  whose parts are in range (so the clock's constructor never refuses it) and an offset below fifteen hours.\<close>

theorem scanned_fields_in_range:
  assumes "scan_at s i ctx leading = Some (raw, ms)"
  shows "raw_ok raw"
  using scan_at_ok [OF assms] .

lemma scanned_fields_in_range_witness:
  "raw_ok (fst (the (scan_at (as_bytes (lit ''2026-10-12T03:00:00.5+02:00'')) 0 (context_year 2026) True)))"
proof -
  have "scan_at (as_bytes (lit ''2026-10-12T03:00:00.5+02:00'')) 0 (context_year 2026) True
    = Some (\<lparr>ra_date = Some (Some 2026, 10, 12), ra_time = Some (3, 0, 0, 500000000), ra_zone = Some (Fixed 7200),
        ra_end = 27, ra_ambiguous = None\<rparr>, None)" by code_simp
  from scanned_fields_in_range [OF this] show ?thesis
    using \<open>scan_at _ _ _ _ = _\<close> by simp
qed

end
