(* ===== verification/Stamp_Laws.thy ===== *)
theory Stamp_Laws
  imports Stamp_Ranges
begin

text \<open>
  What the searches of \<open>stamp.rs\<close> answer: the leftmost complete date of a line, the moment that was written,
  and an order of day and month only where the sample shows it.
\<close>

section \<open>A calendar\<close>

text \<open>The proleptic Gregorian calendar in UTC, on which the examples are computed.\<close>

definition civil_days :: "int \<Rightarrow> nat \<Rightarrow> nat \<Rightarrow> int" where
  "civil_days y m d =
     (let y = (if m \<le> 2 then y - 1 else y);
          doy = (153 * int ((m + 9) mod 12) + 2) div 5 + int d - 1;
          yoe = y mod 400
      in y div 400 * 146097 + yoe * 365 + yoe div 4 - yoe div 100 + doy - 719468)"

definition month_days :: "int \<Rightarrow> nat \<Rightarrow> nat" where
  "month_days y m =
     (if m = 2 then (if y mod 4 = 0 \<and> (y mod 100 \<noteq> 0 \<or> y mod 400 = 0) then 29 else 28)
      else if m \<in> {4, 6, 9, 11} then 30 else 31)"

definition civil_ymd :: "int \<Rightarrow> nat \<Rightarrow> nat \<Rightarrow> int option" where
  "civil_ymd y m d = (if 1 \<le> m \<and> m \<le> 12 \<and> 1 \<le> d \<and> d \<le> month_days y m then Some (civil_days y m d) else None)"

definition civil_sunday :: "int \<Rightarrow> nat \<Rightarrow> nat \<Rightarrow> int option" where
  "civil_sunday y m n =
     (let first = civil_days y m 1;
          d = 1 + nat ((3 - first) mod 7) + 7 * (n - 1)
      in civil_ymd y m d)"

definition civil :: chrono where
  "civil = \<lparr>ch_ymd = civil_ymd, ch_sunday = civil_sunday,
     ch_time = (\<lambda>day (h, m, s, n). if h < 24 \<and> m < 60 \<and> s < 60 \<and> n < 1000000000
       then Some (((day * 24 + int h) * 60 + int m) * 60000000000 + int s * 1000000000 + int n) else None),
     ch_year = (\<lambda>wall. let day = wall div 86400000000000 in
       (let y = 1970 + day div 366 in if civil_days (y + 1) 1 1 \<le> day then y + 1 else y)),
     ch_single = (\<lambda>wall. Some (wall div 1000000))\<rparr>"

lemma found_inside_line_witness:
  "let f = the (stamp_find civil (lit ''a 12/Oct/2026:00:00:00 -0300'') (context_year 2026))
   in fd_start f = 2 \<and> fd_end f \<le> 28"
proof -
  have "stamp_find civil (lit ''a 12/Oct/2026:00:00:00 -0300'') (context_year 2026)
    = Some \<lparr>fd_ms = 1791774000000, fd_start = 2, fd_end = 28, fd_inferred = InferredNothing, fd_has_time = True, fd_zoned = True\<rparr>"
    by code_simp
  from found_inside_line [OF this] this show ?thesis by (simp add: lit_def)
qed

section \<open>The leftmost complete date\<close>

definition line_dates :: "chrono \<Rightarrow> octets \<Rightarrow> stamp_ctx \<Rightarrow> nat \<Rightarrow> nat \<Rightarrow> (nat \<times> found) list" where
  "line_dates ch s ctx i limit =
     concat (map (\<lambda>j. if word_start s j
       then (case found_at ch s ctx j (j = leading_marks s) of None \<Rightarrow> [] | Some f \<Rightarrow> [(j, f)]) else []) [i..<limit])"

definition leftmost :: "octets \<Rightarrow> found option \<Rightarrow> (nat \<times> found) list \<Rightarrow> found option" where
  "leftmost s d ds =
     (case find (\<lambda>(_, f). fd_has_time f) ds of
        Some (_, f) \<Rightarrow> Some f
      | None \<Rightarrow> if d \<noteq> None then d else map_option snd (find (\<lambda>(i, f). counts_alone s (leading_marks s) i f) ds))"

lemma line_dates_step:
  "i < limit \<Longrightarrow> line_dates ch s ctx i limit =
     (case (if word_start s i then found_at ch s ctx i (i = leading_marks s) else None) of None \<Rightarrow> [] | Some f \<Rightarrow> [(i, f)])
       @ line_dates ch s ctx (i + 1) limit"
  by (simp add: line_dates_def upt_conv_Cons split: option.splits)

lemma find_loop_leftmost: "find_loop ch s ctx limit d i = leftmost s d (line_dates ch s ctx i limit)"
proof (induction ch s ctx limit d i rule: find_loop.induct)
  case (1 ch s ctx limit d i)
  note unfold = find_loop.simps [of ch s ctx limit d i]
  show ?case
  proof (cases "limit \<le> i")
    case True
    then show ?thesis unfolding unfold by (simp add: line_dates_def leftmost_def)
  next
    case False
    note step = line_dates_step [of i limit ch s ctx]
    show ?thesis
    proof (cases "if word_start s i then found_at ch s ctx i (i = leading_marks s) else None")
      case None
      then show ?thesis using "1.IH"(1) [OF False refl None] step False unfolding unfold by (simp add: Let_def)
    next
      case (Some f)
      show ?thesis
      proof (cases "fd_has_time f")
        case True
        then show ?thesis using Some step False unfolding unfold by (simp add: Let_def leftmost_def)
      next
        case no: False
        then show ?thesis
          using "1.IH"(2) [OF False refl Some no] Some step False unfolding unfold
          by (cases d) (auto simp: Let_def leftmost_def split: option.splits)
      qed
    qed
  qed
qed

text \<open>C15. \<open>find\<close> answers the leftmost of the dates with a time that start a word of the first 400 bytes, and where
  there is none the leftmost date without one that may stand alone.\<close>

theorem find_is_leftmost:
  "stamp_find ch t ctx =
     (let s = as_bytes t; ds = line_dates ch s ctx 0 (min (length s) scan_limit)
      in case find (\<lambda>(_, f). fd_has_time f) ds of
           Some (_, f) \<Rightarrow> Some f
         | None \<Rightarrow> map_option snd (find (\<lambda>(i, f). counts_alone s (leading_marks s) i f) ds))"
  by (simp add: stamp_find_def find_loop_leftmost leftmost_def Let_def)

section \<open>What was written\<close>

definition iso_text :: "nat \<Rightarrow> nat \<Rightarrow> nat \<Rightarrow> nat \<Rightarrow> nat \<Rightarrow> nat \<Rightarrow> nat \<Rightarrow> rstr" where
  "iso_text y m d h mi s ms =
     [48 + y div 1000, 48 + y div 100 mod 10, 48 + y div 10 mod 10, 48 + y mod 10, 45, 48 + m div 10, 48 + m mod 10, 45,
      48 + d div 10, 48 + d mod 10, 84, 48 + h div 10, 48 + h mod 10, 58, 48 + mi div 10, 48 + mi mod 10, 58,
      48 + s div 10, 48 + s mod 10, 46, 48 + ms div 100, 48 + ms div 10 mod 10, 48 + ms mod 10, 90]"

definition two :: "nat \<Rightarrow> nat \<Rightarrow> nat" where
  "two a b = (a - 48) * 10 + (b - 48)"

lemma not_digits [simp]:
  "\<not> is_ascii_digit 45" "\<not> is_ascii_digit 46" "\<not> is_ascii_digit 58" "\<not> is_ascii_digit 84" "\<not> is_ascii_digit 90"
  by (simp_all add: is_ascii_digit_def)

lemma digit_Some [simp]: "digit (Some a) = is_ascii_digit a"
  by (simp add: digit_def)

lemma fixed_step: "peek s i = Some a \<Longrightarrow> is_ascii_digit a \<Longrightarrow> fixed_loop s (Suc k) v i = fixed_loop s k (v * 10 + (a - 48)) (Suc i)"
  by (auto dest: peek_Some)

lemma num_step: "peek s i = Some a \<Longrightarrow> is_ascii_digit a \<Longrightarrow> num_loop s (Suc k) v i = num_loop s k (sat_digit v a) (Suc i)"
  by (auto dest: peek_Some)

lemma sat_digit_small: "is_ascii_digit a \<Longrightarrow> v \<le> 9 \<Longrightarrow> sat_digit v a = v * 10 + (a - 48)"
  by (auto simp: sat_digit_def u32_max_def is_ascii_digit_def)

lemma fixed_two:
  "peek s i = Some a \<Longrightarrow> peek s (Suc i) = Some b \<Longrightarrow> is_ascii_digit a \<Longrightarrow> is_ascii_digit b \<Longrightarrow>
    read_fixed s 2 i = (Some (two a b), i + 2)"
  by (simp add: read_fixed_def numeral_2_eq_2 two_def fixed_step del: fixed_loop.simps(2))

lemma fixed_four:
  assumes "peek s i = Some a" "peek s (Suc i) = Some b" "peek s (Suc (Suc i)) = Some c" "peek s (Suc (Suc (Suc i))) = Some d"
    "is_ascii_digit a" "is_ascii_digit b" "is_ascii_digit c" "is_ascii_digit d"
  shows "read_fixed s 4 i = (Some (two a b * 100 + two c d), i + 4)"
proof -
  have "fixed_loop s (Suc (Suc (Suc (Suc 0)))) 0 i = (Some (two a b * 100 + two c d), Suc (Suc (Suc (Suc i))))"
    using assms by (simp add: two_def fixed_step del: fixed_loop.simps(2))
  then have "fixed_loop s 4 0 i = (Some (two a b * 100 + two c d), i + 4)" by (simp add: eval_nat_numeral)
  then show ?thesis by (simp add: read_fixed_def)
qed

lemma num_two:
  "peek s i = Some a \<Longrightarrow> peek s (Suc i) = Some b \<Longrightarrow> \<not> digit (peek s (i + 2)) \<Longrightarrow> is_ascii_digit a \<Longrightarrow> is_ascii_digit b \<Longrightarrow>
    read_num s 1 2 i = (Some (two a b, 2), i + 2)"
proof -
  assume s: "peek s i = Some a" "peek s (Suc i) = Some b" "\<not> digit (peek s (i + 2))" and d: "is_ascii_digit a" "is_ascii_digit b"
  have a: "sat_digit 0 a = a - 48" "a - 48 \<le> 9" using d(1) sat_digit_small [of a 0] by (auto simp: is_ascii_digit_def)
  have "num_loop s 2 0 i = (two a b, i + 2)"
    using s d a by (simp add: numeral_2_eq_2 num_step sat_digit_small two_def del: num_loop.simps(2))
  then show ?thesis using s(3) by (simp add: read_num_def)
qed

lemma peek_nth: "i < length s \<Longrightarrow> peek s i = Some (s ! i)"
  by (simp add: peek_def)

text \<open>The text over its digits, and what each reader makes of it.\<close>

definition stamp_text :: "(nat \<times> nat \<times> nat \<times> nat) \<Rightarrow> nat \<times> nat \<Rightarrow> nat \<times> nat \<Rightarrow> nat \<times> nat \<Rightarrow> nat \<times> nat \<Rightarrow> nat \<times> nat \<Rightarrow> nat \<times> nat \<times> nat \<Rightarrow> rstr" where
  "stamp_text y m d h mi s f =
     (case y of (y1, y2, y3, y4) \<Rightarrow> case f of (f1, f2, f3) \<Rightarrow>
        [y1, y2, y3, y4, 45, fst m, snd m, 45, fst d, snd d, 84, fst h, snd h, 58, fst mi, snd mi, 58, fst s, snd s, 46, f1, f2, f3, 90])"

definition both_digits :: "nat \<times> nat \<Rightarrow> bool" where
  "both_digits p \<longleftrightarrow> is_ascii_digit (fst p) \<and> is_ascii_digit (snd p)"

definition value_of :: "nat \<times> nat \<Rightarrow> nat" where
  "value_of p = two (fst p) (snd p)"

definition written :: "octets \<Rightarrow> nat \<times> nat \<times> nat \<times> nat \<Rightarrow> nat \<times> nat \<Rightarrow> nat \<times> nat \<Rightarrow> nat \<times> nat \<Rightarrow> nat \<times> nat \<Rightarrow> nat \<times> nat \<Rightarrow> nat \<times> nat \<times> nat \<Rightarrow> bool" where
  "written s y m d h mi sec f \<longleftrightarrow> s = stamp_text y m d h mi sec f
     \<and> (case y of (a, b, c, e) \<Rightarrow> both_digits (a, b) \<and> both_digits (c, e)) \<and> both_digits m \<and> both_digits d \<and> both_digits h
     \<and> both_digits mi \<and> both_digits sec \<and> (case f of (a, b, c) \<Rightarrow> both_digits (a, b) \<and> is_ascii_digit c)"

lemma at_places:
  assumes "written s (y1, y2, y3, y4) m d h mi sec (f1, f2, f3)"
  shows "peek s 0 = Some y1" "peek s 1 = Some y2" "peek s 2 = Some y3" "peek s 3 = Some y4" "peek s 4 = Some 45"
    "peek s 5 = Some (fst m)" "peek s 6 = Some (snd m)" "peek s 7 = Some 45" "peek s 8 = Some (fst d)" "peek s 9 = Some (snd d)"
    "peek s 10 = Some 84" "peek s 11 = Some (fst h)" "peek s 12 = Some (snd h)" "peek s 13 = Some 58"
    "peek s 14 = Some (fst mi)" "peek s 15 = Some (snd mi)" "peek s 16 = Some 58" "peek s 17 = Some (fst sec)"
    "peek s 18 = Some (snd sec)" "peek s 19 = Some 46" "peek s 20 = Some f1" "peek s 23 = Some 90" "peek s 24 = None"
    "drop 20 s = [f1, f2, f3, 90]" "drop 23 s = [90]" "drop 24 s = []" "length s = 24"
  using assms by (simp_all add: written_def stamp_text_def peek_def split: prod.splits)

lemma read_fixed_pair:
  assumes "peek s i = Some (fst p)" "peek s (i + 1) = Some (snd p)" "both_digits p" "j = i + 2"
  shows "read_fixed s 2 i = (Some (value_of p), j)"
  using assms fixed_two [of s i] by (simp add: both_digits_def value_of_def)

lemma read_num_pair:
  assumes "peek s i = Some (fst p)" "peek s (i + 1) = Some (snd p)" "both_digits p" "j = i + 2" "\<not> digit (peek s j)"
  shows "read_num s 1 2 i = (Some (value_of p, 2), j)"
  using assms num_two [of s i] by (simp add: both_digits_def value_of_def)

lemma read_year:
  assumes "peek s 0 = Some a" "peek s 1 = Some b" "peek s 2 = Some c" "peek s 3 = Some e" "both_digits (a, b)" "both_digits (c, e)"
  shows "read_fixed s 4 0 = (Some (value_of (a, b) * 100 + value_of (c, e)), 4)"
  using fixed_four [of s 0 a b c e] assms by (simp add: both_digits_def value_of_def numeral_2_eq_2 numeral_3_eq_3 del: fixed_loop.simps)

definition nanos_of :: "nat \<times> nat \<times> nat \<Rightarrow> nat" where
  "nanos_of f = (case f of (a, b, c) \<Rightarrow> (two a b * 10 + (c - 48)) * 1000000)"

lemma read_fraction:
  assumes "written s (y1, y2, y3, y4) m d h mi sec (f1, f2, f3)"
  shows "fraction s 20 = (nanos_of (f1, f2, f3), 23)"
proof -
  have "is_ascii_digit f1" "is_ascii_digit f2" "is_ascii_digit f3" using assms by (auto simp: written_def both_digits_def)
  then show ?thesis using at_places [OF assms] by (simp add: fraction_def nanos_of_def two_def)
qed

lemma read_written_seconds:
  assumes "written s (y1, y2, y3, y4) m d h mi sec (f1, f2, f3)"
  shows "read_seconds s 16 = (Some (value_of sec, nanos_of (f1, f2, f3), True), 23)"
proof -
  have d: "is_ascii_digit f1" "both_digits sec" using assms by (auto simp: written_def both_digits_def)
  have r: "read_fixed s 2 17 = (Some (value_of sec), 19)"
    using at_places [OF assms] d by (intro read_fixed_pair) simp_all
  show ?thesis
    using at_places [OF assms] d r read_fraction [OF assms] by (simp add: read_seconds_def ahead_at_def both_digits_def)
qed

lemma spaces_none: "peek s i = Some b \<Longrightarrow> b \<noteq> 32 \<Longrightarrow> b \<noteq> 9 \<Longrightarrow> spaces s i = (0, i)"
  by (auto simp: spaces_def run_end_def Let_def Cons_nth_drop_Suc [symmetric] dest!: peek_Some)

lemma spaces_end: "peek s i = None \<Longrightarrow> spaces s i = (0, i)"
  by (auto simp: spaces_def run_end_def Let_def peek_def split: if_splits)

lemma read_written_time:
  assumes "written s (y1, y2, y3, y4) m d h mi sec (f1, f2, f3)"
    and "value_of h < 24" "value_of mi < 60" "value_of sec < 60"
  shows "read_time s b 11 = (Some (value_of h, value_of mi, value_of sec, nanos_of (f1, f2, f3)), 23)"
proof -
  note w = at_places [OF assms(1)]
  have d: "both_digits h" "both_digits mi" using assms(1) by (auto simp: written_def)
  have h: "read_num s 1 2 11 = (Some (value_of h, 2), 13)" using w d by (intro read_num_pair) simp_all
  have m: "read_fixed s 2 14 = (Some (value_of mi), 16)" using w d by (intro read_fixed_pair) simp_all
  have half: "read_half s (value_of h) 23 = (value_of h, 23)"
    using w spaces_none [of s 23 90] by (simp add: read_half_def meridiem_def ascii_lower_def)
  show ?thesis
    using w h m half read_written_seconds [OF assms(1)] assms(2-4) by (simp add: read_time_def eat_def)
qed

lemma read_written_zone:
  assumes "written s (y1, y2, y3, y4) m d h mi sec (f1, f2, f3)"
  shows "read_zone s 23 = (Some (Fixed 0), 24)"
proof -
  note w = at_places [OF assms]
  have "zone_suffix s 24 = 24" using w spaces_end [of s 24] by (simp add: zone_suffix_def eat_def)
  then show ?thesis using w spaces_none [of s 23 90] by (simp add: read_zone_def ahead_at_def alnum_def)
qed

lemma iso_written:
  assumes "written s (y1, y2, y3, y4) m d h mi sec (f1, f2, f3)"
    and "plausible_year (value_of (y1, y2) * 100 + value_of (y3, y4))"
    and "1 \<le> value_of m" "value_of m \<le> 12" "1 \<le> value_of d" "value_of d \<le> 31"
    and "value_of h < 24" "value_of mi < 60" "value_of sec < 60"
  shows "iso s 0 = (Some \<lparr>ra_date = Some (Some (int (value_of (y1, y2) * 100 + value_of (y3, y4))), value_of m, value_of d),
      ra_time = Some (value_of h, value_of mi, value_of sec, nanos_of (f1, f2, f3)), ra_zone = Some (Fixed 0),
      ra_end = 24, ra_ambiguous = None\<rparr>, 24)"
proof -
  note w = at_places [OF assms(1)]
  have digits: "both_digits (y1, y2)" "both_digits (y3, y4)" "both_digits m" "both_digits d" "both_digits h"
    using assms(1) by (auto simp: written_def)
  have y: "read_fixed s 4 0 = (Some (value_of (y1, y2) * 100 + value_of (y3, y4)), 4)"
    using w digits by (intro read_year) simp_all
  have m: "read_num s 1 2 5 = (Some (value_of m, 2), 7)" using w digits by (intro read_num_pair) simp_all
  have d: "read_num s 1 2 8 = (Some (value_of d, 2), 10)" using w digits by (intro read_num_pair) simp_all
  have parts: "iso_parts s 4 = Some (value_of m, value_of d, False, 10)"
    using w m d by (simp add: iso_parts_def eat_def)
  have sep: "date_time_separator s True True 10 = (True, 11)"
    using w digits by (simp add: date_time_separator_def both_digits_def)
  have "dated_time s x 10 = Some (\<lparr>ra_date = Some x, ra_time = Some (value_of h, value_of mi, value_of sec, nanos_of (f1, f2, f3)),
      ra_zone = Some (Fixed 0), ra_end = 24, ra_ambiguous = None\<rparr>, 24)" for x
    using sep read_written_time [OF assms(1,7-9)] read_written_zone [OF assms(1)] by (simp add: dated_time_def)
  then show ?thesis using assms(2-6) y parts w by (simp add: iso_def)
qed

lemma exact_written:
  assumes "written s (y1, y2, y3, y4) m d h mi sec (f1, f2, f3)"
    and "plausible_year (value_of (y1, y2) * 100 + value_of (y3, y4))"
    and "1 \<le> value_of m" "value_of m \<le> 12" "1 \<le> value_of d" "value_of d \<le> 31"
    and "value_of h < 24" "value_of mi < 60" "value_of sec < 60"
    and "ch_ymd ch (int (value_of (y1, y2) * 100 + value_of (y3, y4))) (value_of m) (value_of d) = Some day"
    and "ch_time ch day (value_of h, value_of mi, value_of sec, nanos_of (f1, f2, f3)) = Some wall"
  shows "exact ch s = Some (wall div 1000000)"
proof -
  have digits: "is_ascii_digit c \<Longrightarrow> c < 128 \<and> \<not> is_whitespace c \<and> c \<notin> {91, 40, 34, 39}" for c
    by (auto simp: is_ascii_digit_def is_whitespace_def)
  have s: "s = stamp_text (y1, y2, y3, y4) m d h mi sec (f1, f2, f3)" using assms(1) by (simp add: written_def)
  have ascii: "\<forall>c \<in> set s. c < 128"
    using assms(1) digits unfolding s by (auto simp: written_def stamp_text_def both_digits_def)
  have b: "as_bytes s = s"
  proof -
    have "concat (map encode_char t) = t" if "\<forall>c \<in> set t. c < 128" for t
      using that by (induction t) (auto simp: encode_char_def)
    then show ?thesis using ascii by (simp add: as_bytes_def)
  qed
  obtain t where t: "s = y1 # t @ [90]"
    unfolding s by (rule that [of "butlast (tl s)"]) (simp add: s stamp_text_def)
  have y1: "\<not> is_whitespace y1" "y1 \<notin> {91, 40, 34, 39}" using digits assms(1) by (auto simp: written_def both_digits_def)
  have "\<not> is_whitespace 90" by (simp add: is_whitespace_def)
  then have tr: "trim s = s" using y1 by (simp add: t trim_def trim_matches_def)
  have e: "exact_text s = s" using tr y1 by (simp add: exact_text_def) (simp add: t)
  have len: "utf8_len s = 24" using utf8_len_ascii [OF ascii] at_places [OF assms(1)] by simp
  have "is_ascii_digit y1" using assms(1) by (auto simp: written_def both_digits_def)
  then have scan: "scan_at s 0 c False = Some (\<lparr>ra_date = Some (Some (int (value_of (y1, y2) * 100 + value_of (y3, y4))), value_of m, value_of d),
      ra_time = Some (value_of h, value_of mi, value_of sec, nanos_of (f1, f2, f3)), ra_zone = Some (Fixed 0),
      ra_end = 24, ra_ambiguous = None\<rparr>, None)" for c
    using iso_written [OF assms(1-9)] at_places [OF assms(1)] by (simp add: scan_at_def)
  show ?thesis
    using assms(10,11) at_places [OF assms(1)]
    by (simp add: exact_def exact_ordered_def e len b scan complete_def raw_day_def offset_seconds_def Let_def)
qed

definition pair :: "nat \<Rightarrow> nat \<times> nat" where
  "pair v = (48 + v div 10, 48 + v mod 10)"

lemma pair_digits: "v < 100 \<Longrightarrow> both_digits (pair v) \<and> value_of (pair v) = v"
  by (auto simp: pair_def both_digits_def value_of_def two_def is_ascii_digit_def)

lemma iso_text_written:
  assumes "y < 10000" "m < 100" "d < 100" "h < 100" "mi < 100" "s < 100" "ms < 1000"
  shows "written (iso_text y m d h mi s ms)
      (fst (pair (y div 100)), snd (pair (y div 100)), fst (pair (y mod 100)), snd (pair (y mod 100)))
      (pair m) (pair d) (pair h) (pair mi) (pair s) (fst (pair (ms div 10)), snd (pair (ms div 10)), 48 + ms mod 10)"
proof -
  have q: "y div 100 div 10 = y div 1000" "y mod 100 div 10 = y div 10 mod 10" "y mod 100 mod 10 = y mod 10"
    "ms div 10 div 10 = ms div 100"
    by (simp_all add: div_mult2_eq [symmetric] mod_mult2_eq [of y 10 10, simplified])
  have p: "both_digits (pair (y div 100))" "both_digits (pair (y mod 100))" "both_digits (pair (ms div 10))"
    using assms by (auto intro!: pair_digits [THEN conjunct1])
  have "ms mod 10 \<le> 9" using mod_less_divisor [of 10 ms] by simp
  with p show ?thesis
    using assms pair_digits q
    by (simp add: written_def iso_text_def stamp_text_def pair_def is_ascii_digit_def both_digits_def)
qed

text \<open>C19. Writing a moment of the years 1970 to 2100 in ISO form to the millisecond and reading the field back gives
  the same moment: \<open>exact\<close> answers the clock reading of exactly the parts that were written.\<close>

theorem iso_round_trip:
  assumes "1970 \<le> y" "y \<le> 2100" "1 \<le> m" "m \<le> 12" "1 \<le> d" "d \<le> 31" "h < 24" "mi < 60" "s < 60" "ms < 1000"
    and "ch_ymd ch (int y) m d = Some day" "ch_time ch day (h, mi, s, ms * 1000000) = Some wall"
  shows "exact ch (iso_text y m d h mi s ms) = Some (wall div 1000000)"
proof (rule exact_written [OF iso_text_written])
  have year: "value_of (pair (y div 100)) * 100 + value_of (pair (y mod 100)) = y"
    using assms(1,2) pair_digits [of "y div 100"] pair_digits [of "y mod 100"] by simp
  show "plausible_year (value_of (fst (pair (y div 100)), snd (pair (y div 100))) * 100
      + value_of (fst (pair (y mod 100)), snd (pair (y mod 100))))"
    using assms year by (simp add: plausible_year_def)
  show "ch_ymd ch (int (value_of (fst (pair (y div 100)), snd (pair (y div 100))) * 100
      + value_of (fst (pair (y mod 100)), snd (pair (y mod 100))))) (value_of (pair m)) (value_of (pair d)) = Some day"
    using assms year pair_digits [of m] pair_digits [of d] by simp
  have "nanos_of (fst (pair (ms div 10)), snd (pair (ms div 10)), 48 + ms mod 10) = ms * 1000000"
  proof -
    have "value_of (pair (ms div 10)) = ms div 10" using assms(10) pair_digits by simp
    moreover have "ms div 10 * 10 + ms mod 10 = ms" by simp
    ultimately show ?thesis by (simp only: nanos_of_def value_of_def prod.case diff_add_inverse)
  qed
  then show "ch_time ch day (value_of (pair h), value_of (pair mi), value_of (pair s),
      nanos_of (fst (pair (ms div 10)), snd (pair (ms div 10)), 48 + ms mod 10)) = Some wall"
    using assms pair_digits [of h] pair_digits [of mi] pair_digits [of s] by simp
qed (use assms pair_digits [of m] pair_digits [of d] pair_digits [of h] pair_digits [of mi] pair_digits [of s] in auto)

lemma iso_round_trip_witness:
  "iso_text 2026 10 12 3 0 59 7 = lit ''2026-10-12T03:00:59.007Z'' \<and> exact civil (iso_text 2026 10 12 3 0 59 7) = Some 1791774059007"
proof
  show "iso_text 2026 10 12 3 0 59 7 = lit ''2026-10-12T03:00:59.007Z''" by code_simp
  have "ch_ymd civil (int 2026) 10 12 = Some 20738" "ch_time civil 20738 (3, 0, 59, 7 * 1000000) = Some 1791774059007000000"
    by code_simp+
  from iso_round_trip [OF _ _ _ _ _ _ _ _ _ _ this] show "exact civil (iso_text 2026 10 12 3 0 59 7) = Some 1791774059007" by simp
qed

section \<open>The order of a sample\<close>

text \<open>What one line shows: \<open>Some True\<close> for the day first, \<open>Some False\<close> for the month first.\<close>

definition shown_order :: "rstr \<Rightarrow> bool option" where
  "shown_order t =
     (let s = as_bytes t
      in case learn_line s (min (length s) scan_limit) 0 of
           None \<Rightarrow> None
         | Some (a, b) \<Rightarrow> if 12 < a \<and> b \<le> 12 then Some True else if 12 < b \<and> a \<le> 12 then Some False else None)"

lemma learn_count_shown:
  "learn_count (x, y) t = (x + (if shown_order t = Some True then 1 else 0), y + (if shown_order t = Some False then 1 else 0))"
  by (auto simp: learn_count_def shown_order_def Let_def split: option.splits)

lemma learn_counts:
  "foldl learn_count (x, y) ts =
     (x + length (filter (\<lambda>t. shown_order t = Some True) ts), y + length (filter (\<lambda>t. shown_order t = Some False) ts))"
  by (induction ts arbitrary: x y) (simp_all add: learn_count_shown)

text \<open>The order of day and month is learned only from evidence: an order is answered exactly when some line of the
  sample shows it and no line shows the other.\<close>

theorem order_is_shown:
  "learn_day_first ts = Some order \<longleftrightarrow> Some order \<in> shown_order ` set ts \<and> Some (\<not> order) \<notin> shown_order ` set ts"
proof -
  have "0 < length (filter (\<lambda>t. shown_order t = Some b) ts) \<longleftrightarrow> Some b \<in> shown_order ` set ts" for b
    by (force simp: filter_empty_conv)
  then show ?thesis by (cases order) (auto simp: learn_day_first_def learn_counts)
qed

end
