(* ===== verification/Work_Budget.thy ===== *)
theory Work_Budget
  imports Prelude
begin

text \<open>
  The accounted work of a Case: \<open>src-tauri/src/case_work_budget.rs\<close>. A pool charges the counter of its owner,
  then its parent, then its own, and takes everything back when one of them refuses; a lease holds what was
  charged. Pools never change after they are made, so a pool is a value with an identity; the counters are
  atomics shared between threads, each of them one cell of the store.
\<close>

section \<open>Limits and pools\<close>

record work_limits =
  li_materialized :: nat
  li_retained :: nat
  li_live :: nat

definition limits_for :: "nat \<Rightarrow> work_limits" where
  "limits_for effective =
     (let materialized = min (effective div 8) (64 * 2 ^ 20)
      in \<lparr>li_materialized = materialized, li_retained = materialized, li_live = min (effective div 2) (128 * 2 ^ 20)\<rparr>)"

datatype pressure = OwnerPressure | AggregatePressure

datatype work_error = WorkBusy | WorkCancelled | PoolChanged

datatype pool = Pool (po_id: nat) (po_limits: work_limits) (po_parent: "pool option") (po_owner: "nat option")
  (po_owner_limit: nat) (po_application: bool)

definition pool_new :: "nat \<Rightarrow> work_limits \<Rightarrow> pool" where
  "pool_new i l = Pool i l None None 0 False"

definition pool_child :: "nat \<Rightarrow> work_limits \<Rightarrow> pool \<Rightarrow> nat \<Rightarrow> nat \<Rightarrow> pool" where
  "pool_child i l parent owner owner_limit = Pool i l (Some parent) (Some owner) owner_limit False"

text \<open>The counters, and the highest value each pool's own counter has had.\<close>

datatype counter = PoolUsed nat | OwnerUsed nat

record work =
  wk_used :: "counter \<Rightarrow> nat"
  wk_peak :: "nat \<Rightarrow> nat"

definition work_new :: work where
  "work_new = \<lparr>wk_used = (\<lambda>_. 0), wk_peak = (\<lambda>_. 0)\<rparr>"

section \<open>Charging\<close>

text \<open>\<open>fetch_update\<close> with \<open>checked_add\<close> and the limit, and \<open>fetch_sub\<close>, which wraps.\<close>

definition fetch_add :: "counter \<Rightarrow> nat \<Rightarrow> nat \<Rightarrow> work \<Rightarrow> work option" where
  "fetch_add c limit n w =
     (case checked_add (wk_used w c) n of
        None \<Rightarrow> None
      | Some next_used \<Rightarrow> if next_used \<le> limit then Some (w\<lparr>wk_used := (wk_used w)(c := next_used)\<rparr>) else None)"

definition wrapping_sub :: "nat \<Rightarrow> nat \<Rightarrow> nat" where
  "wrapping_sub a b = (if b \<le> a then a - b else a + (u64_max + 1) - b)"

definition fetch_sub :: "counter \<Rightarrow> nat \<Rightarrow> work \<Rightarrow> work" where
  "fetch_sub c n w = w\<lparr>wk_used := (wk_used w)(c := wrapping_sub (wk_used w c) n)\<rparr>"

definition owner_add :: "nat option \<Rightarrow> nat \<Rightarrow> nat \<Rightarrow> work \<Rightarrow> work option" where
  "owner_add owner limit n w = (case owner of None \<Rightarrow> Some w | Some k \<Rightarrow> fetch_add (OwnerUsed k) limit n w)"

definition owner_release :: "nat option \<Rightarrow> nat \<Rightarrow> work \<Rightarrow> work" where
  "owner_release owner n w = (case owner of None \<Rightarrow> w | Some k \<Rightarrow> fetch_sub (OwnerUsed k) n w)"

definition own_add :: "nat \<Rightarrow> work_limits \<Rightarrow> nat \<Rightarrow> work \<Rightarrow> work option" where
  "own_add i l n w =
     map_option (\<lambda>w'. w'\<lparr>wk_peak := (wk_peak w')(i := max (wk_peak w' i) (wk_used w (PoolUsed i) + n))\<rparr>)
       (fetch_add (PoolUsed i) (li_live l) n w)"

fun pool_release :: "pool \<Rightarrow> nat \<Rightarrow> work \<Rightarrow> work" where
  "pool_release (Pool i l None owner ol app) n w = owner_release owner n (fetch_sub (PoolUsed i) n w)"
| "pool_release (Pool i l (Some parent) owner ol app) n w =
     owner_release owner n (pool_release parent n (fetch_sub (PoolUsed i) n w))"

fun pool_add :: "pool \<Rightarrow> nat \<Rightarrow> work \<Rightarrow> bool \<times> work" where
  "pool_add (Pool i l None owner ol app) n w =
     (case owner_add owner ol n w of
        None \<Rightarrow> (False, w)
      | Some w1 \<Rightarrow>
          (case own_add i l n w1 of
             Some w2 \<Rightarrow> (True, w2)
           | None \<Rightarrow> (False, owner_release owner n w1)))"
| "pool_add (Pool i l (Some parent) owner ol app) n w =
     (case owner_add owner ol n w of
        None \<Rightarrow> (False, w)
      | Some w1 \<Rightarrow>
          (case pool_add parent n w1 of
             (False, w2) \<Rightarrow> (False, owner_release owner n w2)
           | (True, w2) \<Rightarrow>
               (case own_add i l n w2 of
                  Some w3 \<Rightarrow> (True, w3)
                | None \<Rightarrow> (False, owner_release owner n (pool_release parent n w2)))))"

fun aggregate_root :: "pool \<Rightarrow> pool" where
  "aggregate_root (Pool i l None owner ol app) = Pool i l None owner ol app"
| "aggregate_root (Pool i l (Some parent) owner ol app) = aggregate_root parent"

definition over_limit :: "nat \<Rightarrow> nat \<Rightarrow> nat \<Rightarrow> bool" where
  "over_limit n used limit = (case checked_add used n of None \<Rightarrow> True | Some next_used \<Rightarrow> limit < next_used)"

definition pool_pressure :: "pool \<Rightarrow> nat \<Rightarrow> work \<Rightarrow> pressure option" where
  "pool_pressure p n w =
     (if (case po_owner p of None \<Rightarrow> False | Some k \<Rightarrow> over_limit n (wk_used w (OwnerUsed k)) (po_owner_limit p))
         \<or> (po_parent p \<noteq> None \<and> over_limit n (wk_used w (PoolUsed (po_id p))) (li_live (po_limits p)))
      then Some OwnerPressure
      else let root = aggregate_root p
           in if over_limit n (wk_used w (PoolUsed (po_id root))) (li_live (po_limits root)) then Some AggregatePressure else None)"

definition same_owner :: "pool \<Rightarrow> pool \<Rightarrow> bool" where
  "same_owner p q =
     (case (po_owner p, po_owner q) of
        (Some a, Some b) \<Rightarrow> a = b
      | (None, None) \<Rightarrow> po_id (aggregate_root p) = po_id (aggregate_root q)
      | _ \<Rightarrow> False)"

definition releases_pressure :: "pool \<Rightarrow> pool \<Rightarrow> pressure \<Rightarrow> bool" where
  "releases_pressure p candidate pr =
     (case pr of
        OwnerPressure \<Rightarrow> (case (po_owner p, po_owner candidate) of (Some a, Some b) \<Rightarrow> a = b | _ \<Rightarrow> False)
      | AggregatePressure \<Rightarrow> po_id (aggregate_root p) = po_id (aggregate_root candidate))"

text \<open>The pool a new allocation is charged to under the policy of the Case in force, if there is one.\<close>

definition effective_limits :: "pool option \<Rightarrow> pool \<Rightarrow> work_limits" where
  "effective_limits policy p = (case policy of Some q \<Rightarrow> if po_application p then po_limits q else po_limits p | None \<Rightarrow> po_limits p)"

definition request_pool :: "pool option \<Rightarrow> pool \<Rightarrow> pool" where
  "request_pool policy p =
     (case policy of
        None \<Rightarrow> p
      | Some requested \<Rightarrow>
          let same_evidence_owner =
            ((case po_parent p of None \<Rightarrow> False | Some parent \<Rightarrow> po_application parent)
             \<and> (case (po_owner p, po_owner requested) of (Some a, Some b) \<Rightarrow> a = b | _ \<Rightarrow> False))
          in if po_application p \<or> same_evidence_owner then requested else p)"

section \<open>Leases\<close>

record lease =
  le_pool :: pool
  le_bytes :: nat

text \<open>\<open>cancelled\<close> is \<open>operations::check\<close>; the recursion on the selected pool is the code's.\<close>

partial_function (option) reserve ::
  "bool \<Rightarrow> pool option \<Rightarrow> pool \<Rightarrow> nat \<Rightarrow> work \<Rightarrow> ((work_error + lease) \<times> work) option" where
  "reserve cancelled policy p n w =
     (if cancelled then Some (Inl WorkCancelled, w)
      else let selected = request_pool policy p
           in if po_id selected \<noteq> po_id p then reserve cancelled policy selected n w
              else case pool_add p n w of
                     (True, w') \<Rightarrow> Some (Inr \<lparr>le_pool = p, le_bytes = n\<rparr>, w')
                   | (False, w') \<Rightarrow> Some (Inl WorkBusy, w'))"

declare reserve.simps [code]

definition lease_resize :: "bool \<Rightarrow> lease \<Rightarrow> nat \<Rightarrow> work \<Rightarrow> (work_error option \<times> lease) \<times> work" where
  "lease_resize cancelled l n w =
     (if le_bytes l < n then
        (if cancelled then ((Some WorkCancelled, l), w)
         else case pool_add (le_pool l) (n - le_bytes l) w of
                (True, w') \<Rightarrow> ((None, l\<lparr>le_bytes := n\<rparr>), w')
              | (False, w') \<Rightarrow> ((Some WorkBusy, l), w'))
      else ((None, l\<lparr>le_bytes := n\<rparr>), pool_release (le_pool l) (le_bytes l - n) w))"

text \<open>\<open>merge\<close> takes the other lease; where it fails, the other is dropped and gives its bytes back.\<close>

definition lease_drop :: "lease \<Rightarrow> work \<Rightarrow> work" where
  "lease_drop l w = pool_release (le_pool l) (le_bytes l) w"

definition lease_merge :: "lease \<Rightarrow> lease \<Rightarrow> work \<Rightarrow> (work_error option \<times> lease) \<times> work" where
  "lease_merge l other w =
     (if po_id (le_pool l) \<noteq> po_id (le_pool other) then ((Some PoolChanged, l), lease_drop other w)
      else case checked_add (le_bytes l) (le_bytes other) of
             None \<Rightarrow> ((Some WorkBusy, l), lease_drop other w)
           | Some n \<Rightarrow> ((None, l\<lparr>le_bytes := n\<rparr>), lease_drop (other\<lparr>le_bytes := 0\<rparr>) w))"

definition lease_split :: "lease \<Rightarrow> nat \<Rightarrow> (work_error + lease) \<times> lease" where
  "lease_split l n =
     (if le_bytes l < n then (Inl WorkBusy, l)
      else (Inr \<lparr>le_pool = le_pool l, le_bytes = n\<rparr>, l\<lparr>le_bytes := le_bytes l - n\<rparr>))"

section \<open>The counters a pool charges\<close>

text \<open>In the order they are charged; they are given back in the reverse order.\<close>

fun charges :: "pool \<Rightarrow> (counter \<times> nat) list" where
  "charges (Pool i l None owner ol app) =
     (case owner of None \<Rightarrow> [] | Some k \<Rightarrow> [(OwnerUsed k, ol)]) @ [(PoolUsed i, li_live l)]"
| "charges (Pool i l (Some parent) owner ol app) =
     (case owner of None \<Rightarrow> [] | Some k \<Rightarrow> [(OwnerUsed k, ol)]) @ charges parent @ [(PoolUsed i, li_live l)]"

definition charged :: "(counter \<times> nat) list \<Rightarrow> counter \<Rightarrow> nat" where
  "charged cs c = length (filter (\<lambda>x. fst x = c) cs)"

fun charge_all :: "(counter \<times> nat) list \<Rightarrow> nat \<Rightarrow> (counter \<Rightarrow> nat) \<Rightarrow> (counter \<Rightarrow> nat) option" where
  "charge_all [] n u = Some u"
| "charge_all ((c, limit) # cs) n u =
     (if u c + n \<le> min limit u64_max then charge_all cs n (u(c := u c + n)) else None)"

lemma charged_simps [simp]:
  "charged [] c = 0" "charged (x # cs) c = (if fst x = c then 1 else 0) + charged cs c"
  "charged (cs @ ds) c = charged cs c + charged ds c"
  by (simp_all add: charged_def)

lemma charge_all_append: "charge_all (cs @ ds) n u = Option.bind (charge_all cs n u) (charge_all ds n)"
  by (induction cs n u rule: charge_all.induct) (auto simp: fun_upd_def)

lemma charge_all_Some: "charge_all cs n u = Some v \<Longrightarrow> v c = u c + n * charged cs c"
  by (induction cs n u arbitrary: v rule: charge_all.induct) (auto simp: algebra_simps split: if_splits)

lemma fetch_add_used:
  "fetch_add c limit n w = Some w' \<Longrightarrow> wk_used w' = (wk_used w)(c := wk_used w c + n) \<and> wk_used w c + n \<le> min limit u64_max"
  "fetch_add c limit n w = None \<longleftrightarrow> \<not> wk_used w c + n \<le> min limit u64_max"
  by (auto simp: fetch_add_def checked_add_def split: option.splits if_splits)

lemma fetch_sub_used: "wk_used (fetch_sub c n w) = (wk_used w)(c := wrapping_sub (wk_used w c) n)"
  by (simp add: fetch_sub_def)

lemma wrapping_sub_add [simp]: "wrapping_sub (a + n) n = a"
  by (simp add: wrapping_sub_def)

lemma fetch_sub_restores: "wk_used w = v(c := v c + n) \<Longrightarrow> wk_used (fetch_sub c n w) = v"
  by (simp add: fetch_sub_used)

definition owner_charges :: "nat option \<Rightarrow> nat \<Rightarrow> (counter \<times> nat) list" where
  "owner_charges owner ol = (case owner of None \<Rightarrow> [] | Some k \<Rightarrow> [(OwnerUsed k, ol)])"

lemma charges_owner:
  "charges (Pool i l None owner ol app) = owner_charges owner ol @ [(PoolUsed i, li_live l)]"
  "charges (Pool i l (Some q) owner ol app) = owner_charges owner ol @ charges q @ [(PoolUsed i, li_live l)]"
  by (simp_all add: owner_charges_def)

lemma owner_add_charges: "map_option wk_used (owner_add owner ol n w) = charge_all (owner_charges owner ol) n (wk_used w)"
  using fetch_add_used by (auto simp: owner_add_def owner_charges_def split: option.splits) fastforce+

lemma own_add_charges: "map_option wk_used (own_add i l n w) = charge_all [(PoolUsed i, li_live l)] n (wk_used w)"
  by (cases "fetch_add (PoolUsed i) (li_live l) n w") (auto simp: own_add_def fetch_add_used dest: fetch_add_used(1))

lemma owner_release_restores:
  "\<forall>c. wk_used w c = v c + n * charged (owner_charges owner ol) c \<Longrightarrow> wk_used (owner_release owner n w) = v"
  by (auto simp: owner_release_def owner_charges_def fetch_sub_used fun_eq_iff split: option.splits)

lemma pool_release_restores:
  "\<forall>c. wk_used w c = v c + n * charged (charges p) c \<Longrightarrow> wk_used (pool_release p n w) = v"
proof (induction p n w arbitrary: v rule: pool_release.induct)
  case (1 i l owner ol app n w)
  have "\<forall>c. wk_used (fetch_sub (PoolUsed i) n w) c = v c + n * charged (owner_charges owner ol) c"
    using "1.prems" by (auto simp: charges_owner fetch_sub_used simp del: charges.simps)
      (metis add.commute add.left_commute mult.commute wrapping_sub_add)
  then show ?case using owner_release_restores by simp
next
  case (2 i l q owner ol app n w)
  have "\<forall>c. wk_used (fetch_sub (PoolUsed i) n w) c = (v c + n * charged (owner_charges owner ol) c) + n * charged (charges q) c"
    using "2.prems" by (auto simp: charges_owner fetch_sub_used algebra_simps simp del: charges.simps)
      (metis add.commute add.left_commute mult.commute wrapping_sub_add)
  then have q: "wk_used (pool_release q n (fetch_sub (PoolUsed i) n w)) = (\<lambda>c. v c + n * charged (owner_charges owner ol) c)"
    by (rule "2.IH")
  show ?case unfolding pool_release.simps by (rule owner_release_restores [where ol = ol]) (simp add: q)
qed

lemma pool_add_charges:
  "case pool_add p n w of
     (True, w') \<Rightarrow> charge_all (charges p) n (wk_used w) = Some (wk_used w')
   | (False, w') \<Rightarrow> charge_all (charges p) n (wk_used w) = None \<and> wk_used w' = wk_used w"
proof (induction p n w rule: pool_add.induct)
  case (1 i l owner ol app n w)
  note o = owner_add_charges [of owner ol n w]
  show ?case
  proof (cases "owner_add owner ol n w")
    case None
    then show ?thesis using o by (simp add: charges_owner charge_all_append del: charges.simps)
  next
    case (Some w1)
    then have c1: "charge_all (owner_charges owner ol) n (wk_used w) = Some (wk_used w1)" using o by simp
    have undone: "wk_used (owner_release owner n w1) = wk_used w"
      by (rule owner_release_restores [where ol = ol]) (simp add: charge_all_Some [OF c1])
    show ?thesis
      using Some c1 undone own_add_charges [of i l n w1]
      by (cases "own_add i l n w1") (simp_all add: charges_owner charge_all_append del: charges.simps)
  qed
next
  case (2 i l q owner ol app n w)
  note o = owner_add_charges [of owner ol n w]
  show ?case
  proof (cases "owner_add owner ol n w")
    case None
    then show ?thesis using o by (simp add: charges_owner charge_all_append del: charges.simps)
  next
    case (Some w1)
    then have c1: "charge_all (owner_charges owner ol) n (wk_used w) = Some (wk_used w1)" using o by simp
    obtain b w2 where q: "pool_add q n w1 = (b, w2)" by (cases "pool_add q n w1") auto
    have undone: "wk_used (owner_release owner n w') = wk_used w" if "wk_used w' = wk_used w1" for w'
      by (rule owner_release_restores [where ol = ol]) (simp add: that charge_all_Some [OF c1])
    show ?thesis
    proof (cases b)
      case False
      then show ?thesis using "2.IH" [OF Some] Some c1 q undone
        by (simp add: charges_owner charge_all_append del: charges.simps)
    next
      case True
      then have c2: "charge_all (charges q) n (wk_used w1) = Some (wk_used w2)" using "2.IH" [OF Some] q by simp
      have "wk_used (pool_release q n w2) = wk_used w1"
        by (rule pool_release_restores) (simp add: charge_all_Some [OF c2])
      then show ?thesis
        using Some True q c1 c2 undone own_add_charges [of i l n w2]
        by (cases "own_add i l n w2") (simp_all add: charges_owner charge_all_append del: charges.simps)
    qed
  qed
qed

lemma pool_add_True: "pool_add p n w = (True, w') \<Longrightarrow> charge_all (charges p) n (wk_used w) = Some (wk_used w')"
  using pool_add_charges [of p n w] by simp

lemma pool_add_False: "pool_add p n w = (False, w') \<Longrightarrow> charge_all (charges p) n (wk_used w) = None \<and> wk_used w' = wk_used w"
  using pool_add_charges [of p n w] by simp

text \<open>C28. A reservation is all or nothing: it succeeds exactly when every counter on the way to the root, charged
  in turn, stays within its limit, and then each holds as much more as it was charged; when one refuses, every
  counter is as it was.\<close>

theorem reservation_is_atomic:
  "(fst (pool_add p n w) \<longleftrightarrow> charge_all (charges p) n (wk_used w) \<noteq> None)
   \<and> wk_used (snd (pool_add p n w)) =
       (if fst (pool_add p n w) then \<lambda>c. wk_used w c + n * charged (charges p) c else wk_used w)"
proof (cases "pool_add p n w")
  case (Pair b w')
  show ?thesis
  proof (cases b)
    case True
    then have c: "charge_all (charges p) n (wk_used w) = Some (wk_used w')" using Pair pool_add_True by simp
    have "(\<lambda>c. wk_used w c + n * charged (charges p) c) = wk_used w'" using charge_all_Some [OF c] by auto
    then show ?thesis using Pair True c by simp
  next
    case False
    then show ?thesis using Pair pool_add_False [of p n w w'] by simp
  qed
qed

section \<open>Pressure\<close>

text \<open>The pools the code makes: a root, or the child of a root.\<close>

definition root_pool :: "pool \<Rightarrow> bool" where
  "root_pool p \<longleftrightarrow> po_parent p = None \<and> po_owner p = None"

definition code_pool :: "pool \<Rightarrow> bool" where
  "code_pool p \<longleftrightarrow> root_pool p \<or> (\<exists>q. po_parent p = Some q \<and> root_pool q \<and> po_id q \<noteq> po_id p \<and> po_owner p \<noteq> None)"

definition cleared :: "counter \<Rightarrow> work \<Rightarrow> work" where
  "cleared c w = w\<lparr>wk_used := (wk_used w)(c := 0)\<rparr>"

lemma over_limit_iff: "over_limit n u limit \<longleftrightarrow> \<not> u + n \<le> min limit u64_max"
  by (auto simp: over_limit_def checked_add_def)

lemma root_charges: "root_pool p \<Longrightarrow> charges p = [(PoolUsed (po_id p), li_live (po_limits p))] \<and> aggregate_root p = p"
  by (cases p) (simp add: root_pool_def)

lemma child_charges:
  assumes "po_parent p = Some q" "root_pool q" "po_owner p = Some k"
  shows "charges p = [(OwnerUsed k, po_owner_limit p), (PoolUsed (po_id q), li_live (po_limits q)),
    (PoolUsed (po_id p), li_live (po_limits p))] \<and> aggregate_root p = q"
  using assms root_charges [OF assms(2)] by (cases p) simp

lemma fst_pool_add: "fst (pool_add p n w) \<longleftrightarrow> charge_all (charges p) n (wk_used w) \<noteq> None"
  using pool_add_charges [of p n w] by (cases "pool_add p n w") (auto split: bool.splits)

text \<open>The counters of a pool other than the application's.\<close>

definition charges_below :: "pool \<Rightarrow> (counter \<times> nat) list" where
  "charges_below p = filter (\<lambda>x. fst x \<noteq> PoolUsed (po_id (aggregate_root p))) (charges p)"

text \<open>C29. The pressure of a pool the application makes, a root without owner or the child of such a root with
  one, is exact: there is none exactly when the reservation would be admitted; where it would not, it is
  the application's exactly when every other counter, the owner's and the pool's own, would take the
  bytes, and the owner's otherwise. Emptying the shared counter admits exactly the requests that are not
  under owner pressure and within the application's limit: a larger one is reported as pressure of the
  application although giving work back cannot help it.\<close>

theorem pressure_is_exact:
  assumes "code_pool p"
  shows "pool_pressure p n w =
      (if fst (pool_add p n w) then None
       else if charge_all (charges_below p) n (wk_used w) \<noteq> None then Some AggregatePressure
       else Some OwnerPressure)
    \<and> (fst (pool_add p n (cleared (PoolUsed (po_id (aggregate_root p))) w)) \<longleftrightarrow>
        pool_pressure p n w \<noteq> Some OwnerPressure \<and> n \<le> min (li_live (po_limits (aggregate_root p))) u64_max)"
proof (cases "root_pool p")
  case True
  then show ?thesis using root_charges [OF True]
    by (auto simp: fst_pool_add pool_pressure_def over_limit_iff root_pool_def cleared_def charges_below_def Let_def
        split: if_splits)
next
  case False
  then obtain q k where q: "po_parent p = Some q" "root_pool q" "po_id q \<noteq> po_id p" "po_owner p = Some k"
    using assms by (auto simp: code_pool_def)
  then have c: "charges p = [(OwnerUsed k, po_owner_limit p), (PoolUsed (po_id q), li_live (po_limits q)),
      (PoolUsed (po_id p), li_live (po_limits p))]" "aggregate_root p = q"
    using child_charges by blast+
  have "charges_below p = [(OwnerUsed k, po_owner_limit p), (PoolUsed (po_id p), li_live (po_limits p))]"
    using c q(3) by (simp add: charges_below_def)
  then show ?thesis using c q
    by (auto simp: fst_pool_add pool_pressure_def over_limit_iff cleared_def Let_def split: if_splits)
qed

definition small_root :: pool where
  "small_root = pool_new 0 \<lparr>li_materialized = 16, li_retained = 16, li_live = 64\<rparr>"

definition small_child :: pool where
  "small_child = pool_child 1 \<lparr>li_materialized = 64, li_retained = 64, li_live = 64\<rparr> small_root 7 40"

text \<open>A child whose application is nearly full, and a request above the limit of an idle application.\<close>

lemma pressure_is_exact_witness:
  "pool_pressure small_child 8 (snd (pool_add small_root 60 work_new)) = Some AggregatePressure
   \<and> pool_pressure small_root 65 work_new = Some AggregatePressure
   \<and> \<not> fst (pool_add small_root 65 (cleared (PoolUsed 0) work_new))"
proof (intro conjI)
  have child: "code_pool small_child"
    by (simp add: code_pool_def root_pool_def small_child_def small_root_def pool_child_def pool_new_def)
  have root: "code_pool small_root" "po_id (aggregate_root small_root) = 0"
    by (simp_all add: code_pool_def root_pool_def small_root_def pool_new_def)
  show "pool_pressure small_child 8 (snd (pool_add small_root 60 work_new)) = Some AggregatePressure"
    using conjunct1 [OF pressure_is_exact [OF child, of 8 "snd (pool_add small_root 60 work_new)"]]
    by (simp add: fst_pool_add small_child_def small_root_def pool_child_def pool_new_def charges_below_def work_new_def
      owner_add_def own_add_def fetch_add_def checked_add_def u64_max_def)
  show "pool_pressure small_root 65 work_new = Some AggregatePressure"
  proof -
    have "\<not> fst (pool_add small_root 65 work_new)"
      unfolding fst_pool_add by (simp add: small_root_def pool_new_def work_new_def)
    moreover have "charges_below small_root = []" by (simp add: charges_below_def small_root_def pool_new_def)
    ultimately show ?thesis using conjunct1 [OF pressure_is_exact [OF root(1), of 65 work_new]] by simp
  qed
  show "\<not> fst (pool_add small_root 65 (cleared (PoolUsed 0) work_new))"
    using conjunct2 [OF pressure_is_exact [OF root(1), of 65 work_new]] root(2)
    by (simp add: small_root_def pool_new_def)
qed

section \<open>A reservation returns\<close>

text \<open>The recursion of \<open>reserve\<close> on the selected pool ends: what is selected selects itself.\<close>

lemma request_pool_twice: "request_pool policy (request_pool policy p) = request_pool policy p"
  by (auto simp: request_pool_def Let_def split: option.splits)

lemma reserve_returns: "\<exists>r. reserve cancelled policy p n w = Some r"
proof -
  have same: "\<exists>r. reserve cancelled policy q n w = Some r" if "po_id (request_pool policy q) = po_id q" for q
    using that by (subst reserve.simps) (auto simp: Let_def split: prod.splits bool.splits)
  have "\<exists>r. reserve cancelled policy (request_pool policy p) n w = Some r"
    by (rule same) (simp add: request_pool_twice)
  then show ?thesis
    by (subst reserve.simps) (auto simp: Let_def split: prod.splits bool.splits)
qed

end
