(* ===== verification/Work_Ledger.thy ===== *)
theory Work_Ledger
  imports Work_Budget
begin

text \<open>
  The pools of \<open>case_work_budget.rs\<close> shared by threads: every \<open>fetch_update\<close> and \<open>fetch_sub\<close> is one step, so the
  charges and releases of concurrent reservations interleave in any order. The ledger is conserved, no limit is
  ever passed and nothing underflows.
\<close>

section \<open>Tasks\<close>

text \<open>
  A reservation being charged has the first \<open>k\<close> counters of its pool; a lease has them all; bytes being given
  back still have the first \<open>k\<close>.
\<close>

datatype task = Adding pool nat nat | Lease pool nat | Returning pool nat nat

fun holds :: "task \<Rightarrow> counter \<Rightarrow> nat" where
  "holds (Adding p k n) c = n * charged (take k (charges p)) c"
| "holds (Lease p n) c = n * charged (charges p) c"
| "holds (Returning p k n) c = n * charged (take k (charges p)) c"

fun task_pool :: "task \<Rightarrow> pool" where
  "task_pool (Adding p k n) = p"
| "task_pool (Lease p n) = p"
| "task_pool (Returning p k n) = p"

fun task_ok :: "task \<Rightarrow> bool" where
  "task_ok (Adding p k n) = (k \<le> length (charges p))"
| "task_ok (Lease p n) = True"
| "task_ok (Returning p k n) = (k \<le> length (charges p))"

record ledger =
  lg_work :: work
  lg_tasks :: "task list"

definition ledger_new :: ledger where
  "ledger_new = \<lparr>lg_work = work_new, lg_tasks = []\<rparr>"

text \<open>
  \<open>pools\<close> is the set of pools of the process. A lease shrinks when it is resized down, split and dropped or
  dropped whole; it grows when a reservation of the same pool is merged into it, which is also how it is resized up.
\<close>

inductive ledger_step :: "pool set \<Rightarrow> ledger \<Rightarrow> ledger \<Rightarrow> bool" for pools where
  Begin: "p \<in> pools \<Longrightarrow> ledger_step pools L (L\<lparr>lg_tasks := Adding p 0 n # lg_tasks L\<rparr>)"
| Charge: "lg_tasks L = xs @ Adding p k n # ys \<Longrightarrow> k < length (charges p) \<Longrightarrow>
    fetch_add (fst (charges p ! k)) (snd (charges p ! k)) n (lg_work L) = Some w \<Longrightarrow>
    ledger_step pools L \<lparr>lg_work = w, lg_tasks = xs @ Adding p (k + 1) n # ys\<rparr>"
| Refuse: "lg_tasks L = xs @ Adding p k n # ys \<Longrightarrow> k < length (charges p) \<Longrightarrow>
    fetch_add (fst (charges p ! k)) (snd (charges p ! k)) n (lg_work L) = None \<Longrightarrow>
    ledger_step pools L (L\<lparr>lg_tasks := xs @ Returning p k n # ys\<rparr>)"
| Granted: "lg_tasks L = xs @ Adding p (length (charges p)) n # ys \<Longrightarrow>
    ledger_step pools L (L\<lparr>lg_tasks := xs @ Lease p n # ys\<rparr>)"
| Merge: "lg_tasks L = xs @ Lease p a # ys \<Longrightarrow> Lease p b \<in> set (xs @ ys) \<Longrightarrow>
    ledger_step pools L (L\<lparr>lg_tasks := Lease p (a + b) # remove1 (Lease p b) (xs @ ys)\<rparr>)"
| Split: "lg_tasks L = xs @ Lease p (a + b) # ys \<Longrightarrow>
    ledger_step pools L (L\<lparr>lg_tasks := xs @ Lease p a # Lease p b # ys\<rparr>)"
| Shrink: "lg_tasks L = xs @ Lease p (a + b) # ys \<Longrightarrow>
    ledger_step pools L (L\<lparr>lg_tasks := xs @ Lease p a # Returning p (length (charges p)) b # ys\<rparr>)"
| Drop: "lg_tasks L = xs @ Lease p n # ys \<Longrightarrow>
    ledger_step pools L (L\<lparr>lg_tasks := xs @ Returning p (length (charges p)) n # ys\<rparr>)"
| Release: "lg_tasks L = xs @ Returning p (Suc k) n # ys \<Longrightarrow>
    ledger_step pools L \<lparr>lg_work = fetch_sub (fst (charges p ! k)) n (lg_work L), lg_tasks = xs @ Returning p k n # ys\<rparr>"
| Gone: "lg_tasks L = xs @ Returning p 0 n # ys \<Longrightarrow> ledger_step pools L (L\<lparr>lg_tasks := xs @ ys\<rparr>)"

inductive_cases ledger_stepE: "ledger_step pools L L'"

inductive ledger_reachable :: "pool set \<Rightarrow> ledger \<Rightarrow> bool" for pools where
  empty_ledger: "ledger_reachable pools ledger_new"
| more: "ledger_reachable pools L \<Longrightarrow> ledger_step pools L L' \<Longrightarrow> ledger_reachable pools L'"

section \<open>Conservation\<close>

definition held :: "task list \<Rightarrow> counter \<Rightarrow> nat" where
  "held ts c = sum_list (map (\<lambda>t. holds t c) ts)"

definition ledger_ok :: "pool set \<Rightarrow> ledger \<Rightarrow> bool" where
  "ledger_ok pools L \<longleftrightarrow> (\<forall>c. wk_used (lg_work L) c = held (lg_tasks L) c)
     \<and> (\<forall>t \<in> set (lg_tasks L). task_ok t \<and> task_pool t \<in> pools)"

lemma held_simps [simp]:
  "held [] c = 0" "held (t # ts) c = holds t c + held ts c" "held (xs @ ys) c = held xs c + held ys c"
  by (simp_all add: held_def)

lemma held_remove1: "t \<in> set ts \<Longrightarrow> held ts c = holds t c + held (remove1 t ts) c"
  by (induction ts) auto

lemma charged_take_Suc:
  "k < length cs \<Longrightarrow> charged (take (Suc k) cs) c = charged (take k cs) c + (if fst (cs ! k) = c then 1 else 0)"
  by (simp add: take_Suc_conv_app_nth)

lemma ledger_ok_step:
  assumes "ledger_ok pools L" "ledger_step pools L L'"
  shows "ledger_ok pools L'"
  using assms(2)
proof (cases rule: ledger_step.cases)
  case (Charge xs p k n ys w)
  note u = fetch_add_used(1) [OF Charge(4)]
  show ?thesis
    using assms(1) Charge u by (auto simp: ledger_ok_def charged_take_Suc algebra_simps)
next
  case (Merge xs p a ys b)
  have h: "held (xs @ ys) c = holds (Lease p b) c + held (remove1 (Lease p b) (xs @ ys)) c" for c
    by (rule held_remove1 [OF Merge(3)])
  have "set (remove1 (Lease p b) (xs @ ys)) \<subseteq> set (lg_tasks L)" using Merge(2) set_remove1_subset by fastforce
  then show ?thesis using assms(1) Merge(1,2) h
    by (auto simp: ledger_ok_def algebra_simps) 
next
  case (Release xs p k n ys)
  then have k: "k < length (charges p)" using assms(1) by (auto simp: ledger_ok_def Suc_le_eq)
  let ?c = "fst (charges p ! k)"
  have "wk_used (lg_work L) ?c = held (xs @ Returning p k n # ys) ?c + n"
    using assms(1) Release(2) k by (simp add: ledger_ok_def charged_take_Suc algebra_simps)
  then have "wrapping_sub (wk_used (lg_work L) ?c) n = held (xs @ Returning p k n # ys) ?c" by simp
  then show ?thesis
    using assms(1) Release k by (auto simp: ledger_ok_def fetch_sub_used charged_take_Suc)
qed (use assms(1) in \<open>auto simp: ledger_ok_def algebra_simps\<close>)

lemma ledger_reachable_ok: "ledger_reachable pools L \<Longrightarrow> ledger_ok pools L"
proof (induction rule: ledger_reachable.induct)
  case empty_ledger
  then show ?case by (simp add: ledger_ok_def ledger_new_def work_new_def)
next
  case (more L L')
  then show ?case using ledger_ok_step by blast
qed

section \<open>Limits\<close>

definition within_limits :: "pool set \<Rightarrow> work \<Rightarrow> bool" where
  "within_limits pools w \<longleftrightarrow>
     (\<forall>c. wk_used w c = 0 \<or> (\<exists>p \<in> pools. \<exists>l. (c, l) \<in> set (charges p) \<and> wk_used w c \<le> min l u64_max))"

lemma release_covered:
  assumes "ledger_ok pools L" "lg_tasks L = xs @ Returning p (Suc k) n # ys"
  shows "k < length (charges p) \<and> n \<le> wk_used (lg_work L) (fst (charges p ! k))"
proof -
  have k: "k < length (charges p)" using assms by (auto simp: ledger_ok_def Suc_le_eq)
  then show ?thesis using assms by (simp add: ledger_ok_def charged_take_Suc)
qed

lemma within_limits_less:
  "within_limits pools w \<Longrightarrow> \<forall>c. wk_used w' c \<le> wk_used w c \<Longrightarrow> within_limits pools w'"
  unfolding within_limits_def by (metis le_zero_eq order_trans)

lemma within_limits_step:
  assumes "ledger_ok pools L" "within_limits pools (lg_work L)" "ledger_step pools L L'"
  shows "within_limits pools (lg_work L')"
  using assms(3)
proof (cases rule: ledger_step.cases)
  case (Charge xs p k n ys w)
  have p: "p \<in> pools" using assms(1) Charge(2) by (auto simp: ledger_ok_def)
  have c: "(fst (charges p ! k), snd (charges p ! k)) \<in> set (charges p)" using Charge(3) by simp
  have "wk_used w c' = 0 \<or> (\<exists>p \<in> pools. \<exists>l. (c', l) \<in> set (charges p) \<and> wk_used w c' \<le> min l u64_max)" for c'
  proof (cases "c' = fst (charges p ! k)")
    case True
    have "wk_used w c' \<le> min (snd (charges p ! k)) u64_max" using fetch_add_used(1) [OF Charge(4)] True by simp
    then show ?thesis using p c True by blast
  next
    case False
    then have "wk_used w c' = wk_used (lg_work L) c'" using fetch_add_used(1) [OF Charge(4)] by simp
    then show ?thesis using assms(2) by (simp only: within_limits_def)
  qed
  then show ?thesis using Charge(1) by (simp add: within_limits_def)
next
  case (Release xs p k n ys)
  have "n \<le> wk_used (lg_work L) (fst (charges p ! k))" using release_covered [OF assms(1) Release(2)] by simp
  then have "\<forall>c. wk_used (lg_work L') c \<le> wk_used (lg_work L) c"
    using Release(1) by (auto simp: fetch_sub_used wrapping_sub_def)
  then show ?thesis by (rule within_limits_less [OF assms(2)])
qed (use assms(2) in simp_all)

lemma ledger_reachable_limits: "ledger_reachable pools L \<Longrightarrow> within_limits pools (lg_work L)"
proof (induction rule: ledger_reachable.induct)
  case empty_ledger
  then show ?case by (simp add: within_limits_def ledger_new_def work_new_def)
next
  case (more L L')
  then show ?case using within_limits_step ledger_reachable_ok by blast
qed

text \<open>C6. However the charges and releases of concurrent reservations interleave: every counter is exactly what the
  leases and the reservations under way hold of it, so it is zero when all are gone; a counter in use is within
  the limit of a pool that charges it; and no release takes more than the counter has.\<close>

theorem ledger_conserved:
  assumes "ledger_reachable pools L"
  shows "(\<forall>c. wk_used (lg_work L) c = held (lg_tasks L) c)
    \<and> within_limits pools (lg_work L)
    \<and> (\<forall>xs p k n ys. lg_tasks L = xs @ Returning p (Suc k) n # ys \<longrightarrow> n \<le> wk_used (lg_work L) (fst (charges p ! k)))"
  using ledger_reachable_ok [OF assms] ledger_reachable_limits [OF assms] release_covered
  by (fastforce simp: ledger_ok_def)

definition two_charged :: ledger where
  "two_charged = \<lparr>lg_work = the (fetch_add (OwnerUsed 7) 40 8 work_new),
     lg_tasks = [Adding small_root 0 16, Adding small_child 1 8]\<rparr>"

lemma ledger_conserved_witness:
  "wk_used (lg_work two_charged) (OwnerUsed 7) = 8 \<and> wk_used (lg_work two_charged) (PoolUsed 0) = 0"
proof -
  let ?ps = "{small_root, small_child}"
  let ?L1 = "ledger_new\<lparr>lg_tasks := Adding small_child 0 8 # lg_tasks ledger_new\<rparr>"
  let ?L2 = "?L1\<lparr>lg_tasks := Adding small_root 0 16 # lg_tasks ?L1\<rparr>"
  have ch: "charges small_child ! 0 = (OwnerUsed 7, 40)" "0 < length (charges small_child)"
    by (simp_all add: small_child_def small_root_def pool_child_def pool_new_def)
  have "ledger_reachable ?ps ?L1"
    by (rule ledger_reachable.more [OF ledger_reachable.empty_ledger ledger_step.Begin]) simp
  then have "ledger_reachable ?ps ?L2"
    by (rule ledger_reachable.more [OF _ ledger_step.Begin]) simp
  moreover have "ledger_step ?ps ?L2 two_charged"
    using ledger_step.Charge [of ?L2 "[Adding small_root 0 16]" small_child 0 8 "[]"
        "the (fetch_add (OwnerUsed 7) 40 8 work_new)" ?ps] ch
    by (simp add: two_charged_def ledger_new_def fetch_add_def checked_add_def work_new_def u64_max_def)
  ultimately have r: "ledger_reachable ?ps two_charged" by (rule ledger_reachable.more)
  have "held (lg_tasks two_charged) (OwnerUsed 7) = 8" "held (lg_tasks two_charged) (PoolUsed 0) = 0"
    by (simp_all add: two_charged_def small_child_def small_root_def pool_child_def pool_new_def)
  then show ?thesis using ledger_conserved [OF r] by simp
qed

end
