(* ===== verification/Query_Net.thy ===== *)
theory Query_Net
  imports Rust_Text
begin

unbundle bit_operations_syntax

text \<open>
  Networks in CIDR notation, the \<open>IpNet\<close> of \<open>src-tauri/src/querylang.rs\<close>: reading one and asking
  whether it holds an address. An address is a word of its width. The reader of addresses is that of
  \<open>std::net\<close> (\<open>IpAddr::from_str\<close>): four decimal groups without leading zeros, or eight hexadecimal
  groups with at most one \<open>::\<close> and an embedded IPv4 tail.
\<close>

section \<open>Addresses, as the standard library reads them\<close>

datatype ip_addr = V4 "32 word" | V6 "128 word"

definition to_digit :: "nat \<Rightarrow> nat \<Rightarrow> nat option" where
  "to_digit radix c =
     (let d = (if is_ascii_digit c then Some (c - 48)
               else if 97 \<le> c \<and> c \<le> 122 then Some (c - 87)
               else if 65 \<le> c \<and> c \<le> 90 then Some (c - 55) else None)
      in case d of Some v \<Rightarrow> if v < radix then Some v else None | None \<Rightarrow> None)"

definition read_number :: "nat \<Rightarrow> nat \<Rightarrow> bool \<Rightarrow> nat \<Rightarrow> rstr \<Rightarrow> (nat \<times> rstr) option" where
  "read_number radix max_digits zero_prefix max_value s =
     (let ds = takeWhile (\<lambda>c. to_digit radix c \<noteq> None) s;
          v = foldl (\<lambda>v c. v * radix + the (to_digit radix c)) 0 ds
      in if ds = [] \<or> max_digits < length ds \<or> (\<not> zero_prefix \<and> hd ds = 48 \<and> 1 < length ds) \<or> max_value < v
         then None else Some (v, drop (length ds) s))"

definition read_separator :: "nat \<Rightarrow> nat \<Rightarrow> (rstr \<Rightarrow> 'a option) \<Rightarrow> rstr \<Rightarrow> 'a option" where
  "read_separator sep index inner s =
     (if index = 0 then inner s
      else case s of [] \<Rightarrow> None | c # s' \<Rightarrow> if c = sep then inner s' else None)"

fun v4_groups :: "nat \<Rightarrow> nat \<Rightarrow> rstr \<Rightarrow> (nat list \<times> rstr) option" where
  "v4_groups 0 i s = Some ([], s)"
| "v4_groups (Suc n) i s =
     (case read_separator 46 i (read_number 10 3 False 255) s of
        None \<Rightarrow> None
      | Some (g, s') \<Rightarrow> map_option (\<lambda>(gs, r). (g # gs, r)) (v4_groups n (Suc i) s'))"

definition read_v4 :: "rstr \<Rightarrow> (nat list \<times> rstr) option" where
  "read_v4 s = v4_groups 4 0 s"

fun v6_groups :: "nat \<Rightarrow> nat \<Rightarrow> rstr \<Rightarrow> nat list \<times> bool \<times> rstr" where
  "v6_groups 0 i s = ([], False, s)"
| "v6_groups (Suc n) i s =
     (case (if 0 < n then read_separator 58 i read_v4 s else None) of
        Some (q, s') \<Rightarrow> ([q ! 0 * 256 + q ! 1, q ! 2 * 256 + q ! 3], True, s')
      | None \<Rightarrow>
          (case read_separator 58 i (read_number 16 4 True 65535) s of
             None \<Rightarrow> ([], False, s)
           | Some (g, s') \<Rightarrow> (case v6_groups n (Suc i) s' of (gs, v4, r) \<Rightarrow> (g # gs, v4, r))))"

definition read_v6 :: "rstr \<Rightarrow> (nat list \<times> rstr) option" where
  "read_v6 s =
     (case v6_groups 8 0 s of
        (head, v4, r) \<Rightarrow>
          if length head = 8 then Some (head, r)
          else if v4 \<or> take 2 r \<noteq> [58, 58] then None
          else case v6_groups (8 - (length head + 1)) 0 (drop 2 r) of
                 (tail, _, r') \<Rightarrow> Some (head @ replicate (8 - length head - length tail) 0 @ tail, r'))"

definition from_groups :: "nat \<Rightarrow> nat list \<Rightarrow> nat" where
  "from_groups base gs = foldl (\<lambda>v g. v * base + g) 0 gs"

definition ip_from_str :: "rstr \<Rightarrow> ip_addr option" where
  "ip_from_str s =
     (case read_v4 s of
        Some (q, r) \<Rightarrow> if r = [] then Some (V4 (of_nat (from_groups 256 q))) else None
      | None \<Rightarrow>
          (case read_v6 s of
             Some (gs, r) \<Rightarrow> if r = [] then Some (V6 (of_nat (from_groups 65536 gs))) else None
           | None \<Rightarrow> None))"

definition is_ipv4 :: "ip_addr \<Rightarrow> bool" where
  "is_ipv4 a = (case a of V4 _ \<Rightarrow> True | V6 _ \<Rightarrow> False)"

text \<open>\<open>Ipv6Addr::to_ipv4_mapped\<close>: the addresses of \<open>::ffff:0:0/96\<close>.\<close>

definition to_ipv4_mapped :: "128 word \<Rightarrow> 32 word option" where
  "to_ipv4_mapped a = (if drop_bit 32 a = 0xffff then Some (ucast a) else None)"

text \<open>\<open>u8::from_str\<close>: an optional plus sign, then digits.\<close>

definition u8_from_str :: "rstr \<Rightarrow> nat option" where
  "u8_from_str s =
     (let ds = (case s of [] \<Rightarrow> [] | c # t \<Rightarrow> if c = 43 then t else s);
          v = foldl (\<lambda>v c. v * 10 + (c - 48)) 0 ds
      in if ds \<noteq> [] \<and> list_all is_ascii_digit ds \<and> v < 256 then Some v else None)"

section \<open>Networks\<close>

record ip_net =
  ne_addr :: ip_addr
  ne_prefix :: nat

text \<open>\<open>str::split_once\<close> at a character.\<close>

definition split_once :: "nat \<Rightarrow> rstr \<Rightarrow> (rstr \<times> rstr) option" where
  "split_once c s =
     (if c \<in> set s then Some (takeWhile (\<lambda>x. x \<noteq> c) s, tl (dropWhile (\<lambda>x. x \<noteq> c) s)) else None)"

definition net_parse :: "rstr \<Rightarrow> ip_net option" where
  "net_parse s =
     (let t = trim s;
          parts = (case split_once 47 t of
             Some (a, p) \<Rightarrow>
               (case ip_from_str a of
                  None \<Rightarrow> None
                | Some addr \<Rightarrow> map_option (\<lambda>prefix. (addr, prefix)) (u8_from_str p))
           | None \<Rightarrow> map_option (\<lambda>addr. (addr, if is_ipv4 addr then 32 else 128)) (ip_from_str t))
      in case parts of
           None \<Rightarrow> None
         | Some (addr, prefix) \<Rightarrow>
             if prefix \<le> (if is_ipv4 addr then 32 else 128)
             then Some \<lparr>ne_addr = addr, ne_prefix = prefix\<rparr> else None)"

text \<open>
  The mask of \<open>contains\<close> is \<open>MAX << (width - prefix)\<close>, written out as zero when the prefix is zero,
  where the shift would be as wide as the word. The prefix of a network that was read is at most the
  width, so the subtraction is exact.
\<close>

definition net_mask :: "nat \<Rightarrow> 'a::len word" where
  "net_mask prefix = (if prefix = 0 then 0 else push_bit (LENGTH('a) - prefix) (- 1))"

definition net_contains :: "ip_net \<Rightarrow> ip_addr \<Rightarrow> bool" where
  "net_contains n ip =
     (case (ne_addr n, ip) of
        (V4 net, V4 a) \<Rightarrow> net AND net_mask (ne_prefix n) = a AND net_mask (ne_prefix n)
      | (V6 net, V6 a) \<Rightarrow> net AND net_mask (ne_prefix n) = a AND net_mask (ne_prefix n)
      | (V4 net, V6 a) \<Rightarrow>
          (case to_ipv4_mapped a of
             Some v4 \<Rightarrow> net AND net_mask (ne_prefix n) = v4 AND net_mask (ne_prefix n)
           | None \<Rightarrow> False)
      | _ \<Rightarrow> False)"

section \<open>What a network holds\<close>

lemma masked_eq:
  fixes a b :: "'a::len word"
  assumes "p \<le> LENGTH('a)"
  shows "a AND net_mask p = b AND net_mask p \<longleftrightarrow> drop_bit (LENGTH('a) - p) a = drop_bit (LENGTH('a) - p) b"
proof (cases "p = 0")
  case True
  have "drop_bit (LENGTH('a)) x = 0" for x :: "'a word"
    by (rule bit_word_eqI) (auto simp: bit_drop_bit_eq dest: bit_imp_le_length)
  then show ?thesis using True by (simp add: net_mask_def)
next
  case False
  let ?k = "LENGTH('a) - p"
  have m: "bit (net_mask p :: 'a word) i \<longleftrightarrow> ?k \<le> i \<and> i < LENGTH('a)" for i
    using False by (auto simp: net_mask_def bit_push_bit_iff bit_minus_1_iff bit_not_iff bit_mask_iff
          simp del: push_bit_minus_one_eq_not_mask)
  have "a AND net_mask p = b AND net_mask p \<longleftrightarrow> (\<forall>i. ?k \<le> i \<and> i < LENGTH('a) \<longrightarrow> bit a i = bit b i)"
    unfolding bit_eq_iff by (auto simp: bit_and_iff m)
  also have "\<dots> \<longleftrightarrow> (\<forall>i. bit a (?k + i) = bit b (?k + i))"
    by (metis bit_imp_le_length le_add1 le_add_diff_inverse)
  also have "\<dots> \<longleftrightarrow> drop_bit ?k a = drop_bit ?k b"
  proof
    assume "\<forall>i. bit a (?k + i) = bit b (?k + i)"
    then show "drop_bit ?k a = drop_bit ?k b" by (intro bit_word_eqI) (simp add: bit_drop_bit_eq)
  next
    assume "drop_bit ?k a = drop_bit ?k b"
    then have "bit (drop_bit ?k a) i = bit (drop_bit ?k b) i" for i by simp
    then show "\<forall>i. bit a (?k + i) = bit b (?k + i)" by (simp add: bit_drop_bit_eq)
  qed
  finally show ?thesis .
qed

lemma unat_numeral_65535: "unat (0xffff :: 128 word) = 65535"
  by simp

lemma unat_ucast_eq: "unat (ucast (a :: 128 word) :: 32 word) = unat a mod 2 ^ 32"
  by (simp add: unsigned_ucast_eq unsigned_take_bit_eq take_bit_eq_mod)

lemma net_parse_bounded:
  "net_parse s = Some n \<Longrightarrow> ne_prefix n \<le> (if is_ipv4 (ne_addr n) then 32 else 128)"
  by (auto simp: net_parse_def Let_def split: option.splits prod.splits if_splits)

lemma masked_block:
  fixes a b :: "'a::len word"
  assumes "p \<le> LENGTH('a)"
  shows "a AND net_mask p = b AND net_mask p
    \<longleftrightarrow> unat a div 2 ^ (LENGTH('a) - p) = unat b div 2 ^ (LENGTH('a) - p)"
proof -
  have "drop_bit k a = drop_bit k b \<longleftrightarrow> unat a div 2 ^ k = unat b div 2 ^ k" for k
    by (metis drop_bit_eq_div unat_drop_bit_eq word_unat_eq_iff)
  then show ?thesis using masked_eq [OF assms, of a b] by simp
qed

lemma mapped_block: "to_ipv4_mapped a = (if unat a div 2 ^ 32 = 65535 then Some (ucast a) else None)"
proof -
  have "drop_bit 32 a = 0xffff \<longleftrightarrow> unat a div 2 ^ 32 = 65535"
    unfolding word_unat_eq_iff drop_bit_eq_div unat_numeral_65535 by (simp add: unat_div)
  then show ?thesis by (simp add: to_ipv4_mapped_def)
qed

text \<open>C37. A network read from text holds exactly the addresses of its block: those that agree with it in
  the bits of the prefix, an IPv4 network also as IPv4-mapped IPv6 addresses.\<close>

theorem net_holds_block:
  assumes "net_parse s = Some n"
  shows "net_contains n ip =
    (case (ne_addr n, ip) of
       (V4 net, V4 a) \<Rightarrow> unat net div 2 ^ (32 - ne_prefix n) = unat a div 2 ^ (32 - ne_prefix n)
     | (V6 net, V6 a) \<Rightarrow> unat net div 2 ^ (128 - ne_prefix n) = unat a div 2 ^ (128 - ne_prefix n)
     | (V4 net, V6 a) \<Rightarrow> unat a div 2 ^ 32 = 65535
         \<and> unat net div 2 ^ (32 - ne_prefix n) = unat a mod 2 ^ 32 div 2 ^ (32 - ne_prefix n)
     | (V6 _, V4 _) \<Rightarrow> False)"
proof -
  have p: "ne_prefix n \<le> (if is_ipv4 (ne_addr n) then 32 else 128)" by (rule net_parse_bounded [OF assms])
  show ?thesis
  proof (cases "ne_addr n")
    case (V4 net)
    then have "ne_prefix n \<le> LENGTH(32)" using p by (simp add: is_ipv4_def)
    then show ?thesis using V4
      by (cases ip) (simp_all add: net_contains_def masked_block mapped_block unat_ucast_eq)
  next
    case (V6 net)
    then have "ne_prefix n \<le> LENGTH(128)" using p by (simp add: is_ipv4_def)
    then show ?thesis using V6
      by (cases ip) (simp_all add: net_contains_def masked_block)
  qed
qed

text \<open>The written form of a network: 10.0.0.0/8.\<close>

definition sample_net :: rstr where "sample_net = lit ''10.0.0.0/8''"

theorem net_holds_block_witness:
  "net_contains (the (net_parse sample_net)) (V4 0x0A020304)
    \<and> \<not> net_contains (the (net_parse sample_net)) (V4 0x0B020304)
    \<and> net_contains (the (net_parse sample_net)) (V6 0xFFFF0A020304)"
proof -
  have n: "net_parse sample_net = Some \<lparr>ne_addr = V4 0x0A000000, ne_prefix = 8\<rparr>" by code_simp
  show ?thesis unfolding n option.sel by (simp add: net_holds_block [OF n])
qed

end
