(* ===== verification/Query_Time.thy ===== *)
theory Query_Time
  imports Stamp_Find
begin

text \<open>
  What the typed values of a query become: instants (\<open>parse_timestamp\<close>, \<open>text_to_ms\<close>, \<open>typed_instant\<close>
  of \<open>src-tauri/src/sources.rs\<close>), levels (\<open>normalize_level\<close>) and numbers with a unit
  (\<open>parse_num_unit\<close> of \<open>analysis.rs\<close>, \<open>text_number\<close> of \<open>model.rs\<close>).

  \<open>f64\<close> is a type of its own whose operations are the record \<open>floats\<close>; the parsers of \<open>chrono\<close> are in
  \<open>instants\<close>: an instant in milliseconds, a naive date and time in nanoseconds. The dates the program
  reads itself are those of the recognizer of \<open>sources/stamp.rs\<close>.
\<close>

section \<open>What comes from outside\<close>

record 'f floats =
  fl_parse :: "rstr \<Rightarrow> 'f option"
  fl_finite :: "'f \<Rightarrow> bool"
  fl_le :: "'f \<Rightarrow> 'f \<Rightarrow> bool"
  fl_less :: "'f \<Rightarrow> 'f \<Rightarrow> bool"
  fl_abs :: "'f \<Rightarrow> 'f"
  fl_mul :: "'f \<Rightarrow> 'f \<Rightarrow> 'f"
  fl_div :: "'f \<Rightarrow> 'f \<Rightarrow> 'f"
  fl_of_int :: "int \<Rightarrow> 'f"
  fl_to_i64 :: "'f \<Rightarrow> int"

record 'f instants =
  in_floats :: "'f floats"
  in_chrono :: chrono
  in_rfc3339 :: "rstr \<Rightarrow> int option"
  in_datetime :: "rstr \<Rightarrow> rstr \<Rightarrow> int option"
  in_naive :: "rstr \<Rightarrow> rstr \<Rightarrow> int option"
  in_naive_date :: "rstr \<Rightarrow> rstr \<Rightarrow> int option"
  in_valid_ms :: "int \<Rightarrow> bool"

text \<open>\<open>i64::from_str\<close>: an optional sign, then digits, within the range.\<close>

definition i64_from_str :: "rstr \<Rightarrow> int option" where
  "i64_from_str s =
     (let neg = (s \<noteq> [] \<and> hd s = 45);
          ds = (if s \<noteq> [] \<and> hd s \<in> {43, 45} then tl s else s);
          n = int (foldl (\<lambda>v c. v * 10 + (c - 48)) 0 ds);
          v = (if neg then - n else n)
      in if ds \<noteq> [] \<and> list_all is_ascii_digit ds \<and> - (2 ^ 63) \<le> v \<and> v < 2 ^ 63 then Some v else None)"

text \<open>\<open>str::strip_prefix\<close>.\<close>

definition strip_prefix :: "rstr \<Rightarrow> rstr \<Rightarrow> rstr option" where
  "strip_prefix p s = (if take (length p) s = p then Some (drop (length p) s) else None)"

section \<open>Instants\<close>

definition epoch_to_ms :: "'f instants \<Rightarrow> 'f \<Rightarrow> int option" where
  "epoch_to_ms w number =
     (let f = in_floats w; num = fl_of_int f
      in if \<not> fl_finite f number then None
         else
           let magnitude = fl_abs f number;
               millis = (if fl_le f (num (10 ^ 17)) magnitude then Some (fl_div f number (num (10 ^ 6)))
                         else if fl_le f (num (10 ^ 14)) magnitude then Some (fl_div f number (num (10 ^ 3)))
                         else if fl_le f (num (10 ^ 11)) magnitude then Some number
                         else if fl_le f (num (10 ^ 8)) magnitude then Some (fl_mul f number (num 1000))
                         else None)
           in case millis of
                None \<Rightarrow> None
              | Some m \<Rightarrow> let ms = fl_to_i64 f m in if in_valid_ms w ms then Some ms else None)"

definition date_formats :: "rstr list" where
  "date_formats =
     [lit ''%Y-%m-%dT%H:%M:%S%.f'', lit ''%Y-%m-%d %H:%M:%S%.f'', lit ''%Y-%m-%d %H:%M:%S'',
      lit ''%Y-%m-%dT%H:%M:%S'', lit ''%Y-%m-%d %H:%M'', lit ''%Y-%m-%dT%H:%M'',
      lit ''%Y/%m/%d %H:%M:%S%.f'', lit ''%Y/%m/%d %H:%M:%S'', lit ''%Y/%m/%d %H:%M'',
      lit ''%d/%m/%Y %H:%M:%S%.f'', lit ''%d/%m/%Y %H:%M:%S'', lit ''%d/%m/%Y %H:%M'',
      lit ''%d-%m-%Y %H:%M:%S'', lit ''%Y-%m-%d'', lit ''%Y/%m/%d'', lit ''%d/%m/%Y'']"

fun first_format :: "'f instants \<Rightarrow> rstr \<Rightarrow> rstr list \<Rightarrow> int option" where
  "first_format w s [] = None"
| "first_format w s (fmt # fmts) =
     (case in_naive w fmt s of
        Some n \<Rightarrow> Some (naive_to_ms (in_chrono w) n)
      | None \<Rightarrow>
          (case in_naive_date w fmt s of
             Some n \<Rightarrow> Some (naive_to_ms (in_chrono w) n)
           | None \<Rightarrow> first_format w s fmts))"

text \<open>The dates .NET writes in JSON: the digits and signs after \<open>/Date(\<close>.\<close>

definition dotnet_digits :: "rstr \<Rightarrow> rstr option" where
  "dotnet_digits s =
     map_option (takeWhile (\<lambda>c. is_ascii_digit c \<or> c = 45))
       (case strip_prefix (lit ''/Date('') s of Some r \<Rightarrow> Some r | None \<Rightarrow> strip_prefix (92 # lit ''/Date('') s)"

definition colonless_offset :: "'f instants \<Rightarrow> rstr \<Rightarrow> int option" where
  "colonless_offset w s =
     (let b = as_bytes s
      in if 19 < length b \<and> b ! (length b - 5) \<in> {43, 45}
         then (case in_datetime w (lit ''%Y-%m-%dT%H:%M:%S%.f%z'') s of
                 Some ms \<Rightarrow> Some ms
               | None \<Rightarrow> in_datetime w (lit ''%Y-%m-%d %H:%M:%S%.f%z'') s)
         else None)"

definition text_date :: "'f instants \<Rightarrow> rstr \<Rightarrow> int option" where
  "text_date w s =
     (case exact (in_chrono w) s of
        Some ms \<Rightarrow> Some ms
      | None \<Rightarrow>
          (case colonless_offset w s of Some ms \<Rightarrow> Some ms | None \<Rightarrow> first_format w s date_formats))"

definition parse_timestamp :: "'f instants \<Rightarrow> rstr \<Rightarrow> int option" where
  "parse_timestamp w text =
     (let s = trim_matches (\<lambda>c. c \<in> {91, 93}) (trim text)
      in if utf8_len s < 8 then None
         else case (case fl_parse (in_floats w) s of Some number \<Rightarrow> epoch_to_ms w number | None \<Rightarrow> None) of
                Some ms \<Rightarrow> Some ms
              | None \<Rightarrow>
                  (case in_rfc3339 w s of
                     Some ms \<Rightarrow> Some ms
                   | None \<Rightarrow>
                       (case (case dotnet_digits s of Some ds \<Rightarrow> i64_from_str ds | None \<Rightarrow> None) of
                          Some ms \<Rightarrow> if in_valid_ms w ms then Some ms else None
                        | None \<Rightarrow> text_date w s)))"

definition text_to_ms :: "'f instants \<Rightarrow> rstr \<Rightarrow> int option" where
  "text_to_ms w text0 =
     (let text = trim text0
      in case fl_parse (in_floats w) text of
           Some number \<Rightarrow> epoch_to_ms w number
         | None \<Rightarrow> parse_timestamp w text)"

definition typed_instant :: "'f instants \<Rightarrow> rstr \<Rightarrow> int option" where
  "typed_instant w text0 =
     (let text = trim text0
      in if fl_parse (in_floats w) text \<noteq> None \<or> \<not> list_ex (\<lambda>c. c \<in> {45, 47, 84}) text
         then None else parse_timestamp w text)"

section \<open>Numbers with a unit\<close>

datatype unit_kind = UnitNumber | UnitBytes | UnitBits | UnitDurationMs | UnitNone

definition split_num_unit :: "rstr \<Rightarrow> rstr \<times> rstr" where
  "split_num_unit s =
     (let numeric = (\<lambda>c. is_ascii_digit c \<or> c = 46 \<or> c = 44 \<or> c = 45)
      in (trim (takeWhile numeric s), trim (dropWhile numeric s)))"

definition scale_unit :: "'f floats \<Rightarrow> 'f \<Rightarrow> rstr \<Rightarrow> ('f \<times> unit_kind) option" where
  "scale_unit f n u =
     (let num = fl_of_int f; kilo = (\<lambda>x. fl_mul f x (num 1024))
      in if u = [] then Some (n, UnitNumber)
         else if u \<in> {lit ''b'', lit ''byte'', lit ''bytes''} then Some (n, UnitBytes)
         else if u = lit ''kb'' then Some (kilo n, UnitBytes)
         else if u = lit ''mb'' then Some (kilo (kilo n), UnitBytes)
         else if u = lit ''gb'' then Some (kilo (kilo (kilo n)), UnitBytes)
         else if u = lit ''tb'' then Some (kilo (kilo (kilo (kilo n))), UnitBytes)
         else if u = lit ''bps'' then Some (n, UnitBits)
         else if u = lit ''kbps'' then Some (fl_mul f n (num (10 ^ 3)), UnitBits)
         else if u = lit ''mbps'' then Some (fl_mul f n (num (10 ^ 6)), UnitBits)
         else if u = lit ''gbps'' then Some (fl_mul f n (num (10 ^ 9)), UnitBits)
         else if u = lit ''ms'' then Some (n, UnitDurationMs)
         else if u = lit ''s'' then Some (fl_mul f n (num 1000), UnitDurationMs)
         else if u = lit ''min'' then Some (fl_mul f n (num 60000), UnitDurationMs)
         else if u = lit ''h'' then Some (fl_mul f n (num 3600000), UnitDurationMs)
         else None)"

definition parse_num_unit :: "'f floats \<Rightarrow> (rstr \<Rightarrow> rstr) \<Rightarrow> rstr \<Rightarrow> ('f \<times> unit_kind) option" where
  "parse_num_unit f lower s0 =
     (let s = trim s0
      in if s = [] then None
         else case fl_parse f s of
                Some n \<Rightarrow> if fl_finite f n then Some (n, UnitNumber) else None
              | None \<Rightarrow>
                  (let (num, u) = split_num_unit (lower s)
                   in case fl_parse f (map (\<lambda>c. if c = 44 then 46 else c) num) of
                        None \<Rightarrow> None
                      | Some n \<Rightarrow>
                          if \<not> fl_finite f n then None
                          else case scale_unit f n u of
                                 None \<Rightarrow> None
                               | Some (v, kind) \<Rightarrow> if fl_finite f v then Some (v, kind) else None))"

definition text_number :: "'f floats \<Rightarrow> (rstr \<Rightarrow> rstr) \<Rightarrow> rstr \<Rightarrow> 'f option" where
  "text_number f lower s0 =
     (let s = trim s0;
          v = (case fl_parse f s of Some n \<Rightarrow> Some n | None \<Rightarrow> map_option fst (parse_num_unit f lower s))
      in case v of Some n \<Rightarrow> if fl_finite f n then Some n else None | None \<Rightarrow> None)"

section \<open>Levels\<close>

definition label_critical :: rstr where "label_critical = lit ''Cr'' @ [237] @ lit ''tico''"
definition label_error :: rstr where "label_error = lit ''Erro''"
definition label_warning :: rstr where "label_warning = lit ''Aviso''"
definition label_info :: rstr where "label_info = lit ''Informa'' @ [231] @ [227] @ lit ''o''"
definition label_debug :: rstr where "label_debug = lit ''Depura'' @ [231] @ [227] @ lit ''o''"
definition label_trace :: rstr where "label_trace = lit ''Rastreio''"

definition level_critical :: "rstr list" where
  "level_critical =
     [lit ''1'', lit ''fatal'', lit ''critical'', lit ''crit'',
      lit ''cr'' @ [237] @ lit ''tico'', lit ''critico'', lit ''emerg'', lit ''emergency'',
      lit ''alert'', lit ''panic'', lit ''ftl'', lit ''crt'', lit ''f'', lit ''60'']"

definition level_error :: "rstr list" where
  "level_error =
     [lit ''2'', lit ''error'', lit ''err'', lit ''erro'', lit ''e'', lit ''eror'',
      lit ''severe'', lit ''50'']"

definition level_warning :: "rstr list" where
  "level_warning =
     [lit ''3'', lit ''warn'', lit ''warning'', lit ''aviso'', lit ''w'', lit ''wrn'',
      lit ''advertencia'', lit ''advert'' @ [234] @ lit ''ncia'', lit ''atencao'',
      lit ''aten'' @ [231] @ [227] @ lit ''o'', lit ''audit failure'',
      lit ''falha de auditoria'', lit ''40'']"

definition level_info :: "rstr list" where
  "level_info =
     [lit ''0'', lit ''4'', lit ''info'', lit ''information'', lit ''informational'',
      lit ''informa'' @ [231] @ [227] @ lit ''o'', lit ''informacao'',
      lit ''informaci'' @ [243] @ lit ''n'', lit ''informacion'', lit ''notice'', lit ''note'',
      lit ''i'', lit ''inf'', lit ''config'', lit ''log'', lit ''audit success'',
      [234] @ lit ''xito de auditoria'', lit ''exito de auditoria'', lit ''30'']"

definition level_debug :: "rstr list" where
  "level_debug =
     [lit ''5'', lit ''debug'', lit ''depura'' @ [231] @ [227] @ lit ''o'', lit ''depuracao'',
      lit ''depuraci'' @ [243] @ lit ''n'', lit ''d'', lit ''dbg'', lit ''fine'', lit ''20'']"

definition level_trace :: "rstr list" where
  "level_trace =
     [lit ''trace'', lit ''verbose'', lit ''rastreio'', lit ''trc'', lit ''vrb'', lit ''v'',
      lit ''finer'', lit ''finest'', lit ''10'']"

definition normalize_level :: "(rstr \<Rightarrow> rstr) \<Rightarrow> rstr \<Rightarrow> rstr" where
  "normalize_level lower raw =
     (let s = lower (trim raw)
      in if s \<in> set level_critical then label_critical
         else if s \<in> set level_error then label_error
         else if s \<in> set level_warning then label_warning
         else if s \<in> set level_info then label_info
         else if s \<in> set level_debug then label_debug
         else if s \<in> set level_trace then label_trace
         else if s \<noteq> [] then s
         else label_info)"

text \<open>The class of a level in the index: the constants \<open>LV_*\<close> of \<open>model.rs\<close>.\<close>

datatype level_class = LvInfo | LvCrit | LvErr | LvWarn | LvDebug | LvTrace | LvOther

definition label_class :: "rstr \<Rightarrow> level_class option" where
  "label_class label =
     (if label = label_critical then Some LvCrit
      else if label = label_error then Some LvErr
      else if label = label_warning then Some LvWarn
      else if label = label_info then Some LvInfo
      else if label = label_debug then Some LvDebug
      else if label = label_trace then Some LvTrace
      else None)"

end
