(* ===== verification/Query_Expr.thy ===== *)
theory Query_Expr
  imports Query_Net Query_Time
begin

text \<open>
  The terms of the search language of \<open>src-tauri/src/querylang.rs\<close>: expressions, fields and what a field
  is compared with, and the events they are tested on (\<open>model.rs\<close>, \<open>entities.rs\<close>).

  The record \<open>query_world\<close> holds what the language takes from outside: Unicode tables, the numbers and
  instants of \<open>Query_Time\<close>, the \<open>regex\<close> crate, and the threat and detection catalogs, whose matchers are
  predicates of an event.
\<close>

section \<open>Events\<close>

datatype json_value = VNull | VBool bool | VNumber rstr | VString rstr
  | VArray "json_value list" | VObject "(rstr \<times> json_value) list"

record event =
  ev_id :: nat
  ev_ref :: rstr
  ev_timestamp :: "int option"
  ev_source :: rstr
  ev_level :: rstr
  ev_code :: rstr
  ev_name :: rstr
  ev_description :: rstr
  ev_message :: rstr
  ev_raw :: rstr
  ev_fields :: "(rstr \<times> json_value) list"

section \<open>Roles\<close>

datatype role = RoleUser | RoleSrcIp | RoleDstIp | RoleHost | RoleProcess | RoleParentProcess
  | RoleCommandLine | RoleUrl | RoleDomain | RoleHash | RoleDstPort | RoleUserAgent | RoleFile
  | RoleStatus | RoleAction | RoleOutcome | RoleSrcScope | RoleDstScope | RoleTool

definition role_columns :: "(rstr \<times> role) list" where
  "role_columns =
     [(lit ''@user'', RoleUser),
      (lit ''@src_ip'', RoleSrcIp),
      (lit ''@dst_ip'', RoleDstIp),
      (lit ''@host'', RoleHost),
      (lit ''@process'', RoleProcess),
      (lit ''@parent_process'', RoleParentProcess),
      (lit ''@cmdline'', RoleCommandLine),
      (lit ''@url'', RoleUrl),
      (lit ''@domain'', RoleDomain),
      (lit ''@hash'', RoleHash),
      (lit ''@dst_port'', RoleDstPort),
      (lit ''@user_agent'', RoleUserAgent),
      (lit ''@file'', RoleFile),
      (lit ''@status'', RoleStatus),
      (lit ''@action'', RoleAction),
      (lit ''@outcome'', RoleOutcome),
      (lit ''@src_scope'', RoleSrcScope),
      (lit ''@dst_scope'', RoleDstScope),
      (lit ''@tool'', RoleTool)]"

definition role_of_column :: "rstr \<Rightarrow> role option" where
  "role_of_column column = map_of role_columns column"

definition role_alias :: "(rstr \<Rightarrow> rstr) \<Rightarrow> rstr \<Rightarrow> role option" where
  "role_alias lower_case name =
     (let s = lower_case (dropWhile (\<lambda>c. c = 64) name) in
      if s \<in> {lit ''user'', lit ''usuario'', lit ''usu'' @ [225] @ lit ''rio'', lit ''conta'',
          lit ''account''} then Some RoleUser
      else if s \<in> {lit ''ip'', lit ''src_ip'', lit ''srcip'', lit ''source_ip'', lit ''origem_ip'',
          lit ''ip_origem'', lit ''client_ip''} then Some RoleSrcIp
      else if s \<in> {lit ''dst_ip'', lit ''dstip'', lit ''dest_ip'', lit ''destination_ip'',
          lit ''destino'', lit ''ip_destino''} then Some RoleDstIp
      else if s \<in> {lit ''host'', lit ''hostname'', lit ''maquina'', lit ''m'' @ [225] @ lit ''quina'',
          lit ''computer''} then Some RoleHost
      else if s \<in> {lit ''process'', lit ''processo'', lit ''image'', lit ''exe''} then Some RoleProcess
      else if s \<in> {lit ''parent'', lit ''parent_process'', lit ''processo_pai'',
          lit ''pai''} then Some RoleParentProcess
      else if s \<in> {lit ''cmd'', lit ''cmdline'', lit ''command'', lit ''comando'',
          lit ''commandline''} then Some RoleCommandLine
      else if s \<in> {lit ''url'', lit ''uri''} then Some RoleUrl
      else if s \<in> {lit ''domain'', lit ''dominio'',
          lit ''dom'' @ [237] @ lit ''nio''} then Some RoleDomain
      else if s \<in> {lit ''hash'', lit ''sha256'', lit ''md5'', lit ''sha1''} then Some RoleHash
      else if s \<in> {lit ''port'', lit ''porta'', lit ''dst_port'', lit ''dport''} then Some RoleDstPort
      else if s \<in> {lit ''ua'', lit ''user_agent'', lit ''useragent'',
          lit ''agente''} then Some RoleUserAgent
      else if s \<in> {lit ''file'', lit ''arquivo_alvo''} then Some RoleFile
      else if s \<in> {lit ''status''} then Some RoleStatus
      else if s \<in> {lit ''action'', lit ''acao'',
          lit ''a'' @ [231] @ [227] @ lit ''o''} then Some RoleAction
      else if s \<in> {lit ''outcome'', lit ''resultado''} then Some RoleOutcome
      else if s \<in> {lit ''src_scope'', lit ''rede_origem''} then Some RoleSrcScope
      else if s \<in> {lit ''dst_scope'', lit ''rede_destino''} then Some RoleDstScope
      else if s \<in> {lit ''tool'', lit ''ferramenta''} then Some RoleTool
      else None)"

text \<open>\<open>literal_role\<close>: the roles whose value is copied from the record as it stands.\<close>

definition literal_role :: "role \<Rightarrow> bool" where
  "literal_role r \<longleftrightarrow> r \<notin> {RoleAction, RoleOutcome, RoleSrcScope, RoleDstScope, RoleTool}"

section \<open>Terms\<close>

record query_field =
  qf_name :: rstr
  qf_role :: "role option"
  qf_text :: bool
  qf_ci :: bool

datatype cmp = Gt | Gte | Lt | Lte

text \<open>A compiled regular expression: \<open>as_str\<close> and \<open>is_match\<close>.\<close>

record query_regex =
  re_source :: rstr
  re_is_match :: "rstr \<Rightarrow> bool"

datatype rx_profile = Ordinary | QueryLiteral

datatype 'f query_matcher =
    MFieldRef query_field bool
  | MPresent
  | MNull
  | MContains rstr
  | MEquals rstr
  | MExact rstr
  | MWildcard query_regex
  | MRegex query_regex
  | MCidr "ip_net list"
  | MCmp cmp 'f
  | MRange 'f 'f
  | MTimeCmp cmp 'f
  | MTimeRange 'f 'f
  | MExists
  | MSet "rstr list"
  | MLevel rstr
  | MThreat "event \<Rightarrow> bool"
  | MDetection "event \<Rightarrow> bool"

record 'f query_term =
  te_field :: "query_field option"
  te_matcher :: "'f query_matcher"

datatype 'f query_expr =
    EAll
  | EAnd "'f query_expr list"
  | EOr "'f query_expr list"
  | ENot "'f query_expr"
  | ETerm "'f query_term"

text \<open>A detection rule as the language sees it: its id, whether it is chained on others, what it selects.\<close>

record detection =
  dt_id :: rstr
  dt_chained :: bool
  dt_matches :: "event \<Rightarrow> bool"

record 'f query_world =
  qw_lower :: "rstr \<Rightarrow> rstr"
  qw_alphabetic :: "nat \<Rightarrow> bool"
  qw_alphanumeric :: "nat \<Rightarrow> bool"
  qw_instants :: "'f instants"
  qw_regex :: "rx_profile \<Rightarrow> rstr \<Rightarrow> rstr + query_regex"
  qw_escape :: "nat \<Rightarrow> rstr"
  qw_threat :: "rstr \<Rightarrow> rstr + (event \<Rightarrow> bool)"
  qw_ruleset :: "rstr + detection list"
  qw_chain :: "rstr \<Rightarrow> (event \<Rightarrow> bool) option"

definition qw_floats :: "'f query_world \<Rightarrow> 'f floats" where
  "qw_floats w = in_floats (qw_instants w)"

section \<open>Fields\<close>

definition text_columns :: "rstr list" where
  "text_columns =
     [lit ''message'', lit ''_all'', lit ''raw'', lit ''description'', lit ''name'',
      lit ''@cmdline'', lit ''@url'', lit ''@user_agent'', lit ''@file'']"

definition standard_column :: "rstr \<Rightarrow> rstr option" where
  "standard_column s = (
      if s \<in> {lit ''nivel'', lit ''n'' @ [237] @ lit ''vel'', lit ''level'',
          lit ''severidade''} then Some (lit ''level'')
      else if s \<in> {lit ''origem'', lit ''source'', lit ''fonte''} then Some (lit ''source'')
      else if s \<in> {lit ''codigo'', lit ''c'' @ [243] @ lit ''digo'', lit ''code'', lit ''evento'',
          lit ''eventid''} then Some (lit ''code'')
      else if s \<in> {lit ''mensagem'', lit ''msg'', lit ''message''} then Some (lit ''message'')
      else if s \<in> {lit ''nome'', lit ''name''} then Some (lit ''name'')
      else if s \<in> {lit ''descricao'', lit ''descri'' @ [231] @ [227] @ lit ''o'',
          lit ''description''} then Some (lit ''description'')
      else if s \<in> {lit ''data'', lit ''hora'', lit ''horario'', lit ''hor'' @ [225] @ lit ''rio'',
          lit ''timestamp'', lit ''time''} then Some (lit ''timestamp'')
      else if s \<in> {lit ''bruto'', lit ''raw''} then Some (lit ''raw'')
      else if s \<in> {lit ''tudo'', lit ''_all'', lit ''*''} then Some (lit ''_all'')
      else None)"

definition resolve_field :: "(rstr \<Rightarrow> rstr) \<Rightarrow> rstr \<Rightarrow> query_field" where
  "resolve_field lower_case name =
     (let standard = standard_column (lower_case name);
          column = (case standard of Some c \<Rightarrow> c | None \<Rightarrow> name);
          r = (if column \<noteq> [] \<and> hd column = 64 then role_of_column column
               else if standard = None then role_alias lower_case name
               else None)
      in \<lparr>qf_name = column, qf_role = r, qf_text = column \<in> set text_columns, qf_ci = False\<rparr>)"

definition is_field_char :: "'f query_world \<Rightarrow> nat \<Rightarrow> bool" where
  "is_field_char w c \<longleftrightarrow> qw_alphanumeric w c \<or> c \<in> {95, 46, 64, 45, 36}"

text \<open>The values typed against a field.\<close>

definition instant_for :: "'f query_world \<Rightarrow> rstr \<Rightarrow> rstr \<Rightarrow> 'f option" where
  "instant_for w name val =
     (if name \<noteq> lit ''timestamp''
      then map_option (fl_of_int (qw_floats w)) (typed_instant (qw_instants w) val)
      else None)"

definition number_for :: "'f query_world \<Rightarrow> rstr \<Rightarrow> rstr \<Rightarrow> 'f option" where
  "number_for w name val0 =
     (let val = trim val0; f = qw_floats w
      in case fl_parse f val of
           Some n \<Rightarrow> if fl_finite f n then Some n else None
         | None \<Rightarrow>
             if name = lit ''timestamp''
             then map_option (fl_of_int f) (parse_timestamp (qw_instants w) val)
             else case parse_num_unit f (qw_lower w) val of
                    Some (n, _) \<Rightarrow> if fl_finite f n then Some n else None
                  | None \<Rightarrow> None)"

section \<open>Shape of an expression\<close>

text \<open>The nesting a recursive consumer of an expression follows, and its number of nodes.\<close>

fun expr_depth :: "'f query_expr \<Rightarrow> nat" where
  "expr_depth EAll = 0"
| "expr_depth (ETerm _) = 0"
| "expr_depth (ENot e) = Suc (expr_depth e)"
| "expr_depth (EAnd es) = Suc (fold max (map expr_depth es) 0)"
| "expr_depth (EOr es) = Suc (fold max (map expr_depth es) 0)"

fun expr_nodes :: "'f query_expr \<Rightarrow> nat" where
  "expr_nodes EAll = 1"
| "expr_nodes (ETerm _) = 1"
| "expr_nodes (ENot e) = Suc (expr_nodes e)"
| "expr_nodes (EAnd es) = Suc (sum_list (map expr_nodes es))"
| "expr_nodes (EOr es) = Suc (sum_list (map expr_nodes es))"

text \<open>\<open>simplify\<close>: a conjunction or disjunction of one is that one.\<close>

fun simplify :: "'f query_expr \<Rightarrow> 'f query_expr" where
  "simplify (EAnd [e]) = simplify e"
| "simplify (EOr [e]) = simplify e"
| "simplify (EAnd es) = EAnd (map simplify es)"
| "simplify (EOr es) = EOr (map simplify es)"
| "simplify (ENot e) = ENot (simplify e)"
| "simplify EAll = EAll"
| "simplify (ETerm t) = ETerm t"

end
