(* ===== verification/Query_Parser.thy ===== *)
theory Query_Parser
  imports Query_Expr
begin

text \<open>
  The parser of the search language, \<open>src-tauri/src/querylang.rs\<close>: the recursive descent over the
  characters of the query with its budgets of depth and nodes, the readers of terms and values, and
  \<open>compile\<close>.

  The methods of \<open>Parser\<close> are programs over the mutable part of it (\<open>pstate\<close>): the position, the depth and
  the nodes charged. \<open>ps_checks\<close> is how many calls of \<open>operations::check\<close> still pass before the
  cancellation of the operation is seen, \<open>None\<close> when it is never cancelled. A panic is the error
  \<open>Panic\<close>. The nesting of parentheses and the two loops carry fuel, and running out of it is the error
  \<open>OutOfFuel\<close>, which \<open>compile\<close> is proved never to answer.
\<close>

section \<open>Errors and state\<close>

datatype query_msg = TooManyNodes | TooDeep | Incomplete | OpenParen | StrayParen | Unexpected
  | OpenQuotes | OpenRegex | EmptyTerm | NeedValue rstr | OpenList | EmptyList | BadNumber rstr | EmptyValue

datatype query_error = QueryAt query_msg nat
  | Cancelled | TooLong | NoCatalog | NestedDetection | NoDetection rstr | ChainNotReady | CatalogError rstr
  | BadInterval rstr | BadRegexText rstr | BadWildcard rstr | HistoryLimit | Panic | OutOfFuel

record pstate =
  ps_pos :: nat
  ps_depth :: nat
  ps_nodes :: nat
  ps_checks :: "nat option"

record 'f query_env =
  qe_world :: "'f query_world"
  qe_chars :: rstr
  qe_catalogs :: bool
  qe_detections :: bool

type_synonym 'a pm = "pstate \<Rightarrow> query_error + 'a \<times> pstate"

definition ret :: "'a \<Rightarrow> 'a pm" where
  "ret x s = Inr (x, s)"

definition fail :: "query_error \<Rightarrow> 'a pm" where
  "fail e s = Inl e"

definition and_then :: "'a pm \<Rightarrow> ('a \<Rightarrow> 'b pm) \<Rightarrow> 'b pm" where
  "and_then m f s = (case m s of Inl e \<Rightarrow> Inl e | Inr (x, s') \<Rightarrow> f x s')"

definition lift_opt :: "query_error \<Rightarrow> 'a option \<Rightarrow> 'a pm" where
  "lift_opt e m = (case m of None \<Rightarrow> fail e | Some x \<Rightarrow> ret x)"

definition max_query_depth :: nat where "max_query_depth = 64"
definition max_query_nodes :: nat where "max_query_nodes = 16384"

definition check :: "unit pm" where
  "check s = (case ps_checks s of
     None \<Rightarrow> Inr ((), s)
   | Some 0 \<Rightarrow> Inl Cancelled
   | Some (Suc n) \<Rightarrow> Inr ((), s\<lparr>ps_checks := Some n\<rparr>))"

definition fail_at :: "query_msg \<Rightarrow> 'a pm" where
  "fail_at m s = Inl (QueryAt m (ps_pos s + 1))"

definition charge_node :: "unit pm" where
  "charge_node = and_then check (\<lambda>_ s.
     if max_query_nodes \<le> ps_nodes s then fail_at TooManyNodes s
     else Inr ((), s\<lparr>ps_nodes := ps_nodes s + 1\<rparr>))"

definition set_pos :: "nat \<Rightarrow> unit pm" where
  "set_pos i s = Inr ((), s\<lparr>ps_pos := i\<rparr>)"

section \<open>Characters\<close>

definition char_at :: "rstr \<Rightarrow> nat \<Rightarrow> nat option" where
  "char_at cs i = (if i < length cs then Some (cs ! i) else None)"

text \<open>The end of the run of characters with a property, from a position.\<close>

definition skip_while :: "(nat \<Rightarrow> bool) \<Rightarrow> rstr \<Rightarrow> nat \<Rightarrow> nat" where
  "skip_while P cs i = i + length (takeWhile P (drop i cs))"

definition text_between :: "rstr \<Rightarrow> nat \<Rightarrow> nat \<Rightarrow> rstr" where
  "text_between cs i j = take (j - i) (drop i cs)"

definition is_space_or :: "nat set \<Rightarrow> nat \<Rightarrow> bool" where
  "is_space_or S c \<longleftrightarrow> is_whitespace c \<or> c \<in> S"

text \<open>\<open>is_none_or\<close>: nothing, a blank or one of the characters.\<close>

definition closes :: "nat set \<Rightarrow> nat option \<Rightarrow> bool" where
  "closes S c = (case c of None \<Rightarrow> True | Some x \<Rightarrow> is_space_or S x)"

definition skip_ws :: "'f query_env \<Rightarrow> unit pm" where
  "skip_ws e s = set_pos (skip_while is_whitespace (qe_chars e) (ps_pos s)) s"

definition peek_char :: "'f query_env \<Rightarrow> pstate \<Rightarrow> nat option" where
  "peek_char e s = char_at (qe_chars e) (ps_pos s)"

definition peek_word :: "'f query_env \<Rightarrow> pstate \<Rightarrow> rstr" where
  "peek_word e s = takeWhile (\<lambda>c. \<not> is_space_or {40, 41} c) (drop (ps_pos s) (qe_chars e))"

section \<open>Keywords\<close>

definition or_words :: "rstr list" where
  "or_words = [lit ''OR'', lit ''OU'', lit ''||'']"

definition and_words :: "rstr list" where
  "and_words = [lit ''AND'', lit ''E'', lit ''&&'']"

definition not_words :: "rstr list" where
  "not_words = [lit ''NOT'', [78, 195, 79], lit ''NAO'']"

definition take_keyword :: "'f query_env \<Rightarrow> rstr list \<Rightarrow> bool pm" where
  "take_keyword e ks s =
     (let word = peek_word e s; nxt = ps_pos s + length word
      in if word \<in> set ks \<and> closes {40} (char_at (qe_chars e) nxt)
         then Inr (True, s\<lparr>ps_pos := nxt\<rparr>)
         else Inr (False, s))"

section \<open>Terms\<close>

definition field_ahead :: "'f query_env \<Rightarrow> pstate \<Rightarrow> (rstr \<times> nat) option" where
  "field_ahead e s =
     (let cs = qe_chars e; w = qe_world e; start = ps_pos s
      in case char_at cs start of
           None \<Rightarrow> None
         | Some c \<Rightarrow>
             if \<not> (qw_alphabetic w c \<or> c = 95 \<or> c = 64) then None
             else
               let stop = skip_while (is_field_char w) cs start
               in case char_at cs stop of
                    None \<Rightarrow> None
                  | Some op \<Rightarrow>
                      if op \<notin> {58, 61, 33, 60, 62} then None
                      else if op = 33 \<and> char_at cs (stop + 1) \<noteq> Some 61 then None
                      else if op = 58 \<and> (char_at cs (stop + 1) \<in> {Some 92, Some 58}
                                \<or> (char_at cs (stop + 1) = Some 47 \<and> char_at cs (stop + 2) = Some 47))
                      then None
                      else Some (text_between cs start stop, stop))"

text \<open>The slash that closes a literal opened at a position: not escaped, not the first character, at the end of a term.\<close>

function close_slash :: "rstr \<Rightarrow> nat \<Rightarrow> nat \<Rightarrow> nat option" where
  "close_slash cs start i =
     (if length cs \<le> i then None
      else if cs ! i = 92 then close_slash cs start (i + 2)
      else if cs ! i = 47 \<and> start + 1 < i \<and> closes {41} (char_at cs (i + 1)) then Some i
      else close_slash cs start (i + 1))"
  by pat_completeness auto
termination by (relation "measure (\<lambda>(cs, _, i). length cs - i)") auto

declare close_slash.simps [simp del]

definition regex_literal_ahead :: "'f query_env \<Rightarrow> nat \<Rightarrow> bool" where
  "regex_literal_ahead e i \<longleftrightarrow>
     char_at (qe_chars e) (i + 1) \<noteq> Some 47 \<and> close_slash (qe_chars e) i (i + 1) \<noteq> None"

text \<open>The text of a quoted value and the position after it: a backslash stands for the character that follows.\<close>

fun quoted_text :: "rstr \<Rightarrow> rstr \<Rightarrow> (rstr \<times> rstr) option" where
  "quoted_text out [] = None"
| "quoted_text out (c # cs) =
     (if c = 34 then Some (out, cs)
      else if c = 92 then (case cs of [] \<Rightarrow> None | n # cs' \<Rightarrow> quoted_text (out @ [n]) cs')
      else quoted_text (out @ [c]) cs)"

definition read_quoted :: "'f query_env \<Rightarrow> rstr pm" where
  "read_quoted e s =
     (case quoted_text [] (drop (ps_pos s + 1) (qe_chars e)) of
        None \<Rightarrow> fail_at OpenQuotes (s\<lparr>ps_pos := length (qe_chars e)\<rparr>)
      | Some (out, rest) \<Rightarrow> Inr (out, s\<lparr>ps_pos := length (qe_chars e) - length rest\<rparr>))"

text \<open>The pattern of a literal: a backslash that only protects the slash is dropped.\<close>

fun literal_pattern :: "rstr \<Rightarrow> rstr" where
  "literal_pattern (c # n # cs) =
     (if c = 92 then (if n = 47 then [n] else [92, n]) @ literal_pattern cs else c # literal_pattern (n # cs))"
| "literal_pattern cs = cs"

definition compile_pattern :: "'f query_env \<Rightarrow> rx_profile \<Rightarrow> (rstr \<Rightarrow> query_error) \<Rightarrow> rstr \<Rightarrow> query_regex pm" where
  "compile_pattern e profile err pattern =
     and_then check (\<lambda>_.
     and_then (case qw_regex (qe_world e) profile pattern of Inl m \<Rightarrow> fail (err m) | Inr re \<Rightarrow> ret re) (\<lambda>re.
     and_then check (\<lambda>_. ret re)))"

definition read_regex :: "'f query_env \<Rightarrow> query_regex pm" where
  "read_regex e s =
     (let start = ps_pos s; cs = qe_chars e
      in case close_slash cs start (start + 1) of
           None \<Rightarrow> fail_at OpenRegex s
         | Some close \<Rightarrow>
             compile_pattern e QueryLiteral BadRegexText (literal_pattern (text_between cs (start + 1) close))
               (s\<lparr>ps_pos := close + 1\<rparr>))"

text \<open>A bare word ends at a blank, at a closing parenthesis, and at an opening one except as its first character.\<close>

definition read_bare :: "'f query_env \<Rightarrow> rstr pm" where
  "read_bare e s =
     (let cs = qe_chars e; start = ps_pos s;
          first = (if char_at cs start = Some 40 then start + 1 else start);
          stop = skip_while (\<lambda>c. \<not> is_space_or {40, 41} c) cs first
      in Inr (text_between cs start stop, s\<lparr>ps_pos := stop\<rparr>))"

definition wildcard_pattern :: "'f query_world \<Rightarrow> bool \<Rightarrow> rstr \<Rightarrow> rstr" where
  "wildcard_pattern w anchored pattern =
     (if anchored then lit ''(?is)^'' else lit ''(?is)'')
     @ concat (map (\<lambda>c. if c = 42 then lit ''.*'' else if c = 63 then lit ''.'' else qw_escape w c) pattern)
     @ (if anchored then lit ''$'' else [])"

definition wildcard_regex :: "'f query_env \<Rightarrow> rstr \<Rightarrow> bool \<Rightarrow> query_regex pm" where
  "wildcard_regex e pattern anchored =
     and_then check (\<lambda>_.
       compile_pattern e Ordinary BadWildcard (wildcard_pattern (qe_world e) anchored pattern))"

definition has_wildcard :: "rstr \<Rightarrow> bool" where
  "has_wildcard v \<longleftrightarrow> list_ex (\<lambda>c. c = 42 \<or> c = 63) v"

section \<open>Values\<close>

datatype query_op = OpColon | OpEq | OpNe | OpGt | OpGte | OpLt | OpLte

definition read_op :: "'f query_env \<Rightarrow> query_op pm" where
  "read_op e s =
     (let cs = qe_chars e; two = text_between cs (ps_pos s) (ps_pos s + 2)
      in if two = lit ''>='' then Inr (OpGte, s\<lparr>ps_pos := ps_pos s + 2\<rparr>)
         else if two = lit ''<='' then Inr (OpLte, s\<lparr>ps_pos := ps_pos s + 2\<rparr>)
         else if two = lit ''!='' then Inr (OpNe, s\<lparr>ps_pos := ps_pos s + 2\<rparr>)
         else if two = lit ''=='' then Inr (OpEq, s\<lparr>ps_pos := ps_pos s + 2\<rparr>)
         else Inr (case char_at cs (ps_pos s) of
                     Some c \<Rightarrow> if c = 58 then OpColon else if c = 61 then OpEq else if c = 62 then OpGt else OpLt
                   | None \<Rightarrow> OpLt, s\<lparr>ps_pos := ps_pos s + 1\<rparr>))"

text \<open>\<open>str::split_once\<close> at a text.\<close>

fun split_at_text :: "rstr \<Rightarrow> rstr \<Rightarrow> rstr \<Rightarrow> (rstr \<times> rstr) option" where
  "split_at_text p before [] = (if p = [] then Some (before, []) else None)"
| "split_at_text p before (c # s) =
     (if take (length p) (c # s) = p then Some (before, drop (length p) (c # s))
      else split_at_text p (before @ [c]) s)"

definition interval_words :: "rstr \<Rightarrow> (rstr \<times> rstr) option" where
  "interval_words inner =
     (case split_at_text (lit '' TO '') [] inner of
        Some ab \<Rightarrow> Some ab
      | None \<Rightarrow> split_at_text (lit '' AT'' @ [201, 32]) [] inner)"

text \<open>
  \<open>[a TO b]\<close>. The text inside is the slice up to the character before the position reached, which is the
  closing bracket when there is one; a bracket that is the last character makes the slice end before it
  starts, a panic.
\<close>

definition read_bracket :: "'f query_env \<Rightarrow> (rstr \<times> bool) pm" where
  "read_bracket e s =
     (let cs = qe_chars e; start = ps_pos s;
          close = skip_while (\<lambda>c. c \<noteq> 93) cs start;
          stop = (if close < length cs then close + 1 else close)
      in if stop - 1 < start + 1 then Inl Panic
         else let inner = text_between cs (start + 1) (stop - 1)
              in Inr ((case interval_words inner of
                         Some (a, b) \<Rightarrow> (trim a @ lit ''..'' @ trim b, False)
                       | None \<Rightarrow> (inner, False)), s\<lparr>ps_pos := stop\<rparr>))"

definition read_value_token :: "'f query_env \<Rightarrow> (rstr \<times> bool) pm" where
  "read_value_token e s =
     (if peek_char e s = Some 34 then and_then (read_quoted e) (\<lambda>t. ret (t, True)) s
      else if peek_char e s = Some 91 then read_bracket e s
      else
        let cs = qe_chars e; stop = skip_while (\<lambda>c. \<not> is_space_or {41, 44} c) cs (ps_pos s);
            val = text_between cs (ps_pos s) stop
        in if val = [] then fail_at EmptyValue (s\<lparr>ps_pos := stop\<rparr>)
           else Inr ((val, False), s\<lparr>ps_pos := stop\<rparr>))"

definition threat_fields :: "rstr list" where
  "threat_fields = [lit ''regra'', lit ''rule'', lit ''ameaca'', lit ''amea'' @ [231, 97], lit ''threat'']"

definition detection_fields :: "rstr list" where
  "detection_fields = [lit ''deteccao'', lit ''detec'' @ [231, 227, 111], lit ''detection'']"

text \<open>The matcher of \<open>deteccao:<id>\<close>; a chained rule is tested on the results kept for its chain.\<close>

definition detection_matcher :: "'f query_env \<Rightarrow> rstr \<Rightarrow> query_error + 'f query_matcher" where
  "detection_matcher e val =
     (case qw_ruleset (qe_world e) of
        Inl m \<Rightarrow> Inl (CatalogError m)
      | Inr rules \<Rightarrow>
          (case List.find (\<lambda>r. dt_id r = val) rules of
             None \<Rightarrow> Inl (NoDetection val)
           | Some r \<Rightarrow>
               if dt_chained r
               then (case qw_chain (qe_world e) (dt_id r) of
                       None \<Rightarrow> Inl ChainNotReady
                     | Some results \<Rightarrow> Inr (MDetection results))
               else Inr (MDetection (dt_matches r))))"

definition interval_matcher :: "'f query_env \<Rightarrow> rstr \<Rightarrow> rstr \<Rightarrow> query_error + 'f query_matcher option" where
  "interval_matcher e name val =
     (let w = qe_world e; f = qw_floats w
      in case split_at_text (lit ''..'') [] val of
           None \<Rightarrow> Inr None
         | Some (a, b) \<Rightarrow>
             (case (instant_for w name a, instant_for w name b) of
                (Some lo, Some hi) \<Rightarrow>
                  if fl_less f hi lo then Inl (BadInterval name) else Inr (Some (MTimeRange lo hi))
              | _ \<Rightarrow>
                  (case (number_for w name a, number_for w name b) of
                     (Some lo, Some hi) \<Rightarrow>
                       if fl_less f hi lo then Inl (BadInterval name) else Inr (Some (MRange lo hi))
                   | _ \<Rightarrow> Inr None)))"

definition plain_matcher :: "'f query_env \<Rightarrow> query_field \<Rightarrow> rstr \<Rightarrow> 'f query_matcher" where
  "plain_matcher e field val =
     (if qf_text field \<or> qf_name field = lit ''_all'' then MContains (qw_lower (qe_world e) val)
      else MEquals (qw_lower (qe_world e) val))"

definition unquoted_matcher :: "'f query_env \<Rightarrow> query_field \<Rightarrow> rstr \<Rightarrow> 'f query_matcher pm" where
  "unquoted_matcher e field val =
     (if val = lit ''*'' then ret MExists
      else case (if 47 \<in> set val \<and> hd val \<noteq> 47 then net_parse val else None) of
             Some net \<Rightarrow> ret (MCidr [net])
           | None \<Rightarrow>
               (case interval_matcher e (qf_name field) val of
                  Inl err \<Rightarrow> fail err
                | Inr (Some m) \<Rightarrow> ret m
                | Inr None \<Rightarrow>
                    if has_wildcard val then and_then (wildcard_regex e val True) (\<lambda>re. ret (MWildcard re))
                    else ret (plain_matcher e field val)))"

definition smart :: "'f query_env \<Rightarrow> query_field \<Rightarrow> rstr \<Rightarrow> bool \<Rightarrow> 'f query_matcher pm" where
  "smart e field val quoted =
     (if qf_name field = lit ''level'' then ret (MLevel (normalize_level (qw_lower (qe_world e)) val))
      else if qf_name field \<in> set threat_fields then
        (if \<not> qe_catalogs e then fail NoCatalog
         else case qw_threat (qe_world e) val of Inl m \<Rightarrow> fail (CatalogError m) | Inr p \<Rightarrow> ret (MThreat p))
      else if qf_name field \<in> set detection_fields then
        (if \<not> qe_catalogs e then fail NoCatalog
         else if \<not> qe_detections e then fail NestedDetection
         else case detection_matcher e val of Inl err \<Rightarrow> fail err | Inr m \<Rightarrow> ret m)
      else if quoted then ret (plain_matcher e field val)
      else unquoted_matcher e field val)"

definition field_term :: "query_field \<Rightarrow> 'f query_matcher \<Rightarrow> 'f query_expr" where
  "field_term field m = ETerm \<lparr>te_field = Some field, te_matcher = m\<rparr>"

definition free_term :: "'f query_matcher \<Rightarrow> 'f query_expr" where
  "free_term m = ETerm \<lparr>te_field = None, te_matcher = m\<rparr>"

section \<open>Lists of values\<close>

definition simple_value :: "rstr \<times> bool \<Rightarrow> bool" where
  "simple_value v \<longleftrightarrow> snd v \<or> \<not> (has_wildcard (fst v) \<or> str_contains (lit ''..'') (fst v)
     \<or> (47 \<in> set (fst v) \<and> net_parse (fst v) \<noteq> None) \<or> fst v = lit ''*'')"

text \<open>The networks of a list and the terms of its other values.\<close>

fun list_matchers :: "'f query_env \<Rightarrow> query_field \<Rightarrow> (rstr \<times> bool) list \<Rightarrow> (ip_net list \<times> 'f query_expr list) pm" where
  "list_matchers e field [] = ret ([], [])"
| "list_matchers e field (v # vs) =
     and_then check (\<lambda>_.
     and_then (smart e field (fst v) (snd v)) (\<lambda>m.
     and_then (list_matchers e field vs) (\<lambda>(nets, rest).
       ret (case m of MCidr found \<Rightarrow> (found @ nets, rest) | _ \<Rightarrow> (nets, field_term field m # rest)))))"

definition list_expr :: "'f query_env \<Rightarrow> query_field \<Rightarrow> (rstr \<times> bool) list \<Rightarrow> 'f query_expr pm" where
  "list_expr e field items =
     (if \<not> qf_text field \<and> qf_name field \<noteq> lit ''level'' \<and> list_all simple_value items
      then ret (field_term field (MSet (remdups (map (\<lambda>v. qw_lower (qe_world e) (fst v)) items))))
      else and_then (list_matchers e field items) (\<lambda>(nets, rest).
             let all = rest @ (if nets \<noteq> [] then [field_term field (MCidr nets)] else [])
             in ret (case all of [x] \<Rightarrow> x | _ \<Rightarrow> EOr all)))"

text \<open>The values between the parentheses of \<open>campo:(a OR b)\<close>.\<close>

fun list_values :: "'f query_env \<Rightarrow> nat \<Rightarrow> (rstr \<times> bool) list \<Rightarrow> (rstr \<times> bool) list pm" where
  "list_values e 0 items = fail OutOfFuel"
| "list_values e (Suc n) items =
     and_then (skip_ws e) (\<lambda>_ s.
       case peek_char e s of
         None \<Rightarrow> fail_at OpenList s
       | Some c \<Rightarrow>
           if c = 41 then Inr (items, s\<lparr>ps_pos := ps_pos s + 1\<rparr>)
           else and_then (take_keyword e or_words) (\<lambda>k s.
                  if k \<or> peek_char e s = Some 44
                  then list_values e n items
                         (if peek_char e s = Some 44 then s\<lparr>ps_pos := ps_pos s + 1\<rparr> else s)
                  else and_then charge_node (\<lambda>_.
                       and_then (read_value_token e) (\<lambda>v. list_values e n (items @ [v]))) s) s)"

section \<open>A term\<close>

definition op_cmp :: "query_op \<Rightarrow> cmp" where
  "op_cmp op = (case op of OpGt \<Rightarrow> Gt | OpGte \<Rightarrow> Gte | OpLt \<Rightarrow> Lt | _ \<Rightarrow> Lte)"

definition compare_matcher :: "'f query_env \<Rightarrow> query_field \<Rightarrow> query_op \<Rightarrow> rstr \<Rightarrow> 'f query_matcher pm" where
  "compare_matcher e field op val s =
     (case instant_for (qe_world e) (qf_name field) val of
        Some ms \<Rightarrow> Inr (MTimeCmp (op_cmp op) ms, s)
      | None \<Rightarrow>
          (case number_for (qe_world e) (qf_name field) val of
             Some n \<Rightarrow> Inr (MCmp (op_cmp op) n, s)
           | None \<Rightarrow> fail_at (BadNumber val) s))"

definition single_value :: "'f query_env \<Rightarrow> query_field \<Rightarrow> query_op \<Rightarrow> rstr \<Rightarrow> bool \<Rightarrow> 'f query_expr pm" where
  "single_value e field op val quoted =
     (case op of
        OpEq \<Rightarrow> ret (field_term field (MExact val))
      | OpNe \<Rightarrow> and_then charge_node (\<lambda>_.
                 and_then (smart e field val True) (\<lambda>m. ret (ENot (field_term field m))))
      | OpColon \<Rightarrow> and_then (smart e field val quoted) (\<lambda>m. ret (field_term field m))
      | _ \<Rightarrow> and_then (compare_matcher e field op val) (\<lambda>m. ret (field_term field m)))"

definition parse_value :: "'f query_env \<Rightarrow> query_field \<Rightarrow> query_op \<Rightarrow> 'f query_expr pm" where
  "parse_value e field op s =
     (let c = peek_char e s
      in if closes {41} c then fail_at (NeedValue (qf_name field)) s
         else if c = Some 40 \<and> op = OpColon then
           and_then (set_pos (ps_pos s + 1)) (\<lambda>_.
           and_then (list_values e (length (qe_chars e) + 1) []) (\<lambda>items.
             if items = [] then fail_at EmptyList else list_expr e field items)) s
         else if op = OpColon \<and> c = Some 47 \<and> regex_literal_ahead e (ps_pos s) then
           and_then (read_regex e) (\<lambda>re. ret (field_term field (MRegex re))) s
         else and_then (read_value_token e) (\<lambda>(val, quoted). single_value e field op val quoted) s)"

definition bare_term :: "'f query_env \<Rightarrow> 'f query_expr pm" where
  "bare_term e =
     and_then (read_bare e) (\<lambda>word.
       if word = [] then fail_at EmptyTerm
       else if word = lit ''*'' then ret EAll
       else if has_wildcard word then and_then (wildcard_regex e word False) (\<lambda>re. ret (free_term (MWildcard re)))
       else ret (free_term (MContains (qw_lower (qe_world e) word))))"

definition parse_term :: "'f query_env \<Rightarrow> 'f query_expr pm" where
  "parse_term e =
     and_then charge_node (\<lambda>_ s.
       case field_ahead e s of
         Some (name, stop) \<Rightarrow>
           and_then (set_pos stop) (\<lambda>_.
           and_then (read_op e) (\<lambda>op. parse_value e (resolve_field (qw_lower (qe_world e)) name) op)) s
       | None \<Rightarrow>
           if peek_char e s = Some 34
           then and_then (read_quoted e) (\<lambda>t. ret (free_term (MContains (qw_lower (qe_world e) t)))) s
           else if peek_char e s = Some 47 \<and> regex_literal_ahead e (ps_pos s)
           then and_then (read_regex e) (\<lambda>re. ret (free_term (MRegex re))) s
           else bare_term e s)"

section \<open>Expressions\<close>

text \<open>
  The methods below take the program for what is inside parentheses, \<open>inner\<close>; \<open>parse_or\<close> ties the knot,
  its fuel bounding the nesting. The loops over keywords carry fuel too.
\<close>

definition parse_primary :: "'f query_env \<Rightarrow> 'f query_expr pm \<Rightarrow> 'f query_expr pm" where
  "parse_primary e inner =
     and_then (skip_ws e) (\<lambda>_ s.
       case peek_char e s of
         None \<Rightarrow> fail_at Incomplete s
       | Some c \<Rightarrow>
           if c = 40 then
             and_then (set_pos (ps_pos s + 1)) (\<lambda>_.
             and_then inner (\<lambda>x.
             and_then (skip_ws e) (\<lambda>_ s.
               if peek_char e s \<noteq> Some 41 then fail_at OpenParen s
               else Inr (x, s\<lparr>ps_pos := ps_pos s + 1\<rparr>)))) s
           else if c = 41 then fail_at StrayParen s
           else parse_term e s)"

text \<open>Whether a minus or exclamation mark stands before a term.\<close>

definition prefix_ahead :: "'f query_env \<Rightarrow> pstate \<Rightarrow> bool" where
  "prefix_ahead e s \<longleftrightarrow> peek_char e s \<in> {Some 45, Some 33} \<and>
     (case char_at (qe_chars e) (ps_pos s + 1) of None \<Rightarrow> False | Some n \<Rightarrow> \<not> is_whitespace n \<and> n \<noteq> 61)"

text \<open>The number of negations before a term; each is charged and counts towards the depth.\<close>

fun read_negations :: "'f query_env \<Rightarrow> nat \<Rightarrow> nat \<Rightarrow> nat pm" where
  "read_negations e 0 k = fail OutOfFuel"
| "read_negations e (Suc n) k =
     and_then (skip_ws e) (\<lambda>_.
     and_then (\<lambda>s. if prefix_ahead e s then Inr (True, s\<lparr>ps_pos := ps_pos s + 1\<rparr>)
                   else take_keyword e not_words s) (\<lambda>found s.
       if \<not> found then Inr (k, s)
       else if max_query_depth < ps_depth s + (k + 1) then fail_at TooDeep s
       else and_then charge_node (\<lambda>_. read_negations e n (k + 1)) s))"

definition parse_unary :: "'f query_env \<Rightarrow> 'f query_expr pm \<Rightarrow> 'f query_expr pm" where
  "parse_unary e inner =
     and_then (read_negations e (max_query_depth + 1) 0) (\<lambda>k s.
     and_then (parse_primary e inner) (\<lambda>x s.
       Inr ((ENot ^^ k) x, s\<lparr>ps_depth := ps_depth s - k\<rparr>)) (s\<lparr>ps_depth := ps_depth s + k\<rparr>))"

text \<open>The node of a conjunction or disjunction is charged when its second item is reached.\<close>

fun and_items :: "'f query_env \<Rightarrow> 'f query_expr pm \<Rightarrow> nat \<Rightarrow> 'f query_expr list \<Rightarrow> 'f query_expr list pm" where
  "and_items e inner 0 items = fail OutOfFuel"
| "and_items e inner (Suc n) items =
     and_then (skip_ws e) (\<lambda>_ s.
       if peek_char e s \<in> {None, Some 41} \<or> peek_word e s \<in> set or_words then Inr (items, s)
       else and_then (take_keyword e and_words) (\<lambda>_.
            and_then (skip_ws e) (\<lambda>_.
            and_then (if length items = 1 then charge_node else ret ()) (\<lambda>_.
            and_then (parse_unary e inner) (\<lambda>x. and_items e inner n (items @ [x]))))) s)"

definition parse_and :: "'f query_env \<Rightarrow> 'f query_expr pm \<Rightarrow> 'f query_expr pm" where
  "parse_and e inner =
     and_then (parse_unary e inner) (\<lambda>x.
     and_then (and_items e inner (length (qe_chars e) + 1) [x]) (\<lambda>items.
       ret (case items of [y] \<Rightarrow> y | _ \<Rightarrow> EAnd items)))"

fun or_items :: "'f query_env \<Rightarrow> 'f query_expr pm \<Rightarrow> nat \<Rightarrow> 'f query_expr list \<Rightarrow> 'f query_expr list pm" where
  "or_items e inner 0 items = fail OutOfFuel"
| "or_items e inner (Suc n) items =
     and_then (skip_ws e) (\<lambda>_.
     and_then (take_keyword e or_words) (\<lambda>found.
       if \<not> found then ret items
       else and_then (if length items = 1 then charge_node else ret ()) (\<lambda>_.
            and_then (skip_ws e) (\<lambda>_.
            and_then (parse_and e inner) (\<lambda>x. or_items e inner n (items @ [x]))))))"

fun parse_or :: "'f query_env \<Rightarrow> nat \<Rightarrow> 'f query_expr pm" where
  "parse_or e 0 = fail OutOfFuel"
| "parse_or e (Suc n) =
     and_then (\<lambda>s. Inr ((), s\<lparr>ps_depth := ps_depth s + 1\<rparr>)) (\<lambda>_ s.
       if max_query_depth < ps_depth s then fail_at TooDeep s
       else and_then (parse_and e (parse_or e n)) (\<lambda>x.
            and_then (or_items e (parse_or e n) (length (qe_chars e) + 1) [x]) (\<lambda>items s.
              Inr (case items of [y] \<Rightarrow> y | _ \<Rightarrow> EOr items, s\<lparr>ps_depth := ps_depth s - 1\<rparr>))) s)"

section \<open>Compiling\<close>

text \<open>Text that the quick search treats as a phrase.\<close>

definition plain_words :: "rstr list" where
  "plain_words = [lit ''AND'', lit ''OR'', lit ''NOT'', lit ''E'', lit ''OU'', [78, 195, 79], lit ''NAO'',
     lit ''&&'', lit ''||'']"

definition is_plain :: "rstr \<Rightarrow> bool" where
  "is_plain t \<longleftrightarrow> \<not> list_ex (\<lambda>c. c \<in> {58, 61, 60, 62, 34, 40, 41}) t
     \<and> \<not> list_ex (\<lambda>word. word \<in> set plain_words \<or> (1 < utf8_len word \<and> hd word \<in> {45, 33})) (split_whitespace t)"

definition max_query_bytes :: nat where "max_query_bytes = 1000000"

definition compile_parsed :: "'f query_env \<Rightarrow> 'f query_expr pm" where
  "compile_parsed e =
     and_then (parse_or e (max_query_depth + 1)) (\<lambda>x.
     and_then (skip_ws e) (\<lambda>_ s.
       case peek_char e s of
         Some c \<Rightarrow> fail_at (if c = 41 then StrayParen else Unexpected) s
       | None \<Rightarrow> and_then check (\<lambda>_. ret (simplify x)) s))"

definition compile_policy ::
  "'f query_world \<Rightarrow> bool \<Rightarrow> bool \<Rightarrow> nat option \<Rightarrow> rstr \<Rightarrow> query_error + 'f query_expr" where
  "compile_policy w detections catalogs checks t =
     (let trimmed = trim t;
          prog = and_then check (\<lambda>_.
            if trimmed = [] then ret EAll
            else if max_query_bytes < utf8_len trimmed then fail TooLong
            else if is_plain trimmed
            then and_then check (\<lambda>_. ret (free_term (MContains (qw_lower w trimmed))))
            else compile_parsed \<lparr>qe_world = w, qe_chars = trimmed, qe_catalogs = catalogs, qe_detections = detections\<rparr>)
      in bind_res (prog \<lparr>ps_pos = 0, ps_depth = 0, ps_nodes = 0, ps_checks = checks\<rparr>) (\<lambda>(x, _). Inr x))"

text \<open>\<open>compile\<close>, \<open>compile_rule\<close> and \<open>compile_without_catalogs\<close>.\<close>

definition compile_query :: "'f query_world \<Rightarrow> nat option \<Rightarrow> rstr \<Rightarrow> query_error + 'f query_expr" where
  "compile_query w = compile_policy w True True"

definition compile_rule :: "'f query_world \<Rightarrow> nat option \<Rightarrow> rstr \<Rightarrow> query_error + 'f query_expr" where
  "compile_rule w = compile_policy w False True"

definition compile_without_catalogs :: "'f query_world \<Rightarrow> nat option \<Rightarrow> rstr \<Rightarrow> query_error + 'f query_expr" where
  "compile_without_catalogs w = compile_policy w False False"

text \<open>
  \<open>historical_ast_credit\<close>: the bytes credited before a preserved query is compiled. The fold keeps the
  number of characters, the current and the longest run of field characters.
\<close>

definition credit_step ::
  "'f query_world \<Rightarrow> nat \<Rightarrow> (nat \<times> nat \<times> nat) pm \<Rightarrow> (nat \<times> nat \<times> nat) pm" where
  "credit_step w c m =
     and_then m (\<lambda>(chars, word, longest).
     and_then (if chars mod 4096 = 0 then check else ret ()) (\<lambda>_.
       let word = (if is_field_char w c then word + len_utf8 c else 0)
       in ret (chars + 1, word, max longest word)))"

definition credit_nodes :: "rstr \<Rightarrow> nat \<Rightarrow> nat" where
  "credit_nodes t chars = (if is_plain (trim t) then 1 else min (sat_add (sat_mul chars 2) 1) max_query_nodes)"

definition historical_ast_credit :: "'f query_world \<Rightarrow> rstr \<Rightarrow> nat pm" where
  "historical_ast_credit w t =
     (if max_query_bytes < utf8_len t then fail TooLong
      else and_then (fold (credit_step w) t (ret (0, 0, 0))) (\<lambda>(chars, word, longest).
             lift_opt HistoryLimit
               (case checked_mul (utf8_len t) 8 of
                  None \<Rightarrow> None
                | Some bytes \<Rightarrow>
                    (case checked_mul (credit_nodes t chars) (sat_add 256 (max longest 32)) of
                       None \<Rightarrow> None
                     | Some nodes \<Rightarrow> checked_add bytes nodes))))"

end
