(* ===== verification/Query_Laws.thy ===== *)
theory Query_Laws
  imports Query_Parser
begin

text \<open>
  The budgets of the parser of \<open>Query_Parser\<close>: it returns for every query, panics only at an unclosed
  bracket, and what it accepts is within the depth and node limits its recursive consumers rely on.

  The proofs are over what a run of a program yields: \<open>yields e (m s) Q\<close> holds when \<open>m\<close> from \<open>s\<close> ends in a
  result with \<open>Q\<close> or in an error the program means.
\<close>

section \<open>Weakest preconditions\<close>

definition meant :: "rstr \<Rightarrow> query_error \<Rightarrow> bool" where
  "meant cs err \<longleftrightarrow> err \<noteq> OutOfFuel \<and> (err = Panic \<longrightarrow> cs \<noteq> [] \<and> last cs = 91)"

definition yields :: "'f query_env \<Rightarrow> query_error + 'a \<times> pstate \<Rightarrow> ('a \<Rightarrow> pstate \<Rightarrow> bool) \<Rightarrow> bool" where
  "yields e r Q = (case r of Inl err \<Rightarrow> meant (qe_chars e) err | Inr (x, s') \<Rightarrow> Q x s')"

named_theorems yield_simps \<open>what the primitives yield\<close>

lemma yields_primitives [yield_simps]:
  "yields e (Inr (x, s)) Q = Q x s"
  "yields e (Inl err) Q = meant (qe_chars e) err"
  "yields e (ret x s) Q = Q x s"
  "yields e (fail err s) Q = meant (qe_chars e) err"
  "yields e (and_then m f s) Q = yields e (m s) (\<lambda>x s'. yields e (f x s') Q)"
  by (auto simp: yields_def ret_def fail_def and_then_def split: sum.splits)

lemma yields_mono: "yields e r P \<Longrightarrow> (\<And>x s'. P x s' \<Longrightarrow> Q x s') \<Longrightarrow> yields e r Q"
  by (auto simp: yields_def split: sum.splits)

lemma meant_simps [simp]:
  "meant cs (QueryAt m i)" "meant cs Cancelled" "meant cs TooLong" "meant cs NoCatalog" "meant cs NestedDetection"
  "meant cs (NoDetection v)" "meant cs ChainNotReady" "meant cs (CatalogError v)" "meant cs (BadInterval v)"
  "meant cs (BadRegexText v)" "meant cs (BadWildcard v)" "\<not> meant cs OutOfFuel"
  by (simp_all add: meant_def)

section \<open>Positions and charges\<close>

text \<open>
  Readers move at least \<open>k\<close> characters forward and charge nothing.
\<close>

definition spent :: "'f query_env \<Rightarrow> nat \<Rightarrow> pstate \<Rightarrow> pstate \<Rightarrow> bool" where
  "spent e k s s' \<longleftrightarrow> ps_depth s' = ps_depth s \<and> ps_nodes s' = ps_nodes s
     \<and> ps_pos s + k \<le> ps_pos s' \<and> ps_pos s' \<le> length (qe_chars e)"

definition in_text :: "'f query_env \<Rightarrow> pstate \<Rightarrow> bool" where
  "in_text e s \<longleftrightarrow> ps_pos s \<le> length (qe_chars e) \<and> ps_nodes s \<le> max_query_nodes"

lemma spent_in_text: "in_text e s \<Longrightarrow> spent e k s s' \<Longrightarrow> in_text e s'"
  by (auto simp: in_text_def spent_def)

lemma skip_while_bound [simp]: "i \<le> length cs \<Longrightarrow> skip_while P cs i \<le> length cs"
proof -
  assume "i \<le> length cs"
  then have "length (takeWhile P (drop i cs)) \<le> length cs - i" by (metis length_drop length_takeWhile_le)
  then show ?thesis using \<open>i \<le> length cs\<close> by (simp add: skip_while_def)
qed

lemma skip_while_ge [simp]: "i \<le> skip_while P cs i"
  by (simp add: skip_while_def)

lemma char_at_Some [simp]: "char_at cs i = Some c \<longleftrightarrow> i < length cs \<and> c = cs ! i"
  by (auto simp: char_at_def)

lemma char_at_None [simp]: "char_at cs i = None \<longleftrightarrow> length cs \<le> i"
  by (auto simp: char_at_def)

lemma peek_char_Some [simp]: "peek_char e s = Some c \<longleftrightarrow> ps_pos s < length (qe_chars e) \<and> c = qe_chars e ! ps_pos s"
  by (simp add: peek_char_def)

lemma peek_char_None [simp]: "peek_char e s = None \<longleftrightarrow> length (qe_chars e) \<le> ps_pos s"
  by (simp add: peek_char_def)

lemma yields_check:
  "in_text e s \<Longrightarrow> (\<And>s'. spent e 0 s s' \<Longrightarrow> ps_pos s' = ps_pos s \<Longrightarrow> Q () s') \<Longrightarrow> yields e (check s) Q"
  by (auto simp: yields_def check_def spent_def in_text_def split: option.splits nat.splits)

lemma yields_set_pos [yield_simps]: "yields e (set_pos i s) Q = Q () (s\<lparr>ps_pos := i\<rparr>)"
  by (simp add: yields_def set_pos_def)

lemma yields_skip_ws:
  "in_text e s \<Longrightarrow> (\<And>s'. spent e 0 s s' \<Longrightarrow> Q () s') \<Longrightarrow> yields e (skip_ws e s) Q"
  by (simp add: yields_def skip_ws_def set_pos_def spent_def in_text_def)

lemma yields_fail_at [yield_simps]: "yields e (fail_at m s) Q"
  by (simp add: yields_def fail_at_def)

lemma yields_take_keyword:
  assumes "in_text e s" "[] \<notin> set ks" "\<And>s'. spent e 1 s s' \<Longrightarrow> Q True s'" "Q False s"
  shows "yields e (take_keyword e ks s) Q"
proof -
  let ?w = "peek_word e s"
  have "ps_pos s + length ?w \<le> length (qe_chars e)"
    using assms(1) length_takeWhile_le [of _ "drop (ps_pos s) (qe_chars e)"] unfolding peek_word_def in_text_def
    by (metis add.commute le_diff_conv2 length_drop)
  moreover have "?w \<in> set ks \<Longrightarrow> 1 \<le> length ?w"
    using assms(2) by (cases ?w) auto
  ultimately show ?thesis using assms(3,4)
    by (auto simp: yields_def take_keyword_def Let_def spent_def)
qed

lemma yields_charge_node:
  assumes "in_text e s"
    and "\<And>s'. ps_depth s' = ps_depth s \<Longrightarrow> ps_pos s' = ps_pos s \<Longrightarrow> ps_nodes s' = ps_nodes s + 1 \<Longrightarrow>
      in_text e s' \<Longrightarrow> Q () s'"
  shows "yields e (charge_node s) Q"
  unfolding charge_node_def yield_simps
  by (rule yields_check [OF assms(1)]) (use assms in \<open>auto simp: yield_simps spent_def in_text_def\<close>)

section \<open>Readers\<close>

lemma spent_trans: "spent e j s s' \<Longrightarrow> spent e k s' s'' \<Longrightarrow> spent e (j + k) s s''"
  by (auto simp: spent_def)

lemma spent_weaken: "spent e k s s' \<Longrightarrow> j \<le> k \<Longrightarrow> spent e j s s'"
  by (auto simp: spent_def)

lemma quoted_text_rest: "quoted_text out cs = Some (t, rest) \<Longrightarrow> length rest < length cs"
  by (induction out cs rule: quoted_text.induct) (fastforce split: if_splits list.splits)+

lemma yields_read_quoted:
  assumes "in_text e s" "ps_pos s < length (qe_chars e)" "\<And>t s'. spent e 1 s s' \<Longrightarrow> Q t s'"
  shows "yields e (read_quoted e s) Q"
  using assms(1,2)
  by (auto simp: read_quoted_def spent_def in_text_def yield_simps dest!: quoted_text_rest intro!: assms(3)
      split: option.splits)

lemma yields_compile_pattern:
  assumes s: "in_text e s" and err: "\<And>m. meant (qe_chars e) (err m)" and Q: "\<And>re s'. spent e 0 s s' \<Longrightarrow> Q re s'"
  shows "yields e (compile_pattern e profile err pattern s) Q"
  unfolding compile_pattern_def yield_simps
proof (rule yields_check [OF s])
  fix s1 assume 1: "spent e 0 s s1"
  show "yields e ((case qw_regex (qe_world e) profile pattern of Inl m \<Rightarrow> fail (err m) | Inr re \<Rightarrow> ret re) s1)
    (\<lambda>re s'. yields e (check s') (\<lambda>_. Q re))"
  proof (cases "qw_regex (qe_world e) profile pattern")
    case (Inl m)
    then show ?thesis by (simp add: yield_simps err)
  next
    case (Inr re)
    have "yields e (check s1) (\<lambda>_. Q re)"
      by (rule yields_check [OF spent_in_text [OF s 1]]) (use 1 in \<open>auto intro!: Q simp: spent_def\<close>)
    then show ?thesis using Inr by (simp add: yield_simps)
  qed
qed

lemma close_slash_bound: "close_slash cs start i = Some j \<Longrightarrow> i \<le> j \<and> j < length cs"
proof (induction cs start i rule: close_slash.induct)
  case (1 cs start i)
  from "1.prems" show ?case
    by (subst (asm) close_slash.simps) (auto split: if_splits dest: "1.IH")
qed

lemma yields_read_regex:
  assumes "in_text e s" "\<And>re s'. spent e 2 s s' \<Longrightarrow> Q re s'"
  shows "yields e (read_regex e s) Q"
proof (cases "close_slash (qe_chars e) (ps_pos s) (ps_pos s + 1)")
  case None
  then show ?thesis by (simp add: read_regex_def yield_simps)
next
  case (Some j)
  let ?s = "s\<lparr>ps_pos := j + 1\<rparr>"
  have j: "ps_pos s + 1 \<le> j" "j < length (qe_chars e)" using close_slash_bound [OF Some] by auto
  have "yields e (compile_pattern e QueryLiteral BadRegexText pattern ?s) Q" for pattern
    by (rule yields_compile_pattern) (use assms j in \<open>auto simp: in_text_def spent_def\<close>)
  then show ?thesis using Some by (simp add: read_regex_def Let_def)
qed

lemma yields_wildcard:
  assumes s: "in_text e s" and Q: "\<And>re s'. spent e 0 s s' \<Longrightarrow> Q re s'"
  shows "yields e (wildcard_regex e pattern anchored s) Q"
  unfolding wildcard_regex_def yield_simps
proof (rule yields_check [OF s])
  fix s1 assume 1: "spent e 0 s s1"
  show "yields e (compile_pattern e Ordinary BadWildcard (wildcard_pattern (qe_world e) anchored pattern) s1) Q"
    by (rule yields_compile_pattern [OF spent_in_text [OF s 1]])
      (use 1 in \<open>auto intro!: Q simp: spent_def\<close>)
qed

lemma length_text_between: "j \<le> length cs \<Longrightarrow> length (text_between cs i j) = j - i"
  by (simp add: text_between_def)

text \<open>A bare word that is not empty moves forward.\<close>

lemma yields_read_bare:
  assumes "in_text e s" "\<And>s'. spent e 0 s s' \<Longrightarrow> Q [] s'" "\<And>w s'. w \<noteq> [] \<Longrightarrow> spent e 1 s s' \<Longrightarrow> Q w s'"
  shows "yields e (read_bare e s) Q"
proof -
  let ?cs = "qe_chars e" and ?i = "ps_pos s"
  define first where "first = (if char_at ?cs ?i = Some 40 then ?i + 1 else ?i)"
  define stop where "stop = skip_while (\<lambda>c. \<not> is_space_or {40, 41} c) ?cs first"
  have first: "?i \<le> first" "first \<le> length ?cs" using assms(1) by (auto simp: first_def in_text_def)
  then have stop: "?i \<le> stop" "stop \<le> length ?cs" unfolding stop_def by (meson skip_while_ge le_trans, simp)
  have s': "spent e 0 s (s\<lparr>ps_pos := stop\<rparr>)" using stop by (simp add: spent_def)
  have run: "read_bare e s = Inr (text_between ?cs ?i stop, s\<lparr>ps_pos := stop\<rparr>)"
    by (simp add: read_bare_def Let_def first_def stop_def)
  show ?thesis
  proof (cases "text_between ?cs ?i stop = []")
    case True
    then show ?thesis using run assms(2) [OF s'] by (simp add: yield_simps)
  next
    case False
    then have "?i < stop" using stop by (cases "stop = ?i") (auto simp: text_between_def)
    then have "spent e 1 s (s\<lparr>ps_pos := stop\<rparr>)" using stop by (simp add: spent_def)
    then show ?thesis using run assms(3) False by (simp add: yield_simps)
  qed
qed

lemma yields_read_op:
  assumes "in_text e s" "ps_pos s < length (qe_chars e)" "\<And>op s'. spent e 1 s s' \<Longrightarrow> Q op s'"
  shows "yields e (read_op e s) Q"
proof -
  let ?two = "text_between (qe_chars e) (ps_pos s) (ps_pos s + 2)"
  have pick: "yields e (if ?two = w then Inr (op, s\<lparr>ps_pos := ps_pos s + 2\<rparr>) else r) Q"
    if "length w = 2" "yields e r Q" for w op r
  proof (cases "?two = w")
    case True
    then have "ps_pos s + 2 \<le> length (qe_chars e)" using that(1) by (auto simp: text_between_def min_def split: if_splits)
    then have "Q op (s\<lparr>ps_pos := ps_pos s + 2\<rparr>)" by (intro assms(3)) (simp add: spent_def)
    then show ?thesis using True by (simp add: yields_primitives(1))
  qed (simp add: that(2))
  have "spent e 1 s (s\<lparr>ps_pos := ps_pos s + 1\<rparr>)" using assms(2) by (simp add: spent_def)
  then have one: "yields e (Inr (op, s\<lparr>ps_pos := ps_pos s + 1\<rparr>)) Q" for op
    unfolding yields_primitives(1) by (rule assms(3))
  show ?thesis unfolding read_op_def Let_def
    by (intro pick one) (simp_all add: lit_def)
qed

lemma skip_while_step: "i < length cs \<Longrightarrow> P (cs ! i) \<Longrightarrow> i + 1 \<le> skip_while P cs i"
  by (simp add: skip_while_def Cons_nth_drop_Suc [symmetric])

lemma yields_read_bracket:
  assumes "in_text e s" "peek_char e s = Some 91" "\<And>v s'. spent e 1 s s' \<Longrightarrow> Q v s'"
  shows "yields e (read_bracket e s) Q"
proof -
  let ?cs = "qe_chars e" and ?i = "ps_pos s"
  define close where "close = skip_while (\<lambda>c. c \<noteq> 93) ?cs ?i"
  define stop where "stop = (if close < length ?cs then close + 1 else close)"
  have i: "?i < length ?cs" "?cs ! ?i = 91" using assms(2) by auto
  have close: "close \<le> length ?cs" using i by (simp add: close_def)
  have "?i + 1 \<le> close"
    unfolding close_def by (rule skip_while_step) (use i in auto)
  note close = this close
  have stop: "?i + 1 \<le> stop" "stop \<le> length ?cs" using close by (auto simp: stop_def)
  have panic: "stop - 1 < ?i + 1 \<Longrightarrow> meant ?cs Panic"
  proof -
    assume "stop - 1 < ?i + 1"
    then have "length ?cs = ?i + 1" using close i by (auto simp: stop_def split: if_splits)
    then have "last ?cs = 91" using i by (metis add_diff_cancel_right' last_conv_nth list.size(3) not_less_zero)
    then show ?thesis using i by (auto simp: meant_def)
  qed
  have "spent e 1 s (s\<lparr>ps_pos := stop\<rparr>)" using stop by (simp add: spent_def)
  then show ?thesis unfolding read_bracket_def Let_def close_def [symmetric] stop_def [symmetric]
    using panic assms(3) by (auto simp: yield_simps)
qed

lemma yields_read_value_token:
  assumes s: "in_text e s" and Q: "\<And>v s'. spent e 1 s s' \<Longrightarrow> Q v s'"
  shows "yields e (read_value_token e s) Q"
proof -
  let ?cs = "qe_chars e"
  define stop where "stop = skip_while (\<lambda>c. \<not> is_space_or {41, 44} c) ?cs (ps_pos s)"
  have stop: "ps_pos s \<le> stop" "stop \<le> length ?cs" using s by (simp_all add: stop_def in_text_def)
  have move: "text_between ?cs (ps_pos s) stop \<noteq> [] \<Longrightarrow> spent e 1 s (s\<lparr>ps_pos := stop\<rparr>)"
    using stop by (cases "stop = ps_pos s") (auto simp: text_between_def spent_def)
  have quoted: "peek_char e s = Some 34 \<Longrightarrow> yields e (read_quoted e s) (\<lambda>t. Q (t, True))"
    by (rule yields_read_quoted [OF s]) (auto intro: Q)
  have bracket: "peek_char e s = Some 91 \<Longrightarrow> yields e (read_bracket e s) Q"
    by (rule yields_read_bracket [OF s _ Q])
  show ?thesis unfolding read_value_token_def Let_def stop_def [symmetric]
    using quoted bracket move Q by (simp add: yield_simps del: peek_char_Some)
qed

section \<open>Matchers\<close>

lemma detection_matcher_meant: "detection_matcher e val = Inl err \<Longrightarrow> meant cs err"
  by (auto simp: detection_matcher_def split: sum.splits option.splits if_splits)

lemma interval_matcher_meant: "interval_matcher e name val = Inl err \<Longrightarrow> meant cs err"
  by (auto simp: interval_matcher_def Let_def split: option.splits prod.splits if_splits)

lemma yields_unquoted:
  assumes s: "in_text e s" and Q: "\<And>m s'. spent e 0 s s' \<Longrightarrow> Q m s'"
  shows "yields e (unquoted_matcher e field val s) Q"
proof -
  have here: "spent e 0 s s" using s by (simp add: spent_def in_text_def)
  have wild: "yields e (wildcard_regex e val True s) (\<lambda>re. Q (MWildcard re))"
    by (rule yields_wildcard [OF s]) (rule Q)
  show ?thesis unfolding unquoted_matcher_def
    using wild here interval_matcher_meant [of e "qf_name field" val]
    by (auto simp: yield_simps intro: Q split: option.splits sum.splits)
qed

lemma yields_smart:
  assumes s: "in_text e s" and Q: "\<And>m s'. spent e 0 s s' \<Longrightarrow> Q m s'"
  shows "yields e (smart e field val quoted s) Q"
proof -
  have here: "spent e 0 s s" using s by (simp add: spent_def in_text_def)
  note unquoted = yields_unquoted [OF s Q]
  show ?thesis unfolding smart_def
    using here unquoted detection_matcher_meant [of e val]
    by (auto simp: yield_simps intro: Q split: sum.splits)
qed

lemma yields_list_matchers:
  assumes "in_text e s"
    and "\<And>nets rest s'. spent e 0 s s' \<Longrightarrow> (nets \<noteq> [] \<longrightarrow> length rest < length vs) \<Longrightarrow> length rest \<le> length vs \<Longrightarrow>
      list_all (\<lambda>x. expr_nodes x = 1 \<and> expr_depth x = 0) rest \<Longrightarrow> Q (nets, rest) s'"
  shows "yields e (list_matchers e field vs s) Q"
  using assms
proof (induction vs arbitrary: s Q)
  case Nil
  then show ?case by (simp add: yield_simps spent_def in_text_def)
next
  case (Cons v vs)
  show ?case unfolding list_matchers.simps yield_simps
  proof (rule yields_check [OF Cons.prems(1)], rule yields_smart)
    fix s1 assume 1: "spent e 0 s s1" then show "in_text e s1" by (rule spent_in_text [OF Cons.prems(1)])
  next
    fix s1 s2 and m :: "'a query_matcher" assume 1: "spent e 0 s s1" and 2: "spent e 0 s1 s2"
    from spent_in_text [OF Cons.prems(1)] spent_trans [OF 1 2] have s2: "in_text e s2" "spent e 0 s s2" by auto
    show "yields e (list_matchers e field vs s2) (\<lambda>x s'.
        yields e ((case x of (nets, rest) \<Rightarrow> ret (case m of MCidr found \<Rightarrow> (found @ nets, rest)
          | _ \<Rightarrow> (nets, field_term field m # rest))) s') Q)"
    proof (rule Cons.IH [OF s2(1)])
      fix nets :: "ip_net list" and rest :: "'a query_expr list" and s3
      assume 3: "spent e 0 s2 s3" and n: "nets \<noteq> [] \<longrightarrow> length rest < length vs" "length rest \<le> length vs"
        and rest: "list_all (\<lambda>x. expr_nodes x = 1 \<and> expr_depth x = 0) rest"
      have s3: "spent e 0 s s3" using spent_trans [OF s2(2) 3] by simp
      have "Q (case m of MCidr found \<Rightarrow> (found @ nets, rest) | _ \<Rightarrow> (nets, field_term field m # rest)) s3"
        using s3 n rest by (cases m) (auto intro!: Cons.prems(2) simp: field_term_def)
      then show "yields e ((case (nets, rest) of (nets, rest) \<Rightarrow> ret (case m of MCidr found \<Rightarrow> (found @ nets, rest)
          | _ \<Rightarrow> (nets, field_term field m # rest))) s3) Q"
        by (simp add: yield_simps)
    qed
  qed
qed

lemma shallow_nodes: "list_all (\<lambda>x. expr_nodes x = 1 \<and> expr_depth x = 0) xs \<Longrightarrow>
   sum_list (map expr_nodes xs) = length xs \<and> fold max (map expr_depth xs) 0 = 0"
  by (induction xs) auto

lemma yields_list_expr:
  assumes s: "in_text e s" and Q: "\<And>x s'. spent e 0 s s' \<Longrightarrow> expr_nodes x \<le> length vs + 1 \<Longrightarrow> expr_depth x \<le> 1 \<Longrightarrow> Q x s'"
  shows "yields e (list_expr e field vs s) Q"
proof -
  have here: "spent e 0 s s" using s by (simp add: spent_def in_text_def)
  have "yields e (list_matchers e field vs s) (\<lambda>x s'. yields e ((case x of (nets, rest) \<Rightarrow>
      let all = rest @ (if nets \<noteq> [] then [field_term field (MCidr nets)] else [])
      in ret (case all of [x] \<Rightarrow> x | _ \<Rightarrow> EOr all)) s') Q)"
  proof (rule yields_list_matchers [OF s])
    fix nets :: "ip_net list" and rest :: "'a query_expr list" and s'
    assume s': "spent e 0 s s'" and n: "nets \<noteq> [] \<longrightarrow> length rest < length vs" "length rest \<le> length vs"
      and rest: "list_all (\<lambda>x. expr_nodes x = 1 \<and> expr_depth x = 0) rest"
    define all where "all = rest @ (if nets \<noteq> [] then [field_term field (MCidr nets)] else [])"
    have all: "length all \<le> length vs" "list_all (\<lambda>x. expr_nodes x = 1 \<and> expr_depth x = 0) all"
      using n rest by (auto simp: all_def field_term_def)
    then have "expr_nodes (case all of [x] \<Rightarrow> x | _ \<Rightarrow> EOr all) \<le> length vs + 1"
      and "expr_depth (case all of [x] \<Rightarrow> x | _ \<Rightarrow> EOr all) \<le> 1"
      using shallow_nodes [OF all(2)] by (auto split: list.splits)
    then have "Q (case all of [x] \<Rightarrow> x | _ \<Rightarrow> EOr all) s'" by (rule Q [OF s'])
    then show "yields e ((case (nets, rest) of (nets, rest) \<Rightarrow>
        let all = rest @ (if nets \<noteq> [] then [field_term field (MCidr nets)] else [])
        in ret (case all of [x] \<Rightarrow> x | _ \<Rightarrow> EOr all)) s') Q"
      unfolding Let_def prod.case all_def [symmetric] yields_primitives(3) .
  qed
  then show ?thesis unfolding list_expr_def
    using Q [OF here] by (simp add: yield_simps field_term_def)
qed

section \<open>Terms\<close>

text \<open>
  A program that built_expr \<open>x\<close>: it moved forward, the nodes of \<open>x\<close> are among those it charged, it charged at
  most two for each character, less \<open>spare\<close>, and the nesting of \<open>x\<close> is at most \<open>d\<close>. \<open>paid\<close> nodes of
  \<open>x\<close> were charged before it started.
\<close>

definition built_expr :: "'f query_env \<Rightarrow> nat \<Rightarrow> nat \<Rightarrow> nat \<Rightarrow> pstate \<Rightarrow> 'f query_expr \<Rightarrow> pstate \<Rightarrow> bool" where
  "built_expr e paid spare d s x s' \<longleftrightarrow> ps_depth s' = ps_depth s \<and> in_text e s' \<and> ps_nodes s \<le> ps_nodes s'
     \<and> ps_pos s < ps_pos s' \<and> expr_nodes x + ps_nodes s \<le> ps_nodes s' + paid
     \<and> ps_nodes s' + 2 * ps_pos s + spare \<le> ps_nodes s + 2 * ps_pos s' \<and> expr_depth x \<le> d"

lemma yields_list_values:
  assumes "in_text e s" "length (qe_chars e) < ps_pos s + n"
    and "\<And>vs s'. in_text e s' \<Longrightarrow> ps_depth s' = ps_depth s \<Longrightarrow> ps_pos s < ps_pos s' \<Longrightarrow>
      length items \<le> length vs \<Longrightarrow> length vs + ps_nodes s = ps_nodes s' + length items \<Longrightarrow>
      length vs + ps_pos s < length items + ps_pos s' \<Longrightarrow> Q vs s'"
  shows "yields e (list_values e n items s) Q"
  using assms
proof (induction n arbitrary: items s Q)
  case 0
  then show ?case by (simp add: in_text_def)
next
  case (Suc n)
  show ?case unfolding list_values.simps yield_simps
  proof (rule yields_skip_ws [OF Suc.prems(1)])
    fix s1 assume 1: "spent e 0 s s1"
    have s1: "in_text e s1" by (rule spent_in_text [OF Suc.prems(1) 1])
    have again: "yields e (list_values e n items' s2) Q"
      if "in_text e s2" "ps_depth s2 = ps_depth s" "ps_pos s < ps_pos s2" "length items \<le> length items'"
        "length items' + ps_nodes s = ps_nodes s2 + length items"
        "length items' + ps_pos s \<le> length items + ps_pos s2" for items' s2
      by (rule Suc.IH) (use that Suc.prems(2) in \<open>auto intro!: Suc.prems(3)\<close>)
    have skip: "yields e (list_values e n items (if peek_char e s2 = Some 44 then s2\<lparr>ps_pos := ps_pos s2 + 1\<rparr> else s2)) Q"
      if "spent e j s1 s2" "j = 1 \<or> peek_char e s2 = Some 44" for j s2
      by (rule again) (use that 1 Suc.prems(1) in \<open>auto simp: spent_def in_text_def\<close>)
    have item: "yields e (charge_node s1) (\<lambda>_ s'. yields e (read_value_token e s')
        (\<lambda>v s'. yields e (list_values e n (items @ [v]) s') Q))"
    proof (rule yields_charge_node [OF s1], rule yields_read_value_token)
      fix s2 s3 v
      assume 2: "ps_depth s2 = ps_depth s1" "ps_pos s2 = ps_pos s1" "ps_nodes s2 = ps_nodes s1 + 1" "in_text e s2"
        and 3: "spent e 1 s2 s3"
      show "yields e (list_values e n (items @ [v]) s3) Q"
        by (rule again) (use 1 2 3 spent_in_text [OF 2(4) 3] in \<open>auto simp: spent_def\<close>)
    qed
    have close: "peek_char e s1 = Some 41 \<Longrightarrow> Q items (s1\<lparr>ps_pos := ps_pos s1 + 1\<rparr>)"
      by (rule Suc.prems(3)) (use 1 s1 in \<open>auto simp: spent_def in_text_def\<close>)
    have keyword: "yields e (take_keyword e or_words s1) (\<lambda>k s'. yields e (if k \<or> peek_char e s' = Some 44
        then list_values e n items (if peek_char e s' = Some 44 then s'\<lparr>ps_pos := ps_pos s' + 1\<rparr> else s')
        else and_then charge_node (\<lambda>_. and_then (read_value_token e) (\<lambda>v. list_values e n (items @ [v]))) s') Q)"
    proof (rule yields_take_keyword [OF s1])
      show "[] \<notin> set or_words" by (simp add: or_words_def lit_def)
    next
      fix s2 assume "spent e 1 s1 s2"
      then show "yields e (if True \<or> peek_char e s2 = Some 44
        then list_values e n items (if peek_char e s2 = Some 44 then s2\<lparr>ps_pos := ps_pos s2 + 1\<rparr> else s2)
        else and_then charge_node (\<lambda>_. and_then (read_value_token e) (\<lambda>v. list_values e n (items @ [v]))) s2) Q"
        using skip [of 1 s2] by simp
    next
      have "spent e 0 s1 s1" using s1 by (simp add: spent_def in_text_def)
      then show "yields e (if False \<or> peek_char e s1 = Some 44
        then list_values e n items (if peek_char e s1 = Some 44 then s1\<lparr>ps_pos := ps_pos s1 + 1\<rparr> else s1)
        else and_then charge_node (\<lambda>_. and_then (read_value_token e) (\<lambda>v. list_values e n (items @ [v]))) s1) Q"
        using skip [of 0 s1] item by (simp add: yield_simps)
    qed
    show "yields e (case peek_char e s1 of None \<Rightarrow> fail_at OpenList s1
        | Some c \<Rightarrow> if c = 41 then Inr (items, s1\<lparr>ps_pos := ps_pos s1 + 1\<rparr>)
          else and_then (take_keyword e or_words) (\<lambda>k s. if k \<or> peek_char e s = Some 44
            then list_values e n items (if peek_char e s = Some 44 then s\<lparr>ps_pos := ps_pos s + 1\<rparr> else s)
            else and_then charge_node (\<lambda>_. and_then (read_value_token e) (\<lambda>v. list_values e n (items @ [v]))) s) s1) Q"
      using keyword close by (auto simp: yield_simps simp del: peek_char_Some peek_char_None split: option.splits)
  qed
qed

lemma built_read:
  "in_text e s \<Longrightarrow> spent e 1 s s' \<Longrightarrow> expr_nodes x \<le> paid \<Longrightarrow> expr_depth x \<le> d \<Longrightarrow> spare \<le> 2 \<Longrightarrow> built_expr e paid spare d s x s'"
  by (auto simp: built_expr_def spent_def in_text_def)

lemma built_after_read:
  "in_text e s \<Longrightarrow> spent e k s s1 \<Longrightarrow> built_expr e paid spare d s1 x s' \<Longrightarrow> built_expr e paid (spare + 2 * k) d s x s'"
  by (auto simp: built_expr_def spent_def in_text_def)

lemma yields_compare:
  assumes "in_text e s" "\<And>m. Q m s"
  shows "yields e (compare_matcher e field op val s) Q"
  using assms(2) by (auto simp: compare_matcher_def yield_simps split: option.splits)

lemma yields_single_value:
  assumes s: "in_text e s"
    and Q: "\<And>x s'. ps_depth s' = ps_depth s \<Longrightarrow> in_text e s' \<Longrightarrow> ps_pos s \<le> ps_pos s' \<Longrightarrow> ps_nodes s \<le> ps_nodes s' \<Longrightarrow>
      expr_nodes x + ps_nodes s = ps_nodes s' + 1 \<Longrightarrow> ps_nodes s' \<le> ps_nodes s + 1 \<Longrightarrow> expr_depth x \<le> 1 \<Longrightarrow> Q x s'"
  shows "yields e (single_value e field op val quoted s) Q"
proof -
  have here: "Q (field_term field m) s" for m by (rule Q) (use s in \<open>auto simp: field_term_def\<close>)
  have smart: "yields e (smart e field val q s) (\<lambda>m. Q (field_term field m))" for q
    by (rule yields_smart [OF s], rule Q) (use s in \<open>auto simp: field_term_def spent_def in_text_def\<close>)
  have negated: "yields e (charge_node s) (\<lambda>_ s'. yields e (smart e field val True s') (\<lambda>m. Q (ENot (field_term field m))))"
  proof (rule yields_charge_node [OF s], rule yields_smart)
    fix s1 s2 m
    assume 1: "ps_depth s1 = ps_depth s" "ps_pos s1 = ps_pos s" "ps_nodes s1 = ps_nodes s + 1" "in_text e s1"
      and 2: "spent e 0 s1 s2"
    show "Q (ENot (field_term field m)) s2"
      by (rule Q) (use 1 2 spent_in_text [OF 1(4) 2] in \<open>auto simp: field_term_def spent_def\<close>)
  qed auto
  have compare: "yields e (compare_matcher e field op val s) (\<lambda>m. Q (field_term field m))" for op
    by (rule yields_compare [OF s]) (rule here)
  show ?thesis unfolding single_value_def
    by (cases op) (simp_all add: yield_simps here smart negated compare)
qed

lemma yields_parse_value:
  assumes s: "in_text e s" and Q: "\<And>x s'. built_expr e 1 0 1 s x s' \<Longrightarrow> Q x s'"
  shows "yields e (parse_value e field op s) Q"
proof -
  let ?list = "and_then (list_values e (length (qe_chars e) + 1) []) (\<lambda>items.
             if items = [] then fail_at EmptyList else list_expr e field items)"
  have listed: "yields e (?list (s\<lparr>ps_pos := ps_pos s + 1\<rparr>)) Q" if "ps_pos s < length (qe_chars e)"
    unfolding yield_simps
  proof (rule yields_list_values)
    let ?s = "s\<lparr>ps_pos := ps_pos s + 1\<rparr>"
    show "in_text e ?s" "length (qe_chars e) < ps_pos ?s + (length (qe_chars e) + 1)"
      using s that by (auto simp: in_text_def)
    fix vs :: "(rstr \<times> bool) list" and s1
    assume 1: "in_text e s1" "ps_depth s1 = ps_depth ?s" "ps_pos ?s < ps_pos s1" "length [] \<le> length vs"
      "length vs + ps_nodes ?s = ps_nodes s1 + length []" "length vs + ps_pos ?s < length [] + ps_pos s1"
    have "yields e (list_expr e field vs s1) Q"
    proof (rule yields_list_expr [OF 1(1)], rule Q)
      fix s2 and x :: "'a query_expr" assume "spent e 0 s1 s2" "expr_nodes x \<le> length vs + 1" "expr_depth x \<le> 1"
      then show "built_expr e 1 0 1 s x s2"
        using 1 s by (auto simp: built_expr_def spent_def in_text_def)
    qed
    then show "yields e ((if vs = [] then fail_at EmptyList else list_expr e field vs) s1) Q"
      by (simp add: yield_simps)
  qed
  have regex: "yields e (read_regex e s) (\<lambda>re. Q (field_term field (MRegex re)))"
    by (rule yields_read_regex [OF s], rule Q, rule built_read [OF s])
      (auto simp: field_term_def spent_def)
  have token: "yields e (read_value_token e s) (\<lambda>v s'. yields e ((case v of (val, quoted) \<Rightarrow>
      single_value e field op val quoted) s') Q)"
  proof (rule yields_read_value_token [OF s])
    fix v s1 assume 1: "spent e 1 s s1"
    have "yields e (single_value e field op (fst v) (snd v) s1) Q"
      by (rule yields_single_value [OF spent_in_text [OF s 1]], rule Q)
        (use 1 in \<open>auto simp: built_expr_def spent_def\<close>)
    then show "yields e ((case v of (val, quoted) \<Rightarrow> single_value e field op val quoted) s1) Q"
      by (simp add: case_prod_beta)
  qed
  show ?thesis unfolding parse_value_def Let_def
    using listed regex token by (auto simp: yield_simps yields_set_pos)
qed

lemma yields_bare_term:
  assumes s: "in_text e s" and Q: "\<And>x s'. built_expr e 1 2 1 s x s' \<Longrightarrow> Q x s'"
  shows "yields e (bare_term e s) Q"
  unfolding bare_term_def yield_simps
proof (rule yields_read_bare [OF s])
  fix s1
  show "yields e ((if [] = [] then fail_at EmptyTerm else if [] = lit ''*'' then ret EAll
    else if has_wildcard [] then and_then (wildcard_regex e [] False) (\<lambda>re. ret (free_term (MWildcard re)))
    else ret (free_term (MContains (qw_lower (qe_world e) [])))) s1) Q" by (simp add: yield_simps)
next
  fix word :: rstr and s1 assume word: "word \<noteq> []" and 1: "spent e 1 s s1"
  have here: "Q x s1" if "expr_nodes x = 1" "expr_depth x = 0" for x
    by (rule Q, rule built_read [OF s 1]) (use that in auto)
  have wild: "yields e (wildcard_regex e word False s1) (\<lambda>re. Q (free_term (MWildcard re)))"
    by (rule yields_wildcard [OF spent_in_text [OF s 1]], rule Q, rule built_read [OF s])
      (use 1 in \<open>auto simp: free_term_def spent_def\<close>)
  show "yields e ((if word = [] then fail_at EmptyTerm else if word = lit ''*'' then ret EAll
    else if has_wildcard word then and_then (wildcard_regex e word False) (\<lambda>re. ret (free_term (MWildcard re)))
    else ret (free_term (MContains (qw_lower (qe_world e) word)))) s1) Q"
    using word here wild by (simp add: yield_simps free_term_def)
qed

text \<open>A term moves forward, charges at least its nodes, and at most two for each character less one.\<close>

lemma yields_parse_term:
  assumes s: "in_text e s" and Q: "\<And>x s'. built_expr e 0 1 1 s x s' \<Longrightarrow> Q x s'"
  shows "yields e (parse_term e s) Q"
  unfolding parse_term_def yield_simps
proof (rule yields_charge_node [OF s])
  fix s1
  assume 1: "ps_depth s1 = ps_depth s" "ps_pos s1 = ps_pos s" "ps_nodes s1 = ps_nodes s + 1" "in_text e s1"
  have Q1: "Q x s'" if "built_expr e 1 2 1 s1 x s'" for x s'
    by (rule Q) (use that 1 in \<open>auto simp: built_expr_def\<close>)
  have field: "yields e (read_op e (s1\<lparr>ps_pos := stop\<rparr>)) (\<lambda>op s'. yields e
      (parse_value e (resolve_field (qw_lower (qe_world e)) name) op s') Q)"
    if ahead: "field_ahead e s1 = Some (name, stop)" for name stop
  proof (rule yields_read_op)
    have stop: "stop < length (qe_chars e)" "ps_pos s1 \<le> stop"
      using ahead by (auto simp: field_ahead_def Let_def split: option.splits if_splits)
    show "in_text e (s1\<lparr>ps_pos := stop\<rparr>)" "ps_pos (s1\<lparr>ps_pos := stop\<rparr>) < length (qe_chars e)"
      using stop 1(4) by (auto simp: in_text_def)
    fix op s2 assume 2: "spent e 1 (s1\<lparr>ps_pos := stop\<rparr>) s2"
    then have "spent e 1 s1 s2" using stop by (auto simp: spent_def)
    note s2 = spent_in_text [OF 1(4) this] built_after_read [OF 1(4) this]
    show "yields e (parse_value e (resolve_field (qw_lower (qe_world e)) name) op s2) Q"
    proof (rule yields_parse_value [OF s2(1)], rule Q1)
      fix s' and x :: "'a query_expr" assume "built_expr e 1 0 1 s2 x s'"
      from s2(2) [OF this] show "built_expr e 1 2 1 s1 x s'" by (simp only: add_0 mult_1_right)
    qed
  qed
  have quoted: "yields e (read_quoted e s1) (\<lambda>t. Q (free_term (MContains (qw_lower (qe_world e) t))))"
    if "peek_char e s1 = Some 34"
    by (rule yields_read_quoted [OF 1(4)], use that in simp, rule Q1, rule built_read [OF 1(4)])
      (auto simp: free_term_def)
  have regex: "yields e (read_regex e s1) (\<lambda>re. Q (free_term (MRegex re)))"
    by (rule yields_read_regex [OF 1(4)], rule Q1, rule built_read [OF 1(4)])
      (auto simp: free_term_def spent_def)
  have bare: "yields e (bare_term e s1) Q" by (rule yields_bare_term [OF 1(4) Q1])
  show "yields e (case field_ahead e s1 of None \<Rightarrow>
        if peek_char e s1 = Some 34
        then and_then (read_quoted e) (\<lambda>t. ret (free_term (MContains (qw_lower (qe_world e) t)))) s1
        else if peek_char e s1 = Some 47 \<and> regex_literal_ahead e (ps_pos s1)
             then and_then (read_regex e) (\<lambda>re. ret (free_term (MRegex re))) s1 else bare_term e s1
      | Some (name, stop) \<Rightarrow>
          and_then (set_pos stop) (\<lambda>_. and_then (read_op e) (\<lambda>op. parse_value e (resolve_field (qw_lower (qe_world e)) name) op)) s1) Q"
    using field quoted regex bare by (auto simp: yield_simps yields_set_pos simp del: peek_char_Some split: option.splits)
qed

section \<open>Expressions\<close>

text \<open>
  A parser of expressions within a bound on their nesting, from the depths \<open>lo\<close> up to the maximum.
\<close>

definition parses :: "'f query_env \<Rightarrow> nat \<Rightarrow> (nat \<Rightarrow> nat) \<Rightarrow> 'f query_expr pm \<Rightarrow> bool" where
  "parses e lo bound m \<longleftrightarrow>
     (\<forall>s. in_text e s \<and> lo \<le> ps_depth s \<and> ps_depth s \<le> max_query_depth \<longrightarrow>
        yields e (m s) (\<lambda>x s'. built_expr e 0 1 (bound (ps_depth s)) s x s'))"

lemma parsesD:
  "parses e lo bound m \<Longrightarrow> in_text e s \<Longrightarrow> lo \<le> ps_depth s \<Longrightarrow> ps_depth s \<le> max_query_depth \<Longrightarrow>
   (\<And>x s'. built_expr e 0 1 (bound (ps_depth s)) s x s' \<Longrightarrow> Q x s') \<Longrightarrow> yields e (m s) Q"
  unfolding parses_def by (rule yields_mono [of e "m s" "\<lambda>x s'. built_expr e 0 1 (bound (ps_depth s)) s x s'"]) blast+

text \<open>The nesting one level of parentheses can have: two for each level left, and one.\<close>

definition nesting_from :: "nat \<Rightarrow> nat" where
  "nesting_from d = 2 * (max_query_depth - d) + 1"

lemma parses_primary:
  assumes inner: "parses e lo nesting_from inner"
  shows "parses e lo nesting_from (parse_primary e inner)"
  unfolding parses_def
proof (intro allI impI, elim conjE)
  fix s assume s: "in_text e s" and lo: "lo \<le> ps_depth s" "ps_depth s \<le> max_query_depth"
  let ?Q = "\<lambda>x s'. built_expr e 0 1 (nesting_from (ps_depth s)) s x s'"
  show "yields e (parse_primary e inner s) ?Q"
    unfolding parse_primary_def yield_simps
  proof (rule yields_skip_ws [OF s])
    fix s1 assume 1: "spent e 0 s s1"
    note s1 = spent_in_text [OF s 1]
    have d1: "ps_depth s1 = ps_depth s" using 1 by (simp add: spent_def)
    have after: "?Q x s'" if "built_expr e 0 1 (nesting_from (ps_depth s)) s1 x s'" for x s'
      using built_after_read [OF s 1 that] by simp
    have trm: "yields e (parse_term e s1) ?Q"
      by (rule yields_parse_term [OF s1], rule after) (auto simp: built_expr_def nesting_from_def)
    let ?s = "s1\<lparr>ps_pos := ps_pos s1 + 1\<rparr>"
    have paren: "yields e (inner ?s) (\<lambda>x s'. yields e (skip_ws e s') (\<lambda>_ s''. yields e (if peek_char e s'' \<noteq> Some 41
        then fail_at OpenParen s'' else Inr (x, s''\<lparr>ps_pos := ps_pos s'' + 1\<rparr>)) ?Q))"
      if "peek_char e s1 = Some 40"
    proof (rule parsesD [OF inner])
      show "in_text e ?s" "lo \<le> ps_depth ?s" "ps_depth ?s \<le> max_query_depth"
        using s1 that lo d1 by (auto simp: in_text_def)
      fix s2 and x :: "'a query_expr"
      assume 2: "built_expr e 0 1 (nesting_from (ps_depth ?s)) ?s x s2"
      then have s2: "in_text e s2" by (simp add: built_expr_def)
      show "yields e (skip_ws e s2) (\<lambda>_ s''. yields e (if peek_char e s'' \<noteq> Some 41
        then fail_at OpenParen s'' else Inr (x, s''\<lparr>ps_pos := ps_pos s'' + 1\<rparr>)) ?Q)"
      proof (rule yields_skip_ws [OF s2])
        fix s3 assume 3: "spent e 0 s2 s3"
        have "peek_char e s3 = Some 41 \<Longrightarrow> ?Q x (s3\<lparr>ps_pos := ps_pos s3 + 1\<rparr>)"
          by (rule after) (use 2 3 d1 spent_in_text [OF s2 3] in \<open>auto simp: built_expr_def spent_def in_text_def\<close>)
        then show "yields e (if peek_char e s3 \<noteq> Some 41
          then fail_at OpenParen s3 else Inr (x, s3\<lparr>ps_pos := ps_pos s3 + 1\<rparr>)) ?Q"
          by (simp add: yield_simps del: peek_char_Some)
      qed
    qed
    show "yields e (case peek_char e s1 of None \<Rightarrow> fail_at Incomplete s1
      | Some c \<Rightarrow> if c = 40 then and_then (set_pos (ps_pos s1 + 1)) (\<lambda>_. and_then inner (\<lambda>x. and_then (skip_ws e)
            (\<lambda>_ s. if peek_char e s \<noteq> Some 41 then fail_at OpenParen s else Inr (x, s\<lparr>ps_pos := ps_pos s + 1\<rparr>)))) s1
          else if c = 41 then fail_at StrayParen s1 else parse_term e s1) ?Q"
      using trm paren
      by (auto simp: yield_simps yields_set_pos simp del: peek_char_Some peek_char_None split: option.splits)
  qed
qed

lemma yields_read_negations:
  assumes "in_text e s" "n + k = max_query_depth + 1" "ps_depth s + k \<le> max_query_depth"
    and "\<And>k' s'. in_text e s' \<Longrightarrow> ps_depth s' = ps_depth s \<Longrightarrow> ps_depth s + k' \<le> max_query_depth \<Longrightarrow> k \<le> k' \<Longrightarrow>
      ps_nodes s' + k = ps_nodes s + k' \<Longrightarrow> k' + ps_pos s \<le> k + ps_pos s' \<Longrightarrow> Q k' s'"
  shows "yields e (read_negations e n k s) Q"
  using assms
proof (induction n arbitrary: k s Q)
  case 0
  then show ?case by simp
next
  case (Suc n)
  show ?case unfolding read_negations.simps yield_simps
  proof (rule yields_skip_ws [OF Suc.prems(1)])
    fix s1 assume 1: "spent e 0 s s1"
    note s1 = spent_in_text [OF Suc.prems(1) 1]
    have stop: "Q k s1" by (rule Suc.prems(4)) (use 1 s1 Suc.prems in \<open>auto simp: spent_def\<close>)
    have go: "yields e (if \<not> True then Inr (k, s2) else if max_query_depth < ps_depth s2 + (k + 1) then fail_at TooDeep s2
        else and_then charge_node (\<lambda>_. read_negations e n (k + 1)) s2) Q"
      if 2: "spent e 1 s1 s2" for s2
    proof -
      note s2 = spent_in_text [OF s1 2]
      have "yields e (charge_node s2) (\<lambda>_ s'. yields e (read_negations e n (k + 1) s') Q)"
        if "\<not> max_query_depth < ps_depth s2 + (k + 1)"
      proof (rule yields_charge_node [OF s2])
        fix s3 assume 3: "ps_depth s3 = ps_depth s2" "ps_pos s3 = ps_pos s2" "ps_nodes s3 = ps_nodes s2 + 1" "in_text e s3"
        show "yields e (read_negations e n (k + 1) s3) Q"
          by (rule Suc.IH [OF 3(4)]) (use that 1 2 3 Suc.prems(2,3) in \<open>auto simp: spent_def intro!: Suc.prems(4)\<close>)
      qed
      then show ?thesis by (simp add: yield_simps)
    qed
    have prefix: "spent e 1 s1 (s1\<lparr>ps_pos := ps_pos s1 + 1\<rparr>)" if "prefix_ahead e s1"
      using that by (auto simp: prefix_ahead_def spent_def)
    have keyword: "yields e (take_keyword e not_words s1) (\<lambda>found s. yields e (if \<not> found then Inr (k, s)
        else if max_query_depth < ps_depth s + (k + 1) then fail_at TooDeep s
        else and_then charge_node (\<lambda>_. read_negations e n (k + 1)) s) Q)"
    proof (rule yields_take_keyword [OF s1])
      show "[] \<notin> set not_words" by (simp add: not_words_def lit_def)
    qed (use stop go in \<open>auto simp only: yield_simps if_True not_False_eq_True\<close>)
    show "yields e (if prefix_ahead e s1 then Inr (True, s1\<lparr>ps_pos := ps_pos s1 + 1\<rparr>) else take_keyword e not_words s1)
      (\<lambda>found s. yields e (if \<not> found then Inr (k, s)
        else if max_query_depth < ps_depth s + (k + 1) then fail_at TooDeep s
        else and_then charge_node (\<lambda>_. read_negations e n (k + 1)) s) Q)"
    proof (cases "prefix_ahead e s1")
      case True
      then show ?thesis using go [OF prefix [OF True]] by (simp only: if_True yields_primitives)
    next
      case False
      then show ?thesis using keyword by (simp only: if_False)
    qed
  qed
qed

lemma nots_nodes [simp]: "expr_nodes ((ENot ^^ k) x) = k + expr_nodes x"
  by (induction k) simp_all

lemma nots_depth [simp]: "expr_depth ((ENot ^^ k) x) = k + expr_depth x"
  by (induction k) simp_all

lemma parses_unary:
  assumes inner: "parses e lo nesting_from inner"
  shows "parses e lo nesting_from (parse_unary e inner)"
  unfolding parses_def
proof (intro allI impI, elim conjE)
  fix s assume s: "in_text e s" and lo: "lo \<le> ps_depth s" "ps_depth s \<le> max_query_depth"
  let ?Q = "\<lambda>x s'. built_expr e 0 1 (nesting_from (ps_depth s)) s x s'"
  show "yields e (parse_unary e inner s) ?Q"
    unfolding parse_unary_def yield_simps
  proof (rule yields_read_negations [OF s], goal_cases)
    case (3 k s1)
    let ?s = "s1\<lparr>ps_depth := ps_depth s1 + k\<rparr>"
    show ?case
    proof (rule parsesD [OF parses_primary [OF inner]])
      show "in_text e ?s" "lo \<le> ps_depth ?s" "ps_depth ?s \<le> max_query_depth"
        using 3 lo by (auto simp: in_text_def)
      fix s2 and x :: "'a query_expr"
      assume "built_expr e 0 1 (nesting_from (ps_depth ?s)) ?s x s2"
      then show "?Q ((ENot ^^ k) x) (s2\<lparr>ps_depth := ps_depth s2 - k\<rparr>)"
        using 3 by (auto simp: built_expr_def in_text_def nesting_from_def)
    qed
  qed (use lo in auto)
qed

text \<open>
  What the items of a conjunction or disjunction cost: their nodes, and one for the node that joins them
  when there are several.
\<close>

definition items_cost :: "'f query_expr list \<Rightarrow> nat" where
  "items_cost xs = sum_list (map expr_nodes xs) + (if length xs = 1 then 0 else 1)"

definition grown :: "'f query_env \<Rightarrow> nat \<Rightarrow> 'f query_expr list \<Rightarrow> pstate \<Rightarrow> 'f query_expr list \<Rightarrow> pstate \<Rightarrow> bool" where
  "grown e d xs s ys s' \<longleftrightarrow> ps_depth s' = ps_depth s \<and> in_text e s' \<and> ps_nodes s \<le> ps_nodes s'
     \<and> ps_pos s \<le> ps_pos s' \<and> items_cost ys + ps_nodes s \<le> ps_nodes s' + items_cost xs
     \<and> ps_nodes s' + 2 * ps_pos s \<le> ps_nodes s + 2 * ps_pos s'
     \<and> 0 < length ys \<and> (\<forall>y \<in> set ys. expr_depth y \<le> d)"

lemma grown_here:
  "in_text e s \<Longrightarrow> spent e 0 s s' \<Longrightarrow> 0 < length xs \<Longrightarrow> \<forall>y \<in> set xs. expr_depth y \<le> d \<Longrightarrow> grown e d xs s xs s'"
  using spent_in_text [of e s 0 s'] by (auto simp: grown_def spent_def)

text \<open>One more item: the node that joins is charged with the second.\<close>

lemma grown_step:
  assumes "spent e 0 s s1" "ps_depth s2 = ps_depth s1" "ps_pos s1 \<le> ps_pos s2"
    "ps_nodes s2 = ps_nodes s1 + (if length xs = 1 then 1 else 0)" "0 < length xs"
    "built_expr e 0 1 d s2 x s3" "grown e d (xs @ [x]) s3 ys s4"
  shows "grown e d xs s ys s4"
  using assms by (auto simp: grown_def built_expr_def spent_def items_cost_def)

lemma join_items:
  assumes "built_expr e 0 1 d s x s1" "grown e d [x] s1 ys s2"
  shows "built_expr e 0 1 (Suc d) s (case ys of [y] \<Rightarrow> y | _ \<Rightarrow> EAnd ys) s2"
    and "built_expr e 0 1 (Suc d) s (case ys of [y] \<Rightarrow> y | _ \<Rightarrow> EOr ys) s2"
proof -
  have depth: "\<forall>y \<in> set ys. expr_depth y \<le> d \<Longrightarrow> fold max (map expr_depth ys) 0 \<le> d" for ys :: "'a query_expr list"
  proof -
    assume "\<forall>y \<in> set ys. expr_depth y \<le> d"
    then have "fold max (map expr_depth ys) m \<le> max m d" for m
    proof (induction ys arbitrary: m)
      case (Cons y ys)
      then have "fold max (map expr_depth ys) (max (expr_depth y) m) \<le> max (max (expr_depth y) m) d"
        and "expr_depth y \<le> d" by auto
      then show ?case by simp
    qed simp
    from this [of 0] show ?thesis by simp
  qed
  show "built_expr e 0 1 (Suc d) s (case ys of [y] \<Rightarrow> y | _ \<Rightarrow> EAnd ys) s2"
    and "built_expr e 0 1 (Suc d) s (case ys of [y] \<Rightarrow> y | _ \<Rightarrow> EOr ys) s2"
    using assms depth [of ys] by (auto simp: built_expr_def grown_def items_cost_def split: list.splits)
qed

text \<open>The charge for joining, when there is one item so far.\<close>

lemma yields_join_charge:
  assumes s: "in_text e s"
    and Q: "\<And>s'. in_text e s' \<Longrightarrow> ps_depth s' = ps_depth s \<Longrightarrow> ps_pos s' = ps_pos s \<Longrightarrow>
      ps_nodes s' = ps_nodes s + (if length xs = 1 then 1 else 0) \<Longrightarrow> Q () s'"
  shows "yields e ((if length xs = 1 then charge_node else ret ()) s) Q"
proof (cases "length xs = 1")
  case True
  then have "yields e (charge_node s) Q" by (intro yields_charge_node [OF s] Q) auto
  then show ?thesis using True by simp
next
  case False
  then show ?thesis using Q [OF s] by (simp add: yield_simps)
qed

lemma yields_and_items:
  assumes inner: "parses e lo nesting_from inner"
    and "in_text e s" "lo \<le> ps_depth s" "ps_depth s \<le> max_query_depth" "length (qe_chars e) < ps_pos s + n"
    and "0 < length xs" "\<forall>x \<in> set xs. expr_depth x \<le> nesting_from (ps_depth s)"
    and "\<And>ys s'. grown e (nesting_from (ps_depth s)) xs s ys s' \<Longrightarrow> Q ys s'"
  shows "yields e (and_items e inner n xs s) Q"
  using assms(2-)
proof (induction n arbitrary: xs s Q)
  case 0
  then show ?case by (simp add: in_text_def)
next
  case (Suc n)
  let ?d = "nesting_from (ps_depth s)"
  show ?case unfolding and_items.simps yield_simps
  proof (rule yields_skip_ws [OF Suc.prems(1)])
    fix s1 assume 1: "spent e 0 s s1"
    note s1 = spent_in_text [OF Suc.prems(1) 1]
    have stop: "Q xs s1" by (rule Suc.prems(7), rule grown_here) (use 1 Suc.prems in auto)
    have more: "yields e (skip_ws e s2) (\<lambda>_ s. yields e ((if length xs = 1 then charge_node else ret ()) s)
        (\<lambda>_ s. yields e (parse_unary e inner s) (\<lambda>x s. yields e (and_items e inner n (xs @ [x]) s) Q)))"
      if 2: "spent e j s1 s2" for j s2
    proof (rule yields_skip_ws [OF spent_in_text [OF s1 2]], rule yields_join_charge, goal_cases)
      case (1 s3)
      then show ?case by (rule spent_in_text [OF spent_in_text [OF s1 2]])
    next
      case (2 s3 s4)
      have s3: "spent e 0 s s3" using \<open>spent e 0 s s1\<close> that 2(1) by (auto simp: spent_def)
      show ?case
      proof (rule parsesD [OF parses_unary [OF inner] 2(2)])
        show "lo \<le> ps_depth s4" "ps_depth s4 \<le> max_query_depth" using 2 s3 Suc.prems(2,3) by (auto simp: spent_def)
        fix s5 and x :: "'a query_expr" assume 5: "built_expr e 0 1 (nesting_from (ps_depth s4)) s4 x s5"
        have d: "ps_depth s5 = ps_depth s" "ps_depth s4 = ps_depth s" using 2 s3 5 by (auto simp: spent_def built_expr_def)
        show "yields e (and_items e inner n (xs @ [x]) s5) Q"
        proof (rule Suc.IH)
          show "in_text e s5" "lo \<le> ps_depth s5" "ps_depth s5 \<le> max_query_depth" "length (qe_chars e) < ps_pos s5 + n"
            using 5 d 2 s3 Suc.prems by (auto simp: built_expr_def spent_def)
          show "\<forall>y \<in> set (xs @ [x]). expr_depth y \<le> nesting_from (ps_depth s5)" "0 < length (xs @ [x])"
            using 5 d Suc.prems(6) by (auto simp: built_expr_def)
          fix ys s6 assume "grown e (nesting_from (ps_depth s5)) (xs @ [x]) s5 ys s6"
          then show "Q ys s6" using 5 d 2 s3 Suc.prems(5) by (intro Suc.prems(7) grown_step [of e s s3 s4]) auto
        qed
      qed
    qed
    have keyword: "yields e (take_keyword e and_words s1) (\<lambda>_ s. yields e (skip_ws e s)
        (\<lambda>_ s. yields e ((if length xs = 1 then charge_node else ret ()) s)
        (\<lambda>_ s. yields e (parse_unary e inner s) (\<lambda>x s. yields e (and_items e inner n (xs @ [x]) s) Q))))"
    proof (rule yields_take_keyword [OF s1])
      show "[] \<notin> set and_words" by (simp add: and_words_def lit_def)
    qed (rule more, assumption, rule more [of 0], use s1 in \<open>simp add: spent_def in_text_def\<close>)
    show "yields e (if peek_char e s1 \<in> {None, Some 41} \<or> peek_word e s1 \<in> set or_words then Inr (xs, s1)
        else and_then (take_keyword e and_words) (\<lambda>_. and_then (skip_ws e)
          (\<lambda>_. and_then (if length xs = 1 then charge_node else ret ()) (\<lambda>_. and_then (parse_unary e inner)
          (\<lambda>x. and_items e inner n (xs @ [x]))))) s1) Q"
      using stop keyword by (auto simp only: yields_primitives split: if_split)
  qed
qed

text \<open>A conjunction can nest one deeper than what it joins.\<close>

lemma parses_and:
  assumes inner: "parses e lo nesting_from inner"
  shows "parses e lo (\<lambda>d. Suc (nesting_from d)) (parse_and e inner)"
  unfolding parses_def
proof (intro allI impI, elim conjE)
  fix s assume s: "in_text e s" and lo: "lo \<le> ps_depth s" "ps_depth s \<le> max_query_depth"
  let ?Q = "\<lambda>x s'. built_expr e 0 1 (Suc (nesting_from (ps_depth s))) s x s'"
  show "yields e (parse_and e inner s) ?Q"
    unfolding parse_and_def yield_simps
  proof (rule parsesD [OF parses_unary [OF inner] s lo])
    fix s1 and x :: "'a query_expr" assume x: "built_expr e 0 1 (nesting_from (ps_depth s)) s x s1"
    then have d: "ps_depth s1 = ps_depth s" "in_text e s1" by (auto simp: built_expr_def)
    show "yields e (and_items e inner (length (qe_chars e) + 1) [x] s1)
        (\<lambda>xs. ?Q (case xs of [y] \<Rightarrow> y | _ \<Rightarrow> EAnd xs))"
      by (rule yields_and_items [OF inner d(2)]) (use d lo x join_items(1) [OF x] in \<open>auto simp: built_expr_def\<close>)
  qed
qed

lemma yields_or_items:
  assumes inner: "parses e lo nesting_from inner"
    and "in_text e s" "lo \<le> ps_depth s" "ps_depth s \<le> max_query_depth" "length (qe_chars e) < ps_pos s + n"
    and "0 < length xs" "\<forall>x \<in> set xs. expr_depth x \<le> Suc (nesting_from (ps_depth s))"
    and "\<And>ys s'. grown e (Suc (nesting_from (ps_depth s))) xs s ys s' \<Longrightarrow> Q ys s'"
  shows "yields e (or_items e inner n xs s) Q"
  using assms(2-)
proof (induction n arbitrary: xs s Q)
  case 0
  then show ?case by (simp add: in_text_def)
next
  case (Suc n)
  let ?d = "Suc (nesting_from (ps_depth s))"
  show ?case unfolding or_items.simps yield_simps
  proof (rule yields_skip_ws [OF Suc.prems(1)])
    fix s1 assume 1: "spent e 0 s s1"
    note s1 = spent_in_text [OF Suc.prems(1) 1]
    have stop: "Q xs s1" by (rule Suc.prems(7), rule grown_here) (use 1 Suc.prems in auto)
    have more: "yields e ((if length xs = 1 then charge_node else ret ()) s2)
        (\<lambda>_ s. yields e (skip_ws e s) (\<lambda>_ s. yields e (parse_and e inner s) (\<lambda>x s. yields e (or_items e inner n (xs @ [x]) s) Q)))"
      if 2: "spent e 1 s1 s2" for s2
    proof (rule yields_join_charge [OF spent_in_text [OF s1 2]], rule yields_skip_ws)
      fix s3 assume 3: "in_text e s3" then show "in_text e s3" .
    next
      fix s3 s4
      assume 3: "in_text e s3" "ps_depth s3 = ps_depth s2" "ps_pos s3 = ps_pos s2"
        "ps_nodes s3 = ps_nodes s2 + (if length xs = 1 then 1 else 0)" and 4: "spent e 0 s3 s4"
      note s4 = spent_in_text [OF 3(1) 4]
      have s2: "spent e 0 s s2" using 1 2 by (auto simp: spent_def)
      have d4: "ps_depth s4 = ps_depth s" using s2 3 4 by (simp add: spent_def)
      show "yields e (parse_and e inner s4) (\<lambda>x s. yields e (or_items e inner n (xs @ [x]) s) Q)"
      proof (rule parsesD [OF parses_and [OF inner] s4])
        show "lo \<le> ps_depth s4" "ps_depth s4 \<le> max_query_depth" using d4 Suc.prems(2,3) by auto
        fix s5 and x :: "'a query_expr" assume 5: "built_expr e 0 1 (Suc (nesting_from (ps_depth s4))) s4 x s5"
        have d: "ps_depth s5 = ps_depth s" using 5 d4 by (simp add: built_expr_def)
        show "yields e (or_items e inner n (xs @ [x]) s5) Q"
        proof (rule Suc.IH)
          show "in_text e s5" "lo \<le> ps_depth s5" "ps_depth s5 \<le> max_query_depth" "length (qe_chars e) < ps_pos s5 + n"
            using 5 d 3 4 s2 Suc.prems by (auto simp: built_expr_def spent_def)
          show "\<forall>y \<in> set (xs @ [x]). expr_depth y \<le> Suc (nesting_from (ps_depth s5))" "0 < length (xs @ [x])"
            using 5 d d4 Suc.prems(6) by (auto simp: built_expr_def)
          fix ys s6 assume "grown e (Suc (nesting_from (ps_depth s5))) (xs @ [x]) s5 ys s6"
          then show "Q ys s6" using 5 d d4 3 4 s2 Suc.prems(5)
            by (intro Suc.prems(7) grown_step [of e s s2 s4]) (auto simp: spent_def)
        qed
      qed
    qed
    show "yields e (take_keyword e or_words s1) (\<lambda>found s. yields e ((if \<not> found then ret xs
        else and_then (if length xs = 1 then charge_node else ret ()) (\<lambda>_. and_then (skip_ws e)
          (\<lambda>_. and_then (parse_and e inner) (\<lambda>x. or_items e inner n (xs @ [x]))))) s) Q)"
    proof (rule yields_take_keyword [OF s1])
      show "[] \<notin> set or_words" by (simp add: or_words_def lit_def)
    qed (use stop more in \<open>simp_all only: yield_simps if_True if_False simp_thms\<close>)
  qed
qed

lemma parses_or: "parses e (max_query_depth + 1 - n) nesting_from (parse_or e n)"
proof (induction n)
  case 0
  then show ?case by (auto simp: parses_def)
next
  case (Suc n)
  show ?case unfolding parses_def
  proof (intro allI impI, elim conjE)
    fix s assume s: "in_text e s" and lo: "max_query_depth + 1 - Suc n \<le> ps_depth s" "ps_depth s \<le> max_query_depth"
    let ?s = "s\<lparr>ps_depth := ps_depth s + 1\<rparr>"
    let ?Q = "\<lambda>x s'. built_expr e 0 1 (nesting_from (ps_depth s)) s x s'"
    have "yields e (parse_and e (parse_or e n) ?s) (\<lambda>x s'. yields e
        (or_items e (parse_or e n) (length (qe_chars e) + 1) [x] s') (\<lambda>xs s'.
          ?Q (case xs of [y] \<Rightarrow> y | _ \<Rightarrow> EOr xs) (s'\<lparr>ps_depth := ps_depth s' - 1\<rparr>)))"
      if room: "ps_depth s + 1 \<le> max_query_depth"
    proof (rule parsesD [OF parses_and [OF Suc.IH]])
      show "in_text e ?s" "max_query_depth + 1 - n \<le> ps_depth ?s" "ps_depth ?s \<le> max_query_depth"
        using s lo room by (auto simp: in_text_def)
      fix s1 and x :: "'a query_expr" assume x: "built_expr e 0 1 (Suc (nesting_from (ps_depth ?s))) ?s x s1"
      then have d: "ps_depth s1 = ps_depth ?s" "in_text e s1" by (auto simp: built_expr_def)
      show "yields e (or_items e (parse_or e n) (length (qe_chars e) + 1) [x] s1) (\<lambda>xs s'.
          ?Q (case xs of [y] \<Rightarrow> y | _ \<Rightarrow> EOr xs) (s'\<lparr>ps_depth := ps_depth s' - 1\<rparr>))"
      proof (rule yields_or_items [OF Suc.IH d(2)])
        show "max_query_depth + 1 - n \<le> ps_depth s1" "ps_depth s1 \<le> max_query_depth"
          "length (qe_chars e) < ps_pos s1 + (length (qe_chars e) + 1)" "0 < length [x]"
          "\<forall>y \<in> set [x]. expr_depth y \<le> Suc (nesting_from (ps_depth s1))"
          using d lo room x by (auto simp: built_expr_def)
        fix xs s2 assume xs: "grown e (Suc (nesting_from (ps_depth s1))) [x] s1 xs s2"
        then have "ps_depth s2 = ps_depth s + 1" using d by (simp add: grown_def)
        then show "?Q (case xs of [y] \<Rightarrow> y | _ \<Rightarrow> EOr xs) (s2\<lparr>ps_depth := ps_depth s2 - 1\<rparr>)"
          using join_items(2) [OF x, of xs s2] xs d room by (auto simp: built_expr_def in_text_def nesting_from_def)
      qed
    qed
    then show "yields e (parse_or e (Suc n) s) ?Q"
      by (auto simp: yield_simps not_less)
  qed
qed

section \<open>Compiling\<close>

lemma fold_max_le: "fold max (map f xs) (m::nat) \<le> d \<longleftrightarrow> m \<le> d \<and> (\<forall>x \<in> set xs. f x \<le> d)"
  by (induction xs arbitrary: m) auto

lemma simplify_nodes: "expr_nodes (simplify x) \<le> expr_nodes x"
  by (induction x rule: simplify.induct) (auto intro!: add_mono sum_list_mono)

lemma Suc_le_iff: "Suc n \<le> d \<longleftrightarrow> (\<exists>k. d = Suc k \<and> n \<le> k)"
  by (cases d) auto

lemma simplify_depth: "expr_depth x \<le> d \<Longrightarrow> expr_depth (simplify x) \<le> d"
  by (induction x arbitrary: d rule: simplify.induct) (fastforce simp: fold_max_le Suc_le_iff)+

definition policy_env :: "'f query_world \<Rightarrow> bool \<Rightarrow> bool \<Rightarrow> rstr \<Rightarrow> 'f query_env" where
  "policy_env w detections catalogs t =
     \<lparr>qe_world = w, qe_chars = trim t, qe_catalogs = catalogs, qe_detections = detections\<rparr>"

lemma compile_parsed_yields:
  assumes "ps_pos s = 0" "ps_depth s = 0" "ps_nodes s = 0"
  shows "yields e (compile_parsed e s) (\<lambda>x s'. expr_nodes x \<le> ps_nodes s' \<and> ps_nodes s' \<le> max_query_nodes
    \<and> ps_nodes s' \<le> 2 * length (qe_chars e) \<and> expr_depth x \<le> nesting_from 0)"
proof -
  have s: "in_text e s" using assms by (simp add: in_text_def)
  show ?thesis unfolding compile_parsed_def yield_simps
  proof (rule parsesD [OF parses_or s])
    show "max_query_depth + 1 - (max_query_depth + 1) \<le> ps_depth s" "ps_depth s \<le> max_query_depth"
      using assms by auto
    fix s1 and x :: "'a query_expr" assume 1: "built_expr e 0 1 (nesting_from (ps_depth s)) s x s1"
    then have s1: "in_text e s1" by (simp add: built_expr_def)
    show "yields e (skip_ws e s1) (\<lambda>_ s. yields e (case peek_char e s of None \<Rightarrow> and_then check (\<lambda>_. ret (simplify x)) s
      | Some c \<Rightarrow> fail_at (if c = 41 then StrayParen else Unexpected) s) (\<lambda>x s'. expr_nodes x \<le> ps_nodes s' \<and>
        ps_nodes s' \<le> max_query_nodes \<and> ps_nodes s' \<le> 2 * length (qe_chars e) \<and> expr_depth x \<le> nesting_from 0))"
    proof (rule yields_skip_ws [OF s1])
      fix s2 assume 2: "spent e 0 s1 s2"
      note s2 = spent_in_text [OF s1 2]
      have fine: "expr_nodes (simplify x) \<le> ps_nodes s' \<and> ps_nodes s' \<le> max_query_nodes
          \<and> ps_nodes s' \<le> 2 * length (qe_chars e) \<and> expr_depth (simplify x) \<le> nesting_from 0"
        if "spent e 0 s2 s'" for s'
        using that 1 2 assms spent_in_text [OF s2 that] simplify_nodes [of x] simplify_depth [of x "nesting_from 0"]
        by (auto simp: built_expr_def spent_def in_text_def)
      have "yields e (check s2) (\<lambda>_ s'. expr_nodes (simplify x) \<le> ps_nodes s' \<and> ps_nodes s' \<le> max_query_nodes
          \<and> ps_nodes s' \<le> 2 * length (qe_chars e) \<and> expr_depth (simplify x) \<le> nesting_from 0)"
        by (rule yields_check [OF s2 fine])
      then show "yields e (case peek_char e s2 of None \<Rightarrow> and_then check (\<lambda>_. ret (simplify x)) s2
        | Some c \<Rightarrow> fail_at (if c = 41 then StrayParen else Unexpected) s2) (\<lambda>x s'. expr_nodes x \<le> ps_nodes s' \<and>
          ps_nodes s' \<le> max_query_nodes \<and> ps_nodes s' \<le> 2 * length (qe_chars e) \<and> expr_depth x \<le> nesting_from 0)"
        by (simp add: yield_simps split: option.splits)
    qed
  qed
qed

text \<open>The bound on the nodes of an accepted expression: the budget, and two for each character.\<close>

lemma compile_policy_yields:
  fixes w :: "'a query_world"
  shows "case compile_policy w detections catalogs checks t of
     Inl err \<Rightarrow> meant (trim t) err
   | Inr x \<Rightarrow> expr_nodes x \<le> max_query_nodes \<and> expr_depth x \<le> nesting_from 0
       \<and> expr_nodes x \<le> (if is_plain (trim t) then 1 else 2 * length (trim t) + 1)"
proof -
  let ?e = "policy_env w detections catalogs t"
  let ?s = "\<lparr>ps_pos = 0, ps_depth = 0, ps_nodes = 0, ps_checks = checks\<rparr>"
  let ?Q = "\<lambda>(x :: 'a query_expr) (_::pstate). expr_nodes x \<le> max_query_nodes \<and> expr_depth x \<le> nesting_from 0
       \<and> expr_nodes x \<le> (if is_plain (trim t) then 1 else 2 * length (trim t) + 1)"
  have chars: "qe_chars ?e = trim t" by (simp add: policy_env_def)
  have start: "in_text ?e s" if "ps_pos s = 0" "ps_nodes s = 0" for s
    using that by (simp add: in_text_def)
  have one: "?Q x s" if "expr_nodes x = 1" "expr_depth x = 0" for x :: "'a query_expr" and s
    using that by (simp add: max_query_nodes_def nesting_from_def)
  have parsed: "yields ?e (compile_parsed ?e s) ?Q"
    if "ps_pos s = 0" "ps_depth s = 0" "ps_nodes s = 0" "\<not> is_plain (trim t)" for s
    by (rule yields_mono [OF compile_parsed_yields]) (use that chars in auto)
  have "yields ?e ((if trim t = [] then ret EAll else if max_query_bytes < utf8_len (trim t) then fail TooLong
      else if is_plain (trim t) then and_then check (\<lambda>_. ret (free_term (MContains (qw_lower w (trim t)))))
      else compile_parsed ?e) s) ?Q" if "spent ?e 0 ?s s" "ps_pos s = 0" for s
  proof -
    have s: "ps_depth s = 0" "ps_nodes s = 0" using that by (auto simp: spent_def)
    have "yields ?e (check s) (\<lambda>_. ?Q (free_term (MContains (qw_lower w (trim t))) :: 'a query_expr))"
      by (rule yields_check [OF start [OF that(2) s(2)]]) (simp_all add: free_term_def max_query_nodes_def nesting_from_def)
    then show ?thesis using parsed [OF that(2) s] one [of EAll]
      by (cases "is_plain (trim t)") (simp_all add: yield_simps)
  qed
  then have "yields ?e (and_then check (\<lambda>_. if trim t = [] then ret EAll
      else if max_query_bytes < utf8_len (trim t) then fail TooLong
      else if is_plain (trim t) then and_then check (\<lambda>_. ret (free_term (MContains (qw_lower w (trim t)))))
      else compile_parsed ?e) ?s) ?Q"
    unfolding yield_simps by (intro yields_check [OF start]) auto
  then show ?thesis unfolding compile_policy_def Let_def policy_env_def [symmetric]
    by (auto simp: yields_def chars split: sum.splits)
qed

text \<open>
  A world for the samples: ASCII tables, numbers as written digits, and regular expressions that match
  nothing.
\<close>

definition sample_floats :: "int floats" where
  "sample_floats = \<lparr>fl_parse = i64_from_str, fl_finite = (\<lambda>_. True), fl_le = (\<le>), fl_less = (<), fl_abs = abs,
     fl_mul = (*), fl_div = (div), fl_of_int = (\<lambda>n. n), fl_to_i64 = (\<lambda>n. n)\<rparr>"

definition sample_chrono :: chrono where
  "sample_chrono = \<lparr>ch_ymd = (\<lambda>_ _ _. None), ch_sunday = (\<lambda>_ _ _. None), ch_time = (\<lambda>_ _. None), ch_year = (\<lambda>_. 1970),
     ch_single = (\<lambda>_. None)\<rparr>"

definition sample_instants :: "int instants" where
  "sample_instants = \<lparr>in_floats = sample_floats, in_chrono = sample_chrono, in_rfc3339 = (\<lambda>_. None),
     in_datetime = (\<lambda>_ _. None), in_naive = (\<lambda>_ _. None), in_naive_date = (\<lambda>_ _. None), in_valid_ms = (\<lambda>_. True)\<rparr>"

definition sample_query_world :: "int query_world" where
  "sample_query_world = \<lparr>qw_lower = map ascii_lower, qw_alphabetic = is_ascii_alpha, qw_alphanumeric = is_ascii_alnum,
     qw_instants = sample_instants, qw_regex = (\<lambda>_ p. Inr \<lparr>re_source = p, re_is_match = (\<lambda>_. False)\<rparr>),
     qw_escape = (\<lambda>c. [c]), qw_threat = (\<lambda>_. Inl []), qw_ruleset = Inl [], qw_chain = (\<lambda>_. None)\<rparr>"

definition panics :: "query_error + 'a \<Rightarrow> bool" where
  "panics r = (case r of Inl Panic \<Rightarrow> True | _ \<Rightarrow> False)"

definition sample_checks :: "nat option" where "sample_checks = None"

text \<open>
  C16. Compiling a query returns: the fuel of the model is never spent. The parser panics only when the
  query ends in an opening bracket.
\<close>

theorem compile_returns:
  "compile_policy w detections catalogs checks t \<noteq> Inl OutOfFuel
   \<and> (panics (compile_policy w detections catalogs checks t) \<longrightarrow> trim t \<noteq> [] \<and> last (trim t) = 91)"
  using compile_policy_yields [where w = w and detections = detections and catalogs = catalogs and checks = checks and t = t]
  by (auto simp: panics_def meant_def split: sum.splits query_error.splits)

theorem compile_returns_witness:
  "trim (lit ''a:['') \<noteq> [] \<and> last (trim (lit ''a:['')) = 91"
proof -
  have "panics (compile_policy sample_query_world True True sample_checks (lit ''a:[''))" by code_simp
  then show ?thesis
    using compile_returns [where w = sample_query_world and detections = True and catalogs = True and checks = sample_checks
        and t = "lit ''a:[''"] by simp
qed

text \<open>
  C7. What compiles is within the budgets: at most \<open>MAX_QUERY_NODES\<close> nodes, nested at most twice as deep
  as \<open>MAX_QUERY_DEPTH\<close> and one more.
\<close>

theorem compiled_in_budget:
  assumes "compile_policy w detections catalogs checks t = Inr x"
  shows "expr_nodes x \<le> max_query_nodes \<and> expr_depth x \<le> 2 * max_query_depth + 1"
  using compile_policy_yields [where w = w and detections = detections and catalogs = catalogs and checks = checks and t = t] assms by (simp add: nesting_from_def)

definition sample_query :: rstr where "sample_query = lit ''-a:b OR (c d)''"

definition compiled :: "query_error + 'f query_expr \<Rightarrow> 'f query_expr" where
  "compiled r = (case r of Inr x \<Rightarrow> x | Inl _ \<Rightarrow> EAll)"

lemma compiled_Inr: "isl r = False \<Longrightarrow> r = Inr (compiled r)"
  by (cases r) (auto simp: compiled_def)

theorem compiled_in_budget_witness:
  "expr_depth (compiled (compile_policy sample_query_world True True sample_checks sample_query)) \<le> 129"
proof -
  have "isl (compile_policy sample_query_world True True sample_checks sample_query) = False" by code_simp
  from compiled_in_budget [OF compiled_Inr [OF this]] show ?thesis by (simp add: max_query_depth_def)
qed

section \<open>The credit of a preserved query\<close>

lemma credit_fold:
  assumes "\<And>s r s'. m s = Inr (r, s') \<Longrightarrow> fst r = c"
    and "fold (credit_step w) t m s = Inr (r, s')"
  shows "fst r = c + length t"
  using assms
proof (induction t arbitrary: m c)
  case Nil
  then show ?case by simp
next
  case (Cons x t)
  have step: "fst r' = c + 1" if "credit_step w x m s1 = Inr (r', s2)" for s1 r' s2
    using that Cons.prems(1)
    by (auto simp: credit_step_def and_then_def ret_def check_def Let_def
        split: sum.splits prod.splits if_splits option.splits nat.splits)
  have "fold (credit_step w) t (credit_step w x m) s = Inr (r, s')" using Cons.prems(2) by simp
  from Cons.IH [OF step this] show ?case by simp
qed

lemma length_trim: "length (trim t) \<le> length t"
proof -
  have "length (dropWhile P xs) \<le> length xs" for P and xs :: rstr by (rule length_dropWhile_le)
  then have "length (dropWhile P (rev (dropWhile P xs))) \<le> length xs" for P and xs :: rstr
    by (metis le_trans length_rev)
  then show ?thesis by (simp add: trim_def trim_matches_def)
qed

text \<open>
  The credit of a preserved query covers what compiling it builds: eight bytes for each byte of the
  text and 288 for each node of the expression.
\<close>

theorem credit_covers_expression:
  assumes x: "compile_without_catalogs w checks t = Inr x"
    and credit: "historical_ast_credit w t s = Inr (bytes, s')"
  shows "8 * utf8_len t + 288 * expr_nodes x \<le> bytes"
proof -
  have nodes: "expr_nodes x \<le> max_query_nodes" "expr_nodes x \<le> (if is_plain (trim t) then 1 else 2 * length (trim t) + 1)"
    using compile_policy_yields [where w = w and detections = False and catalogs = False and checks = checks and t = t] x
    by (auto simp: compile_without_catalogs_def)
  from credit obtain chars word longest where
    fold: "\<exists>s1. fold (credit_step w) t (ret (0, 0, 0)) s = Inr ((chars, word, longest), s1)"
    and bytes: "\<exists>b n. checked_mul (utf8_len t) 8 = Some b \<and> checked_mul (credit_nodes t chars) (sat_add 256 (max longest 32)) = Some n
       \<and> checked_add b n = Some bytes"
    by (auto simp: historical_ast_credit_def and_then_def fail_def lift_opt_def ret_def
        split: if_splits sum.splits prod.splits option.splits)
  have chars: "chars = length t" using fold credit_fold [of "ret (0, 0, 0)" 0 w t s] by (auto simp: ret_def)
  have le: "expr_nodes x \<le> credit_nodes t chars"
    using nodes length_trim [of t] by (auto simp: credit_nodes_def chars sat_add_def sat_mul_def u64_max_def max_query_nodes_def)
  have "288 \<le> sat_add 256 (max longest 32)" by (auto simp: sat_add_def u64_max_def)
  with le have "expr_nodes x * 288 \<le> credit_nodes t chars * sat_add 256 (max longest 32)" by (rule mult_le_mono)
  with bytes show ?thesis by (auto simp: checked_mul_def split: if_splits)
qed

definition sample_state :: pstate where
  "sample_state = \<lparr>ps_pos = 0, ps_depth = 0, ps_nodes = 0, ps_checks = sample_checks\<rparr>"

definition credit_bytes :: "query_error + nat \<times> pstate \<Rightarrow> nat" where
  "credit_bytes r = (case r of Inr (n, _) \<Rightarrow> n | Inl _ \<Rightarrow> 0)"

lemma credit_Inr: "isl r = False \<Longrightarrow> \<exists>s'. r = Inr (credit_bytes r, s')"
  by (cases r) (auto simp: credit_bytes_def)

theorem credit_covers_expression_witness:
  "8 * utf8_len sample_query + 288 * expr_nodes (compiled (compile_without_catalogs sample_query_world sample_checks sample_query))
     \<le> credit_bytes (historical_ast_credit sample_query_world sample_query sample_state)"
proof -
  have "isl (compile_without_catalogs sample_query_world sample_checks sample_query) = False" by code_simp
  moreover have "isl (historical_ast_credit sample_query_world sample_query sample_state) = False" by code_simp
  then obtain s' where "historical_ast_credit sample_query_world sample_query sample_state
      = Inr (credit_bytes (historical_ast_credit sample_query_world sample_query sample_state), s')"
    using credit_Inr by blast
  ultimately show ?thesis using credit_covers_expression [OF compiled_Inr] by blast
qed

section \<open>Brackets left open\<close>

text \<open>
  C38. A value in brackets that no closing bracket follows: when the bracket is the last character the
  parser panics, and otherwise, unless what is left reads as an interval, the last character of the value
  is dropped.
\<close>

theorem unclosed_bracket:
  assumes "peek_char e s = Some 91" "93 \<notin> set (drop (ps_pos s) (qe_chars e))"
  shows "(ps_pos s + 1 = length (qe_chars e) \<longrightarrow> read_value_token e s = Inl Panic)
    \<and> (ps_pos s + 1 < length (qe_chars e) \<and> interval_words (butlast (drop (ps_pos s + 1) (qe_chars e))) = None \<longrightarrow>
         read_value_token e s = Inr ((butlast (drop (ps_pos s + 1) (qe_chars e)), False), s\<lparr>ps_pos := length (qe_chars e)\<rparr>))"
proof -
  let ?cs = "qe_chars e" and ?i = "ps_pos s"
  have i: "?i < length ?cs" using assms(1) by simp
  have run: "takeWhile (\<lambda>c. c \<noteq> 93) (drop ?i ?cs) = drop ?i ?cs"
    using assms(2) by (auto simp: takeWhile_eq_all_conv dest: in_set_dropD)
  have "skip_while (\<lambda>c. c \<noteq> 93) ?cs ?i = ?i + length (drop ?i ?cs)" by (simp only: skip_while_def run)
  with i have close: "skip_while (\<lambda>c. c \<noteq> 93) ?cs ?i = length ?cs" by simp
  have slice: "text_between ?cs (?i + 1) (length ?cs - 1) = butlast (drop (?i + 1) ?cs)"
    by (simp add: text_between_def butlast_conv_take)
  have "read_value_token e s = read_bracket e s"
    using assms(1) by (simp add: read_value_token_def del: peek_char_Some)
  then show ?thesis
    by (auto simp: read_bracket_def Let_def close slice [simplified])
qed

definition open_env :: "rstr \<Rightarrow> int query_env" where
  "open_env t = \<lparr>qe_world = sample_query_world, qe_chars = t, qe_catalogs = True, qe_detections = True\<rparr>"

theorem unclosed_bracket_witness:
  "read_value_token (open_env (lit ''['')) sample_state = Inl Panic
   \<and> read_value_token (open_env (lit ''[500'')) sample_state = Inr ((lit ''50'', False), sample_state\<lparr>ps_pos := 4\<rparr>)"
proof -
  have "peek_char (open_env (lit ''['')) sample_state = Some 91 \<and> peek_char (open_env (lit ''[500'')) sample_state = Some 91"
    by code_simp
  moreover have "interval_words (lit ''50'') = None" by code_simp
  ultimately show ?thesis
    using unclosed_bracket [of "open_env (lit ''['')" sample_state] unclosed_bracket [of "open_env (lit ''[500'')" sample_state]
    by (auto simp: open_env_def sample_state_def lit_def)
qed

end
