(* ===== verification/Query_Match.thy ===== *)
theory Query_Match
  imports Query_Expr
begin

text \<open>
  Testing an event with an expression of the search language (\<open>src-tauri/src/querylang.rs\<close>): the value of a
  field, the test of a term, the expression; the decision from the raw line and the index
  (\<open>line_check\<close>) that spares parsing it; the literals an expression requires; and the byte search of
  \<open>query.rs\<close> they rest on.

  The values of roles are answered by \<open>entities.rs\<close>, the functions \<open>qc_role\<close> and \<open>qc_entity\<close> of the
  context.
\<close>

section \<open>The byte search\<close>

text \<open>\<open>memchr\<close>: the first position from \<open>i\<close> with a byte that has the property.\<close>

definition first_where :: "(nat \<Rightarrow> bool) \<Rightarrow> octets \<Rightarrow> nat \<Rightarrow> nat option" where
  "first_where P hay i =
     (let k = i + length (takeWhile (\<lambda>b. \<not> P b) (drop i hay)) in if k < length hay then Some k else None)"

definition ascii_upper :: "nat \<Rightarrow> nat" where
  "ascii_upper c = (if 97 \<le> c \<and> c \<le> 122 then c - 32 else c)"

definition first_byte_matches :: "nat \<Rightarrow> nat \<Rightarrow> bool" where
  "first_byte_matches first b = (if is_ascii_alpha first then b = first \<or> b = ascii_upper first else b = first)"

function ci_loop :: "octets \<Rightarrow> nat \<Rightarrow> octets \<Rightarrow> nat \<Rightarrow> bool" where
  "ci_loop hay first rest i =
     (case first_where (first_byte_matches first) hay i of
        None \<Rightarrow> False
      | Some k \<Rightarrow>
          let stop = k + (length rest + 1)
          in if stop \<le> length hay \<and> eq_ignore_ascii_case (take (stop - (k + 1)) (drop (k + 1) hay)) rest then True
             else if length hay \<le> k + 1 then False
             else ci_loop hay first rest (k + 1))"
  by pat_completeness auto
termination
  by (relation "measure (\<lambda>(hay, _, _, i). length hay - i)") (auto simp: first_where_def Let_def split: if_splits)

declare ci_loop.simps [simp del]

definition ci_contains_bytes :: "(rstr \<Rightarrow> rstr) \<Rightarrow> octets \<Rightarrow> octets \<Rightarrow> bool" where
  "ci_contains_bytes lower_case hay needle =
     (if \<not> is_ascii hay \<or> \<not> is_ascii needle
      then str_contains (utf8_lossy needle) (lower_case (utf8_lossy hay))
      else case needle of [] \<Rightarrow> True | first # rest \<Rightarrow> ci_loop hay first rest 0)"

definition contains_ci :: "(rstr \<Rightarrow> rstr) \<Rightarrow> rstr \<Rightarrow> rstr \<Rightarrow> bool" where
  "contains_ci lower_case hay needle = ci_contains_bytes lower_case (as_bytes hay) (as_bytes needle)"

section \<open>The values of an event\<close>

record 'f match_world =
  mw_query :: "'f query_world"
  mw_json :: "json_value \<Rightarrow> rstr"
  mw_iso :: "int \<Rightarrow> rstr"
  mw_event_ref :: "event \<Rightarrow> rstr"

record query_ctx =
  qc_event :: event
  qc_object_only :: bool
  qc_indexed :: bool
  qc_role :: "role \<Rightarrow> rstr option"
  qc_entity :: "role \<Rightarrow> rstr option"

definition skip_in_free_text :: "rstr list" where
  "skip_in_free_text = [lit ''arquivo'', lit ''caminho'']"

text \<open>The text of a field value that free text is tested on.\<close>

definition value_text :: "'f match_world \<Rightarrow> json_value \<Rightarrow> rstr option" where
  "value_text w v =
     (case v of
        VString s \<Rightarrow> Some s
      | VNumber n \<Rightarrow> Some n
      | VBool b \<Rightarrow> Some (if b then lit ''true'' else lit ''false'')
      | VNull \<Rightarrow> None
      | _ \<Rightarrow> Some (mw_json w v))"

definition any_value :: "'f match_world \<Rightarrow> event \<Rightarrow> (rstr \<Rightarrow> bool) \<Rightarrow> bool" where
  "any_value w ev P \<longleftrightarrow>
     P (ev_message ev) \<or> P (ev_source ev) \<or> P (ev_code ev) \<or> P (ev_name ev) \<or> P (ev_description ev)
     \<or> list_ex (\<lambda>(key, v). key \<notin> set skip_in_free_text
                  \<and> (case value_text w v of Some s \<Rightarrow> P s | None \<Rightarrow> False)) (ev_fields ev)"

text \<open>\<open>usize::from_str\<close>.\<close>

definition usize_from_str :: "rstr \<Rightarrow> nat option" where
  "usize_from_str s =
     (let ds = (if s \<noteq> [] \<and> hd s = 43 then tl s else s);
          v = foldl (\<lambda>v c. v * 10 + (c - 48)) 0 ds
      in if ds \<noteq> [] \<and> list_all is_ascii_digit ds \<and> v \<le> u64_max then Some v else None)"

fun walk_path :: "json_value \<Rightarrow> rstr list \<Rightarrow> json_value option" where
  "walk_path v [] = Some v"
| "walk_path v (part # parts) =
     (case (case v of
              VArray xs \<Rightarrow> (case usize_from_str part of Some i \<Rightarrow> if i < length xs then Some (xs ! i) else None | None \<Rightarrow> None)
            | VObject m \<Rightarrow> map_of m part
            | _ \<Rightarrow> None) of
        None \<Rightarrow> None
      | Some x \<Rightarrow> walk_path x parts)"

text \<open>The dots of a path from the last to the first: what is before and after each.\<close>

fun dot_splits :: "rstr \<Rightarrow> rstr \<Rightarrow> (rstr \<times> rstr) list" where
  "dot_splits before [] = []"
| "dot_splits before (c # s) = dot_splits (before @ [c]) s @ (if c = 46 then [(before, s)] else [])"

fun first_prefix :: "(rstr \<times> json_value) list \<Rightarrow> (rstr \<times> rstr) list \<Rightarrow> (json_value \<times> rstr) option" where
  "first_prefix entries [] = None"
| "first_prefix entries ((before, after) # xs) =
     (case map_of entries before of Some v \<Rightarrow> Some (v, after) | None \<Rightarrow> first_prefix entries xs)"

definition field_value :: "event \<Rightarrow> rstr \<Rightarrow> json_value option" where
  "field_value ev path =
     (case map_of (ev_fields ev) path of
        Some v \<Rightarrow> Some v
      | None \<Rightarrow>
          (case List.find (\<lambda>kv. eq_ignore_ascii_case (fst kv) path) (ev_fields ev) of
             Some kv \<Rightarrow> Some (snd kv)
           | None \<Rightarrow>
               (case first_prefix (ev_fields ev) (dot_splits [] path) of
                  None \<Rightarrow> None
                | Some (v, remaining) \<Rightarrow> walk_path v (split_char 46 remaining))))"

definition json_text :: "'f match_world \<Rightarrow> json_value \<Rightarrow> rstr" where
  "json_text w v = (case v of VString s \<Rightarrow> s | _ \<Rightarrow> mw_json w v)"

definition col_ref :: "'f match_world \<Rightarrow> query_ctx \<Rightarrow> rstr \<Rightarrow> rstr option" where
  "col_ref w c col =
     (let ev = qc_event c
      in if col = lit ''id'' then Some (dec (ev_id ev))
         else if col = lit ''event_ref'' then Some (mw_event_ref w ev)
         else if col = lit ''timestamp'' then map_option (mw_iso w) (ev_timestamp ev)
         else if col = lit ''source'' then Some (ev_source ev)
         else if col = lit ''level'' then Some (ev_level ev)
         else if col = lit ''code'' then Some (ev_code ev)
         else if col = lit ''name'' then Some (ev_name ev)
         else if col = lit ''description'' then Some (ev_description ev)
         else if col = lit ''message'' then Some (ev_message ev)
         else if col = lit ''raw'' then Some (ev_raw ev)
         else if col \<noteq> [] \<and> hd col = 64 \<and> map_of (ev_fields ev) col = None
         then (case role_of_column col of Some r \<Rightarrow> qc_entity c r | None \<Rightarrow> None)
         else map_option (json_text w) (map_of (ev_fields ev) col))"

definition at_role :: "rstr \<Rightarrow> role option" where
  "at_role name = (if name \<noteq> [] \<and> hd name = 64 then role_of_column name else None)"

text \<open>\<open>Ctx::field\<close>: the column, then a nested path, then a name in another case, then the role.\<close>

definition named_value :: "'f match_world \<Rightarrow> query_ctx \<Rightarrow> query_field \<Rightarrow> rstr option" where
  "named_value w c f =
     (let ev = qc_event c; name = qf_name f
      in case col_ref w c name of
           Some v \<Rightarrow> Some v
         | None \<Rightarrow>
             (case field_value ev name of
                Some v \<Rightarrow> Some (json_text w v)
              | None \<Rightarrow>
                  (case (if qf_ci f then List.find (\<lambda>kv. eq_ignore_ascii_case (fst kv) name) (ev_fields ev) else None) of
                     Some kv \<Rightarrow> Some (json_text w (snd kv))
                   | None \<Rightarrow> (case qf_role f of Some r \<Rightarrow> qc_role c r | None \<Rightarrow> None))))"

definition ctx_field :: "'f match_world \<Rightarrow> query_ctx \<Rightarrow> query_field \<Rightarrow> rstr option" where
  "ctx_field w c f =
     (let ev = qc_event c; name = qf_name f
      in if qc_object_only c then map_option (json_text w) (field_value ev name)
         else case at_role name of
                Some r \<Rightarrow> if map_of (ev_fields ev) name = None then qc_role c r else named_value w c f
              | None \<Rightarrow> named_value w c f)"

definition ctx_number :: "'f match_world \<Rightarrow> query_ctx \<Rightarrow> query_field \<Rightarrow> 'f option" where
  "ctx_number w c f =
     (let q = mw_query w
      in if qf_name f = lit ''timestamp'' \<and> \<not> qc_object_only c
         then (case ev_timestamp (qc_event c) of
                 Some t \<Rightarrow> if qc_indexed c \<and> t = 0 then None else Some (fl_of_int (qw_floats q) t)
               | None \<Rightarrow> None)
         else (case ctx_field w c f of None \<Rightarrow> None | Some v \<Rightarrow> text_number (qw_floats q) (qw_lower q) v))"

section \<open>Addresses\<close>

text \<open>\<open>str::rsplit_once\<close> at a character.\<close>

definition rsplit_once :: "nat \<Rightarrow> rstr \<Rightarrow> (rstr \<times> rstr) option" where
  "rsplit_once c s =
     (if c \<in> set s
      then Some (rev (tl (dropWhile (\<lambda>x. x \<noteq> c) (rev s))), rev (takeWhile (\<lambda>x. x \<noteq> c) (rev s))) else None)"

definition parse_ip :: "rstr \<Rightarrow> ip_addr option" where
  "parse_ip val =
     (let v = trim_matches (\<lambda>c. c \<in> {91, 93, 34}) (trim val);
          with_port = (case rsplit_once 58 v of
             Some (host, port) \<Rightarrow>
               if list_all is_ascii_digit port \<and> 46 \<in> set host
               then ip_from_str (trim_matches (\<lambda>c. c \<in> {91, 93}) host) else None
           | None \<Rightarrow> None)
      in case ip_from_str v of
           Some ip \<Rightarrow> Some ip
         | None \<Rightarrow>
             (case with_port of
                Some ip \<Rightarrow> Some ip
              | None \<Rightarrow> (case strip_prefix (lit ''::ffff:'') v of Some r \<Rightarrow> ip_from_str r | None \<Rightarrow> None)))"

section \<open>Terms\<close>

definition compare :: "'f floats \<Rightarrow> cmp \<Rightarrow> 'f \<Rightarrow> 'f \<Rightarrow> bool" where
  "compare fl c n bound =
     (case c of
        Gt \<Rightarrow> fl_less fl bound n
      | Gte \<Rightarrow> fl_le fl bound n
      | Lt \<Rightarrow> fl_less fl n bound
      | Lte \<Rightarrow> fl_le fl n bound)"

definition number_matches :: "'f floats \<Rightarrow> 'f query_matcher \<Rightarrow> 'f \<Rightarrow> bool" where
  "number_matches fl m n =
     (case m of
        MCmp c bound \<Rightarrow> compare fl c n bound
      | MRange lo hi \<Rightarrow> fl_le fl lo n \<and> fl_le fl n hi
      | _ \<Rightarrow> False)"

definition equals_text :: "(rstr \<Rightarrow> rstr) \<Rightarrow> rstr \<Rightarrow> rstr \<Rightarrow> bool" where
  "equals_text lower_case needle val \<longleftrightarrow>
     (let v = trim val
      in (utf8_len v = utf8_len needle \<and> eq_ignore_ascii_case v needle) \<or> lower_case v = needle)"

definition value_matches :: "'f match_world \<Rightarrow> 'f query_matcher \<Rightarrow> rstr \<Rightarrow> bool" where
  "value_matches w m val =
     (let q = mw_query w; fl = qw_floats q; lower_case = qw_lower q
      in case m of
           MContains needle \<Rightarrow> contains_ci lower_case val needle
         | MEquals needle \<Rightarrow> equals_text lower_case needle val
         | MExact expected \<Rightarrow> val = expected
         | MWildcard re \<Rightarrow> re_is_match re val
         | MRegex re \<Rightarrow> re_is_match re val
         | MCidr nets \<Rightarrow> (case parse_ip val of None \<Rightarrow> False | Some ip \<Rightarrow> list_ex (\<lambda>n. net_contains n ip) nets)
         | MExists \<Rightarrow> trim val \<noteq> []
         | MSet vs \<Rightarrow> trim val \<in> set vs \<or> lower_case (trim val) \<in> set vs
         | MLevel label \<Rightarrow> val = label
         | MCmp _ _ \<Rightarrow> (case text_number fl lower_case val of None \<Rightarrow> False | Some n \<Rightarrow> number_matches fl m n)
         | MRange _ _ \<Rightarrow> (case text_number fl lower_case val of None \<Rightarrow> False | Some n \<Rightarrow> number_matches fl m n)
         | MTimeCmp c bound \<Rightarrow>
             (case text_to_ms (qw_instants q) val of None \<Rightarrow> False | Some ms \<Rightarrow> compare fl c (fl_of_int fl ms) bound)
         | MTimeRange lo hi \<Rightarrow>
             (case text_to_ms (qw_instants q) val of
                None \<Rightarrow> False | Some ms \<Rightarrow> fl_le fl lo (fl_of_int fl ms) \<and> fl_le fl (fl_of_int fl ms) hi)
         | _ \<Rightarrow> False)"

definition free_matches :: "'f match_world \<Rightarrow> 'f query_matcher \<Rightarrow> event \<Rightarrow> bool" where
  "free_matches w m ev =
     (case m of
        MContains needle \<Rightarrow> any_value w ev (\<lambda>v. contains_ci (qw_lower (mw_query w)) v needle)
      | MWildcard re \<Rightarrow> any_value w ev (re_is_match re)
      | MRegex re \<Rightarrow> any_value w ev (re_is_match re)
      | _ \<Rightarrow> False)"

definition all_matches :: "'f match_world \<Rightarrow> 'f query_matcher \<Rightarrow> event \<Rightarrow> bool" where
  "all_matches w m ev =
     (let search = (\<lambda>needle. any_value w ev (\<lambda>v. contains_ci (qw_lower (mw_query w)) v needle)
                             \<or> contains_ci (qw_lower (mw_query w)) (ev_raw ev) needle)
      in case m of
           MContains needle \<Rightarrow> search needle
         | MEquals needle \<Rightarrow> search needle
         | MWildcard re \<Rightarrow> any_value w ev (re_is_match re) \<or> re_is_match re (ev_raw ev)
         | MRegex re \<Rightarrow> any_value w ev (re_is_match re) \<or> re_is_match re (ev_raw ev)
         | MExact val \<Rightarrow> any_value w ev (\<lambda>v. v = val)
         | MThreat p \<Rightarrow> p ev
         | MDetection p \<Rightarrow> p ev
         | _ \<Rightarrow> False)"

definition field_matches :: "'f match_world \<Rightarrow> query_field \<Rightarrow> 'f query_matcher \<Rightarrow> query_ctx \<Rightarrow> bool" where
  "field_matches w f m c =
     (let ev = qc_event c; q = mw_query w
      in case m of
           MFieldRef other negate \<Rightarrow>
             (case (ctx_field w c f, ctx_field w c other) of
                (Some l, Some r) \<Rightarrow> (qw_lower q l = qw_lower q r) \<noteq> negate
              | _ \<Rightarrow> False)
         | MPresent \<Rightarrow> field_value ev (qf_name f) \<noteq> None \<or> ctx_field w c f \<noteq> None
         | MNull \<Rightarrow> (case field_value ev (qf_name f) of Some v \<Rightarrow> v = VNull | None \<Rightarrow> ctx_field w c f = None)
         | MThreat p \<Rightarrow> p ev
         | MDetection p \<Rightarrow> p ev
         | MCmp _ _ \<Rightarrow> (case ctx_number w c f of None \<Rightarrow> False | Some n \<Rightarrow> number_matches (qw_floats q) m n)
         | MRange _ _ \<Rightarrow> (case ctx_number w c f of None \<Rightarrow> False | Some n \<Rightarrow> number_matches (qw_floats q) m n)
         | _ \<Rightarrow> (case ctx_field w c f of None \<Rightarrow> False | Some v \<Rightarrow> value_matches w m v))"

definition term_matches :: "'f match_world \<Rightarrow> 'f query_term \<Rightarrow> query_ctx \<Rightarrow> bool" where
  "term_matches w t c =
     (case te_field t of
        None \<Rightarrow> free_matches w (te_matcher t) (qc_event c)
      | Some f \<Rightarrow>
          if qf_name f = lit ''_all'' then all_matches w (te_matcher t) (qc_event c)
          else field_matches w f (te_matcher t) c)"

section \<open>Expressions\<close>

fun expr_matches :: "'f match_world \<Rightarrow> query_ctx \<Rightarrow> 'f query_expr \<Rightarrow> bool" where
  "expr_matches w c EAll = True"
| "expr_matches w c (EAnd es) = list_all (expr_matches w c) es"
| "expr_matches w c (EOr es) = list_ex (expr_matches w c) es"
| "expr_matches w c (ENot e) = (\<not> expr_matches w c e)"
| "expr_matches w c (ETerm t) = term_matches w t c"

section \<open>Deciding from the line\<close>

record line_meta =
  lm_ts :: int
  lm_level :: level_class

definition missing_from_line :: "'f match_world \<Rightarrow> octets \<Rightarrow> rstr list \<Rightarrow> bool option" where
  "missing_from_line w line candidates =
     (if 64 < length candidates \<or> list_ex (\<lambda>v. 58 \<in> set v) candidates then None
      else if list_ex (\<lambda>v. ci_contains_bytes (qw_lower (mw_query w)) line (as_bytes v)) candidates then None
      else Some False)"

definition literal_field :: "query_field \<Rightarrow> bool" where
  "literal_field f = (case qf_role f of Some r \<Rightarrow> literal_role r | None \<Rightarrow> False)"

definition term_line_check :: "'f match_world \<Rightarrow> 'f query_term \<Rightarrow> line_meta \<Rightarrow> octets \<Rightarrow> bool \<Rightarrow> bool option" where
  "term_line_check w t meta line escaped =
     (let fl = qw_floats (mw_query w); ts = fl_of_int fl (lm_ts meta)
      in case te_field t of
           None \<Rightarrow>
             (case te_matcher t of
                MContains needle \<Rightarrow>
                  if escaped \<or> needle = [] then None
                  else if ci_contains_bytes (qw_lower (mw_query w)) line (as_bytes needle) then None
                  else Some False
              | _ \<Rightarrow> None)
         | Some f \<Rightarrow>
             (case te_matcher t of
                MLevel label \<Rightarrow>
                  if qf_name f = lit ''level''
                  then (case label_class label of
                          None \<Rightarrow> None
                        | Some class \<Rightarrow> if lm_level meta = LvOther then None else Some (lm_level meta = class))
                  else None
              | MCmp c bound \<Rightarrow>
                  if qf_name f = lit ''timestamp''
                  then Some (lm_ts meta \<noteq> 0 \<and> compare fl c ts bound) else None
              | MRange lo hi \<Rightarrow>
                  if qf_name f = lit ''timestamp''
                  then Some (lm_ts meta \<noteq> 0 \<and> fl_le fl lo ts \<and> fl_le fl ts hi) else None
              | MSet vs \<Rightarrow>
                  if literal_field f \<and> \<not> escaped then missing_from_line w line vs else None
              | MEquals v \<Rightarrow>
                  if literal_field f \<and> \<not> escaped then missing_from_line w line [v] else None
              | _ \<Rightarrow> None))"

text \<open>The loops over the items: the first decided item decides, and an unknown one keeps the answer open.\<close>

fun join_checks :: "bool \<Rightarrow> bool \<Rightarrow> bool option list \<Rightarrow> bool option" where
  "join_checks decides unknown [] = (if unknown then None else Some (\<not> decides))"
| "join_checks decides unknown (None # rs) = join_checks decides True rs"
| "join_checks decides unknown (Some b # rs) = (if b = decides then Some b else join_checks decides unknown rs)"

fun line_check :: "'f match_world \<Rightarrow> line_meta \<Rightarrow> octets \<Rightarrow> bool \<Rightarrow> 'f query_expr \<Rightarrow> bool option" where
  "line_check w meta line escaped EAll = Some True"
| "line_check w meta line escaped (EAnd es) = join_checks False False (map (line_check w meta line escaped) es)"
| "line_check w meta line escaped (EOr es) = join_checks True False (map (line_check w meta line escaped) es)"
| "line_check w meta line escaped (ENot e) = map_option Not (line_check w meta line escaped e)"
| "line_check w meta line escaped (ETerm t) = term_line_check w t meta line escaped"

end
