(* ===== verification/Query_Check.thy ===== *)
theory Query_Check
  imports Query_Laws Query_Match "HOL-Library.Sublist"
begin

text \<open>
  What testing an event means: simplification changes no answer, the byte search finds exactly the
  occurrences that differ in the case of ASCII letters, and a decision taken from the raw line and the
  index is the one the parsed event would give.
\<close>

section \<open>Simplification\<close>

text \<open>Simplifying an expression changes the answer for no event.\<close>

lemma simplify_matches: "expr_matches w c (simplify x) = expr_matches w c x"
  by (induction x rule: simplify.induct) (auto simp: list_all_iff list_ex_iff)

section \<open>The byte search\<close>

lemma first_where_Some:
  "first_where P hay i = Some k \<longleftrightarrow> i \<le> k \<and> k < length hay \<and> P (hay ! k) \<and> (\<forall>j. i \<le> j \<and> j < k \<longrightarrow> \<not> P (hay ! j))"
proof
  assume L: "first_where P hay i = Some k"
  define n where "n = length (takeWhile (\<lambda>b. \<not> P b) (drop i hay))"
  have k: "k = i + n" "k < length hay" using L by (auto simp: first_where_def Let_def n_def split: if_splits)
  then have n: "n < length (drop i hay)" by auto
  have "P (drop i hay ! n)" using nth_length_takeWhile [of "\<lambda>b. \<not> P b" "drop i hay"] n by (simp add: n_def)
  moreover have "\<not> P (hay ! j)" if "i \<le> j" "j < k" for j
  proof -
    have "j - i < n" using that k by auto
    then have "\<not> P (takeWhile (\<lambda>b. \<not> P b) (drop i hay) ! (j - i))"
      unfolding n_def using nth_mem set_takeWhileD by metis
    then show ?thesis using that \<open>j - i < n\<close> k by (simp add: takeWhile_nth n_def)
  qed
  ultimately show "i \<le> k \<and> k < length hay \<and> P (hay ! k) \<and> (\<forall>j. i \<le> j \<and> j < k \<longrightarrow> \<not> P (hay ! j))"
    using k by auto
next
  assume R: "i \<le> k \<and> k < length hay \<and> P (hay ! k) \<and> (\<forall>j. i \<le> j \<and> j < k \<longrightarrow> \<not> P (hay ! j))"
  then have "takeWhile (\<lambda>b. \<not> P b) (drop i hay) = take (k - i) (drop i hay)"
    by (intro takeWhile_eq_take_P_nth) auto
  then have "length (takeWhile (\<lambda>b. \<not> P b) (drop i hay)) = k - i" using R by auto
  then show "first_where P hay i = Some k" using R by (simp add: first_where_def)
qed

lemma first_where_None: "first_where P hay i = None \<longleftrightarrow> (\<forall>k. i \<le> k \<and> k < length hay \<longrightarrow> \<not> P (hay ! k))"
proof
  assume N: "first_where P hay i = None"
  show "\<forall>k. i \<le> k \<and> k < length hay \<longrightarrow> \<not> P (hay ! k)"
  proof (intro allI impI notI)
    fix k assume k: "i \<le> k \<and> k < length hay" "P (hay ! k)"
    define m where "m = (LEAST j. i \<le> j \<and> P (hay ! j))"
    have "i \<le> m \<and> P (hay ! m)" unfolding m_def by (rule LeastI [of _ k]) (use k in auto)
    moreover have "m \<le> k" unfolding m_def by (rule Least_le) (use k in auto)
    moreover have "\<not> P (hay ! j)" if "i \<le> j" "j < m" for j
      using not_less_Least [of j "\<lambda>j. i \<le> j \<and> P (hay ! j)"] that m_def by auto
    ultimately have "first_where P hay i = Some m" using k by (subst first_where_Some) auto
    with N show False by simp
  qed
next
  assume "\<forall>k. i \<le> k \<and> k < length hay \<longrightarrow> \<not> P (hay ! k)"
  then show "first_where P hay i = None" by (cases "first_where P hay i") (auto simp: first_where_Some)
qed

text \<open>An occurrence at a position: the first byte in either case when it is a letter, the others in any case.\<close>

definition occurs_at :: "octets \<Rightarrow> nat \<Rightarrow> octets \<Rightarrow> nat \<Rightarrow> bool" where
  "occurs_at hay first rest k \<longleftrightarrow> k + length rest < length hay \<and> first_byte_matches first (hay ! k)
     \<and> eq_ignore_ascii_case (take (length rest) (drop (k + 1) hay)) rest"

lemma ci_loop_occurs: "ci_loop hay first rest i \<longleftrightarrow> (\<exists>k. i \<le> k \<and> occurs_at hay first rest k)"
proof (induction hay first rest i rule: ci_loop.induct)
  case (1 hay first rest i)
  show ?case
  proof (cases "first_where (first_byte_matches first) hay i")
    case None
    then have "\<not> ci_loop hay first rest i" by (subst ci_loop.simps) simp
    moreover have "\<not> (\<exists>k. i \<le> k \<and> occurs_at hay first rest k)"
      using None by (auto simp: first_where_None occurs_at_def)
    ultimately show ?thesis by blast
  next
    case (Some k)
    let ?hit = "k + (length rest + 1) \<le> length hay \<and> eq_ignore_ascii_case (take (length rest) (drop (k + 1) hay)) rest"
    have k: "i \<le> k" "k < length hay" "first_byte_matches first (hay ! k)"
      "\<And>j. i \<le> j \<Longrightarrow> j < k \<Longrightarrow> \<not> first_byte_matches first (hay ! j)"
      using Some by (auto simp: first_where_Some)
    have hit: "?hit \<longleftrightarrow> occurs_at hay first rest k" using k by (auto simp: occurs_at_def)
    have from_k: "(\<exists>j. i \<le> j \<and> occurs_at hay first rest j) \<longleftrightarrow> occurs_at hay first rest k \<or> (\<exists>j. k + 1 \<le> j \<and> occurs_at hay first rest j)"
      using k(1,4) by (metis occurs_at_def Suc_eq_plus1 Suc_leI le_less_linear le_trans nat_less_le le_add1)
    have step: "ci_loop hay first rest i \<longleftrightarrow> (if ?hit then True else if length hay \<le> k + 1 then False else ci_loop hay first rest (k + 1))"
      by (subst ci_loop.simps) (simp add: Some Let_def)
    show ?thesis
    proof (cases ?hit)
      case True
      then show ?thesis using step hit from_k by auto
    next
      case False
      then show ?thesis
      proof (cases "length hay \<le> k + 1")
        case True
        then have "\<not> (\<exists>j. k + 1 \<le> j \<and> occurs_at hay first rest j)" by (auto simp: occurs_at_def)
        then show ?thesis using step hit from_k False True by auto
      next
        case more: False
        have "\<not> (let stop = k + (length rest + 1) in stop \<le> length hay \<and>
            eq_ignore_ascii_case (take (stop - (k + 1)) (drop (k + 1) hay)) rest)"
          using False by (simp add: Let_def)
        then have "ci_loop hay first rest (k + 1) \<longleftrightarrow> (\<exists>j. k + 1 \<le> j \<and> occurs_at hay first rest j)"
          using "1.IH" [OF Some refl] more by (simp add: Let_def)
        then show ?thesis using step hit from_k False more by auto
      qed
    qed
  qed
qed

lemma first_byte_lower: "ascii_lower first = first \<Longrightarrow> first_byte_matches first b \<longleftrightarrow> ascii_lower b = first"
  by (auto simp: first_byte_matches_def ascii_lower_def ascii_upper_def is_ascii_alpha_def split: if_splits)

lemma occurs_at_lower:
  assumes "map ascii_lower (first # rest) = first # rest"
  shows "occurs_at hay first rest k \<longleftrightarrow> take (length rest + 1) (drop k (map ascii_lower hay)) = first # rest"
proof (cases "k < length hay")
  case True
  have "take (length rest + 1) (drop k (map ascii_lower hay))
      = ascii_lower (hay ! k) # take (length rest) (drop (k + 1) (map ascii_lower hay))"
    using True by (simp add: Cons_nth_drop_Suc [symmetric] nth_map flip: drop_map)
  moreover have "length (take (length rest) (drop (k + 1) hay)) = length rest \<longleftrightarrow> k + length rest < length hay"
    using True by auto
  moreover have "eq_ignore_ascii_case (take (length rest) (drop (k + 1) hay)) rest
      \<longleftrightarrow> take (length rest) (drop (k + 1) (map ascii_lower hay)) = rest"
    using assms by (simp add: eq_ignore_ascii_case_def take_map drop_map)
  moreover have "eq_ignore_ascii_case (take (length rest) (drop (k + 1) hay)) rest
      \<Longrightarrow> length (take (length rest) (drop (k + 1) hay)) = length rest"
    unfolding eq_ignore_ascii_case_def by (metis length_map)
  ultimately show ?thesis using assms by (auto simp: occurs_at_def first_byte_lower)
qed (simp add: occurs_at_def)

lemma sublist_take_drop: "sublist xs ys \<longleftrightarrow> (\<exists>k. take (length xs) (drop k ys) = xs)"
proof
  assume "sublist xs ys"
  then obtain ps ss where "ys = ps @ xs @ ss" by (auto simp: sublist_def)
  then have "take (length xs) (drop (length ps) ys) = xs" by simp
  then show "\<exists>k. take (length xs) (drop k ys) = xs" ..
next
  assume "\<exists>k. take (length xs) (drop k ys) = xs"
  then obtain k where "take (length xs) (drop k ys) = xs" ..
  then have "ys = take k ys @ xs @ drop (length xs) (drop k ys)" by (metis append_take_drop_id)
  then show "sublist xs ys" unfolding sublist_def by blast
qed

text \<open>
  C20. On ASCII text the byte search answers whether the lower-case needle occurs in the text lowered: the
  search by the first byte misses no occurrence and reports no other.
\<close>

theorem ci_search_exact:
  assumes "is_ascii hay" "is_ascii needle" "map ascii_lower needle = needle"
  shows "ci_contains_bytes lower_case hay needle \<longleftrightarrow> sublist needle (map ascii_lower hay)"
proof (cases needle)
  case Nil
  then show ?thesis using assms by (simp add: ci_contains_bytes_def)
next
  case (Cons first rest)
  then have "occurs_at hay first rest = (\<lambda>k. take (length needle) (drop k (map ascii_lower hay)) = needle)"
    using assms(3) occurs_at_lower [of first rest hay] by auto
  moreover have "ci_contains_bytes lower_case hay needle = ci_loop hay first rest 0"
    using Cons assms(1,2) by (simp add: ci_contains_bytes_def)
  ultimately show ?thesis by (simp only: ci_loop_occurs sublist_take_drop) simp
qed

definition sample_line :: octets where "sample_line = lit ''GET /Login 500''"

theorem ci_search_exact_witness:
  "ci_contains_bytes (map ascii_lower) sample_line (lit ''/login'')
   \<and> \<not> ci_contains_bytes (map ascii_lower) sample_line (lit ''logins'')"
proof -
  have a: "is_ascii sample_line" "is_ascii (lit ''/login'')" "is_ascii (lit ''logins'')"
    "map ascii_lower (lit ''/login'') = lit ''/login''" "map ascii_lower (lit ''logins'') = lit ''logins''"
    by code_simp+
  have "sublist (lit ''/login'') (map ascii_lower sample_line)" "\<not> sublist (lit ''logins'') (map ascii_lower sample_line)"
    by code_simp+
  then show ?thesis using ci_search_exact [OF a(1,2,4)] ci_search_exact [OF a(1,3,5)] by blast
qed

section \<open>What the parser builds\<close>

text \<open>The fields of an expression are those the names resolve to, and what \<open>Equals\<close> compares with is lowered.\<close>

fun expr_terms :: "'f query_expr \<Rightarrow> 'f query_term list" where
  "expr_terms EAll = []"
| "expr_terms (ETerm t) = [t]"
| "expr_terms (ENot e) = expr_terms e"
| "expr_terms (EAnd es) = concat (map expr_terms es)"
| "expr_terms (EOr es) = concat (map expr_terms es)"

definition matcher_made :: "(rstr \<Rightarrow> rstr) \<Rightarrow> 'f query_matcher \<Rightarrow> bool" where
  "matcher_made lower_case m \<longleftrightarrow> (\<forall>n. m = MEquals n \<longrightarrow> n \<in> range lower_case)"

definition term_made :: "(rstr \<Rightarrow> rstr) \<Rightarrow> 'f query_term \<Rightarrow> bool" where
  "term_made lower_case t \<longleftrightarrow> (\<forall>f. te_field t = Some f \<longrightarrow> f \<in> range (resolve_field lower_case))
     \<and> matcher_made lower_case (te_matcher t)"

definition expr_made :: "(rstr \<Rightarrow> rstr) \<Rightarrow> 'f query_expr \<Rightarrow> bool" where
  "expr_made lower_case x \<longleftrightarrow> (\<forall>t \<in> set (expr_terms x). term_made lower_case t)"

lemma expr_made_simps [simp]:
  "expr_made l EAll" "expr_made l (ENot x) = expr_made l x"
  "expr_made l (EAnd xs) = (\<forall>x \<in> set xs. expr_made l x)" "expr_made l (EOr xs) = (\<forall>x \<in> set xs. expr_made l x)"
  "expr_made l (free_term m) = matcher_made l m"
  "expr_made l (field_term f m) = (f \<in> range (resolve_field l) \<and> matcher_made l m)"
  by (auto simp: expr_made_def term_made_def free_term_def field_term_def)

lemma expr_made_nots [simp]: "expr_made l ((ENot ^^ k) x) = expr_made l x"
  by (induction k) auto

lemma matcher_made_simps [simp]:
  "matcher_made l (MContains n)" "matcher_made l (MExact n)" "matcher_made l (MWildcard re)" "matcher_made l (MRegex re)"
  "matcher_made l (MCidr nets)" "matcher_made l (MCmp c b)" "matcher_made l (MRange lo hi)" "matcher_made l (MTimeCmp c b)"
  "matcher_made l (MTimeRange lo hi)" "matcher_made l MExists" "matcher_made l (MSet vs)" "matcher_made l (MLevel v)"
  "matcher_made l (MThreat p)" "matcher_made l (MDetection p)" "matcher_made l (MEquals (l v))"
  by (auto simp: matcher_made_def)

text \<open>A property of every result a program can end in, whatever the state it starts from.\<close>

definition gives :: "'a pm \<Rightarrow> ('a \<Rightarrow> bool) \<Rightarrow> bool" where
  "gives m P \<longleftrightarrow> (\<forall>s x s'. m s = Inr (x, s') \<longrightarrow> P x)"

lemma gives_run: "gives m P \<Longrightarrow> m s = Inr (x, s') \<Longrightarrow> P x"
  by (auto simp: gives_def)

lemma gives_ret: "P x \<Longrightarrow> gives (ret x) P"
  by (auto simp: gives_def ret_def)

lemma gives_fail: "gives (fail err) P" "gives (fail_at m) P"
  by (auto simp: gives_def fail_def fail_at_def)

lemma gives_any: "gives m (\<lambda>_. True)"
  by (simp add: gives_def)

lemma gives_then: "gives m R \<Longrightarrow> (\<And>x. R x \<Longrightarrow> gives (f x) P) \<Longrightarrow> gives (and_then m f) P"
  by (fastforce simp: gives_def and_then_def split: sum.splits)

lemma gives_after: "(\<And>x. gives (f x) P) \<Longrightarrow> gives (and_then m f) P"
  by (rule gives_then [OF gives_any])

lemmas gives_rules = gives_ret gives_fail

lemma detection_made: "detection_matcher e val = Inr m \<Longrightarrow> matcher_made l m"
  by (auto simp: detection_matcher_def split: sum.splits option.splits if_splits)

lemma interval_made: "interval_matcher e name val = Inr (Some m) \<Longrightarrow> matcher_made l m"
  by (auto simp: interval_matcher_def Let_def split: option.splits prod.splits if_splits)

lemma plain_made: "matcher_made (qw_lower (qe_world e)) (plain_matcher e field val)"
  by (simp add: plain_matcher_def)

lemma smart_made: "gives (smart e field val quoted) (matcher_made (qw_lower (qe_world e)))"
proof -
  have "gives (unquoted_matcher e field val) (matcher_made (qw_lower (qe_world e)))"
    unfolding unquoted_matcher_def using interval_made [of e "qf_name field" val] plain_made
    by (auto intro!: gives_rules gives_after split: option.splits sum.splits)
  then show ?thesis unfolding smart_def using detection_made [of e val] plain_made
    by (auto intro!: gives_rules split: sum.splits)
qed

definition ends :: "query_error + 'a \<times> pstate \<Rightarrow> ('a \<Rightarrow> bool) \<Rightarrow> bool" where
  "ends r P \<longleftrightarrow> (\<forall>x s'. r = Inr (x, s') \<longrightarrow> P x)"

lemma ends_simps [simp]:
  "ends (Inl err) P" "ends (Inr (x, s)) P = P x" "ends (ret x s) P = P x" "ends (fail err s) P" "ends (fail_at m s) P"
  by (auto simp: ends_def ret_def fail_def fail_at_def)

lemma givesI: "(\<And>s. ends (m s) P) \<Longrightarrow> gives m P"
  by (auto simp: gives_def ends_def)

lemma gives_ends: "gives m P \<Longrightarrow> ends (m s) P"
  by (auto simp: gives_def ends_def)

lemma ends_then: "gives m R \<Longrightarrow> (\<And>x s'. R x \<Longrightarrow> ends (f x s') P) \<Longrightarrow> ends (and_then m f s) P"
  by (fastforce simp: ends_def gives_def and_then_def split: sum.splits)

lemma ends_after: "(\<And>x s'. ends (f x s') P) \<Longrightarrow> ends (and_then m f s) P"
  by (rule ends_then [OF gives_any])

lemma list_matchers_made:
  assumes "field \<in> range (resolve_field (qw_lower (qe_world e)))"
  shows "gives (list_matchers e field vs) (\<lambda>(nets, rest). \<forall>x \<in> set rest. expr_made (qw_lower (qe_world e)) x)"
proof (induction vs)
  case Nil
  show ?case by (simp add: gives_rules)
next
  case (Cons v vs)
  show ?case unfolding list_matchers.simps
    by (rule gives_after, rule gives_then [OF smart_made], rule gives_then [OF Cons.IH])
      (use assms in \<open>auto intro!: gives_ret split: query_matcher.splits\<close>)
qed

lemma list_expr_made:
  assumes f: "field \<in> range (resolve_field (qw_lower (qe_world e)))"
  shows "gives (list_expr e field vs) (expr_made (qw_lower (qe_world e)))"
proof -
  have "gives (and_then (list_matchers e field vs) (\<lambda>(nets, rest).
      let all = rest @ (if nets \<noteq> [] then [field_term field (MCidr nets)] else [])
      in ret (case all of [x] \<Rightarrow> x | _ \<Rightarrow> EOr all))) (expr_made (qw_lower (qe_world e)))"
    by (rule gives_then [OF list_matchers_made [OF f]])
      (use f in \<open>auto simp: Let_def intro!: gives_ret split: list.splits\<close>)
  then show ?thesis unfolding list_expr_def using f by (auto intro: gives_ret)
qed

lemma single_value_made:
  assumes f: "field \<in> range (resolve_field (qw_lower (qe_world e)))"
  shows "gives (single_value e field op val quoted) (expr_made (qw_lower (qe_world e)))"
proof -
  have smart: "gives (and_then (smart e field val q) (\<lambda>m. ret (field_term field m))) (expr_made (qw_lower (qe_world e)))"
    "gives (and_then (smart e field val q) (\<lambda>m. ret (ENot (field_term field m)))) (expr_made (qw_lower (qe_world e)))" for q
    by (rule gives_then [OF smart_made], rule gives_ret, simp add: f)+
  have "gives (compare_matcher e field op val) (matcher_made (qw_lower (qe_world e)))"
    by (rule givesI) (auto simp: compare_matcher_def split: option.splits)
  then have "gives (and_then (compare_matcher e field op val) (\<lambda>m. ret (field_term field m))) (expr_made (qw_lower (qe_world e)))"
    by (rule gives_then) (simp add: gives_ret f)
  with smart show ?thesis unfolding single_value_def
    by (cases op) (auto simp: f intro: gives_ret gives_after)
qed

lemma parse_value_made:
  assumes f: "field \<in> range (resolve_field (qw_lower (qe_world e)))"
  shows "gives (parse_value e field op) (expr_made (qw_lower (qe_world e)))"
proof (rule givesI)
  fix s
  show "ends (parse_value e field op s) (expr_made (qw_lower (qe_world e)))"
    unfolding parse_value_def Let_def
    using f by (auto intro!: ends_after gives_ends [OF list_expr_made] gives_ends [OF single_value_made])
qed

lemma parse_term_made: "gives (parse_term e) (expr_made (qw_lower (qe_world e)))"
proof -
  have bare: "gives (bare_term e) (expr_made (qw_lower (qe_world e)))"
    unfolding bare_term_def by (auto intro!: gives_after gives_rules)
  show ?thesis unfolding parse_term_def
    by (rule gives_after, rule givesI)
      (auto intro!: ends_after gives_ends [OF parse_value_made] gives_ends [OF bare] split: option.splits)
qed

lemma parse_unary_made:
  assumes inner: "gives inner (expr_made (qw_lower (qe_world e)))"
  shows "gives (parse_unary e inner) (expr_made (qw_lower (qe_world e)))"
proof -
  have primary: "gives (parse_primary e inner) (expr_made (qw_lower (qe_world e)))"
    unfolding parse_primary_def
    by (rule gives_after, rule givesI)
      (auto intro!: ends_after ends_then [OF inner] gives_ends [OF parse_term_made] split: option.splits)
  show ?thesis unfolding parse_unary_def
    by (rule gives_after, rule givesI) (auto intro!: ends_then [OF primary])
qed

lemma and_items_made:
  assumes "gives inner (expr_made (qw_lower (qe_world e)))"
  shows "\<forall>x \<in> set xs. expr_made (qw_lower (qe_world e)) x \<Longrightarrow>
    gives (and_items e inner n xs) (\<lambda>ys. \<forall>y \<in> set ys. expr_made (qw_lower (qe_world e)) y)"
proof (induction n arbitrary: xs)
  case (Suc n)
  show ?case unfolding and_items.simps
    by (rule gives_after, rule givesI)
      (auto simp: Suc.prems intro!: ends_after ends_then [OF parse_unary_made [OF assms]] gives_ends [OF Suc.IH])
qed (simp add: gives_fail)

lemma parse_and_made:
  assumes "gives inner (expr_made (qw_lower (qe_world e)))"
  shows "gives (parse_and e inner) (expr_made (qw_lower (qe_world e)))"
  unfolding parse_and_def
  by (rule gives_then [OF parse_unary_made [OF assms]], rule gives_then [OF and_items_made [OF assms]])
    (auto intro!: gives_ret split: list.splits)

lemma or_items_made:
  assumes "gives inner (expr_made (qw_lower (qe_world e)))"
  shows "\<forall>x \<in> set xs. expr_made (qw_lower (qe_world e)) x \<Longrightarrow>
    gives (or_items e inner n xs) (\<lambda>ys. \<forall>y \<in> set ys. expr_made (qw_lower (qe_world e)) y)"
proof (induction n arbitrary: xs)
  case (Suc n)
  show ?case unfolding or_items.simps
    by (rule gives_after, rule gives_after, rule givesI)
      (auto simp: Suc.prems intro!: ends_after ends_then [OF parse_and_made [OF assms]] gives_ends [OF Suc.IH])
qed (simp add: gives_fail)

lemma parse_or_made: "gives (parse_or e n) (expr_made (qw_lower (qe_world e)))"
proof (induction n)
  case (Suc n)
  show ?case unfolding parse_or.simps
    by (rule gives_after, rule givesI)
      (auto intro!: ends_then [OF parse_and_made [OF Suc.IH]] ends_then [OF or_items_made [OF Suc.IH]] simp del: or_items.simps split: list.splits)
qed (simp add: gives_fail)

lemma simplify_made: "expr_made l x \<Longrightarrow> expr_made l (simplify x)"
  by (induction x rule: simplify.induct) auto

lemma compile_made:
  assumes "compile_policy w detections catalogs checks t = Inr x"
  shows "expr_made (qw_lower w) x"
proof -
  let ?e = "policy_env w detections catalogs t"
  have w: "qw_lower (qe_world ?e) = qw_lower w" by (simp add: policy_env_def)
  have "gives (compile_parsed ?e) (expr_made (qw_lower w))"
    unfolding compile_parsed_def w [symmetric]
    by (rule gives_then [OF parse_or_made], rule gives_after, rule givesI)
      (auto intro!: ends_after simplify_made split: option.splits)
  then have "gives (and_then check (\<lambda>_. if trim t = [] then ret EAll
      else if max_query_bytes < utf8_len (trim t) then fail TooLong
      else if is_plain (trim t) then and_then check (\<lambda>_. ret (free_term (MContains (qw_lower w (trim t)))))
      else compile_parsed ?e)) (expr_made (qw_lower w))"
    by (auto intro!: gives_after gives_rules)
  then show ?thesis using assms unfolding compile_policy_def Let_def policy_env_def
    by (auto simp: bind_res_Inr dest: gives_run)
qed

end
