(* ===== verification/Query_Line.thy ===== *)
theory Query_Line
  imports Query_Check
begin

text \<open>
  Deciding an expression from the raw line and the index (\<open>line_check\<close> of \<open>Query_Match\<close>): when it decides,
  it decides as testing the parsed event does.

  What it relies on is stated about the event: the values free text is tested on, and those of roles that
  are copied from the record, are written in the line as they are tested, which lists and objects need not be; the index holds its instant and the class of its
  level. The line is ASCII, where lower-casing is that of letters.
\<close>

section \<open>ASCII text\<close>

definition lower_laws :: "(rstr \<Rightarrow> rstr) \<Rightarrow> bool" where
  "lower_laws l \<longleftrightarrow> (\<forall>s. is_ascii s \<longrightarrow> l s = map ascii_lower s) \<and> (\<forall>s. map ascii_lower (l s) = l s)"

lemma encode_char_ascii: "is_ascii (encode_char c) \<Longrightarrow> c < 128 \<and> encode_char c = [c]"
  by (auto simp: encode_char_def is_ascii_def split: if_splits)

lemma as_bytes_ascii: "is_ascii (as_bytes v) \<Longrightarrow> is_ascii v \<and> as_bytes v = v"
proof (induction v)
  case (Cons c v)
  then have "is_ascii (encode_char c)" "is_ascii (as_bytes v)" by (auto simp: as_bytes_def is_ascii_def)
  with Cons.IH encode_char_ascii [of c] show ?case by (auto simp: as_bytes_def is_ascii_def)
qed (simp add: as_bytes_def)

lemma utf8_lossy_ascii: "is_ascii s \<Longrightarrow> utf8_lossy s = s"
  by (induction s) (auto simp: is_ascii_def utf8_lossy.simps)

lemma str_contains_sublist: "str_contains p s \<longleftrightarrow> sublist p s"
proof (induction s)
  case (Cons c s)
  have "sublist p (c # s) \<longleftrightarrow> prefix p (c # s) \<or> sublist p s" by (rule sublist_Cons_right)
  moreover have "prefix p (c # s) \<longleftrightarrow> take (length p) (c # s) = p" by (metis append_eq_conv_conj prefix_def)
  ultimately show ?case using Cons.IH by (simp del: take_Suc_Cons)
qed auto

lemma sublist_ascii: "sublist v line \<Longrightarrow> is_ascii line \<Longrightarrow> is_ascii v"
  by (auto simp: sublist_def is_ascii_def)

lemma sublist_lowered: "sublist v line \<Longrightarrow> sublist (map ascii_lower v) (map ascii_lower line)"
  unfolding sublist_def by (metis map_append)

lemma trim_sublist: "sublist (trim v) v"
proof -
  have suffix: "sublist (dropWhile P xs) xs" for P and xs :: rstr
    by (metis sublist_def takeWhile_dropWhile_id append_Nil2)
  have "sublist (rev (dropWhile P (rev xs))) xs" for P and xs :: rstr
    using suffix [of P "rev xs"] by (metis rev_rev_ident sublist_rev)
  with suffix show ?thesis unfolding trim_def trim_matches_def
    by (meson sublist_order.order_trans)
qed

section \<open>Searching a part of the line\<close>

lemma occurs_at_part: "occurs_at v first rest k \<Longrightarrow> occurs_at (ps @ v @ ss) first rest (length ps + k)"
  by (auto simp: occurs_at_def nth_append)

lemma ci_mono:
  assumes l: "lower_laws l" and line: "is_ascii line" and v: "sublist v line" and hit: "ci_contains_bytes l v n"
  shows "ci_contains_bytes l line n"
proof (cases "is_ascii n")
  case True
  obtain ps ss where line': "line = ps @ v @ ss" using v by (auto simp: sublist_def)
  show ?thesis
  proof (cases n)
    case (Cons first rest)
    obtain k where "occurs_at v first rest k"
      using hit True sublist_ascii [OF v line] Cons by (auto simp: ci_contains_bytes_def ci_loop_occurs)
    then have "occurs_at line first rest (length ps + k)" unfolding line' by (rule occurs_at_part)
    then show ?thesis using True line Cons by (auto simp: ci_contains_bytes_def ci_loop_occurs)
  qed (use True line in \<open>simp add: ci_contains_bytes_def\<close>)
next
  case False
  have "sublist (utf8_lossy n) (map ascii_lower v)"
    using hit False l sublist_ascii [OF v line]
    by (simp add: ci_contains_bytes_def str_contains_sublist utf8_lossy_ascii lower_laws_def)
  then have "sublist (utf8_lossy n) (map ascii_lower line)"
    using sublist_lowered [OF v] by (rule sublist_order.order_trans)
  then show ?thesis using False l line
    by (simp add: ci_contains_bytes_def str_contains_sublist utf8_lossy_ascii lower_laws_def)
qed

lemma ci_refl: "is_ascii n \<Longrightarrow> ci_contains_bytes l n n"
proof (cases n)
  case (Cons first rest)
  have "occurs_at n first rest 0" unfolding Cons
    by (simp add: occurs_at_def first_byte_matches_def eq_ignore_ascii_case_def)
  then show "is_ascii n \<Longrightarrow> ?thesis" using Cons by (auto simp: ci_contains_bytes_def ci_loop_occurs)
qed (simp add: ci_contains_bytes_def)

text \<open>A value written in the line, the value trimmed, and the trimmed value lowered are all found.\<close>

lemma written_found:
  assumes l: "lower_laws l" and line: "is_ascii line" and v: "sublist (as_bytes v) line"
  shows "is_ascii v" "as_bytes v = v"
    "contains_ci l v n \<Longrightarrow> ci_contains_bytes l line (as_bytes n)"
    "ci_contains_bytes l line (as_bytes (trim v))"
    "ci_contains_bytes l line (as_bytes (map ascii_lower (trim v)))"
proof -
  have "is_ascii (as_bytes v)" by (rule sublist_ascii [OF v line])
  then show a: "is_ascii v" "as_bytes v = v" using as_bytes_ascii by blast+
  then show "contains_ci l v n \<Longrightarrow> ci_contains_bytes l line (as_bytes n)"
    using ci_mono [OF l line v] by (simp add: contains_ci_def)
  have t: "sublist (trim v) line" using trim_sublist v a(2) by (metis sublist_order.order_trans)
  then have ta: "is_ascii (trim v)" using line by (rule sublist_ascii)
  then have tb: "as_bytes s = s" if "s = trim v \<or> s = map ascii_lower (trim v)" for s
  proof -
    have "is_ascii s" using that ta by (auto simp: is_ascii_def ascii_lower_def list_all_iff)
    then show ?thesis by (induction s) (auto simp: as_bytes_def is_ascii_def encode_char_def)
  qed
  show "ci_contains_bytes l line (as_bytes (trim v))"
    using ci_mono [OF l line t ci_refl [OF ta]] tb by simp
  have lt: "is_ascii (map ascii_lower (trim v))" "map ascii_lower (map ascii_lower (trim v)) = map ascii_lower (trim v)"
    using ta by (auto simp: is_ascii_def ascii_lower_def list_all_iff)
  show "ci_contains_bytes l line (as_bytes (map ascii_lower (trim v)))"
    using ci_search_exact [OF line lt] sublist_lowered [OF t] tb by simp
qed

section \<open>What the index and the line hold of an event\<close>

text \<open>The values free text is tested on.\<close>

definition tested_field :: "'f match_world \<Rightarrow> rstr \<times> json_value \<Rightarrow> rstr list" where
  "tested_field w kv =
     (if fst kv \<in> set skip_in_free_text then []
      else case value_text w (snd kv) of Some s \<Rightarrow> [s] | None \<Rightarrow> [])"

definition tested_values :: "'f match_world \<Rightarrow> event \<Rightarrow> rstr list" where
  "tested_values w ev =
     [ev_message ev, ev_source ev, ev_code ev, ev_name ev, ev_description ev]
     @ concat (map (tested_field w) (ev_fields ev))"

lemma tested_field_iff:
  "(case kv of (key, v) \<Rightarrow> key \<notin> set skip_in_free_text \<and> (case value_text w v of Some s \<Rightarrow> P s | None \<Rightarrow> False))
   \<longleftrightarrow> (\<exists>v \<in> set (tested_field w kv). P v)"
  by (cases kv) (auto simp: tested_field_def split: option.splits)

lemma any_value_tested: "any_value w ev P \<longleftrightarrow> (\<exists>v \<in> set (tested_values w ev). P v)"
  unfolding any_value_def tested_values_def list_ex_iff tested_field_iff by auto

text \<open>The values an expression may be tested on are written in the line.\<close>

definition in_line :: "'f match_world \<Rightarrow> query_ctx \<Rightarrow> 'f query_expr \<Rightarrow> octets \<Rightarrow> bool" where
  "in_line w c x line \<longleftrightarrow>
     list_all (\<lambda>v. sublist (as_bytes v) line) (tested_values w (qc_event c))
     \<and> list_all (\<lambda>t. case te_field t of
           None \<Rightarrow> True
         | Some f \<Rightarrow> literal_field f \<longrightarrow>
             (case ctx_field w c f of None \<Rightarrow> True | Some v \<Rightarrow> sublist (as_bytes v) line)) (expr_terms x)"

text \<open>The index holds the instant of the event, zero when it has none, and the class of its level.\<close>

definition indexed_as :: "line_meta \<Rightarrow> event \<Rightarrow> bool" where
  "indexed_as meta ev \<longleftrightarrow>
     (if lm_ts meta = 0 then ev_timestamp ev \<in> {None, Some 0} else ev_timestamp ev = Some (lm_ts meta))
     \<and> (lm_level meta = LvOther \<or> label_class (ev_level ev) = Some (lm_level meta))"

lemma label_class_inj: "label_class a = Some k \<Longrightarrow> label_class b = Some k \<Longrightarrow> a = b"
  by (auto simp: label_class_def split: if_splits)

section \<open>Terms\<close>

lemma level_value: "\<not> qc_object_only c \<Longrightarrow> qf_name f = lit ''level'' \<Longrightarrow> ctx_field w c f = Some (ev_level (qc_event c))"
  by (simp add: ctx_field_def at_role_def named_value_def col_ref_def Let_def lit_def)

lemma number_of_timestamp:
  assumes "\<not> qc_object_only c" "qc_indexed c" "indexed_as meta (qc_event c)" "qf_name f = lit ''timestamp''"
  shows "ctx_number w c f = (if lm_ts meta = 0 then None else Some (fl_of_int (qw_floats (mw_query w)) (lm_ts meta)))"
  using assms by (auto simp: ctx_number_def indexed_as_def Let_def split: if_splits)

text \<open>The field of all values resolves to no role.\<close>

lemma all_has_no_role:
  assumes l: "lower_laws l" and f: "f \<in> range (resolve_field l)" "qf_name f = lit ''_all''"
  shows "qf_role f = None"
proof -
  obtain name where f': "f = resolve_field l name" using f(1) by blast
  have "is_ascii (lit ''_all'')" "map ascii_lower (lit ''_all'') = lit ''_all''" by code_simp+
  then have low: "l (lit ''_all'') = lit ''_all''" using l by (simp add: lower_laws_def)
  have std: "standard_column (lit ''_all'') = Some (lit ''_all'')" by code_simp
  have no_at: "hd (lit ''_all'') \<noteq> 64" by (simp add: lit_def)
  show ?thesis
  proof (cases "standard_column (l name)")
    case None
    then have "name = lit ''_all''" using f(2) by (simp add: f' resolve_field_def Let_def)
    then show ?thesis using None low std by simp
  next
    case (Some col)
    then have "col = lit ''_all''" using f(2) by (simp add: f' resolve_field_def Let_def)
    then show ?thesis using Some no_at by (simp add: f' resolve_field_def Let_def)
  qed
qed

text \<open>A value that equals a candidate is found when the candidate is searched.\<close>

lemma equal_found:
  assumes l: "lower_laws l" and line: "is_ascii line" and v: "sublist (as_bytes v) line"
    and n: "n \<in> range l" and eq: "equals_text l n v"
  shows "ci_contains_bytes l line (as_bytes n)"
proof -
  note found = written_found [OF l line v]
  have "is_ascii (trim v)" using found(1) trim_sublist sublist_ascii by blast
  then have "l (trim v) = map ascii_lower (trim v)" using l by (simp add: lower_laws_def)
  moreover have "map ascii_lower n = n" using n l by (auto simp: lower_laws_def)
  ultimately have "n = map ascii_lower (trim v)"
    using eq by (auto simp: equals_text_def Let_def eq_ignore_ascii_case_def)
  then show ?thesis using found(5) by simp
qed

lemma term_check_sound:
  assumes l: "lower_laws (qw_lower (mw_query w))" and made: "term_made (qw_lower (mw_query w)) t"
    and c: "\<not> qc_object_only c" "qc_indexed c" and meta: "indexed_as meta (qc_event c)"
    and line: "is_ascii line" and in_line: "\<not> escaped \<Longrightarrow> in_line w c (ETerm t) line"
    and dec: "term_line_check w t meta line escaped = Some b"
  shows "term_matches w t c = b"
proof (cases "te_field t")
  case None
  then obtain n where m: "te_matcher t = MContains n" and b: "b = False" "\<not> escaped"
    and miss: "\<not> ci_contains_bytes (qw_lower (mw_query w)) line (as_bytes n)"
    using dec by (auto simp: term_line_check_def Let_def split: query_matcher.splits if_splits)
  have "\<not> contains_ci (qw_lower (mw_query w)) v n" if "v \<in> set (tested_values w (qc_event c))" for v
    using written_found(3) [OF l line, of v n] in_line [OF b(2)] that miss by (auto simp: in_line_def list_all_iff)
  then show ?thesis using None m b by (auto simp: term_matches_def free_matches_def any_value_tested)
next
  case (Some f)
  have f: "f \<in> range (resolve_field (qw_lower (mw_query w)))" using made Some by (simp add: term_made_def)
  have not_all: "lit ''level'' \<noteq> lit ''_all''" "lit ''timestamp'' \<noteq> lit ''_all''" by (simp_all add: lit_def)
  have literal: "qf_name f \<noteq> lit ''_all''" if "literal_field f"
    using that all_has_no_role [OF l f] by (auto simp: literal_field_def)
  have held: "sublist (as_bytes v) line" if "literal_field f" "\<not> escaped" "ctx_field w c f = Some v" for v
    using in_line [OF that(2)] that Some by (simp add: in_line_def)
  show ?thesis
  proof (cases "te_matcher t")
    case (MLevel label)
    then obtain k where k: "qf_name f = lit ''level''" "label_class label = Some k" "lm_level meta \<noteq> LvOther"
      "b \<longleftrightarrow> lm_level meta = k"
      using dec Some by (auto simp: term_line_check_def Let_def split: option.splits if_splits)
    moreover have "label_class (ev_level (qc_event c)) = Some (lm_level meta)"
      using meta k(3) by (simp add: indexed_as_def)
    ultimately have "ev_level (qc_event c) = label \<longleftrightarrow> b" using label_class_inj [of label k "ev_level (qc_event c)"] by auto
    then show ?thesis using MLevel Some k(1) not_all level_value [OF c(1) k(1), of w]
      by (simp add: term_matches_def field_matches_def value_matches_def Let_def)
  next
    case (MCmp cc bound)
    then have "qf_name f = lit ''timestamp''" using dec Some by (auto simp: term_line_check_def Let_def split: if_splits)
    then show ?thesis using MCmp Some dec not_all number_of_timestamp [OF c meta, of f w]
      by (auto simp: term_line_check_def term_matches_def field_matches_def number_matches_def Let_def)
  next
    case (MRange lo hi)
    then have "qf_name f = lit ''timestamp''" using dec Some by (auto simp: term_line_check_def Let_def split: if_splits)
    then show ?thesis using MRange Some dec not_all number_of_timestamp [OF c meta, of f w]
      by (auto simp: term_line_check_def term_matches_def field_matches_def number_matches_def Let_def)
  next
    case (MSet vs)
    then have b: "literal_field f" "\<not> escaped" "b = False"
      and miss: "\<forall>v \<in> set vs. \<not> ci_contains_bytes (qw_lower (mw_query w)) line (as_bytes v)"
      using dec Some by (auto simp: term_line_check_def missing_from_line_def Let_def list_ex_iff split: if_splits)
    have "\<not> value_matches w (MSet vs) v" if "ctx_field w c f = Some v" for v
    proof -
      note found = written_found [OF l line held [OF b(1,2) that]]
      have "is_ascii (trim v)" using found(1) trim_sublist sublist_ascii by blast
      then have "qw_lower (mw_query w) (trim v) = map ascii_lower (trim v)" using l by (simp add: lower_laws_def)
      then show ?thesis using found(4,5) miss by (auto simp: value_matches_def Let_def)
    qed
    then show ?thesis using MSet Some b literal
      by (auto simp: term_matches_def field_matches_def Let_def split: option.splits)
  next
    case (MEquals n)
    then have b: "literal_field f" "\<not> escaped" "b = False"
      and miss: "\<not> ci_contains_bytes (qw_lower (mw_query w)) line (as_bytes n)"
      using dec Some by (auto simp: term_line_check_def missing_from_line_def Let_def split: if_splits)
    have n: "n \<in> range (qw_lower (mw_query w))" using made MEquals by (simp add: term_made_def matcher_made_def)
    have "\<not> value_matches w (MEquals n) v" if "ctx_field w c f = Some v" for v
      using equal_found [OF l line held [OF b(1,2) that] n] miss by (auto simp: value_matches_def Let_def)
    then show ?thesis using MEquals Some b literal
      by (auto simp: term_matches_def field_matches_def Let_def split: option.splits)
  qed (use dec Some in \<open>auto simp: term_line_check_def Let_def split: if_splits\<close>)
qed

section \<open>Expressions\<close>

lemma join_checks_sound:
  assumes "join_checks d u (map f xs) = Some b" "\<forall>x \<in> set xs. \<forall>v. f x = Some v \<longrightarrow> g x = v"
  shows "(b = d \<and> (\<exists>x \<in> set xs. g x = d)) \<or> (b = (\<not> d) \<and> (\<forall>x \<in> set xs. g x = (\<not> d)))"
proof -
  have "(b = d \<and> (\<exists>x \<in> set xs. g x = d)) \<or> (b = (\<not> d) \<and> \<not> u \<and> (\<forall>x \<in> set xs. g x = (\<not> d)))"
    using assms
  proof (induction xs arbitrary: u)
    case (Cons x xs)
    then show ?case by (cases "f x") (auto split: if_splits)
  qed (auto split: if_splits)
  then show ?thesis by blast
qed

lemma written_items: "in_line w c (EAnd es) line \<Longrightarrow> e \<in> set es \<Longrightarrow> in_line w c e line"
  "in_line w c (EOr es) line \<Longrightarrow> e \<in> set es \<Longrightarrow> in_line w c e line"
  by (auto simp: in_line_def list_all_iff)

lemma line_check_expr:
  assumes l: "lower_laws (qw_lower (mw_query w))" and c: "\<not> qc_object_only c" "qc_indexed c"
    and meta: "indexed_as meta (qc_event c)" and line: "is_ascii line"
  shows "expr_made (qw_lower (mw_query w)) x \<Longrightarrow> (\<not> escaped \<Longrightarrow> in_line w c x line) \<Longrightarrow>
    line_check w meta line escaped x = Some b \<Longrightarrow> expr_matches w c x = b"
proof (induction x arbitrary: b)
  case (EAnd es)
  have "\<forall>e \<in> set es. \<forall>v. line_check w meta line escaped e = Some v \<longrightarrow> expr_matches w c e = v"
    using EAnd.IH EAnd.prems(1,2) written_items(1) by fastforce
  from join_checks_sound [OF EAnd.prems(3) [simplified line_check.simps] this] show ?case by (auto simp: list_all_iff)
next
  case (EOr es)
  have "\<forall>e \<in> set es. \<forall>v. line_check w meta line escaped e = Some v \<longrightarrow> expr_matches w c e = v"
    using EOr.IH EOr.prems(1,2) written_items(2) by fastforce
  from join_checks_sound [OF EOr.prems(3) [simplified line_check.simps] this] show ?case by (auto simp: list_ex_iff)
next
  case (ENot e)
  have "\<not> escaped \<Longrightarrow> in_line w c e line" using ENot.prems(2) by (simp add: in_line_def)
  then show ?case using ENot.IH [of "\<not> b"] ENot.prems by auto
next
  case (ETerm t)
  have "term_made (qw_lower (mw_query w)) t" using ETerm.prems(1) by (simp add: expr_made_def)
  from term_check_sound [OF l this c meta line ETerm.prems(2)] ETerm.prems(3) show ?case by simp
qed auto

text \<open>
  C4. Let a compiled query be decided from the raw line and the index, the line being ASCII, the event not
  restricted to its object and the index holding the event's instant and level. If the line has an
  escape, or the values the query is tested on are written in the line as they are tested, testing the
  parsed event gives the decided answer. The second condition matters: for one free text the decision
  agrees with the event exactly when no tested value holds the text. The code assumes it of every event, but a list or
  object is tested as its compact JSON text, which a line that spells it with spaces does not hold.
\<close>

theorem line_check_sound:
  assumes "compile_policy (mw_query w) detections catalogs checks t = Inr x"
    and "lower_laws (qw_lower (mw_query w))" "\<not> qc_object_only c" "qc_indexed c"
    and "indexed_as meta (qc_event c)" "is_ascii line"
    and "line_check w meta line escaped x = Some b"
  shows "(escaped \<or> in_line w c x line \<longrightarrow> expr_matches w c x = b)
    \<and> (\<forall>q n. x = ETerm q \<and> te_field q = None \<and> te_matcher q = MContains n \<longrightarrow>
          (expr_matches w c x = b \<longleftrightarrow>
             (\<forall>v \<in> set (tested_values w (qc_event c)). \<not> contains_ci (qw_lower (mw_query w)) v n)))"
proof (intro conjI impI allI)
  assume "escaped \<or> in_line w c x line"
  then show "expr_matches w c x = b"
    using line_check_expr [OF assms(2-6) compile_made [OF assms(1)]] assms(7) by blast
next
  fix q n
  assume "x = ETerm q \<and> te_field q = None \<and> te_matcher q = MContains n"
  then show "expr_matches w c x = b \<longleftrightarrow>
      (\<forall>v \<in> set (tested_values w (qc_event c)). \<not> contains_ci (qw_lower (mw_query w)) v n)"
    using assms(7) by (auto simp: term_line_check_def term_matches_def free_matches_def any_value_tested Let_def
        split: if_splits)
qed

definition sample_world :: "int match_world" where
  "sample_world = \<lparr>mw_query = sample_query_world, mw_json = (\<lambda>_. []), mw_iso = (\<lambda>_. []), mw_event_ref = ev_ref\<rparr>"

definition login_event :: event where
  "login_event = \<lparr>ev_id = 1, ev_ref = [], ev_timestamp = Some 1000, ev_source = [], ev_level = label_error, ev_code = [],
     ev_name = [], ev_description = [], ev_message = lit ''login 500'', ev_raw = lit ''GET /Login 500'',
     ev_fields = [(lit ''user'', VString (lit ''GET''))]\<rparr>"

definition sample_query_ctx :: query_ctx where
  "sample_query_ctx = \<lparr>qc_event = login_event, qc_object_only = False, qc_indexed = True, qc_role = (\<lambda>_. None), qc_entity = (\<lambda>_. None)\<rparr>"

definition sample_meta :: line_meta where
  "sample_meta = \<lparr>lm_ts = 1000, lm_level = LvErr\<rparr>"

definition sample_login :: octets where "sample_login = lit ''GET login 500''"

definition sample_sentence :: rstr where "sample_sentence = lit ''-user:bob level:error timestamp>5''"

lemma sample_lower_laws: "lower_laws (qw_lower (mw_query sample_world))"
  by (auto simp: lower_laws_def sample_world_def sample_query_world_def ascii_lower_def)

text \<open>The line \<open>{"a": [1, 2]}\<close>, whose list is tested as \<open>[1,2]\<close>.\<close>

definition spaced_list :: octets where
  "spaced_list = [123, 34, 97, 34, 58, 32, 91, 49, 44, 32, 50, 93, 125]"

definition list_world :: "int match_world" where
  "list_world = sample_world\<lparr>mw_json := (\<lambda>_. lit ''[1,2]'')\<rparr>"

definition list_ctx :: query_ctx where
  "list_ctx = sample_query_ctx\<lparr>qc_event := login_event\<lparr>ev_raw := spaced_list, ev_message := spaced_list,
     ev_fields := [(lit ''a'', VArray [VNumber (lit ''1''), VNumber (lit ''2'')])]\<rparr>\<rparr>"

definition list_sentence :: rstr where "list_sentence = 34 # lit ''1,2'' @ [34]"

theorem line_check_sound_witness:
  "expr_matches sample_world sample_query_ctx (compiled (compile_policy (mw_query sample_world) True True sample_checks sample_sentence))
   \<and> line_check list_world sample_meta spaced_list False
        (compiled (compile_policy (mw_query list_world) True True sample_checks list_sentence)) = Some False
   \<and> expr_matches list_world list_ctx (compiled (compile_policy (mw_query list_world) True True sample_checks list_sentence))"
proof -
  let ?x = "compiled (compile_policy (mw_query sample_world) True True sample_checks sample_sentence)"
  have "isl (compile_policy (mw_query sample_world) True True sample_checks sample_sentence) = False" by code_simp
  note x = compiled_Inr [OF this]
  have c: "\<not> qc_object_only sample_query_ctx" "qc_indexed sample_query_ctx" "is_ascii sample_login" by code_simp+
  have meta: "indexed_as sample_meta (qc_event sample_query_ctx)" by code_simp
  have "in_line sample_world sample_query_ctx ?x sample_login" by code_simp
  moreover have "line_check sample_world sample_meta sample_login False ?x = Some True" by code_simp
  ultimately have one: "expr_matches sample_world sample_query_ctx ?x"
    using line_check_sound [OF x sample_lower_laws c(1,2) meta c(3)] by blast
  let ?y = "compiled (compile_policy (mw_query list_world) True True sample_checks list_sentence)"
  have "isl (compile_policy (mw_query list_world) True True sample_checks list_sentence) = False" by code_simp
  note y = compiled_Inr [OF this]
  have laws: "lower_laws (qw_lower (mw_query list_world))"
    using sample_lower_laws by (simp add: list_world_def)
  have c: "\<not> qc_object_only list_ctx" "qc_indexed list_ctx" "is_ascii spaced_list" by code_simp+
  have meta: "indexed_as sample_meta (qc_event list_ctx)" by code_simp
  have dec: "line_check list_world sample_meta spaced_list False ?y = Some False" by code_simp
  have "case ?y of ETerm q \<Rightarrow> Option.is_none (te_field q)
      \<and> (case te_matcher q of MContains n \<Rightarrow> n = lit ''1,2'' | _ \<Rightarrow> False) | _ \<Rightarrow> False" by code_simp
  then obtain q where q: "?y = ETerm q" "te_field q = None" "te_matcher q = MContains (lit ''1,2'')"
    by (auto simp: Option.is_none_def split: query_expr.splits query_matcher.splits)
  have "\<not> (\<forall>v \<in> set (tested_values list_world (qc_event list_ctx)).
      \<not> contains_ci (qw_lower (mw_query list_world)) v (lit ''1,2''))" by code_simp
  then have "expr_matches list_world list_ctx ?y"
    using line_check_sound [OF y laws c(1,2) meta c(3) dec] q by auto
  then show ?thesis using one dec by blast
qed

end
