(* ===== verification/Line_Store.thy ===== *)
theory Line_Store
  imports Le_Bytes
begin

text \<open>
  The metadata of the lines of a source, \<open>src-tauri/src/metadata_store.rs\<close>: records of 27 bytes decoded by
  value, and the \<open>LineStore\<close>, a list of spans over shared records that slicing, joining and overlaying
  timestamps never copy.

  A mapped file is its bytes: the lease and the file handle that keep it unchanged are outside the model.
  \<open>LineMeta\<close>'s integers are words of their width. A panic of the code is the error \<open>IndexPanic\<close>.
\<close>

section \<open>Records\<close>

record line_row =
  lr_offset :: "64 word"
  lr_len :: "32 word"
  lr_ts :: "64 word"
  lr_level :: byte
  lr_code_off :: "32 word"
  lr_code_len :: "16 word"

definition record_bytes :: nat where
  "record_bytes = 27"

definition cut :: "nat \<Rightarrow> nat \<Rightarrow> 'a list \<Rightarrow> 'a list" where
  "cut a b xs = take (b - a) (drop a xs)"

definition encode_record :: "line_row \<Rightarrow> byte list" where
  "encode_record m =
     to_le_bytes (lr_offset m) @ to_le_bytes (lr_len m) @ to_le_bytes (lr_ts m) @ [lr_level m]
       @ to_le_bytes (lr_code_off m) @ to_le_bytes (lr_code_len m)"

definition decode_record :: "byte list \<Rightarrow> line_row" where
  "decode_record b =
     \<lparr>lr_offset = from_le_bytes (cut 0 8 b), lr_len = from_le_bytes (cut 8 12 b),
      lr_ts = from_le_bytes (cut 12 20 b), lr_level = b ! 20,
      lr_code_off = from_le_bytes (cut 21 25 b), lr_code_len = from_le_bytes (cut 25 27 b)\<rparr>"

section \<open>The store\<close>

datatype store_error = IndexPanic | CountExceeded | PositionExceeded | SizeInvalid | RowsTruncated
  | StampsInvalid | StampsTruncated | StampsMismatch

datatype records = Owned "line_row list" | Packed "byte list" nat

definition records_at :: "records \<Rightarrow> nat \<Rightarrow> line_row option" where
  "records_at r row =
     (case r of
        Owned rows \<Rightarrow> if row < length rows then Some (rows ! row) else None
      | Packed bytes byte_start \<Rightarrow>
          let start = byte_start + row * record_bytes
          in if start + record_bytes \<le> length bytes then Some (decode_record (cut start (start + record_bytes) bytes))
             else None)"

record timestamps =
  tm_map :: "byte list"
  tm_start :: nat
  tm_len :: nat

definition stamps_from_map :: "byte list \<Rightarrow> nat \<Rightarrow> nat \<Rightarrow> store_error + timestamps" where
  "stamps_from_map bytes byte_start len =
     bind_res (opt_res StampsInvalid (Option.bind (checked_mul len 8) (\<lambda>n. checked_add n byte_start))) (\<lambda>stop.
       if length bytes < stop then Inl StampsTruncated
       else Inr \<lparr>tm_map = bytes, tm_start = byte_start, tm_len = len\<rparr>)"

definition stamps_at :: "timestamps \<Rightarrow> nat \<Rightarrow> 64 word option" where
  "stamps_at t row =
     (let start = tm_start t + row * 8
      in if start + 8 \<le> length (tm_map t) then Some (from_le_bytes (cut start (start + 8) (tm_map t))) else None)"

record line_span =
  sp_records :: records
  sp_first :: nat
  sp_len :: nat
  sp_delta :: "64 word"
  sp_stamps :: "(timestamps \<times> nat) option"

definition span_at :: "line_span \<Rightarrow> nat \<Rightarrow> line_row option" where
  "span_at s row =
     (case records_at (sp_records s) (sp_first s + row) of
        None \<Rightarrow> None
      | Some m0 \<Rightarrow>
          let m = m0\<lparr>lr_offset := lr_offset m0 + sp_delta s\<rparr>
          in case sp_stamps s of
               None \<Rightarrow> Some m
             | Some (stamps, first) \<Rightarrow> map_option (\<lambda>ts. m\<lparr>lr_ts := ts\<rparr>) (stamps_at stamps (first + row)))"

record line_store =
  ls_spans :: "line_span list"
  ls_ends :: "nat list"
  ls_len :: nat

definition store_empty :: line_store where
  "store_empty = \<lparr>ls_spans = [], ls_ends = [], ls_len = 0\<rparr>"

definition one_span :: "records \<Rightarrow> nat \<Rightarrow> line_store" where
  "one_span records len =
     \<lparr>ls_spans = [\<lparr>sp_records = records, sp_first = 0, sp_len = len, sp_delta = 0, sp_stamps = None\<rparr>],
      ls_ends = [len], ls_len = len\<rparr>"

definition store_of_rows :: "line_row list \<Rightarrow> line_store" where
  "store_of_rows rows = (if rows = [] then store_empty else one_span (Owned rows) (length rows))"

definition store_of_journal :: "byte list \<Rightarrow> nat \<Rightarrow> nat \<Rightarrow> store_error + line_store" where
  "store_of_journal bytes byte_start len =
     bind_res (opt_res SizeInvalid (Option.bind (checked_mul len record_bytes) (\<lambda>n. checked_add n byte_start))) (\<lambda>stop.
       if length bytes < stop then Inl RowsTruncated
       else if len = 0 then Inr store_empty
       else Inr (one_span (Packed bytes byte_start) len))"

text \<open>\<open>slice::partition_point\<close> on a partitioned slice: how many of the first items have the property.\<close>

definition partition_count :: "('a \<Rightarrow> bool) \<Rightarrow> 'a list \<Rightarrow> nat" where
  "partition_count P xs = length (takeWhile P xs)"

definition store_get :: "line_store \<Rightarrow> nat \<Rightarrow> store_error + line_row option" where
  "store_get s row =
     (if ls_len s \<le> row then Inr None
      else
        let k = (if length (ls_spans s) = 1 then 0 else partition_count (\<lambda>stop. stop \<le> row) (ls_ends s));
            base = (if k = 0 then 0 else ls_ends s ! (k - 1))
        in if k < length (ls_spans s)
           then bind_res (opt_res IndexPanic (span_at (ls_spans s ! k) (row - base))) (\<lambda>m. Inr (Some m))
           else Inl IndexPanic)"

definition store_at :: "line_store \<Rightarrow> nat \<Rightarrow> store_error + line_row" where
  "store_at s row = bind_res (store_get s row) (opt_res IndexPanic)"

definition store_first :: "line_store \<Rightarrow> store_error + line_row option" where
  "store_first s = store_get s 0"

definition store_last :: "line_store \<Rightarrow> store_error + line_row option" where
  "store_last s = (if ls_len s = 0 then Inr None else store_get s (ls_len s - 1))"

definition push_span :: "line_span \<Rightarrow> line_store \<Rightarrow> line_store" where
  "push_span sp s =
     (let len = ls_len s + sp_len sp in \<lparr>ls_spans = ls_spans s @ [sp], ls_ends = ls_ends s @ [len], ls_len = len\<rparr>)"

text \<open>The part of a span from a row, \<open>skip\<close> rows after its first.\<close>

definition span_view :: "line_span \<Rightarrow> nat \<Rightarrow> nat \<Rightarrow> line_span" where
  "span_view sp skip len =
     sp\<lparr>sp_first := sp_first sp + skip, sp_len := len,
        sp_stamps := map_option (\<lambda>(t, first). (t, first + skip)) (sp_stamps sp)\<rparr>"

fun slice_spans :: "nat \<Rightarrow> nat \<Rightarrow> nat \<Rightarrow> line_span list \<Rightarrow> line_store \<Rightarrow> line_store" where
  "slice_spans lo hi start [] out = out"
| "slice_spans lo hi start (sp # sps) out =
     (let stop = start + sp_len sp;
          a = max lo start;
          b = min hi stop;
          out = (if a < b then push_span (span_view sp (a - start) (b - a)) out else out)
      in if hi \<le> stop then out else slice_spans lo hi stop sps out)"

definition store_slice :: "line_store \<Rightarrow> nat \<Rightarrow> nat \<Rightarrow> store_error + line_store" where
  "store_slice s lo hi =
     (if lo \<le> hi \<and> hi \<le> ls_len s then Inr (slice_spans lo hi 0 (ls_spans s) store_empty) else Inl IndexPanic)"

definition word_checked_add :: "64 word \<Rightarrow> 64 word \<Rightarrow> 64 word option" where
  "word_checked_add a b = (if unat a + unat b \<le> u64_max then Some (a + b) else None)"

text \<open>The largest offset of a span, before its relocation: of a mapped span, that of its last record.\<close>

definition span_maximum :: "line_span \<Rightarrow> store_error + 64 word option" where
  "span_maximum sp =
     (case sp_records sp of
        Owned rows \<Rightarrow>
          if sp_first sp + sp_len sp \<le> length rows
          then Inr (let offsets = map lr_offset (cut (sp_first sp) (sp_first sp + sp_len sp) rows)
                    in if offsets = [] then None else Some (foldr max (tl offsets) (hd offsets)))
          else Inl IndexPanic
      | Packed bytes byte_start \<Rightarrow>
          if sp_len sp = 0 then Inr None
          else bind_res (opt_res IndexPanic (records_at (sp_records sp) (sp_first sp + (sp_len sp - 1))))
                 (\<lambda>m. Inr (Some (lr_offset m))))"

definition relocate_span :: "64 word \<Rightarrow> line_span \<Rightarrow> store_error + line_span" where
  "relocate_span offset_delta sp =
     bind_res (opt_res PositionExceeded (word_checked_add (sp_delta sp) offset_delta)) (\<lambda>delta.
     bind_res (span_maximum sp) (\<lambda>maximum.
       case maximum of
         None \<Rightarrow> Inr (sp\<lparr>sp_delta := delta\<rparr>)
       | Some m \<Rightarrow>
           bind_res (opt_res PositionExceeded (word_checked_add m delta)) (\<lambda>_. Inr (sp\<lparr>sp_delta := delta\<rparr>))))"

fun relocate_spans :: "64 word \<Rightarrow> line_span list \<Rightarrow> store_error + line_span list" where
  "relocate_spans d [] = Inr []"
| "relocate_spans d (sp # sps) =
     bind_res (relocate_span d sp) (\<lambda>sp'. bind_res (relocate_spans d sps) (\<lambda>sps'. Inr (sp' # sps')))"

definition append_relocated :: "line_store \<Rightarrow> line_store \<Rightarrow> 64 word \<Rightarrow> store_error + line_store" where
  "append_relocated s other offset_delta =
     bind_res (opt_res CountExceeded (checked_add (ls_len s) (ls_len other))) (\<lambda>_.
     bind_res (relocate_spans offset_delta (ls_spans other)) (\<lambda>sps. Inr (fold push_span sps s)))"

fun stamp_spans :: "timestamps \<Rightarrow> nat \<Rightarrow> line_span list \<Rightarrow> line_span list" where
  "stamp_spans t first [] = []"
| "stamp_spans t first (sp # sps) = sp\<lparr>sp_stamps := Some (t, first)\<rparr> # stamp_spans t (first + sp_len sp) sps"

definition with_timestamps :: "line_store \<Rightarrow> timestamps \<Rightarrow> store_error + line_store" where
  "with_timestamps s t =
     (if tm_len t \<noteq> ls_len s then Inl StampsMismatch else Inr (s\<lparr>ls_spans := stamp_spans t 0 (ls_spans s)\<rparr>))"

definition store_clear :: "line_store \<Rightarrow> line_store" where
  "store_clear s = store_empty"

definition is_owned :: "records \<Rightarrow> bool" where
  "is_owned r = (case r of Owned _ \<Rightarrow> True | Packed _ _ \<Rightarrow> False)"

definition resident_rows :: "line_store \<Rightarrow> nat" where
  "resident_rows s = sum_list (map sp_len (filter (\<lambda>sp. is_owned (sp_records sp)) (ls_spans s)))"

section \<open>The codec\<close>

lemma length_encode_record [simp]: "length (encode_record m) = 27"
  by (simp add: encode_record_def)

lemma cut_append_left: "b \<le> length xs \<Longrightarrow> cut a b (xs @ ys) = cut a b xs"
  by (simp add: cut_def)

lemma cut_append_right: "length xs \<le> a \<Longrightarrow> cut a b (xs @ ys) = cut (a - length xs) (b - length xs) ys"
  by (simp add: cut_def)

lemma cut_all: "b = length xs \<Longrightarrow> cut 0 b xs = xs"
  by (simp add: cut_def)

lemma length_cut [simp]: "length (cut a b xs) = min (b - a) (length xs - a)"
  by (simp add: cut_def min.commute)

lemma cut_nth: "i < b - a \<Longrightarrow> b \<le> length xs \<Longrightarrow> cut a b xs ! i = xs ! (a + i)"
  by (simp add: cut_def)

lemma cut_Cons: "0 < a \<Longrightarrow> cut a b (x # xs) = cut (a - 1) (b - 1) xs"
  by (cases a; cases b) (simp_all add: cut_def)

lemmas cut_simps = cut_Cons cut_append_left cut_append_right cut_all

lemma decode_encode: "decode_record (encode_record m) = m"
  by (simp add: decode_record_def encode_record_def cut_simps nth_append)

section \<open>What a store holds\<close>

definition span_rows :: "line_span \<Rightarrow> line_row list" where
  "span_rows sp = map (\<lambda>i. the (span_at sp i)) [0..<sp_len sp]"

definition store_rows :: "line_store \<Rightarrow> line_row list" where
  "store_rows s = concat (map span_rows (ls_spans s))"

text \<open>
  A span reads: every row of it is a record, relocating it does not overflow, and its timestamps cover it.
  The offsets of a mapped span are in order, which is what the validation of a journal checks.
\<close>

definition physical :: "line_span \<Rightarrow> nat \<Rightarrow> line_row" where
  "physical sp i = the (records_at (sp_records sp) (sp_first sp + i))"

definition span_ok :: "line_span \<Rightarrow> bool" where
  "span_ok sp \<longleftrightarrow> 0 < sp_len sp
     \<and> (\<forall>i < sp_len sp. records_at (sp_records sp) (sp_first sp + i) \<noteq> None
          \<and> unat (lr_offset (physical sp i)) + unat (sp_delta sp) \<le> u64_max)
     \<and> (\<forall>t k. sp_stamps sp = Some (t, k) \<longrightarrow> (\<forall>i < sp_len sp. stamps_at t (k + i) \<noteq> None))
     \<and> (\<not> is_owned (sp_records sp) \<longrightarrow>
          (\<forall>i j. i \<le> j \<and> j < sp_len sp \<longrightarrow> lr_offset (physical sp i) \<le> lr_offset (physical sp j)))"

fun ends_from :: "nat \<Rightarrow> line_span list \<Rightarrow> nat list" where
  "ends_from k [] = []"
| "ends_from k (sp # sps) = (k + sp_len sp) # ends_from (k + sp_len sp) sps"

definition store_wf :: "line_store \<Rightarrow> bool" where
  "store_wf s \<longleftrightarrow> list_all span_ok (ls_spans s) \<and> ls_ends s = ends_from 0 (ls_spans s)
     \<and> ls_len s = sum_list (map sp_len (ls_spans s))"

definition store_ok :: "line_store \<Rightarrow> bool" where
  "store_ok s \<longleftrightarrow> store_wf s \<and> ls_len s \<le> u64_max"

lemma length_span_rows [simp]: "length (span_rows sp) = sp_len sp"
  by (simp add: span_rows_def)

lemma length_store_rows: "store_wf s \<Longrightarrow> length (store_rows s) = ls_len s"
  by (simp add: store_rows_def store_wf_def length_concat comp_def)

lemma length_ends_from [simp]: "length (ends_from k sps) = length sps"
  by (induction sps arbitrary: k) auto

lemma ends_from_append:
  "ends_from k (xs @ ys) = ends_from k xs @ ends_from (k + sum_list (map sp_len xs)) ys"
  by (induction xs arbitrary: k) (auto simp: add.assoc)

lemma span_at_some: "span_ok sp \<Longrightarrow> i < sp_len sp \<Longrightarrow> span_at sp i \<noteq> None"
  by (cases "sp_stamps sp") (auto simp: span_ok_def span_at_def Let_def split: option.splits prod.splits)

lemma span_at_rows: "span_ok sp \<Longrightarrow> i < sp_len sp \<Longrightarrow> span_at sp i = Some (span_rows sp ! i)"
  using span_at_some [of sp i] by (simp add: span_rows_def)

text \<open>Looking a row up in the ends finds the span that holds it and the rows before that span.\<close>

definition span_base :: "nat \<Rightarrow> line_span list \<Rightarrow> nat \<Rightarrow> nat" where
  "span_base b sps k = (if k = 0 then b else ends_from b sps ! (k - 1))"

definition span_index :: "nat \<Rightarrow> line_span list \<Rightarrow> nat \<Rightarrow> nat" where
  "span_index b sps row = partition_count (\<lambda>stop. stop \<le> row) (ends_from b sps)"

lemma span_index_simps:
  "span_index b (sp # sps) row = (if b + sp_len sp \<le> row then Suc (span_index (b + sp_len sp) sps row) else 0)"
  "span_base b sps 0 = b" "span_base b (sp # sps) (Suc k) = span_base (b + sp_len sp) sps k"
  by (simp_all add: span_index_def partition_count_def span_base_def nth_Cons')

lemma ends_lookup:
  assumes "b \<le> row" "row < b + sum_list (map sp_len sps)"
  shows "span_index b sps row < length sps \<and> span_base b sps (span_index b sps row) \<le> row
    \<and> row - span_base b sps (span_index b sps row) < sp_len (sps ! span_index b sps row)
    \<and> concat (map span_rows sps) ! (row - b)
        = span_rows (sps ! span_index b sps row) ! (row - span_base b sps (span_index b sps row))"
  using assms
proof (induction sps arbitrary: b)
  case (Cons sp sps)
  show ?case
  proof (cases "b + sp_len sp \<le> row")
    case True
    then have "row - b - sp_len sp = row - (b + sp_len sp)" by simp
    then show ?thesis using True Cons.IH [of "b + sp_len sp"] Cons.prems
      by (simp add: span_index_simps nth_append)
  next
    case False
    then show ?thesis using Cons.prems by (simp add: span_index_simps nth_append)
  qed
qed simp

lemma store_getI:
  assumes "store_ok s"
  shows "store_get s row = Inr (if row < ls_len s then Some (store_rows s ! row) else None)"
proof (cases "row < ls_len s")
  case True
  let ?k = "span_index 0 (ls_spans s) row"
  have ok: "list_all span_ok (ls_spans s)" "ls_ends s = ends_from 0 (ls_spans s)" using assms by (auto simp: store_ok_def store_wf_def)
  have k: "?k < length (ls_spans s)" "span_base 0 (ls_spans s) ?k \<le> row"
    "row - span_base 0 (ls_spans s) ?k < sp_len (ls_spans s ! ?k)"
    "store_rows s ! row = span_rows (ls_spans s ! ?k) ! (row - span_base 0 (ls_spans s) ?k)"
    using True assms ends_lookup [of 0 row "ls_spans s"] by (auto simp: store_ok_def store_wf_def store_rows_def)
  have "(if length (ls_spans s) = 1 then 0 else partition_count (\<lambda>stop. stop \<le> row) (ls_ends s)) = ?k"
    using k(1) by (auto simp: ok span_index_def)
  then have "store_get s row = bind_res (opt_res IndexPanic (span_at (ls_spans s ! ?k) (row - span_base 0 (ls_spans s) ?k)))
      (\<lambda>m. Inr (Some m))"
    using True k(1) by (simp add: store_get_def Let_def span_base_def ok(2))
  moreover have "span_at (ls_spans s ! ?k) (row - span_base 0 (ls_spans s) ?k) = Some (store_rows s ! row)"
    using k ok(1) by (simp add: span_at_rows list_all_length)
  ultimately show ?thesis using True by simp
qed (simp add: store_get_def)

end
