(* ===== verification/Line_Laws.thy ===== *)
theory Line_Laws
  imports Line_Store
begin

text \<open>
  The operations of \<open>LineStore\<close> (\<open>Line_Store\<close>) on the list of rows it stands for: slicing is cutting the
  list, joining appends the rows at their new positions and refuses exactly when one would overflow, and an
  overlay replaces every timestamp. Each of them keeps the store well formed.
\<close>

lemma cut_append: "cut a b (xs @ ys) = cut a b xs @ cut (a - length xs) (b - length xs) ys"
  by (cases "a \<le> length xs") (auto simp: cut_def)

lemma cut_map: "cut a b (map f xs) = map f (cut a b xs)"
  by (simp add: cut_def take_map drop_map)

lemma cut_Nil [simp]: "cut a b [] = []"
  by (simp add: cut_def)

lemma cut_empty: "b \<le> a \<or> length xs \<le> a \<Longrightarrow> cut a b xs = []"
  by (auto simp: cut_def)

lemma encode_decode:
  assumes "length b = 27"
  shows "encode_record (decode_record b) = b"
proof -
  have "[b ! 20] = cut 20 21 b" using assms by (simp add: cut_def take_Suc hd_drop_conv_nth)
  then have "encode_record (decode_record b) = cut 0 8 b @ cut 8 12 b @ cut 12 20 b @ cut 20 21 b @ cut 21 25 b @ cut 25 27 b"
    using assms by (simp add: encode_record_def decode_record_def)
  also have "\<dots> = b"
  proof -
    have join: "cut x y b @ cut y z b = cut x z b" "cut x y b @ cut y z b @ r = cut x z b @ r" if "x \<le> y" "y \<le> z" for x y z r
      using take_add [of "y - x" "z - y" "drop x b"] that by (simp_all add: cut_def)
    show ?thesis using assms by (simp add: join) (simp add: cut_def)
  qed
  finally show ?thesis .
qed

section \<open>Spans\<close>

lemma span_view_sels [simp]:
  "sp_records (span_view sp k n) = sp_records sp" "sp_first (span_view sp k n) = sp_first sp + k"
  "sp_len (span_view sp k n) = n" "sp_delta (span_view sp k n) = sp_delta sp"
  "sp_stamps (span_view sp k n) = map_option (\<lambda>(t, first). (t, first + k)) (sp_stamps sp)"
  by (simp_all add: span_view_def)

lemma physical_view [simp]: "physical (span_view sp k n) i = physical sp (k + i)"
  by (simp add: physical_def add.assoc)

lemma span_at_view: "span_at (span_view sp k n) i = span_at sp (k + i)"
  by (cases "sp_stamps sp") (auto simp: span_at_def add.assoc Let_def split: option.splits)

lemma span_view_rows: "k + n \<le> sp_len sp \<Longrightarrow> span_rows (span_view sp k n) = cut k (k + n) (span_rows sp)"
  by (rule nth_equalityI) (auto simp: span_rows_def span_at_view cut_nth)

lemma span_view_ok: "span_ok sp \<Longrightarrow> 0 < n \<Longrightarrow> k + n \<le> sp_len sp \<Longrightarrow> span_ok (span_view sp k n)"
  unfolding span_ok_def by (auto simp: add.assoc)

lemma push_span_wf: "store_wf s \<Longrightarrow> span_ok sp \<Longrightarrow> store_wf (push_span sp s)"
  by (simp add: store_wf_def push_span_def Let_def ends_from_append)

lemma push_span_rows [simp]: "store_rows (push_span sp s) = store_rows s @ span_rows sp"
  by (simp add: store_rows_def push_span_def Let_def)

lemma push_span_len [simp]: "ls_len (push_span sp s) = ls_len s + sp_len sp" "ls_spans (push_span sp s) = ls_spans s @ [sp]"
  by (simp_all add: push_span_def Let_def)

lemma store_empty_wf [simp]: "store_wf store_empty" "store_ok store_empty" "store_rows store_empty = []"
  by (simp_all add: store_wf_def store_ok_def store_empty_def store_rows_def)

section \<open>Slices\<close>

lemma slice_spans_rows:
  assumes "list_all span_ok sps" "store_wf out" "lo \<le> hi"
  shows "store_wf (slice_spans lo hi start sps out)
    \<and> store_rows (slice_spans lo hi start sps out)
        = store_rows out @ cut (lo - start) (hi - start) (concat (map span_rows sps))"
  using assms
proof (induction lo hi start sps out rule: slice_spans.induct)
  case (2 lo hi start sp sps out)
  define stop where "stop = start + sp_len sp"
  define a where "a = max lo start"
  define b where "b = min hi stop"
  define out' where "out' = (if a < b then push_span (span_view sp (a - start) (b - a)) out else out)"
  have ok: "span_ok sp" using 2 by simp
  have out': "store_wf out'" "store_rows out' = store_rows out @ cut (lo - start) (hi - start) (span_rows sp)"
  proof -
    show "store_wf out'" using 2 ok by (auto simp: out'_def a_def b_def stop_def intro!: push_span_wf span_view_ok)
    show "store_rows out' = store_rows out @ cut (lo - start) (hi - start) (span_rows sp)"
    proof (cases "a < b")
      case True
      then have "a - start = lo - start" "a - start + (b - a) = min (hi - start) (sp_len sp)"
        by (auto simp: a_def b_def stop_def)
      moreover have "cut (lo - start) (min (hi - start) (sp_len sp)) (span_rows sp) = cut (lo - start) (hi - start) (span_rows sp)"
        by (cases "hi - start \<le> sp_len sp") (auto simp: cut_def min_def)
      moreover have "a - start + (b - a) \<le> sp_len sp" using True by (auto simp: a_def b_def stop_def)
      ultimately show ?thesis using True by (simp add: out'_def span_view_rows)
    next
      case False
      then have "hi - start \<le> lo - start \<or> length (span_rows sp) \<le> lo - start"
        by (auto simp: a_def b_def stop_def max_def min_def split: if_splits)
      then show ?thesis using False by (simp add: out'_def cut_empty)
    qed
  qed
  have unfold: "slice_spans lo hi start (sp # sps) out = (if hi \<le> stop then out' else slice_spans lo hi stop sps out')"
    by (simp only: slice_spans.simps Let_def stop_def a_def b_def out'_def)
  show ?case
  proof (cases "hi \<le> stop")
    case True
    then have "cut (lo - start - sp_len sp) (hi - start - sp_len sp) (concat (map span_rows sps)) = []"
      by (intro cut_empty) (simp add: stop_def)
    then show ?thesis using True out' by (simp add: unfold cut_append del: slice_spans.simps)
  next
    case False
    have "list_all span_ok sps" using 2 by simp
    from "2.IH" [OF stop_def a_def b_def out'_def False this out'(1) \<open>lo \<le> hi\<close>] show ?thesis
      using False out'(2) by (simp add: unfold cut_append stop_def del: slice_spans.simps)
  qed
qed simp

lemma store_slice_rows:
  assumes "store_ok s" "store_slice s lo hi = Inr t"
  shows "store_ok t \<and> store_rows t = cut lo hi (store_rows s)"
proof -
  have t: "t = slice_spans lo hi 0 (ls_spans s) store_empty" "lo \<le> hi" "hi \<le> ls_len s"
    using assms(2) by (auto simp: store_slice_def split: if_splits)
  then have "store_wf t \<and> store_rows t = cut lo hi (store_rows s)"
    using slice_spans_rows [of "ls_spans s" store_empty lo hi 0] assms(1)
    by (simp add: store_ok_def store_wf_def [of s] store_rows_def [of s])
  moreover from this have "ls_len t \<le> ls_len s"
    using assms(1) t(3) by (simp flip: length_store_rows add: store_ok_def)
  ultimately show ?thesis using assms(1) by (simp add: store_ok_def)
qed

section \<open>Relocation\<close>

lemma word_checked_add_Some:
  "word_checked_add a b = Some c \<longleftrightarrow> unat a + unat b \<le> u64_max \<and> c = a + b"
  by (auto simp: word_checked_add_def)

lemma unat_checked: "unat a + unat b \<le> u64_max \<Longrightarrow> unat (a + b :: 64 word) = unat a + unat b"
  by (simp add: u64_max_def unat_add_lem [symmetric])

text \<open>The maximum of a span is the offset of one of its rows, and no row is further.\<close>

lemma foldr_max: "foldr max xs (x :: 64 word) \<in> set (x # xs) \<and> (\<forall>y \<in> set (x # xs). y \<le> foldr max xs x)"
  by (induction xs) (auto simp: max_def)

lemma span_maximum_row:
  assumes "span_ok sp"
  shows "\<exists>i < sp_len sp. span_maximum sp = Inr (Some (lr_offset (physical sp i)))
    \<and> (\<forall>j < sp_len sp. lr_offset (physical sp j) \<le> lr_offset (physical sp i))"
proof (cases "sp_records sp")
  case (Owned rows)
  have readable: "sp_first sp + i < length rows" "physical sp i = rows ! (sp_first sp + i)" if "i < sp_len sp" for i
    using assms that Owned by (auto simp: span_ok_def physical_def records_at_def split: if_splits)
  have pos: "0 < sp_len sp" using assms by (simp add: span_ok_def)
  have fits: "sp_first sp + sp_len sp \<le> length rows" using readable(1) [of "sp_len sp - 1"] pos by simp
  let ?os = "map lr_offset (cut (sp_first sp) (sp_first sp + sp_len sp) rows)"
  have len: "length ?os = sp_len sp" using fits by simp
  have nth: "?os ! i = lr_offset (physical sp i)" if "i < sp_len sp" for i
    using readable(2) [OF that] that fits by (simp add: cut_nth)
  obtain w ws where os: "?os = w # ws" using len pos by (cases ?os) auto
  have "foldr max ws w \<in> set ?os" "\<forall>y \<in> set ?os. y \<le> foldr max ws w"
    unfolding os using foldr_max [of ws w] by blast+
  then obtain i where i: "i < sp_len sp" "foldr max ws w = ?os ! i" by (metis in_set_conv_nth len)
  moreover have "lr_offset (physical sp j) \<le> lr_offset (physical sp i)" if "j < sp_len sp" for j
    using \<open>\<forall>y \<in> set ?os. y \<le> foldr max ws w\<close> i nth [OF that] nth [OF i(1)] that len
    by (metis nth_mem)
  ultimately show ?thesis using Owned fits os nth [OF i(1)] by (auto simp: span_maximum_def Let_def)
next
  case (Packed bytes start)
  then have "\<forall>j < sp_len sp. lr_offset (physical sp j) \<le> lr_offset (physical sp (sp_len sp - 1))" "0 < sp_len sp"
    using assms by (auto simp: span_ok_def is_owned_def)
  moreover from this obtain m where "records_at (sp_records sp) (sp_first sp + (sp_len sp - 1)) = Some m"
    using assms unfolding span_ok_def by (metis diff_less not_None_eq zero_less_one)
  then have "span_maximum sp = Inr (Some (lr_offset (physical sp (sp_len sp - 1))))"
    using \<open>0 < sp_len sp\<close> Packed by (simp add: span_maximum_def physical_def)
  ultimately show ?thesis by (intro exI [of _ "sp_len sp - 1"]) auto
qed

text \<open>A row as the store gives it, at a position further on.\<close>

definition relocated :: "64 word \<Rightarrow> line_row \<Rightarrow> line_row" where
  "relocated d m = m\<lparr>lr_offset := lr_offset m + d\<rparr>"

lemma span_rows_nth: "i < sp_len sp \<Longrightarrow> span_rows sp ! i = the (span_at sp i)"
  by (simp add: span_rows_def)

lemma span_row_offset:
  assumes "span_ok sp" "i < sp_len sp"
  shows "unat (lr_offset (span_rows sp ! i)) = unat (lr_offset (physical sp i)) + unat (sp_delta sp)"
proof -
  obtain m where m: "records_at (sp_records sp) (sp_first sp + i) = Some m" "physical sp i = m"
    "unat (lr_offset m) + unat (sp_delta sp) \<le> u64_max"
    using assms by (auto simp: span_ok_def physical_def)
  have "lr_offset (the (span_at sp i)) = lr_offset m + sp_delta sp"
    using span_at_some [OF assms] m(1)
    by (cases "sp_stamps sp") (auto simp: span_at_def Let_def split: option.splits)
  then show ?thesis using m assms(2) by (simp add: span_rows_nth unat_checked)
qed

lemma span_at_delta: "span_at (sp\<lparr>sp_delta := sp_delta sp + d\<rparr>) i = map_option (relocated d) (span_at sp i)"
  by (cases "sp_stamps sp")
     (auto simp: span_at_def relocated_def Let_def add.assoc map_option_case split: option.splits)

lemma relocate_span_exact:
  assumes "span_ok sp"
  shows "if \<forall>m \<in> set (span_rows sp). unat (lr_offset m) + unat d \<le> u64_max
    then \<exists>sp'. relocate_span d sp = Inr sp' \<and> span_ok sp' \<and> span_rows sp' = map (relocated d) (span_rows sp)
      \<and> sp_len sp' = sp_len sp
    else relocate_span d sp = Inl PositionExceeded"
proof -
  obtain i where i: "i < sp_len sp" "span_maximum sp = Inr (Some (lr_offset (physical sp i)))"
    and top: "\<And>j. j < sp_len sp \<Longrightarrow> lr_offset (physical sp j) \<le> lr_offset (physical sp i)"
    using span_maximum_row [OF assms] by blast
  have fits: "(\<forall>m \<in> set (span_rows sp). unat (lr_offset m) + unat d \<le> u64_max)
      \<longleftrightarrow> unat (lr_offset (physical sp i)) + unat (sp_delta sp) + unat d \<le> u64_max" (is "?all \<longleftrightarrow> ?top")
  proof
    assume ?all
    then have "unat (lr_offset (span_rows sp ! i)) + unat d \<le> u64_max" using i(1) by simp
    then show ?top by (simp add: span_row_offset [OF assms i(1)])
  next
    assume ?top
    moreover have "unat (lr_offset (span_rows sp ! j)) \<le> unat (lr_offset (physical sp i)) + unat (sp_delta sp)"
      if "j < sp_len sp" for j
      using top [OF that] by (simp add: span_row_offset [OF assms that] word_le_nat_alt)
    ultimately show ?all by (fastforce simp: in_set_conv_nth)
  qed
  show ?thesis
  proof (cases ?top)
    case True
    then have sum: "unat (sp_delta sp) + unat d \<le> u64_max" by simp
    let ?sp = "sp\<lparr>sp_delta := sp_delta sp + d\<rparr>"
    have "relocate_span d sp = Inr ?sp"
      using True sum i(2) by (simp add: relocate_span_def word_checked_add_def unat_checked)
    moreover have "span_ok ?sp"
    proof -
      have "unat (lr_offset (physical sp j)) + unat (sp_delta sp + d) \<le> u64_max" if "j < sp_len sp" for j
        using True top [OF that] by (simp add: unat_checked [OF sum] word_le_nat_alt)
      then show ?thesis using assms by (simp add: span_ok_def physical_def)
    qed
    moreover have "span_rows ?sp = map (relocated d) (span_rows sp)"
      by (auto simp: span_rows_def span_at_delta option.map_sel span_at_some [OF assms])
    ultimately show ?thesis using True fits by auto
  next
    case False
    have "relocate_span d sp = Inl PositionExceeded"
    proof (cases "unat (sp_delta sp) + unat d \<le> u64_max")
      case True
      then show ?thesis using False i(2) by (simp add: relocate_span_def word_checked_add_def unat_checked add.assoc)
    qed (simp add: relocate_span_def word_checked_add_def)
    then show ?thesis using False fits by auto
  qed
qed

lemma relocate_spans_exact:
  assumes "list_all span_ok sps"
  shows "if \<forall>m \<in> set (concat (map span_rows sps)). unat (lr_offset m) + unat d \<le> u64_max
    then \<exists>sps'. relocate_spans d sps = Inr sps' \<and> list_all span_ok sps'
      \<and> concat (map span_rows sps') = map (relocated d) (concat (map span_rows sps))
    else relocate_spans d sps = Inl PositionExceeded"
  using assms
proof (induction sps)
  case (Cons sp sps)
  have sp: "span_ok sp" and sps: "list_all span_ok sps" using Cons.prems by simp_all
  show ?case using relocate_span_exact [OF sp, of d] Cons.IH [OF sps]
    by (auto split: if_splits)
qed simp

lemma push_spans:
  "store_wf s \<Longrightarrow> list_all span_ok sps \<Longrightarrow>
     store_wf (fold push_span sps s) \<and> store_rows (fold push_span sps s) = store_rows s @ concat (map span_rows sps)"
  by (induction sps arbitrary: s) (auto simp: push_span_wf)

lemma append_relocated_rows:
  assumes "store_ok s" "store_ok t"
  shows "case append_relocated s t d of
      Inl e \<Rightarrow> (e = CountExceeded \<and> u64_max < ls_len s + ls_len t)
        \<or> (e = PositionExceeded \<and> (\<exists>m \<in> set (store_rows t). u64_max < unat (lr_offset m) + unat d))
    | Inr u \<Rightarrow> store_ok u \<and> store_rows u = store_rows s @ map (relocated d) (store_rows t)
        \<and> (\<forall>m \<in> set (store_rows t). unat (lr_offset (relocated d m)) = unat (lr_offset m) + unat d)"
proof (cases "ls_len s + ls_len t \<le> u64_max")
  case True
  have wf: "store_wf s" "list_all span_ok (ls_spans t)" "length (store_rows t) = ls_len t"
    using assms by (simp_all add: store_ok_def store_wf_def [of t] length_store_rows)
  show ?thesis
  proof (cases "\<forall>m \<in> set (store_rows t). unat (lr_offset m) + unat d \<le> u64_max")
    case fits: True
    then obtain sps where sps: "relocate_spans d (ls_spans t) = Inr sps" "list_all span_ok sps"
      "concat (map span_rows sps) = map (relocated d) (store_rows t)"
      using relocate_spans_exact [OF wf(2), of d] by (auto simp: store_rows_def)
    let ?u = "fold push_span sps s"
    have u: "store_wf ?u" "store_rows ?u = store_rows s @ map (relocated d) (store_rows t)"
      using push_spans [OF wf(1) sps(2)] sps(3) by simp_all
    then have "ls_len ?u = ls_len s + ls_len t"
      using wf(1,3) by (simp flip: length_store_rows)
    then show ?thesis using True fits sps(1) u
      by (auto simp: append_relocated_def checked_add_def store_ok_def relocated_def unat_checked)
  next
    case False
    then show ?thesis using True relocate_spans_exact [OF wf(2), of d]
      by (auto simp: append_relocated_def checked_add_def store_rows_def not_le)
  qed
qed (simp add: append_relocated_def checked_add_def)

section \<open>Timestamps\<close>

definition stamps_list :: "timestamps \<Rightarrow> 64 word list" where
  "stamps_list t = map (\<lambda>i. the (stamps_at t i)) [0..<tm_len t]"

definition stamped :: "line_row \<Rightarrow> 64 word \<Rightarrow> line_row" where
  "stamped m ts = m\<lparr>lr_ts := ts\<rparr>"

lemma span_at_stamped:
  assumes "span_ok sp" "i < sp_len sp" "stamps_at t (k + i) \<noteq> None"
  shows "span_at (sp\<lparr>sp_stamps := Some (t, k)\<rparr>) i = Some (stamped (span_rows sp ! i) (the (stamps_at t (k + i))))"
  using span_at_some [OF assms(1,2)] assms(2,3)
  by (cases "sp_stamps sp")
     (auto simp: span_at_def span_rows_nth stamped_def Let_def split: option.splits)

lemma stamp_spans_rows:
  assumes "list_all span_ok sps" "\<And>i. i < k + sum_list (map sp_len sps) \<Longrightarrow> stamps_at t i \<noteq> None"
  shows "list_all span_ok (stamp_spans t k sps)
    \<and> ends_from b (stamp_spans t k sps) = ends_from b sps
    \<and> map sp_len (stamp_spans t k sps) = map sp_len sps
    \<and> concat (map span_rows (stamp_spans t k sps))
        = map2 stamped (concat (map span_rows sps))
            (map (\<lambda>i. the (stamps_at t i)) [k..<k + sum_list (map sp_len sps)])"
  using assms
proof (induction sps arbitrary: k b)
  case (Cons sp sps)
  let ?sp = "sp\<lparr>sp_stamps := Some (t, k)\<rparr>" and ?stamp = "\<lambda>i. the (stamps_at t i)"
  have ok: "span_ok sp" and all: "\<And>i. i < sp_len sp \<Longrightarrow> stamps_at t (k + i) \<noteq> None"
    using Cons.prems by simp_all
  have "span_ok ?sp" using ok all unfolding span_ok_def physical_def by auto
  moreover have "span_rows ?sp = map2 stamped (span_rows sp) (map ?stamp [k..<k + sp_len sp])"
    using span_at_stamped [OF ok _ all] by (auto intro!: nth_equalityI simp: span_rows_nth [of _ ?sp])
  moreover have "[k..<k + (sp_len sp + n)] = [k..<k + sp_len sp] @ [k + sp_len sp..<k + sp_len sp + n]" for n
    by (metis add.assoc upt_add_eq_append le_add1)
  ultimately show ?case
    using Cons.IH [of "k + sp_len sp" "b + sp_len sp"] Cons.prems by (simp add: add.assoc)
qed simp

lemma with_timestamps_rows:
  assumes "store_ok s" "\<And>i. i < tm_len t \<Longrightarrow> stamps_at t i \<noteq> None" "with_timestamps s t = Inr u"
  shows "store_ok u \<and> store_rows u = map2 stamped (store_rows s) (stamps_list t)"
proof -
  have u: "u = s\<lparr>ls_spans := stamp_spans t 0 (ls_spans s)\<rparr>" "tm_len t = ls_len s"
    using assms(3) by (auto simp: with_timestamps_def split: if_splits)
  have wf: "list_all span_ok (ls_spans s)" "tm_len t = sum_list (map sp_len (ls_spans s))"
    using assms(1) u(2) by (simp_all add: store_ok_def store_wf_def)
  note rows = stamp_spans_rows [OF wf(1), of 0 t 0, unfolded add_0, folded wf(2), OF assms(2)]
  show ?thesis using rows assms(1) u
    by (simp add: store_ok_def store_wf_def store_rows_def stamps_list_def)
qed

section \<open>Stores as lists of rows\<close>

lemma store_of_rows_ok:
  assumes "length rows \<le> u64_max"
  shows "store_ok (store_of_rows rows) \<and> store_rows (store_of_rows rows) = rows"
proof (cases "rows = []")
  case False
  define sp where "sp = \<lparr>sp_records = Owned rows, sp_first = 0, sp_len = length rows, sp_delta = 0, sp_stamps = None\<rparr>"
  have s: "store_of_rows rows = \<lparr>ls_spans = [sp], ls_ends = [length rows], ls_len = length rows\<rparr>"
    using False by (simp add: store_of_rows_def one_span_def sp_def)
  have "unat (w :: 64 word) \<le> u64_max" for w
    using unsigned_less [of w, where 'a = nat] by (simp add: u64_max_def)
  then have "span_ok sp" using False by (simp add: span_ok_def sp_def records_at_def physical_def is_owned_def)
  moreover have "span_rows sp = rows"
    by (rule nth_equalityI) (simp_all add: span_rows_def sp_def span_at_def records_at_def)
  ultimately show ?thesis using assms by (simp add: s store_ok_def store_wf_def store_rows_def) (simp add: sp_def)
qed (simp add: store_of_rows_def)

text \<open>C14. Reading a line store by index is reading the list of rows it stands for, on every index; a slice is the
part of the list, again a well formed store, and a range that is not inside the store is refused.\<close>

theorem store_reads_rows:
  assumes "store_ok s"
  shows "store_get s row = Inr (if row < length (store_rows s) then Some (store_rows s ! row) else None)
    \<and> (if lo \<le> hi \<and> hi \<le> length (store_rows s)
        then \<exists>t. store_slice s lo hi = Inr t \<and> store_ok t \<and> store_rows t = cut lo hi (store_rows s)
        else store_slice s lo hi = Inl IndexPanic)"
proof -
  have len: "length (store_rows s) = ls_len s" using assms by (simp add: length_store_rows store_ok_def)
  show ?thesis
  proof (cases "lo \<le> hi \<and> hi \<le> ls_len s")
    case True
    then obtain t where "store_slice s lo hi = Inr t" by (simp add: store_slice_def)
    then show ?thesis using store_slice_rows [OF assms] True by (simp add: store_getI [OF assms] len)
  next
    case False
    then have "store_slice s lo hi = Inl IndexPanic" by (simp add: store_slice_def)
    then show ?thesis using False by (simp add: store_getI [OF assms] len)
  qed
qed

definition sample_row :: "64 word \<Rightarrow> 32 word \<Rightarrow> line_row" where
  "sample_row offset len =
     \<lparr>lr_offset = offset, lr_len = len, lr_ts = 1700000000000, lr_level = 3, lr_code_off = 2, lr_code_len = 5\<rparr>"

definition sample_rows :: "line_row list" where
  "sample_rows = [sample_row 0 20, sample_row 20 30]"

lemma sample_store_ok: "store_ok (store_of_rows sample_rows)" "store_rows (store_of_rows sample_rows) = sample_rows"
  using store_of_rows_ok [of sample_rows] by (simp_all add: sample_rows_def u64_max_def)

theorem store_reads_rows_witness:
  "store_get (store_of_rows sample_rows) 1 = Inr (Some (sample_row 20 30))
    \<and> (\<exists>t. store_slice (store_of_rows sample_rows) 1 2 = Inr t \<and> store_rows t = [sample_row 20 30])"
  using store_reads_rows [OF sample_store_ok(1), of 1 1 2]
  by (auto simp: sample_store_ok(2)) (simp_all add: sample_rows_def cut_def)

text \<open>C13. Joining a store to another at an offset appends its rows, each exactly that much further on; it is
refused, and the store left alone, exactly when there would be too many rows or one of the positions would
overflow.\<close>

theorem append_relocated_exact:
  assumes "store_ok s" "store_ok t"
  shows "case append_relocated s t d of
      Inl e \<Rightarrow> (e = CountExceeded \<and> u64_max < ls_len s + ls_len t)
        \<or> (e = PositionExceeded \<and> (\<exists>m \<in> set (store_rows t). u64_max < unat (lr_offset m) + unat d))
    | Inr u \<Rightarrow> store_ok u \<and> store_rows u = store_rows s @ map (relocated d) (store_rows t)
        \<and> (\<forall>m \<in> set (store_rows t). unat (lr_offset (relocated d m)) = unat (lr_offset m) + unat d)"
  by (rule append_relocated_rows [OF assms])

theorem append_relocated_exact_witness:
  "(\<exists>u. append_relocated (store_of_rows sample_rows) (store_of_rows sample_rows) 100 = Inr u
      \<and> store_rows u = [sample_row 0 20, sample_row 20 30, sample_row 100 20, sample_row 120 30])
    \<and> append_relocated (store_of_rows sample_rows) (store_of_rows sample_rows) (- 10) = Inl PositionExceeded"
proof -
  define S where "S = store_of_rows sample_rows"
  have S: "store_ok S" "store_rows S = [sample_row 0 20, sample_row 20 30]" "ls_len S = 2"
    using sample_store_ok by (simp_all add: S_def sample_rows_def store_of_rows_def one_span_def)
  note both = append_relocated_exact [OF S(1) S(1)]
  have "\<exists>u. append_relocated S S 100 = Inr u
      \<and> store_rows u = [sample_row 0 20, sample_row 20 30, sample_row 100 20, sample_row 120 30]"
    using both [of 100] by (cases "append_relocated S S 100") (auto simp: S u64_max_def sample_row_def relocated_def)
  moreover have "append_relocated S S (- 10) = Inl PositionExceeded"
    using both [of "- 10"] by (cases "append_relocated S S (- 10)") (auto simp: S u64_max_def sample_row_def relocated_def)
  ultimately show ?thesis by (simp add: S_def)
qed

end
