(* ===== verification/Line_Views.thy ===== *)
theory Line_Views
  imports Line_Laws
begin

text \<open>
  Views of a line store (\<open>src-tauri/src/metadata_store.rs\<close>): ranges with their binary search, iterators read
  from both ends, and chunks. What gives access to rows by index is the locale \<open>row_source\<close>, whose client is
  the search.
\<close>

section \<open>Ranges\<close>

record line_range =
  rg_store :: line_store
  rg_start :: nat
  rg_end :: nat

definition store_range :: "line_store \<Rightarrow> nat \<Rightarrow> nat \<Rightarrow> store_error + line_range" where
  "store_range s lo hi =
     (if lo \<le> hi \<and> hi \<le> ls_len s then Inr \<lparr>rg_store = s, rg_start = lo, rg_end = hi\<rparr> else Inl IndexPanic)"

definition range_len :: "line_range \<Rightarrow> nat" where
  "range_len r = rg_end r - rg_start r"

definition range_get :: "line_range \<Rightarrow> nat \<Rightarrow> store_error + line_row option" where
  "range_get r row =
     (if row < range_len r then bind_res (store_at (rg_store r) (rg_start r + row)) (\<lambda>m. Inr (Some m)) else Inr None)"

definition range_at :: "line_range \<Rightarrow> nat \<Rightarrow> store_error + line_row" where
  "range_at r row = bind_res (range_get r row) (opt_res IndexPanic)"

definition range_first :: "line_range \<Rightarrow> store_error + line_row option" where
  "range_first r = range_get r 0"

definition range_last :: "line_range \<Rightarrow> store_error + line_row option" where
  "range_last r = (if range_len r = 0 then Inr None else range_get r (range_len r - 1))"

definition range_to_store :: "line_range \<Rightarrow> store_error + line_store" where
  "range_to_store r = store_slice (rg_store r) (rg_start r) (rg_end r)"

lemma bind_res_cong [fundef_cong]:
  "m = m' \<Longrightarrow> (\<And>x. m' = Inr x \<Longrightarrow> f x = g x) \<Longrightarrow> bind_res m f = bind_res m' g"
  by (cases m') auto

function search :: "(nat \<Rightarrow> 'e + 'r) \<Rightarrow> ('r \<Rightarrow> bool) \<Rightarrow> nat \<Rightarrow> nat \<Rightarrow> 'e + nat" where
  "search get P left right =
     (if left < right then
        let mid = left + (right - left) div 2
        in bind_res (get mid) (\<lambda>m. if P m then search get P (mid + 1) right else search get P left mid)
      else Inr left)"
  by pat_completeness auto
termination by (relation "measure (\<lambda>(_, _, left, right). right - left)") auto

declare search.simps [simp del]

definition range_partition_point :: "line_range \<Rightarrow> (line_row \<Rightarrow> bool) \<Rightarrow> store_error + nat" where
  "range_partition_point r P = search (range_at r) P 0 (range_len r)"

definition store_partition_point :: "line_store \<Rightarrow> (line_row \<Rightarrow> bool) \<Rightarrow> store_error + nat" where
  "store_partition_point s P = bind_res (store_range s 0 (ls_len s)) (\<lambda>r. range_partition_point r P)"

section \<open>Iterators and chunks\<close>

record line_iter =
  it_store :: line_store
  it_next :: nat
  it_end :: nat

definition range_iter :: "line_range \<Rightarrow> line_iter" where
  "range_iter r = \<lparr>it_store = rg_store r, it_next = rg_start r, it_end = rg_end r\<rparr>"

definition store_iter :: "line_store \<Rightarrow> store_error + line_iter" where
  "store_iter s = bind_res (store_range s 0 (ls_len s)) (\<lambda>r. Inr (range_iter r))"

definition iter_next :: "line_iter \<Rightarrow> store_error + line_row option \<times> line_iter" where
  "iter_next it =
     (if it_next it = it_end it then Inr (None, it)
      else bind_res (store_at (it_store it) (it_next it)) (\<lambda>m. Inr (Some m, it\<lparr>it_next := it_next it + 1\<rparr>)))"

definition iter_next_back :: "line_iter \<Rightarrow> store_error + line_row option \<times> line_iter" where
  "iter_next_back it =
     (if it_next it = it_end it then Inr (None, it)
      else let it = it\<lparr>it_end := it_end it - 1\<rparr>
           in bind_res (store_at (it_store it) (it_end it)) (\<lambda>m. Inr (Some m, it)))"

definition iter_size :: "line_iter \<Rightarrow> nat" where
  "iter_size it = it_end it - it_next it"

record line_chunks =
  ck_store :: line_store
  ck_next :: nat
  ck_size :: nat

definition store_chunks :: "line_store \<Rightarrow> nat \<Rightarrow> store_error + line_chunks" where
  "store_chunks s n = (if 0 < n then Inr \<lparr>ck_store = s, ck_next = 0, ck_size = n\<rparr> else Inl IndexPanic)"

definition chunk_next :: "line_chunks \<Rightarrow> store_error + line_range option \<times> line_chunks" where
  "chunk_next c =
     (if ck_next c = ls_len (ck_store c) then Inr (None, c)
      else let stop = min (sat_add (ck_next c) (ck_size c)) (ls_len (ck_store c))
           in bind_res (store_range (ck_store c) (ck_next c) stop) (\<lambda>view. Inr (Some view, c\<lparr>ck_next := stop\<rparr>)))"

section \<open>Rows by index\<close>

locale row_source =
  fixes ok :: "'s \<Rightarrow> bool" and rows :: "'s \<Rightarrow> 'r list" and get_row :: "'s \<Rightarrow> nat \<Rightarrow> 'e + 'r"
  assumes get_row_nth: "ok s \<Longrightarrow> i < length (rows s) \<Longrightarrow> get_row s i = Inr (rows s ! i)"
begin

text \<open>For any predicate the search ends at a boundary of it.\<close>

lemma search_boundary:
  assumes "ok s" "l \<le> r" "r \<le> length (rows s)"
  shows "\<exists>p. search (get_row s) P l r = Inr p \<and> l \<le> p \<and> p \<le> r
    \<and> (l < p \<longrightarrow> P (rows s ! (p - 1))) \<and> (p < r \<longrightarrow> \<not> P (rows s ! p))"
  using assms(2,3)
proof (induction "r - l" arbitrary: l r rule: less_induct)
  case less
  show ?case
  proof (cases "l < r")
    case True
    let ?m = "l + (r - l) div 2"
    have m: "l \<le> ?m" "?m < r" using True by auto
    have step: "search (get_row s) P l r
        = (if P (rows s ! ?m) then search (get_row s) P (?m + 1) r else search (get_row s) P l ?m)"
      using True m(2) less.prems by (subst search.simps) (simp add: Let_def get_row_nth [OF assms(1)])
    show ?thesis
    proof (cases "P (rows s ! ?m)")
      case P: True
      have "\<exists>p. search (get_row s) P (?m + 1) r = Inr p \<and> ?m + 1 \<le> p \<and> p \<le> r
          \<and> (?m + 1 < p \<longrightarrow> P (rows s ! (p - 1))) \<and> (p < r \<longrightarrow> \<not> P (rows s ! p))"
        by (rule less.hyps) (use m less.prems in auto)
      then show ?thesis using P step m(1) by (metis (no_types, lifting) add_diff_cancel_right' le_SucI le_neq_implies_less
            le_trans Suc_eq_plus1)
    next
      case False
      have "\<exists>p. search (get_row s) P l ?m = Inr p \<and> l \<le> p \<and> p \<le> ?m
          \<and> (l < p \<longrightarrow> P (rows s ! (p - 1))) \<and> (p < ?m \<longrightarrow> \<not> P (rows s ! p))"
        by (rule less.hyps) (use m less.prems in auto)
      then show ?thesis using False step m(2) by (metis (no_types, lifting) le_neq_implies_less less_or_eq_imp_le le_trans)
    qed
  next
    case False
    then have "search (get_row s) P l r = Inr l" by (subst search.simps) simp
    then show ?thesis using False less.prems by auto
  qed
qed

text \<open>When the rows with the property come first it is their number.\<close>

lemma search_counts:
  assumes "ok s" "\<And>i j. i \<le> j \<Longrightarrow> j < length (rows s) \<Longrightarrow> P (rows s ! j) \<Longrightarrow> P (rows s ! i)"
  shows "search (get_row s) P 0 (length (rows s)) = Inr (partition_count P (rows s))"
proof -
  obtain p where p: "search (get_row s) P 0 (length (rows s)) = Inr p" "p \<le> length (rows s)"
    "0 < p \<longrightarrow> P (rows s ! (p - 1))" "p < length (rows s) \<longrightarrow> \<not> P (rows s ! p)"
    using search_boundary [OF assms(1), of 0 "length (rows s)" P] by auto
  have "takeWhile P (rows s) = take p (rows s)"
  proof (rule takeWhile_eq_take_P_nth)
    fix i assume "i < p" "i < length (rows s)"
    then show "P (rows s ! i)" using assms(2) [of i "p - 1"] p(2,3) by simp
  qed (use p(4) in blast)
  then show ?thesis using p(1,2) by (simp add: partition_count_def)
qed

end

lemma store_at_nth: "store_ok s \<Longrightarrow> i < length (store_rows s) \<Longrightarrow> store_at s i = Inr (store_rows s ! i)"
  by (simp add: store_at_def store_getI length_store_rows store_ok_def)

interpretation stored: row_source store_ok store_rows store_at
  by unfold_locales (rule store_at_nth)

definition range_ok :: "line_range \<Rightarrow> bool" where
  "range_ok r \<longleftrightarrow> store_ok (rg_store r) \<and> rg_start r \<le> rg_end r \<and> rg_end r \<le> ls_len (rg_store r)"

definition range_rows :: "line_range \<Rightarrow> line_row list" where
  "range_rows r = cut (rg_start r) (rg_end r) (store_rows (rg_store r))"

lemma length_range_rows: "range_ok r \<Longrightarrow> length (range_rows r) = range_len r"
  by (auto simp: range_rows_def range_ok_def range_len_def length_store_rows store_ok_def)

lemma range_at_nth:
  assumes "range_ok r" "i < length (range_rows r)"
  shows "range_at r i = Inr (range_rows r ! i)"
proof -
  have "i < range_len r" "rg_start r + i < length (store_rows (rg_store r))" "store_ok (rg_store r)"
    using assms by (auto simp: length_range_rows range_len_def) (auto simp: range_ok_def length_store_rows store_ok_def)
  then show ?thesis using assms
    by (simp add: range_at_def range_get_def store_at_nth range_rows_def)
       (simp add: cut_def range_len_def)
qed

interpretation ranged: row_source range_ok range_rows range_at
  by unfold_locales (rule range_at_nth)

lemma store_range_ok: "store_ok s \<Longrightarrow> store_range s lo hi = Inr r \<Longrightarrow> range_ok r \<and> range_rows r = cut lo hi (store_rows s)"
  by (auto simp: store_range_def range_ok_def range_rows_def split: if_splits)

section \<open>Iterators are read from both ends\<close>

definition iter_ok :: "line_iter \<Rightarrow> bool" where
  "iter_ok it \<longleftrightarrow> store_ok (it_store it) \<and> it_next it \<le> it_end it \<and> it_end it \<le> ls_len (it_store it)"

definition iter_rows :: "line_iter \<Rightarrow> line_row list" where
  "iter_rows it = cut (it_next it) (it_end it) (store_rows (it_store it))"

lemma length_iter_rows: "iter_ok it \<Longrightarrow> length (iter_rows it) = iter_size it"
  by (auto simp: iter_rows_def iter_ok_def iter_size_def length_store_rows store_ok_def)

lemma cut_front: "a < b \<Longrightarrow> b \<le> length xs \<Longrightarrow> cut a b xs = xs ! a # cut (Suc a) b xs"
  by (simp add: cut_def Cons_nth_drop_Suc [symmetric] take_Cons' Suc_diff_Suc)

lemma cut_split: "a \<le> m \<Longrightarrow> m \<le> b \<Longrightarrow> cut a b xs = cut a m xs @ cut m b xs"
  using take_add [of "m - a" "b - m" "drop a xs"] by (simp add: cut_def)

lemma cut_back: "a < b \<Longrightarrow> b \<le> length xs \<Longrightarrow> cut a b xs = cut a (b - 1) xs @ [xs ! (b - 1)]"
  using cut_split [of a "b - 1" b xs] cut_front [of "b - 1" b xs] by (simp add: cut_empty)

text \<open>An iterator over a line store is a double ended queue of its rows: reading from the front takes the
first row, reading from the back the last, and an empty one answers nothing and stays as it is; no read
panics.\<close>

lemma iter_is_deque:
  assumes "iter_ok it"
  shows "if iter_rows it = [] then iter_next it = Inr (None, it) \<and> iter_next_back it = Inr (None, it)
    else (\<exists>it'. iter_next it = Inr (Some (hd (iter_rows it)), it') \<and> iter_ok it' \<and> iter_rows it' = tl (iter_rows it))
      \<and> (\<exists>it'. iter_next_back it = Inr (Some (last (iter_rows it)), it') \<and> iter_ok it'
            \<and> iter_rows it' = butlast (iter_rows it))"
proof (cases "it_next it = it_end it")
  case True
  then show ?thesis by (simp add: iter_rows_def cut_empty iter_next_def iter_next_back_def)
next
  case False
  let ?s = "it_store it"
  have lt: "it_next it < it_end it" "it_end it \<le> length (store_rows ?s)" "store_ok ?s" "it_end it \<le> ls_len ?s"
    using assms False by (auto simp: iter_ok_def length_store_rows store_ok_def)
  have get: "store_at ?s (it_next it) = Inr (store_rows ?s ! it_next it)"
    "store_at ?s (it_end it - 1) = Inr (store_rows ?s ! (it_end it - 1))"
    using lt by (auto intro!: store_at_nth)
  have "\<exists>it'. iter_next it = Inr (Some (hd (iter_rows it)), it') \<and> iter_ok it' \<and> iter_rows it' = tl (iter_rows it)"
    using lt get(1) cut_front [OF lt(1,2)] False by (auto simp: iter_next_def iter_rows_def iter_ok_def)
  moreover have "\<exists>it'. iter_next_back it = Inr (Some (last (iter_rows it)), it') \<and> iter_ok it'
      \<and> iter_rows it' = butlast (iter_rows it)"
    using lt get(2) cut_back [OF lt(1,2)] False by (auto simp: iter_next_back_def iter_rows_def iter_ok_def Let_def)
  moreover have "iter_rows it \<noteq> []" using cut_front [OF lt(1,2)] by (simp add: iter_rows_def)
  ultimately show ?thesis by simp
qed

section \<open>Chunks\<close>

definition chunk_iter_ok :: "line_chunks \<Rightarrow> bool" where
  "chunk_iter_ok c \<longleftrightarrow> store_ok (ck_store c) \<and> 0 < ck_size c \<and> ck_next c \<le> ls_len (ck_store c)"

definition chunks_left :: "line_chunks \<Rightarrow> line_row list" where
  "chunks_left c = drop (ck_next c) (store_rows (ck_store c))"

text \<open>Each chunk is the next rows, as many as the size asks for while there are so many.\<close>

lemma chunk_next_takes:
  assumes "chunk_iter_ok c"
  shows "if chunks_left c = [] then chunk_next c = Inr (None, c)
    else (\<exists>r c'. chunk_next c = Inr (Some r, c') \<and> range_ok r \<and> range_rows r = take (ck_size c) (chunks_left c)
      \<and> chunk_iter_ok c' \<and> ck_size c' = ck_size c \<and> chunks_left c' = drop (ck_size c) (chunks_left c))"
proof (cases "ck_next c = ls_len (ck_store c)")
  case True
  then show ?thesis using assms by (simp add: chunks_left_def chunk_iter_ok_def store_ok_def length_store_rows chunk_next_def)
next
  case False
  let ?s = "ck_store c" and ?stop = "min (ck_next c + ck_size c) (ls_len (ck_store c))"
  have s: "store_ok ?s" "ls_len ?s \<le> u64_max" "length (store_rows ?s) = ls_len ?s" "ck_next c < ls_len ?s" "0 < ck_size c"
    using assms False by (auto simp: chunk_iter_ok_def store_ok_def length_store_rows)
  have stop: "min (sat_add (ck_next c) (ck_size c)) (ls_len ?s) = ?stop" using s(2) by (auto simp: sat_add_def)
  obtain r where r: "store_range ?s (ck_next c) ?stop = Inr r" using s(4) by (simp add: store_range_def)
  have "range_rows r = take (ck_size c) (chunks_left c)"
    using store_range_ok [OF s(1) r] s(3) by (simp add: chunks_left_def cut_def min_def)
  moreover have "chunks_left (c\<lparr>ck_next := ?stop\<rparr>) = drop (ck_size c) (chunks_left c)"
    using s(3) by (simp add: chunks_left_def min_def add.commute)
  ultimately show ?thesis
    using False r stop s store_range_ok [OF s(1) r]
    by (auto simp: chunk_next_def Let_def chunk_iter_ok_def chunks_left_def)
qed

end
