(* ===== verification/Line_Build.thy ===== *)
theory Line_Build
  imports Line_Views
begin

text \<open>
  Building the metadata of a source (\<open>src-tauri/src/metadata_store.rs\<close>): \<open>LineBuilder\<close>, a private spool file
  of packed records with the latest row still mutable, and \<open>TimestampWriter\<close>, a spool of timestamps. Both
  are published as the maps of a store.

  Files are written through \<open>BufWriter\<close>: the bytes in the file and those still in its buffer. The record
  \<open>scratch\<close> says whether the scratch file can be created and how many bytes the filesystem takes; a write
  beyond them fails. A failed operation ends the build, as every caller propagates its error, so its result
  carries no builder.
\<close>

section \<open>Buffered files\<close>

record scratch =
  sc_create :: bool
  sc_room :: nat

datatype build_error = ScratchFailed | WriteFailed | RowsExceeded | OutsideSource | SpoolMissing | NotSynced
  | ChunkInvalid | TailMissing | SpoolTruncated | BytesExceeded | BuildStopped

record spool =
  so_file :: "byte list"
  so_buf :: "byte list"

definition scratch_file :: "scratch \<Rightarrow> build_error + spool" where
  "scratch_file e = (if sc_create e then Inr \<lparr>so_file = [], so_buf = []\<rparr> else Inl ScratchFailed)"

definition file_write :: "scratch \<Rightarrow> byte list \<Rightarrow> spool \<Rightarrow> build_error + spool" where
  "file_write e bytes f =
     (if length (so_file f) + length bytes \<le> sc_room e then Inr (f\<lparr>so_file := so_file f @ bytes\<rparr>) else Inl WriteFailed)"

definition spool_flush :: "scratch \<Rightarrow> spool \<Rightarrow> build_error + spool" where
  "spool_flush e f = bind_res (file_write e (so_buf f) f) (\<lambda>f. Inr (f\<lparr>so_buf := []\<rparr>))"

definition spool_write :: "scratch \<Rightarrow> nat \<Rightarrow> byte list \<Rightarrow> spool \<Rightarrow> build_error + spool" where
  "spool_write e cap bytes f =
     (if length bytes < cap - length (so_buf f) then Inr (f\<lparr>so_buf := so_buf f @ bytes\<rparr>)
      else bind_res (if cap - length (so_buf f) < length bytes then spool_flush e f else Inr f) (\<lambda>f.
             if cap \<le> length bytes then file_write e bytes f else Inr (f\<lparr>so_buf := so_buf f @ bytes\<rparr>)))"

section \<open>LineBuilder\<close>

record line_builder =
  lb_file :: "spool option"
  lb_sealed :: nat
  lb_tail :: "line_row option"

definition builder_empty :: line_builder where
  "builder_empty = \<lparr>lb_file = None, lb_sealed = 0, lb_tail = None\<rparr>"

definition builder_len :: "line_builder \<Rightarrow> nat" where
  "builder_len b = lb_sealed b + (if lb_tail b = None then 0 else 1)"

definition builder_edit :: "(line_row \<Rightarrow> line_row) \<Rightarrow> line_builder \<Rightarrow> line_builder" where
  "builder_edit f b = b\<lparr>lb_tail := map_option f (lb_tail b)\<rparr>"

definition spool_capacity :: nat where
  "spool_capacity = 256 * 1024"

definition write_row :: "scratch \<Rightarrow> line_row \<Rightarrow> line_builder \<Rightarrow> build_error + line_builder" where
  "write_row e row b =
     bind_res (case lb_file b of Some f \<Rightarrow> Inr f | None \<Rightarrow> scratch_file e) (\<lambda>f.
     bind_res (spool_write e spool_capacity (encode_record row) f) (\<lambda>f.
     bind_res (opt_res RowsExceeded (checked_add (lb_sealed b) 1)) (\<lambda>n.
       Inr (b\<lparr>lb_file := Some f, lb_sealed := n\<rparr>))))"

definition builder_push :: "scratch \<Rightarrow> line_row \<Rightarrow> line_builder \<Rightarrow> build_error + line_builder" where
  "builder_push e row b =
     bind_res (case lb_tail b of None \<Rightarrow> Inr b | Some previous \<Rightarrow> write_row e previous (b\<lparr>lb_tail := None\<rparr>)) (\<lambda>b.
       Inr (b\<lparr>lb_tail := Some row\<rparr>))"

text \<open>\<open>stopped n\<close> is what \<open>operations::check\<close> answers before row \<open>n\<close> of those being added.\<close>

fun extend_from :: "scratch \<Rightarrow> (nat \<Rightarrow> bool) \<Rightarrow> nat \<Rightarrow> line_row list \<Rightarrow> line_builder \<Rightarrow> build_error + line_builder" where
  "extend_from e stopped n [] b = Inr b"
| "extend_from e stopped n (row # rows) b =
     (if n mod 8192 = 0 \<and> stopped n then Inl BuildStopped
      else bind_res (builder_push e row b) (extend_from e stopped (n + 1) rows))"

definition builder_extend :: "scratch \<Rightarrow> (nat \<Rightarrow> bool) \<Rightarrow> line_row list \<Rightarrow> line_builder \<Rightarrow> build_error + line_builder" where
  "builder_extend e stopped rows b = extend_from e stopped 0 rows b"

definition builder_flush :: "scratch \<Rightarrow> line_builder \<Rightarrow> build_error + line_builder" where
  "builder_flush e b =
     (case lb_file b of
        None \<Rightarrow> Inr b
      | Some f \<Rightarrow> bind_res (spool_flush e f) (\<lambda>f. Inr (b\<lparr>lb_file := Some f\<rparr>)))"

definition read_spool :: "spool \<Rightarrow> nat \<Rightarrow> nat \<Rightarrow> build_error + byte list" where
  "read_spool f n offset =
     (if offset + n \<le> length (so_file f) then Inr (cut offset (offset + n) (so_file f)) else Inl SpoolTruncated)"

definition synced_spool :: "line_builder \<Rightarrow> build_error + spool" where
  "synced_spool b =
     bind_res (opt_res SpoolMissing (lb_file b)) (\<lambda>f. if so_buf f \<noteq> [] then Inl NotSynced else Inr f)"

definition builder_at :: "line_builder \<Rightarrow> nat \<Rightarrow> build_error + line_row" where
  "builder_at b row =
     (if row = lb_sealed b then opt_res OutsideSource (lb_tail b)
      else if lb_sealed b < row then Inl OutsideSource
      else bind_res (synced_spool b) (\<lambda>f.
             bind_res (read_spool f record_bytes (row * record_bytes)) (\<lambda>bytes. Inr (decode_record bytes))))"

text \<open>\<open>chunks_exact\<close> decoded.\<close>

function decode_records :: "byte list \<Rightarrow> line_row list" where
  "decode_records bytes =
     (if length bytes < record_bytes then []
      else decode_record (take record_bytes bytes) # decode_records (drop record_bytes bytes))"
  by pat_completeness auto
termination by (relation "measure length") (auto simp: record_bytes_def)

declare decode_records.simps [simp del]

definition read_chunk :: "line_builder \<Rightarrow> nat \<Rightarrow> nat \<Rightarrow> build_error + line_row list" where
  "read_chunk b lo hi =
     (if hi < lo \<or> builder_len b < hi \<or> 8192 < hi - lo then Inl ChunkInvalid
      else
        let disk_count = min hi (lb_sealed b) - lo
        in bind_res (if disk_count = 0 then Inr []
                     else bind_res (synced_spool b) (\<lambda>f.
                            read_spool f (disk_count * record_bytes) (lo * record_bytes))) (\<lambda>bytes.
             if lb_sealed b < hi
             then bind_res (opt_res TailMissing (lb_tail b)) (\<lambda>t. Inr (decode_records bytes @ [t]))
             else Inr (decode_records bytes)))"

definition builder_finish :: "scratch \<Rightarrow> line_builder \<Rightarrow> build_error + line_store" where
  "builder_finish e b =
     bind_res (case lb_tail b of None \<Rightarrow> Inr b | Some tail \<Rightarrow> write_row e tail (b\<lparr>lb_tail := None\<rparr>)) (\<lambda>b.
     bind_res (builder_flush e b) (\<lambda>b.
       case lb_file b of
         None \<Rightarrow> Inr store_empty
       | Some f \<Rightarrow>
           bind_res (opt_res BytesExceeded (checked_mul (lb_sealed b) record_bytes)) (\<lambda>expected.
             if length (so_file f) \<noteq> expected then Inl SpoolTruncated
             else Inr (one_span (Packed (so_file f) 0) (lb_sealed b)))))"

section \<open>TimestampWriter\<close>

record stamp_writer =
  tw_file :: spool
  tw_len :: nat

definition stamp_writer_new :: "scratch \<Rightarrow> build_error + stamp_writer" where
  "stamp_writer_new e = bind_res (scratch_file e) (\<lambda>f. Inr \<lparr>tw_file = f, tw_len = 0\<rparr>)"

definition stamp_push :: "scratch \<Rightarrow> 64 word \<Rightarrow> stamp_writer \<Rightarrow> build_error + stamp_writer" where
  "stamp_push e ts w =
     bind_res (spool_write e (64 * 1024) (to_le_bytes ts) (tw_file w)) (\<lambda>f. Inr \<lparr>tw_file = f, tw_len = tw_len w + 1\<rparr>)"

text \<open>\<open>set_len\<close> extends a file with zeros.\<close>

definition stamp_finish :: "scratch \<Rightarrow> stamp_writer \<Rightarrow> build_error + timestamps" where
  "stamp_finish e w =
     bind_res (spool_flush e (tw_file w)) (\<lambda>f.
     bind_res (if tw_len w = 0 then (if 8 \<le> sc_room e then Inr (replicate 8 0) else Inl WriteFailed) else Inr (so_file f))
       (\<lambda>bytes. Inr \<lparr>tm_map = bytes, tm_start = 0, tm_len = tw_len w\<rparr>))"

section \<open>What a spool holds\<close>

definition spool_bytes :: "spool \<Rightarrow> byte list" where
  "spool_bytes f = so_file f @ so_buf f"

lemma file_write_bytes: "file_write e bytes f = Inr g \<Longrightarrow> so_file g = so_file f @ bytes \<and> so_buf g = so_buf f"
  by (auto simp: file_write_def split: if_splits)

lemma spool_flush_bytes: "spool_flush e f = Inr g \<Longrightarrow> so_file g = spool_bytes f \<and> so_buf g = []"
  by (auto simp: spool_flush_def spool_bytes_def bind_res_Inr dest!: file_write_bytes)

lemma spool_write_bytes:
  assumes "spool_write e cap bytes f = Inr g"
  shows "spool_bytes g = spool_bytes f @ bytes"
proof -
  consider "length bytes < cap - length (so_buf f)" "g = f\<lparr>so_buf := so_buf f @ bytes\<rparr>"
    | "length bytes = cap - length (so_buf f)" "bytes = [] \<or> length bytes < cap" "g = f\<lparr>so_buf := so_buf f @ bytes\<rparr>"
    | "length bytes = cap - length (so_buf f)" "cap \<le> length bytes" "file_write e bytes f = Inr g"
    | h where "spool_flush e f = Inr h" "file_write e bytes h = Inr g \<or> g = h\<lparr>so_buf := so_buf h @ bytes\<rparr>"
    using assms by (auto simp: spool_write_def bind_res_Inr split: if_splits)
  then show ?thesis
  proof cases
    case 3
    then have "bytes = [] \<or> so_buf f = []" by (cases "cap = 0"; cases "so_buf f") auto
    then show ?thesis using file_write_bytes [OF 3(3)] by (auto simp: spool_bytes_def)
  next
    case 4
    then show ?thesis using spool_flush_bytes [OF 4(1)] by (auto simp: spool_bytes_def dest: file_write_bytes)
  qed (simp_all add: spool_bytes_def)
qed

section \<open>What a builder holds\<close>

text \<open>The rows pushed so far: all but the last are in the spool, and the last is the tail.\<close>

definition builder_holds :: "line_builder \<Rightarrow> line_row list \<Rightarrow> bool" where
  "builder_holds b rows \<longleftrightarrow>
     (case lb_tail b of
        None \<Rightarrow> rows = [] \<and> b = builder_empty
      | Some tail \<Rightarrow> rows \<noteq> [] \<and> tail = last rows \<and> lb_sealed b = length (butlast rows) \<and> length rows \<le> u64_max + 1
          \<and> (case lb_file b of
               None \<Rightarrow> butlast rows = []
             | Some f \<Rightarrow> butlast rows \<noteq> [] \<and> spool_bytes f = concat (map encode_record (butlast rows))))"

definition synced :: "line_builder \<Rightarrow> bool" where
  "synced b \<longleftrightarrow> (\<forall>f. lb_file b = Some f \<longrightarrow> so_buf f = [])"

lemma length_encoded: "length (concat (map encode_record rows)) = length rows * record_bytes"
  by (induction rows) (simp_all add: record_bytes_def)

lemma cut_encoded:
  assumes "lo \<le> hi" "hi \<le> length rows"
  shows "cut (lo * record_bytes) (hi * record_bytes) (concat (map encode_record rows))
    = concat (map encode_record (cut lo hi rows))"
proof -
  have "rows = take lo rows @ cut lo hi rows @ drop hi rows"
    using assms by (metis append_take_drop_id cut_def cut_split le_add_diff_inverse take_add drop_drop
        add.commute append.assoc)
  then have "concat (map encode_record rows) = concat (map encode_record (take lo rows))
      @ concat (map encode_record (cut lo hi rows)) @ concat (map encode_record (drop hi rows))"
    by (metis concat_append map_append)
  moreover have "length (take lo rows) = lo" "length (cut lo hi rows) = hi - lo" using assms by auto
  ultimately show ?thesis
    by (simp add: cut_append length_encoded diff_mult_distrib cut_empty)
       (simp add: cut_def length_encoded flip: diff_mult_distrib)
qed

lemma decode_records_encoded [simp]: "decode_records (concat (map encode_record rows)) = rows"
proof (induction rows)
  case (Cons row rows)
  then show ?case by (subst decode_records.simps) (simp add: record_bytes_def decode_encode)
qed (simp add: decode_records.simps record_bytes_def)

lemma write_row_spool:
  assumes "write_row e row b = Inr b'"
  shows "\<exists>f g. lb_file b' = Some g \<and> lb_sealed b' = lb_sealed b + 1 \<and> lb_sealed b' \<le> u64_max \<and> lb_tail b' = lb_tail b
    \<and> (case lb_file b of None \<Rightarrow> f = \<lparr>so_file = [], so_buf = []\<rparr> | Some f' \<Rightarrow> f = f')
    \<and> spool_bytes g = spool_bytes f @ encode_record row"
  using assms unfolding write_row_def
  by (auto simp: bind_res_Inr opt_res_Inr scratch_file_def dest!: spool_write_bytes split: option.splits if_splits)

text \<open>Sealing the tail leaves every row in the spool.\<close>

lemma seal_tail:
  assumes "builder_holds b rows" "lb_tail b = Some tail" "write_row e tail (b\<lparr>lb_tail := None\<rparr>) = Inr b'"
  shows "\<exists>g. lb_file b' = Some g \<and> lb_sealed b' = length rows \<and> lb_tail b' = None \<and> length rows \<le> u64_max
    \<and> spool_bytes g = concat (map encode_record rows) \<and> rows \<noteq> []"
proof -
  have rows: "rows \<noteq> []" "tail = last rows" "lb_sealed b = length (butlast rows)"
    using assms(1,2) by (auto simp: builder_holds_def)
  have "concat (map encode_record rows) = concat (map encode_record (butlast rows)) @ encode_record (last rows)"
    using rows(1) by (cases rows rule: rev_cases) simp_all
  then show ?thesis
    using write_row_spool [OF assms(3)] assms(1,2) rows
    by (auto simp: builder_holds_def spool_bytes_def split: option.splits)
qed

lemma push_holds:
  assumes "builder_holds b rows" "builder_push e row b = Inr b'"
  shows "builder_holds b' (rows @ [row])"
proof (cases "lb_tail b")
  case None
  then show ?thesis using assms by (auto simp: builder_push_def builder_holds_def builder_empty_def)
next
  case (Some tail)
  then obtain c where c: "write_row e tail (b\<lparr>lb_tail := None\<rparr>) = Inr c" "b' = c\<lparr>lb_tail := Some row\<rparr>"
    using assms(2) by (auto simp: builder_push_def bind_res_Inr)
  show ?thesis using seal_tail [OF assms(1) Some c(1)] c(2) by (auto simp: builder_holds_def)
qed

lemma edit_holds:
  "builder_holds b rows \<Longrightarrow> rows \<noteq> [] \<Longrightarrow> builder_holds (builder_edit f b) (butlast rows @ [f (last rows)])"
  by (auto simp: builder_holds_def builder_edit_def split: option.splits)

lemma flush_holds:
  assumes "builder_holds b rows" "builder_flush e b = Inr b'"
  shows "builder_holds b' rows \<and> synced b'"
proof (cases "lb_file b")
  case (Some f)
  then obtain g where g: "spool_flush e f = Inr g" "b' = b\<lparr>lb_file := Some g\<rparr>"
    using assms(2) by (auto simp: builder_flush_def bind_res_Inr)
  then show ?thesis using assms(1) Some spool_flush_bytes [OF g(1)]
    by (auto simp: builder_holds_def synced_def spool_bytes_def builder_empty_def split: option.splits)
qed (use assms in \<open>simp add: builder_flush_def synced_def\<close>)

lemma holds_len: "builder_holds b rows \<Longrightarrow> builder_len b = length rows"
  by (auto simp: builder_holds_def builder_len_def builder_empty_def split: option.splits)

text \<open>What a synced spool reads back is the rows it was given.\<close>

lemma read_rows:
  assumes "builder_holds b rows" "synced b" "lo < hi" "hi \<le> lb_sealed b"
  shows "bind_res (synced_spool b) (\<lambda>f. read_spool f ((hi - lo) * record_bytes) (lo * record_bytes))
    = Inr (concat (map encode_record (cut lo hi rows)))"
proof -
  obtain tail where t: "lb_tail b = Some tail" "lb_sealed b = length (butlast rows)"
    using assms(1,3,4) by (cases "lb_tail b") (auto simp: builder_holds_def builder_empty_def)
  have "butlast rows \<noteq> []" using t(2) assms(3,4) by (metis list.size(3) le_zero_eq not_less_zero)
  then obtain f where b: "lb_tail b = Some tail" "lb_file b = Some f" "lb_sealed b = length (butlast rows)"
    "so_file f = concat (map encode_record (butlast rows))" "rows \<noteq> []"
    using assms(1,2) t by (auto simp: builder_holds_def synced_def spool_bytes_def builder_empty_def split: option.splits)
  have "cut lo hi rows = cut lo hi (butlast rows)"
    using assms(4) b(3,5) by (metis append_butlast_last_id cut_append_left)
  moreover have "hi * record_bytes \<le> length (so_file f)" using assms(4) b(3,4) by (simp add: length_encoded)
  moreover have "lo * record_bytes + (hi - lo) * record_bytes = hi * record_bytes"
    using assms(3) by (simp flip: add_mult_distrib)
  ultimately show ?thesis using assms(2-4) b(2-4)
    by (simp add: synced_spool_def synced_def read_spool_def cut_encoded)
qed

end
