(* ===== verification/Line_Build_Laws.thy ===== *)
theory Line_Build_Laws
  imports Line_Build
begin

text \<open>
  What is published is what was pushed: reading a builder back, the store \<open>finish\<close> makes of its spool, the
  store over a validated journal and the timestamps of a \<open>TimestampWriter\<close>.
\<close>

section \<open>Packed records\<close>

definition in_order :: "line_row list \<Rightarrow> bool" where
  "in_order rows \<longleftrightarrow> sorted (map (\<lambda>m. unat (lr_offset m)) rows)"

lemma cut_raws:
  assumes "list_all (\<lambda>r. length r = record_bytes) raws" "i < length raws"
  shows "cut (i * record_bytes) (i * record_bytes + record_bytes) (concat raws) = raws ! i"
  using assms
proof (induction raws arbitrary: i)
  case (Cons r raws)
  then show ?case by (cases i) (simp_all add: cut_append cut_all cut_empty add.commute)
qed simp

lemma length_raws: "list_all (\<lambda>r. length r = record_bytes) raws \<Longrightarrow> length (concat raws) = length raws * record_bytes"
  by (induction raws) simp_all

lemma packed_at:
  assumes "list_all (\<lambda>r. length r = record_bytes) raws" "i < length raws"
  shows "records_at (Packed (pre @ concat raws @ post) (length pre)) i = Some (decode_record (raws ! i))"
proof -
  have "length pre + i * record_bytes + record_bytes \<le> length pre + length (concat raws)"
    using assms mult_le_mono1 [of "Suc i" "length raws" record_bytes] by (simp add: length_raws)
  then show ?thesis using cut_raws [OF assms]
    by (simp add: records_at_def Let_def cut_append_right cut_append_left add.assoc)
qed

lemma packed_store:
  fixes pre post
  assumes raws: "list_all (\<lambda>r. length r = record_bytes) raws" and "raws \<noteq> []"
  defines "s \<equiv> one_span (Packed (pre @ concat raws @ post) (length pre)) (length raws)"
  defines "rows \<equiv> map decode_record raws"
  shows "store_rows s = rows" "in_order rows \<Longrightarrow> length rows \<le> u64_max \<Longrightarrow> store_ok s"
proof -
  define sp where "sp = hd (ls_spans s)"
  have sp: "ls_spans s = [sp]" "sp_len sp = length rows" "sp_first sp = 0" "sp_delta sp = 0" "sp_stamps sp = None"
    "sp_records sp = Packed (pre @ concat raws @ post) (length pre)"
    by (simp_all add: sp_def s_def one_span_def rows_def)
  have phys: "physical sp i = rows ! i" if "i < length rows" for i
    using packed_at [OF raws] that sp by (simp add: physical_def rows_def)
  have read: "span_at sp i = Some (rows ! i)" if "i < length rows" for i
    using packed_at [OF raws] that sp by (simp add: span_at_def rows_def)
  show "store_rows s = rows"
    by (rule nth_equalityI) (simp_all add: store_rows_def sp(1,2) span_rows_def read)
  assume ord: "in_order rows" and few: "length rows \<le> u64_max"
  have "span_ok sp" unfolding span_ok_def
  proof (intro conjI impI allI)
    fix i assume "i < sp_len sp"
    then show "records_at (sp_records sp) (sp_first sp + i) \<noteq> None" using packed_at [OF raws, of i] sp by (simp add: rows_def)
    show "unat (lr_offset (physical sp i)) + unat (sp_delta sp) \<le> u64_max"
      using unsigned_less [of "lr_offset (physical sp i)", where 'a = nat] sp(4) by (simp add: u64_max_def)
  next
    fix i j assume "i \<le> j \<and> j < sp_len sp"
    then show "lr_offset (physical sp i) \<le> lr_offset (physical sp j)"
      using ord sp(2) by (simp add: phys in_order_def sorted_iff_nth_mono word_le_nat_alt)
  qed (use assms(2) sp in \<open>auto simp: rows_def\<close>)
  then show "store_ok s" using few sp(1,2) by (simp add: store_ok_def store_wf_def) (simp add: s_def one_span_def rows_def)
qed

lemma encoded_raws [simp]: "list_all (\<lambda>r. length r = record_bytes) (map encode_record rows)"
  "map (decode_record \<circ> encode_record) rows = rows"
  by (auto simp: list_all_iff record_bytes_def decode_encode intro: map_idI)

section \<open>Reading a builder\<close>

lemma decode_records_Nil [simp]: "decode_records [] = []"
  by (simp add: decode_records.simps record_bytes_def)

lemma builder_at_rows:
  assumes "builder_holds b rows" "synced b"
  shows "builder_at b i = (if i < length rows then Inr (rows ! i) else Inl OutsideSource)"
proof (cases "i < lb_sealed b")
  case True
  have len: "lb_sealed b = length (butlast rows)"
    using assms(1) True by (cases "lb_tail b") (auto simp: builder_holds_def builder_empty_def)
  then have "bind_res (synced_spool b) (\<lambda>f. read_spool f record_bytes (i * record_bytes)) = Inr (encode_record (rows ! i))"
    using read_rows [OF assms, of i "Suc i"] True cut_front [of i "Suc i" rows] by (simp add: cut_empty)
  then show ?thesis using True len by (auto simp: builder_at_def bind_res_Inr decode_encode)
next
  case False
  show ?thesis
  proof (cases "lb_tail b")
    case None
    then show ?thesis using assms(1) by (simp add: builder_holds_def builder_at_def builder_empty_def)
  next
    case (Some tail)
    then have "rows \<noteq> []" "tail = last rows" "lb_sealed b = length rows - 1"
      using assms(1) by (simp_all add: builder_holds_def)
    then show ?thesis using False Some
      by (cases rows rule: rev_cases) (auto simp: builder_at_def nth_append)
  qed
qed

lemma read_chunk_at:
  assumes "builder_holds b rows" "synced b"
  shows "read_chunk b lo hi =
    (if hi < lo \<or> length rows < hi \<or> 8192 < hi - lo then Inl ChunkInvalid
     else if lo = length rows \<and> rows \<noteq> [] then Inr [last rows]
     else Inr (cut lo hi rows))"
proof (cases "lo \<le> hi \<and> hi \<le> length rows \<and> hi - lo \<le> 8192")
  case True
  let ?d = "min hi (lb_sealed b)"
  have disk: "(if ?d - lo = 0 then Inr [] else bind_res (synced_spool b) (\<lambda>f.
        read_spool f ((?d - lo) * record_bytes) (lo * record_bytes))) = Inr (concat (map encode_record (cut lo ?d rows)))"
    using read_rows [OF assms, of lo ?d] by (cases "lo < ?d") (simp_all add: cut_empty not_less del: min_less_iff_conj min_le_iff_disj)
  have chunk: "read_chunk b lo hi = (if lb_sealed b < hi
      then bind_res (opt_res TailMissing (lb_tail b)) (\<lambda>t. Inr (cut lo ?d rows @ [t])) else Inr (cut lo ?d rows))"
    unfolding read_chunk_def Let_def disk using True holds_len [OF assms(1)] by simp
  show ?thesis
  proof (cases "lb_tail b")
    case None
    then have "rows = []" "lb_sealed b = 0" using assms(1) by (simp_all add: builder_holds_def builder_empty_def)
    then show ?thesis unfolding chunk using True by simp
  next
    case (Some tail)
    then have rows: "rows \<noteq> []" "tail = last rows" "lb_sealed b = length rows - 1"
      using assms(1) by (simp_all add: builder_holds_def)
    show ?thesis
    proof (cases "hi = length rows")
      case hi: True
      then have "lo < hi \<Longrightarrow> cut lo hi rows = cut lo ?d rows @ [last rows]"
        using rows cut_back [of lo hi rows] by (simp add: last_conv_nth min_def)
      moreover have "lo = hi \<Longrightarrow> cut lo ?d rows = []" by (simp add: cut_empty)
      ultimately show ?thesis unfolding chunk using True hi Some rows by (cases "lo = hi") simp_all
    next
      case False
      then have "hi \<le> lb_sealed b" using True unfolding rows(3) by arith
      then show ?thesis unfolding chunk using True False rows by (auto simp: min_def)
    qed
  qed
qed (use holds_len [OF assms(1)] in \<open>auto simp: read_chunk_def\<close>)

text \<open>C39. Reading a chunk of a synced builder gives the rows of the range, of at most 8192 rows; the empty range
at the end gives the last row instead of none.\<close>

theorem read_chunk_rows:
  assumes "builder_holds b rows" "synced b"
  shows "read_chunk b lo hi =
    (if hi < lo \<or> length rows < hi \<or> 8192 < hi - lo then Inl ChunkInvalid
     else if lo = length rows \<and> rows \<noteq> [] then Inr [last rows]
     else Inr (cut lo hi rows))"
  by (rule read_chunk_at [OF assms])

section \<open>Publishing\<close>

lemma finish_rows:
  assumes "builder_holds b rows" "builder_finish e b = Inr s"
  shows "store_rows s = rows \<and> (in_order rows \<longrightarrow> store_ok s)"
proof (cases "lb_tail b")
  case None
  then show ?thesis using assms
    by (auto simp: builder_holds_def builder_finish_def builder_empty_def builder_flush_def)
next
  case (Some tail)
  then obtain c where c: "write_row e tail (b\<lparr>lb_tail := None\<rparr>) = Inr c"
    using assms(2) by (auto simp: builder_finish_def bind_res_Inr)
  obtain g where g: "lb_file c = Some g" "lb_sealed c = length rows" "length rows \<le> u64_max"
    "spool_bytes g = concat (map encode_record rows)" "rows \<noteq> []"
    using seal_tail [OF assms(1) Some c] by blast
  then obtain h where h: "spool_flush e g = Inr h" "s = one_span (Packed (so_file h) 0) (length rows)"
    using assms(2) c Some
    by (auto simp: builder_finish_def builder_flush_def bind_res_Inr split: if_splits)
  have "so_file h = [] @ concat (map encode_record rows) @ []" using spool_flush_bytes [OF h(1)] g(4) by simp
  then show ?thesis
    using packed_store [OF encoded_raws(1), of rows "[]" "[]"] g(3,5) h(2) by simp
qed

text \<open>What a parser does with a builder: push a row, change the last one, bring the spool up to date.\<close>

datatype build_step = PushRow line_row | EditLast "line_row \<Rightarrow> line_row" | FlushSpool

fun build_one :: "scratch \<Rightarrow> build_step \<Rightarrow> line_builder \<Rightarrow> build_error + line_builder" where
  "build_one e (PushRow m) b = builder_push e m b"
| "build_one e (EditLast f) b = Inr (builder_edit f b)"
| "build_one e FlushSpool b = builder_flush e b"

fun build_steps :: "scratch \<Rightarrow> build_step list \<Rightarrow> line_builder \<Rightarrow> build_error + line_builder" where
  "build_steps e [] b = Inr b"
| "build_steps e (x # xs) b = bind_res (build_one e x b) (build_steps e xs)"

fun rows_after :: "build_step list \<Rightarrow> line_row list \<Rightarrow> line_row list" where
  "rows_after [] rows = rows"
| "rows_after (PushRow m # xs) rows = rows_after xs (rows @ [m])"
| "rows_after (EditLast f # xs) rows = rows_after xs (if rows = [] then [] else butlast rows @ [f (last rows)])"
| "rows_after (FlushSpool # xs) rows = rows_after xs rows"

lemma builder_empty_holds: "builder_holds builder_empty []"
  by (simp add: builder_holds_def builder_empty_def)

lemma edit_empty: "builder_holds b [] \<Longrightarrow> builder_edit f b = b"
  by (auto simp: builder_holds_def builder_edit_def builder_empty_def split: option.splits)

lemma build_steps_hold:
  "builder_holds b rows \<Longrightarrow> build_steps e xs b = Inr b' \<Longrightarrow> builder_holds b' (rows_after xs rows)"
proof (induction xs rows arbitrary: b rule: rows_after.induct)
  case (3 f xs rows)
  then show ?case using edit_empty [of b f] edit_holds [of b rows f] by (cases "rows = []") auto
qed (auto simp: bind_res_Inr dest: push_holds flush_holds)

text \<open>C40. The store published by a builder holds the rows pushed into it, each as it was when the next one
arrived or at the end.\<close>

theorem published_rows:
  assumes "build_steps e xs builder_empty = Inr b" "builder_finish e b = Inr s"
  shows "store_rows s = rows_after xs [] \<and> (in_order (rows_after xs []) \<longrightarrow> store_ok s)"
  by (rule finish_rows [OF build_steps_hold [OF builder_empty_holds assms(1)] assms(2)])

section \<open>Timestamps\<close>

definition writer_holds :: "stamp_writer \<Rightarrow> 64 word list \<Rightarrow> bool" where
  "writer_holds w ts \<longleftrightarrow> spool_bytes (tw_file w) = concat (map to_le_bytes ts) \<and> tw_len w = length ts"

fun stamp_pushes :: "scratch \<Rightarrow> 64 word list \<Rightarrow> stamp_writer \<Rightarrow> build_error + stamp_writer" where
  "stamp_pushes e [] w = Inr w"
| "stamp_pushes e (t # ts) w = bind_res (stamp_push e t w) (stamp_pushes e ts)"

lemma stamp_pushes_hold:
  "writer_holds w ts \<Longrightarrow> stamp_pushes e ts' w = Inr w' \<Longrightarrow> writer_holds w' (ts @ ts')"
proof (induction ts' arbitrary: w ts)
  case (Cons t ts')
  then obtain v where v: "stamp_push e t w = Inr v" "stamp_pushes e ts' v = Inr w'" by (auto simp: bind_res_Inr)
  have "writer_holds v (ts @ [t])"
    using v(1) Cons.prems(1) by (auto simp: stamp_push_def writer_holds_def bind_res_Inr dest: spool_write_bytes)
  then show ?case using Cons.IH v(2) by fastforce
qed simp

lemma word_at:
  assumes "i < length ts"
  shows "cut (i * 8) (i * 8 + 8) (concat (map to_le_bytes ts)) = to_le_bytes (ts ! i :: 64 word)"
proof -
  have len: "length (concat (map to_le_bytes us)) = 8 * length us" for us :: "64 word list"
    by (induction us) simp_all
  have "ts = take i ts @ ts ! i # drop (Suc i) ts" using assms by (rule id_take_nth_drop)
  then have "concat (map to_le_bytes ts) = concat (map to_le_bytes (take i ts)) @ to_le_bytes (ts ! i)
      @ concat (map to_le_bytes (drop (Suc i) ts))"
    by (metis concat.simps(2) concat_append list.simps(9) map_append)
  then show ?thesis using assms by (simp add: cut_simps len)
qed

lemma finish_stamps:
  assumes "writer_holds w ts" "stamp_finish e w = Inr t"
  shows "tm_len t = length ts \<and> (\<forall>i < tm_len t. stamps_at t i = Some (ts ! i)) \<and> stamps_list t = ts"
proof -
  have len: "tm_len t = length ts" using assms by (auto simp: stamp_finish_def writer_holds_def bind_res_Inr)
  have read: "stamps_at t i = Some (ts ! i)" if "i < length ts" for i
  proof -
    have "ts \<noteq> []" using that by auto
    then have "tm_map t = concat (map to_le_bytes ts)" "tm_start t = 0"
      using assms by (auto simp: stamp_finish_def writer_holds_def bind_res_Inr dest!: spool_flush_bytes split: if_splits)
    moreover have "i * 8 + 8 \<le> length (concat (map to_le_bytes ts))"
      using that by (simp add: length_concat comp_def sum_list_triv)
    ultimately show ?thesis using word_at [OF that] by (simp add: stamps_at_def)
  qed
  show ?thesis
    unfolding stamps_list_def len using read by (auto intro!: nth_equalityI)
qed

text \<open>A store built from rows and overlaid with the timestamps of a writer holds the rows with those
timestamps, and so does every slice of it.\<close>

lemma overlaid_rows:
  assumes "store_ok s" "stamp_writer_new e = Inr w" "stamp_pushes e ts w = Inr w'" "stamp_finish e w' = Inr t"
    "with_timestamps s t = Inr u" "store_slice u lo hi = Inr v"
  shows "store_ok v \<and> store_rows v = cut lo hi (map2 stamped (store_rows s) ts)"
proof -
  have "writer_holds w []"
    using assms(2) by (auto simp: stamp_writer_new_def writer_holds_def spool_bytes_def bind_res_Inr scratch_file_def split: if_splits)
  from stamp_pushes_hold [OF this assms(3)] have t: "tm_len t = length ts" "\<forall>i < tm_len t. stamps_at t i = Some (ts ! i)" "stamps_list t = ts"
    using finish_stamps [OF _ assms(4)] by auto
  have "store_ok u \<and> store_rows u = map2 stamped (store_rows s) ts"
    using with_timestamps_rows [OF assms(1) _ assms(5)] t by auto
  then show ?thesis using store_slice_rows assms(6) by metis
qed

section \<open>A concrete build\<close>

definition sample_scratch :: scratch where
  "sample_scratch = \<lparr>sc_create = True, sc_room = 1000000\<rparr>"

definition sample_steps :: "build_step list" where
  "sample_steps = [PushRow (sample_row 0 20), PushRow (sample_row 20 1), EditLast (\<lambda>m. m\<lparr>lr_len := 30\<rparr>), FlushSpool]"

definition sample_builder :: line_builder where
  "sample_builder =
     \<lparr>lb_file = Some \<lparr>so_file = encode_record (sample_row 0 20), so_buf = []\<rparr>, lb_sealed = 1, lb_tail = Some (sample_row 20 30)\<rparr>"

lemma sample_built: "build_steps sample_scratch sample_steps builder_empty = Inr sample_builder"
  by (simp add: sample_steps_def builder_empty_def builder_push_def write_row_def scratch_file_def sample_scratch_def
      spool_write_def spool_capacity_def checked_add_def u64_max_def builder_edit_def builder_flush_def spool_flush_def
      file_write_def sample_builder_def) (simp add: sample_row_def)

lemma sample_builder_holds: "builder_holds sample_builder sample_rows" "synced sample_builder"
  by (simp_all add: sample_builder_def builder_holds_def sample_rows_def spool_bytes_def u64_max_def synced_def)

theorem published_rows_witness:
  "\<exists>s. builder_finish sample_scratch sample_builder = Inr s \<and> store_rows s = sample_rows \<and> store_ok s"
proof -
  obtain s where "builder_finish sample_scratch sample_builder = Inr s"
    by (simp add: builder_finish_def sample_builder_def write_row_def spool_write_def spool_capacity_def checked_add_def
        u64_max_def builder_flush_def spool_flush_def file_write_def sample_scratch_def checked_mul_def record_bytes_def)
  moreover have "rows_after sample_steps [] = sample_rows" "in_order sample_rows"
    by (simp_all add: sample_steps_def sample_rows_def sample_row_def in_order_def)
  ultimately show ?thesis using published_rows [OF sample_built] by auto
qed

theorem read_chunk_rows_witness:
  "read_chunk sample_builder 0 2 = Inr sample_rows \<and> read_chunk sample_builder 2 2 = Inr [sample_row 20 30]"
  using read_chunk_rows [OF sample_builder_holds, of 0 2] read_chunk_rows [OF sample_builder_holds, of 2 2]
  by (simp add: sample_rows_def cut_def)

end
