(* ===== verification/Line_Journal.thy ===== *)
theory Line_Journal
  imports Line_Build_Laws
begin

text \<open>
  The checkpoints of the metadata of a source, \<open>src-tauri/src/metadata_checkpoint.rs\<close>: a journal of records
  that grows at its end and a manifest whose replacement is the commit point.

  The record \<open>journal_world\<close> has what comes from crates: SHA-256 in hexadecimal, the JSON of a manifest and that
  of its envelope, which is a type of its own with a size. A running hash is the bytes given to it. A \<open>key\<close> is its bytes. The disk has the journal, how
  much of it is known to be durable, the manifest a reader sees and the one a crash may bring back. Locks,
  receipts of earlier validations and progress reports are left out: a journal is used under its lock.
\<close>

section \<open>Cadence\<close>

record checkpoint_policy =
  cp_rows :: nat
  cp_source_bytes :: nat
  cp_elapsed :: nat

definition policy_default :: checkpoint_policy where
  "policy_default = \<lparr>cp_rows = 65536, cp_source_bytes = 16 * 1024 * 1024, cp_elapsed = 2000\<rparr>"

definition every_wave :: checkpoint_policy where
  "every_wave = \<lparr>cp_rows = 1, cp_source_bytes = 1, cp_elapsed = 0\<rparr>"

definition policy_named :: "rstr \<Rightarrow> checkpoint_policy option" where
  "policy_named name =
     (if name = lit ''batched'' then Some policy_default else if name = lit ''wave'' then Some every_wave else None)"

definition checkpoint_due :: "checkpoint_policy \<Rightarrow> nat \<Rightarrow> nat \<Rightarrow> nat \<Rightarrow> bool \<Rightarrow> bool" where
  "checkpoint_due p rows source_bytes elapsed finalizing \<longleftrightarrow>
     finalizing \<or> (0 < rows \<or> 0 < source_bytes)
       \<and> (cp_rows p \<le> rows \<or> cp_source_bytes p \<le> source_bytes \<or> cp_elapsed p \<le> elapsed)"

section \<open>Manifests\<close>

record manifest =
  mf_version :: nat
  mf_key :: "byte list"
  mf_source_bytes :: nat
  mf_payload_bytes :: nat
  mf_payload_sha :: rstr
  mf_sealed_rows :: nat
  mf_cursor :: nat
  mf_tail :: "line_row option"
  mf_scan_complete :: bool
  mf_columns :: "rstr list option"

record 'j journal_world =
  jw_sha :: "byte list \<Rightarrow> rstr"
  jw_state :: "manifest \<Rightarrow> byte list"
  jw_envelope :: "manifest \<Rightarrow> rstr \<Rightarrow> 'j"
  jw_parse :: "'j \<Rightarrow> (manifest \<times> rstr) option"
  jw_size :: "'j \<Rightarrow> nat"

definition state_digest :: "'j journal_world \<Rightarrow> manifest \<Rightarrow> rstr" where
  "state_digest w m = jw_sha w (jw_state w m)"

definition magic :: "byte list" where
  "magic = map of_nat (lit ''LIDJ0001'')"

definition header_bytes :: nat where
  "header_bytes = 72"

definition block_rows :: nat where
  "block_rows = 8192"

definition max_manifest_bytes :: nat where
  "max_manifest_bytes = 4000000"

definition journal_version :: nat where
  "journal_version = 1"

record 'j journal_disk =
  jd_lines :: "byte list option"
  jd_synced :: nat
  jd_state :: "'j option"
  jd_kept :: "'j option"

text \<open>What a journal is opened for.\<close>

record journal_key =
  jk_key :: "byte list"
  jk_source_bytes :: nat
  jk_initial_cursor :: nat
  jk_multiline :: bool

definition header :: "journal_key \<Rightarrow> byte list" where
  "header k = magic @ jk_key k"

definition manifest_refused :: "journal_key \<Rightarrow> manifest \<Rightarrow> nat \<Rightarrow> bool" where
  "manifest_refused k m expected \<longleftrightarrow>
     mf_version m \<noteq> journal_version \<or> mf_key m \<noteq> jk_key k \<or> mf_source_bytes m \<noteq> jk_source_bytes k
     \<or> mf_payload_bytes m \<noteq> expected \<or> jk_source_bytes k < mf_sealed_rows m \<or> 500000000 < mf_sealed_rows m
     \<or> mf_cursor m < jk_initial_cursor k \<or> jk_source_bytes k < mf_cursor m
     \<or> mf_columns m \<noteq> None \<and> \<not> mf_scan_complete m
     \<or> mf_tail m \<noteq> None \<and> (\<not> jk_multiline k \<or> mf_scan_complete m)
     \<or> mf_scan_complete m \<and> mf_cursor m \<noteq> jk_source_bytes k"

definition read_state :: "'j journal_world \<Rightarrow> journal_key \<Rightarrow> 'j journal_disk \<Rightarrow> (manifest \<times> byte list) option" where
  "read_state w k d =
     (case jd_state d of
        None \<Rightarrow> None
      | Some data \<Rightarrow>
          if max_manifest_bytes < jw_size w data then None
          else case jw_parse w data of
            None \<Rightarrow> None
          | Some (m, sha) \<Rightarrow>
              if state_digest w m \<noteq> sha then None
              else case Option.bind (checked_mul (mf_sealed_rows m) record_bytes) (\<lambda>n. checked_add n header_bytes) of
                None \<Rightarrow> None
              | Some expected \<Rightarrow>
                  if manifest_refused k m expected then None
                  else case jd_lines d of
                    None \<Rightarrow> None
                  | Some lines \<Rightarrow> if length lines < expected then None else Some (m, lines))"

section \<open>Restoring\<close>

datatype journal_error = JCancelled | JBuild build_error | JStore store_error | JInconsistent | JManifestTooLarge | JUnavailable | JSourceChanged

definition decode_checked :: "byte list \<Rightarrow> line_row option" where
  "decode_checked b = (if record_bytes \<le> length b then Some (decode_record b) else None)"

definition row_end :: "line_row \<Rightarrow> nat option" where
  "row_end m = checked_add (unat (lr_offset m)) (unat (lr_len m))"

definition valid_record :: "line_row \<Rightarrow> nat \<Rightarrow> nat option \<Rightarrow> bool" where
  "valid_record m cursor previous_end \<longleftrightarrow>
     lr_len m \<noteq> 0
     \<and> (case row_end m of None \<Rightarrow> False | Some stop \<Rightarrow> stop \<le> cursor)
     \<and> (case previous_end of None \<Rightarrow> True | Some stop \<Rightarrow> stop \<le> unat (lr_offset m))
     \<and> (lr_code_len m = 0 \<or> unat (lr_code_off m) + unat (lr_code_len m) \<le> unat (lr_len m))"

text \<open>\<open>chunks_exact\<close>.\<close>

function record_chunks :: "byte list \<Rightarrow> byte list list" where
  "record_chunks bytes =
     (if length bytes < record_bytes then [] else take record_bytes bytes # record_chunks (drop record_bytes bytes))"
  by pat_completeness auto
termination by (relation "measure length") (auto simp: record_bytes_def)

declare record_chunks.simps [simp del]

text \<open>The records of a block; \<open>None\<close> when one of them is refused.\<close>

fun restore_records ::
  "scratch \<Rightarrow> nat \<Rightarrow> byte list list \<Rightarrow> nat option \<Rightarrow> line_builder \<Rightarrow> journal_error + (nat option \<times> line_builder) option" where
  "restore_records e cursor [] prev b = Inr (Some (prev, b))"
| "restore_records e cursor (raw # raws) prev b =
     (case decode_checked raw of
        None \<Rightarrow> Inr None
      | Some m \<Rightarrow>
          if \<not> valid_record m cursor prev then Inr None
          else case builder_push e m b of
            Inl err \<Rightarrow> Inl (JBuild err)
          | Inr b \<Rightarrow> restore_records e cursor raws (row_end m) b)"

text \<open>
  The loop over blocks, with the rows still to be read, what is left of the file and the bytes hashed so far.
  \<open>stopped\<close> is what \<open>operations::check\<close> answers with so many rows left.
\<close>

function restore_blocks ::
  "scratch \<Rightarrow> (nat \<Rightarrow> bool) \<Rightarrow> nat \<Rightarrow> nat \<Rightarrow> byte list \<Rightarrow> byte list \<Rightarrow> nat option \<Rightarrow> line_builder
     \<Rightarrow> journal_error + (byte list \<times> nat option \<times> line_builder) option" where
  "restore_blocks e stopped cursor n file hash prev b =
     (if n = 0 then Inr (Some (hash, prev, b))
      else if stopped n then Inl JCancelled
      else
        let k = min n block_rows
        in if length file < k * record_bytes then Inr None
           else
             let bytes = take (k * record_bytes) file
             in case restore_records e cursor (record_chunks bytes) prev b of
                  Inl err \<Rightarrow> Inl err
                | Inr None \<Rightarrow> Inr None
                | Inr (Some (prev, b)) \<Rightarrow>
                    restore_blocks e stopped cursor (n - k) (drop (k * record_bytes) file) (hash @ bytes) prev b)"
  by pat_completeness auto
termination by (relation "measure (\<lambda>(_, _, _, n, _). n)") (auto simp: block_rows_def)

declare restore_blocks.simps [simp del]

record resume =
  rs_lines :: line_builder
  rs_cursor :: nat
  rs_scan_complete :: bool
  rs_columns :: "rstr list option"
  rs_resumed_rows :: nat

definition lift_build :: "build_error + 'a \<Rightarrow> journal_error + 'a" where
  "lift_build r = (case r of Inl err \<Rightarrow> Inl (JBuild err) | Inr x \<Rightarrow> Inr x)"

text \<open>The tail of the manifest is pushed after the records, and the spool is brought up to date.\<close>

definition restore_tail ::
  "scratch \<Rightarrow> manifest \<Rightarrow> nat option \<Rightarrow> line_builder \<Rightarrow> journal_error + line_builder option" where
  "restore_tail e m prev b =
     (case mf_tail m of
        None \<Rightarrow> Inr (Some b)
      | Some row \<Rightarrow>
          if \<not> valid_record row (mf_cursor m) prev then Inr None
          else bind_res (lift_build (builder_push e row b)) (\<lambda>b. Inr (Some b)))"

definition restore ::
  "'j journal_world \<Rightarrow> scratch \<Rightarrow> (nat \<Rightarrow> bool) \<Rightarrow> journal_key \<Rightarrow> 'j journal_disk
     \<Rightarrow> journal_error + (resume \<times> byte list \<times> nat \<times> nat) option" where
  "restore w e stopped k d =
     (case read_state w k d of
        None \<Rightarrow> Inr None
      | Some (m, file) \<Rightarrow>
          if length file < header_bytes \<or> take header_bytes file \<noteq> header k then Inr None
          else bind_res (restore_blocks e stopped (mf_cursor m) (mf_sealed_rows m) (drop header_bytes file)
                           (take header_bytes file) None builder_empty) (\<lambda>read.
            case read of
              None \<Rightarrow> Inr None
            | Some (hash, prev, b) \<Rightarrow>
                if jw_sha w hash \<noteq> mf_payload_sha m then Inr None
                else bind_res (restore_tail e m prev b) (\<lambda>tailed.
                  case tailed of
                    None \<Rightarrow> Inr None
                  | Some b \<Rightarrow>
                      bind_res (lift_build (builder_flush e b)) (\<lambda>b.
                        if stopped 0 then Inl JCancelled
                        else Inr (Some (\<lparr>rs_lines = b, rs_cursor = mf_cursor m,
                                         rs_scan_complete = mf_scan_complete m, rs_columns = mf_columns m,
                                         rs_resumed_rows = mf_sealed_rows m\<rparr>,
                                        hash, mf_payload_bytes m, mf_sealed_rows m))))))"

section \<open>The journal\<close>

datatype 'j journal_effect = CreateJournal | RemoveState | TruncateJournal nat | AppendRows "byte list"
  | SyncJournal | PublishState 'j | SyncDirectory

fun apply_journal :: "'j journal_effect \<Rightarrow> 'j journal_disk \<Rightarrow> 'j journal_disk" where
  "apply_journal CreateJournal d = d\<lparr>jd_lines := Some [], jd_synced := 0\<rparr>"
| "apply_journal RemoveState d = d\<lparr>jd_state := None\<rparr>"
| "apply_journal (TruncateJournal n) d = d\<lparr>jd_lines := map_option (take n) (jd_lines d), jd_synced := min n (jd_synced d)\<rparr>"
| "apply_journal (AppendRows bytes) d = d\<lparr>jd_lines := map_option (\<lambda>l. l @ bytes) (jd_lines d)\<rparr>"
| "apply_journal SyncJournal d = d\<lparr>jd_synced := (case jd_lines d of None \<Rightarrow> 0 | Some l \<Rightarrow> length l)\<rparr>"
| "apply_journal (PublishState bytes) d = d\<lparr>jd_state := Some bytes\<rparr>"
| "apply_journal SyncDirectory d = d\<lparr>jd_kept := jd_state d\<rparr>"

definition journal_effects :: "'j journal_effect list \<Rightarrow> 'j journal_disk \<Rightarrow> 'j journal_disk" where
  "journal_effects es d = fold apply_journal es d"

record line_journal =
  jr_key :: journal_key
  jr_hash :: "byte list"
  jr_sealed :: nat
  jr_resumed :: nat
  jr_cursor :: nat

text \<open>The places where opening can fail: creating the file, writing its header, removing the old manifest,
  opening the file again (with its length), cutting it to the rows the manifest commits and seeking to their end.\<close>

datatype open_point = OnCreate | OnHeader | OnRemove | OnReopen | OnCut | OnSeek

record open_env =
  oe_stop :: bool
  oe_io :: "open_point \<Rightarrow> bool"

definition journal_reset :: "open_env \<Rightarrow> journal_key \<Rightarrow> 'j journal_effect list \<times> (journal_error + unit)" where
  "journal_reset oe k =
     (if \<not> oe_io oe OnCreate then ([], Inl JUnavailable)
      else if \<not> oe_io oe OnHeader then ([CreateJournal], Inl JUnavailable)
      else if \<not> oe_io oe OnRemove then ([CreateJournal, AppendRows (header k)], Inl JUnavailable)
      else ([CreateJournal, AppendRows (header k), RemoveState], Inr ()))"

definition cut_uncommitted ::
  "open_env \<Rightarrow> nat \<Rightarrow> 'j journal_disk \<Rightarrow> 'j journal_effect list \<times> (journal_error + unit)" where
  "cut_uncommitted oe payload d =
     (if \<not> oe_io oe OnReopen then ([], Inl JUnavailable)
      else case jd_lines d of
        None \<Rightarrow> ([], Inl JUnavailable)
      | Some lines \<Rightarrow>
          let es = (if length lines = payload then [] else [TruncateJournal payload])
          in if es \<noteq> [] \<and> \<not> oe_io oe OnCut then ([], Inl JUnavailable)
             else if \<not> oe_io oe OnSeek then (es, Inl JUnavailable)
             else (es, Inr ()))"

definition fresh_resume :: "journal_key \<Rightarrow> resume" where
  "fresh_resume k =
     \<lparr>rs_lines = builder_empty, rs_cursor = jk_initial_cursor k, rs_scan_complete = False, rs_columns = None,
      rs_resumed_rows = 0\<rparr>"

definition journal_open ::
  "'j journal_world \<Rightarrow> scratch \<Rightarrow> (nat \<Rightarrow> bool) \<Rightarrow> open_env \<Rightarrow> journal_key \<Rightarrow> 'j journal_disk
     \<Rightarrow> 'j journal_effect list \<times> (journal_error + line_journal \<times> resume)" where
  "journal_open w e stopped oe k d =
     (if oe_stop oe then ([], Inl JCancelled)
      else case restore w e stopped k d of
        Inl err \<Rightarrow> ([], Inl err)
      | Inr restored \<Rightarrow>
          let (r, hash, payload, sealed) =
                (case restored of Some x \<Rightarrow> x | None \<Rightarrow> (fresh_resume k, header k, header_bytes, 0));
              (es, reset) = (if restored = None then journal_reset oe k else ([], Inr ()));
              (es', cut) = cut_uncommitted oe payload (journal_effects es d)
          in case reset of
               Inl err \<Rightarrow> (es, Inl err)
             | Inr _ \<Rightarrow>
                 (es @ es',
                  bind_res cut (\<lambda>_.
                    Inr (\<lparr>jr_key = k, jr_hash = hash, jr_sealed = sealed, jr_resumed = rs_resumed_rows r,
                          jr_cursor = rs_cursor r\<rparr>, r))))"

section \<open>Checkpoints\<close>

text \<open>
  The places a checkpoint can end at: where the cancellation is checked, where the source is validated and
  where a write, a sync or the rename fails. A failed write leaves no more than an interrupted one.
\<close>

datatype checkpoint_point = AtStart | AtBlock nat | BeforeSync | AfterSync | BeforeManifest | BeforeRename | AfterRename

record checkpoint_env =
  ce_stop :: "checkpoint_point \<Rightarrow> bool"
  ce_valid :: "checkpoint_point \<Rightarrow> bool"
  ce_io :: "checkpoint_point \<Rightarrow> bool"

function append_blocks ::
  "checkpoint_env \<Rightarrow> line_builder \<Rightarrow> nat \<Rightarrow> nat \<Rightarrow> byte list \<Rightarrow> 'j journal_effect list \<times> (journal_error + byte list)" where
  "append_blocks ce b start sealed hash =
     (if sealed \<le> start then ([], Inr hash)
      else if ce_stop ce (AtBlock start) then ([], Inl JCancelled)
      else case read_chunk b start (min (start + block_rows) sealed) of
        Inl err \<Rightarrow> ([], Inl (JBuild err))
      | Inr rows \<Rightarrow>
          let bytes = concat (map encode_record rows)
          in if \<not> ce_io ce (AtBlock start) then ([], Inl JUnavailable)
             else let (es, r) = append_blocks ce b (start + block_rows) sealed (hash @ bytes)
                  in (AppendRows bytes # es, r))"
  by pat_completeness auto
termination by (relation "measure (\<lambda>(_, _, start, sealed, _). sealed - start)") (auto simp: block_rows_def)

declare append_blocks.simps [simp del]

definition sealed_rows :: "journal_key \<Rightarrow> line_builder \<Rightarrow> bool \<Rightarrow> nat" where
  "sealed_rows k b finished = (if jk_multiline k \<and> \<not> finished then builder_len b - 1 else builder_len b)"

definition checkpoint_inconsistent :: "line_journal \<Rightarrow> line_builder \<Rightarrow> nat \<Rightarrow> bool \<Rightarrow> rstr list option \<Rightarrow> bool" where
  "checkpoint_inconsistent j b cursor finished columns \<longleftrightarrow>
     sealed_rows (jr_key j) b finished < jr_sealed j \<or> cursor < jr_cursor j \<or> jk_source_bytes (jr_key j) < cursor
     \<or> columns \<noteq> None \<and> \<not> finished"

definition new_manifest ::
  "'j journal_world \<Rightarrow> journal_key \<Rightarrow> byte list \<Rightarrow> nat \<Rightarrow> nat \<Rightarrow> line_row option \<Rightarrow> bool \<Rightarrow> rstr list option \<Rightarrow> manifest" where
  "new_manifest w k hash sealed cursor tail finished columns =
     \<lparr>mf_version = journal_version, mf_key = jk_key k, mf_source_bytes = jk_source_bytes k,
      mf_payload_bytes = header_bytes + sealed * record_bytes, mf_payload_sha = jw_sha w hash,
      mf_sealed_rows = sealed, mf_cursor = cursor, mf_tail = tail, mf_scan_complete = finished,
      mf_columns = columns\<rparr>"

definition publish_manifest ::
  "'j journal_world \<Rightarrow> checkpoint_env \<Rightarrow> manifest \<Rightarrow> 'j journal_effect list \<times> (journal_error + unit)" where
  "publish_manifest w ce m =
     (let data = jw_envelope w m (state_digest w m)
      in if max_manifest_bytes < jw_size w data then ([], Inl JManifestTooLarge)
         else if \<not> ce_io ce BeforeManifest then ([], Inl JUnavailable)
         else if ce_stop ce BeforeRename then ([], Inl JCancelled)
         else if \<not> ce_io ce BeforeRename then ([], Inl JUnavailable)
         else if \<not> ce_io ce AfterRename then ([PublishState data], Inl JUnavailable)
         else ([PublishState data, SyncDirectory], Inr ()))"

definition sync_and_publish ::
  "'j journal_world \<Rightarrow> checkpoint_env \<Rightarrow> line_journal \<Rightarrow> line_builder \<Rightarrow> nat \<Rightarrow> byte list \<Rightarrow> nat \<Rightarrow> bool \<Rightarrow> rstr list option
     \<Rightarrow> 'j journal_effect list \<times> (journal_error + line_journal \<times> line_builder)" where
  "sync_and_publish w ce j b sealed hash cursor finished columns =
     (if ce_stop ce BeforeSync then ([], Inl JCancelled)
      else if \<not> ce_io ce BeforeSync then ([], Inl JUnavailable)
      else if ce_stop ce AfterSync then ([SyncJournal], Inl JCancelled)
      else if \<not> ce_valid ce AfterSync then ([SyncJournal], Inl JSourceChanged)
      else if ce_stop ce BeforeManifest then ([SyncJournal], Inl JCancelled)
      else case (if sealed < builder_len b then map_sum JBuild Some (builder_at b sealed) else Inr None) of
        Inl err \<Rightarrow> ([SyncJournal], Inl err)
      | Inr tail \<Rightarrow>
          let (es, r) = publish_manifest w ce (new_manifest w (jr_key j) hash sealed cursor tail finished columns)
          in (SyncJournal # es,
              bind_res r (\<lambda>_. Inr (j\<lparr>jr_hash := hash, jr_sealed := sealed, jr_cursor := cursor\<rparr>, b))))"

definition checkpoint_rows ::
  "'j journal_world \<Rightarrow> scratch \<Rightarrow> checkpoint_env \<Rightarrow> line_journal \<Rightarrow> line_builder \<Rightarrow> nat \<Rightarrow> bool \<Rightarrow> rstr list option
     \<Rightarrow> 'j journal_effect list \<times> (journal_error + line_journal \<times> line_builder)" where
  "checkpoint_rows w e ce j b cursor finished columns =
     (if ce_stop ce AtStart then ([], Inl JCancelled)
      else if \<not> ce_valid ce AtStart then ([], Inl JSourceChanged)
      else case builder_flush e b of
        Inl err \<Rightarrow> ([], Inl (JBuild err))
      | Inr b \<Rightarrow>
          if checkpoint_inconsistent j b cursor finished columns then ([], Inl JInconsistent)
          else
            let sealed = sealed_rows (jr_key j) b finished;
                (es, r) = append_blocks ce b (jr_sealed j) sealed (jr_hash j)
            in case r of
                 Inl err \<Rightarrow> (es, Inl err)
               | Inr hash \<Rightarrow>
                   let (es', r') = sync_and_publish w ce j b sealed hash cursor finished columns in (es @ es', r'))"

definition checkpoint_if_due ::
  "'j journal_world \<Rightarrow> scratch \<Rightarrow> checkpoint_env \<Rightarrow> checkpoint_policy \<Rightarrow> nat \<Rightarrow> line_journal \<Rightarrow> line_builder \<Rightarrow> nat \<Rightarrow> bool
     \<Rightarrow> rstr list option \<Rightarrow> 'j journal_effect list \<times> (journal_error + line_journal \<times> line_builder)" where
  "checkpoint_if_due w e ce p elapsed j b cursor finished columns =
     (if ce_stop ce AtStart then ([], Inl JCancelled)
      else if checkpoint_inconsistent j b cursor finished columns then ([], Inl JInconsistent)
      else if checkpoint_due p (sealed_rows (jr_key j) b finished - jr_sealed j) (cursor - jr_cursor j) elapsed
                (finished \<or> columns \<noteq> None)
      then checkpoint_rows w e ce j b cursor finished columns
      else ([], Inr (j, b)))"

end
