(* ===== verification/Line_Crash.thy ===== *)
theory Line_Crash
  imports Line_Journal
begin

text \<open>
  Crash safety of the checkpoints of \<open>Line_Journal\<close>. What a restore answers depends only on the manifest and on
  the bytes the manifest commits; a checkpoint makes those bytes durable before it replaces the manifest, so a
  crash leaves what the last checkpoint or the interrupted one committed, whatever else the file then holds.
\<close>

section \<open>Restoring depends on the committed bytes\<close>

lemma restore_blocks_prefix:
  "n * record_bytes \<le> length rest \<Longrightarrow>
     restore_blocks e stopped cursor n (rest @ junk) hash prev b = restore_blocks e stopped cursor n rest hash prev b"
proof (induction e stopped cursor n rest hash prev b rule: restore_blocks.induct)
  case (1 e stopped cursor n rest hash prev b)
  define k where "k = min n block_rows"
  have "k * record_bytes \<le> n * record_bytes" by (rule mult_le_mono1) (simp add: k_def)
  from le_trans [OF this "1.prems"] have k: "k * record_bytes \<le> length rest" .
  moreover have "(n - k) * record_bytes \<le> length (drop (k * record_bytes) rest)"
    using "1.prems" by (simp add: diff_mult_distrib)
  ultimately show ?case
    unfolding restore_blocks.simps [of e stopped cursor n] Let_def k_def [symmetric]
    using "1.IH" [OF _ _ k_def _ refl] by (auto split: sum.splits option.splits)
qed

text \<open>A manifest that parses commits no more than \<open>n\<close> bytes.\<close>

definition commits_within :: "'j journal_world \<Rightarrow> 'j option \<Rightarrow> nat \<Rightarrow> bool" where
  "commits_within w state n \<longleftrightarrow>
     (\<forall>data m sha. state = Some data \<longrightarrow> jw_parse w data = Some (m, sha) \<longrightarrow>
        header_bytes + mf_sealed_rows m * record_bytes \<le> n)"

lemma commits_withinD:
  "commits_within w (Some data) n \<Longrightarrow> jw_parse w data = Some (m, sha) \<Longrightarrow> header_bytes + mf_sealed_rows m * record_bytes \<le> n"
  by (simp add: commits_within_def)

text \<open>A manifest that is accepted, before the journal is opened.\<close>

definition accepted :: "'j journal_world \<Rightarrow> journal_key \<Rightarrow> 'j \<Rightarrow> manifest \<Rightarrow> bool" where
  "accepted w k data m \<longleftrightarrow> jw_size w data \<le> max_manifest_bytes \<and> jw_parse w data = Some (m, state_digest w m)
     \<and> header_bytes + mf_sealed_rows m * record_bytes \<le> u64_max
     \<and> \<not> manifest_refused k m (header_bytes + mf_sealed_rows m * record_bytes)"

lemma read_state_Some:
  "read_state w k d = Some (m, l) \<longleftrightarrow>
     (\<exists>data. jd_state d = Some data \<and> accepted w k data m \<and> jd_lines d = Some l
        \<and> header_bytes + mf_sealed_rows m * record_bytes \<le> length l)"
  by (auto simp: read_state_def accepted_def checked_mul_def not_less add.commute split: option.splits if_splits)

lemma restore_agree:
  assumes "jd_state d1 = jd_state d2" "jd_lines d1 = Some l1" "jd_lines d2 = Some l2" "take n l1 = take n l2"
    "n \<le> length l1" "n \<le> length l2" "commits_within w (jd_state d1) n"
  shows "restore w e stopped k d1 = restore w e stopped k d2"
proof -
  have within: "header_bytes + mf_sealed_rows m * record_bytes \<le> n" if "jd_state d1 = Some data" "accepted w k data m" for data m
    using assms(7) that by (auto simp: accepted_def intro: commits_withinD)
  have same: "read_state w k d1 = Some (m, l1) \<longleftrightarrow> read_state w k d2 = Some (m, l2)" for m
    using within assms(1-3,5,6) by (fastforce simp: read_state_Some)
  show ?thesis
  proof (cases "read_state w k d1")
    case None
    then have "read_state w k d2 = None"
      using same assms(3) by (metis not_None_eq old.prod.exhaust option.inject read_state_Some)
    then show ?thesis using None by (simp add: restore_def)
  next
    case (Some r)
    then obtain m where m: "read_state w k d1 = Some (m, l1)"
      using assms(2) by (cases r) (auto simp: read_state_Some)
    then have n: "header_bytes + mf_sealed_rows m * record_bytes \<le> n"
      using within by (auto simp: read_state_Some)
    have m2: "read_state w k d2 = Some (m, l2)" using m same by simp
    have head: "take header_bytes l1 = take header_bytes l2" "header_bytes \<le> length l1" "header_bytes \<le> length l2"
      using arg_cong [OF assms(4), of "take header_bytes"] assms(5,6) n by (simp_all add: min_def)
    let ?p = "mf_sealed_rows m * record_bytes"
    have body: "take ?p (drop header_bytes l1) = take ?p (drop header_bytes l2)"
      using arg_cong [OF assms(4), of "take (?p + header_bytes)"] n by (simp add: take_drop min_def add.commute)
    have split: "restore_blocks e stopped c (mf_sealed_rows m) (drop header_bytes l) h p b
        = restore_blocks e stopped c (mf_sealed_rows m) (take ?p (drop header_bytes l)) h p b"
      if "n \<le> length l" for l c h p b
    proof -
      have "?p \<le> length (take ?p (drop header_bytes l))" using that n by simp
      from restore_blocks_prefix [OF this, of e stopped c "drop ?p (drop header_bytes l)" h p b] show ?thesis
        by (simp only: append_take_drop_id)
    qed
    show ?thesis
      unfolding restore_def m m2 prod.case option.case split [OF assms(5)] split [OF assms(6)] head(1) body
      using head(2,3) by simp
  qed
qed

section \<open>What a checkpoint writes\<close>

lemma append_blocks_rows:
  fixes es :: "'j journal_effect list"
  assumes "builder_holds b rows" "synced b" "sealed \<le> length rows" "append_blocks ce b start sealed hash = (es, r)"
  shows "\<exists>apps. es = map AppendRows apps
    \<and> (\<forall>h. r = Inr h \<longrightarrow> concat apps = concat (map encode_record (cut start sealed rows)) \<and> h = hash @ concat apps)"
  using assms
proof (induction ce b start sealed hash arbitrary: es r rule: append_blocks.induct)
  case (1 ce b start sealed hash)
  show ?case
  proof (cases "sealed \<le> start \<or> ce_stop ce (AtBlock start)")
    case True
    then show ?thesis using "1.prems"(4) by (auto simp: append_blocks.simps [of ce b start] cut_empty split: if_splits)
  next
    case False
    define stop where "stop = min (start + block_rows) sealed"
    have stop: "start \<le> stop" "stop \<le> length rows" "stop - start \<le> 8192" "start \<noteq> length rows" "stop \<le> sealed"
      using False "1.prems"(3) by (auto simp: stop_def block_rows_def)
    then have chunk: "read_chunk b start stop = Inr (cut start stop rows)"
      using read_chunk_at [OF "1.prems"(1,2)] by simp
    show ?thesis
    proof (cases "ce_io ce (AtBlock start)")
      case True
      obtain es' :: "'j journal_effect list" and r' where rec: "append_blocks ce b (start + block_rows) sealed
          (hash @ concat (map encode_record (cut start stop rows))) = (es', r')"
        by (metis surj_pair)
      have step: "es = AppendRows (concat (map encode_record (cut start stop rows))) # es'" "r = r'"
        using "1.prems"(4) False True chunk rec
        by (simp_all add: append_blocks.simps [of ce b start] Let_def stop_def)
      have "cut start sealed rows = cut start stop rows @ cut (start + block_rows) sealed rows"
        using cut_split [OF stop(1,5), of rows] by (auto simp: stop_def min_def cut_empty split: if_splits)
      moreover obtain apps where "es' = map AppendRows apps"
        "\<forall>h. r' = Inr h \<longrightarrow> concat apps = concat (map encode_record (cut (start + block_rows) sealed rows))
           \<and> h = (hash @ concat (map encode_record (cut start stop rows))) @ concat apps"
        using "1.IH" [OF _ _ chunk [unfolded stop_def] refl, of es' r'] False True "1.prems"(1-3) rec
        by (auto simp: stop_def)
      ultimately show ?thesis using step
        by (intro exI [of _ "concat (map encode_record (cut start stop rows)) # apps"]) auto
    next
      case io: False
      then show ?thesis using "1.prems"(4) False chunk
        by (auto simp: append_blocks.simps [of ce b start] Let_def stop_def)
    qed
  qed
qed

text \<open>The effects of a checkpoint: the rows, then the sync, then the manifest, then the sync of the directory.\<close>

definition manifest_data :: "'j journal_world \<Rightarrow> manifest \<Rightarrow> 'j" where
  "manifest_data w m = jw_envelope w m (state_digest w m)"

definition committing :: "'j journal_world \<Rightarrow> manifest \<Rightarrow> 'j journal_effect list" where
  "committing w m = [SyncJournal, PublishState (manifest_data w m), SyncDirectory]"

lemma publish_prefix:
  assumes "publish_manifest w ce m = (es, r)"
  shows "\<exists>i. es = take i [PublishState (manifest_data w m), SyncDirectory]
      \<and> (i \<noteq> 0 \<longrightarrow> jw_size w (manifest_data w m) \<le> max_manifest_bytes)"
    and "r = Inr u \<Longrightarrow> es = [PublishState (manifest_data w m), SyncDirectory] \<and> jw_size w (manifest_data w m) \<le> max_manifest_bytes"
  using assms
  by (auto simp: publish_manifest_def Let_def manifest_data_def split: if_splits
      intro: exI [of _ "0::nat"] exI [of _ "1::nat"] exI [of _ "2::nat"])

definition tail_after :: "line_row list \<Rightarrow> nat \<Rightarrow> line_row option" where
  "tail_after rows sealed = (if sealed < length rows then Some (rows ! sealed) else None)"

lemma sync_and_publish_prefix:
  assumes "builder_holds b rows" "synced b"
    "sync_and_publish w ce j b sealed hash cursor finished columns = (es, r)"
  defines "m \<equiv> new_manifest w (jr_key j) hash sealed cursor (tail_after rows sealed) finished columns"
  shows "(\<exists>i. es = take i (committing w m) \<and> (1 < i \<longrightarrow> jw_size w (manifest_data w m) \<le> max_manifest_bytes))
    \<and> (\<forall>j' b'. r = Inr (j', b') \<longrightarrow> es = committing w m \<and> jw_size w (manifest_data w m) \<le> max_manifest_bytes
         \<and> b' = b \<and> j' = j\<lparr>jr_hash := hash, jr_sealed := sealed, jr_cursor := cursor\<rparr>)"
proof -
  have tail: "(if sealed < builder_len b then map_sum JBuild Some (builder_at b sealed) else Inr None)
      = Inr (tail_after rows sealed)"
    using builder_at_rows [OF assms(1,2)] holds_len [OF assms(1)] by (simp add: tail_after_def)
  obtain ps q where pub: "publish_manifest w ce m = (ps, q)" by (cases "publish_manifest w ce m")
  obtain i where i: "ps = take i [PublishState (manifest_data w m), SyncDirectory]"
    "i \<noteq> 0 \<longrightarrow> jw_size w (manifest_data w m) \<le> max_manifest_bytes"
    using publish_prefix(1) [OF pub] by blast
  consider "es = []" "\<exists>err. r = Inl err" | "es = [SyncJournal]" "\<exists>err. r = Inl err"
    | "es = SyncJournal # ps" "r = bind_res q (\<lambda>_. Inr (j\<lparr>jr_hash := hash, jr_sealed := sealed, jr_cursor := cursor\<rparr>, b))"
    using assms(3) pub unfolding sync_and_publish_def tail m_def by (auto split: if_splits)
  then show ?thesis
  proof cases
    case 1
    then show ?thesis by (auto intro: exI [of _ 0])
  next
    case 2
    then show ?thesis by (auto simp: committing_def intro: exI [of _ 1])
  next
    case 3
    have "es = take (Suc i) (committing w m)" using 3(1) i(1) by (simp add: committing_def)
    then have "\<exists>i. es = take i (committing w m) \<and> (1 < i \<longrightarrow> jw_size w (manifest_data w m) \<le> max_manifest_bytes)"
      using i(2) by (intro exI [of _ "Suc i"]) simp
    moreover have "r = Inr (j', b') \<Longrightarrow> es = committing w m \<and> jw_size w (manifest_data w m) \<le> max_manifest_bytes
        \<and> b' = b \<and> j' = j\<lparr>jr_hash := hash, jr_sealed := sealed, jr_cursor := cursor\<rparr>" for j' b'
      using 3 publish_prefix(2) [OF pub] by (cases q) (auto simp: committing_def)
    ultimately show ?thesis by blast
  qed
qed

lemma checkpoint_trace:
  fixes w :: "'j journal_world" and b j finished rows cursor columns
  assumes "builder_holds b rows" "checkpoint_rows w e ce j b cursor finished columns = (es, r)"
  defines "sealed \<equiv> sealed_rows (jr_key j) b finished"
  defines "added \<equiv> concat (map encode_record (cut (jr_sealed j) sealed rows))"
  defines "m \<equiv> new_manifest w (jr_key j) (jr_hash j @ added) sealed cursor (tail_after rows sealed) finished columns"
  shows "\<exists>apps tail. es = map AppendRows apps @ tail
    \<and> (tail \<noteq> [] \<longrightarrow> concat apps = added
         \<and> (\<exists>i. tail = take i (committing w m) \<and> (1 < i \<longrightarrow> jw_size w (manifest_data w m) \<le> max_manifest_bytes))
         \<and> \<not> checkpoint_inconsistent j b cursor finished columns)
    \<and> (\<forall>j' b'. r = Inr (j', b') \<longrightarrow> concat apps = added \<and> tail = committing w m
         \<and> jw_size w (manifest_data w m) \<le> max_manifest_bytes \<and> builder_holds b' rows \<and> synced b'
         \<and> j' = j\<lparr>jr_hash := jr_hash j @ added, jr_sealed := sealed, jr_cursor := cursor\<rparr>
         \<and> \<not> checkpoint_inconsistent j b cursor finished columns)"
proof (cases "(\<exists>err. r = Inl err) \<and> es = []")
  case True
  then show ?thesis by (intro exI [of _ "[]"]) auto
next
  case False
  then obtain c where c: "builder_flush e b = Inr c" and start: "\<not> ce_stop ce AtStart" "ce_valid ce AtStart"
    using assms(2) by (auto simp: checkpoint_rows_def split: if_splits sum.splits)
  have hold: "builder_holds c rows" "synced c" using flush_holds [OF assms(1) c] by simp_all
  have len: "builder_len c = builder_len b" using holds_len hold(1) assms(1) by metis
  then have same: "sealed_rows (jr_key j) c finished = sealed"
    "checkpoint_inconsistent j c cursor finished columns = checkpoint_inconsistent j b cursor finished columns"
    by (simp_all add: sealed_rows_def sealed_def checkpoint_inconsistent_def)
  have few: "sealed \<le> length rows" using holds_len [OF assms(1)] by (auto simp: sealed_def sealed_rows_def)
  have ok: "\<not> checkpoint_inconsistent j b cursor finished columns"
    using False assms(2) c start same(2) by (auto simp: checkpoint_rows_def split: if_splits)
  obtain as :: "'j journal_effect list" and q where app: "append_blocks ce c (jr_sealed j) sealed (jr_hash j) = (as, q)"
    by (metis surj_pair)
  obtain apps where apps: "as = map AppendRows apps"
    "\<And>h. q = Inr h \<Longrightarrow> concat apps = added \<and> h = jr_hash j @ concat apps"
    using append_blocks_rows [OF hold few app] unfolding added_def by blast
  have step: "(es, r) = (case q of Inl err \<Rightarrow> (as, Inl err)
      | Inr hash \<Rightarrow> let (es', r') = sync_and_publish w ce j c sealed hash cursor finished columns in (as @ es', r'))"
    using assms(2) c start ok app
    by (simp add: checkpoint_rows_def same Let_def split: sum.splits prod.splits)
  show ?thesis
  proof (cases q)
    case (Inl err)
    then show ?thesis using step apps(1) by (intro exI [of _ apps] exI [of _ "[]"]) simp
  next
    case (Inr h)
    obtain es' r' where pub: "sync_and_publish w ce j c sealed h cursor finished columns = (es', r')"
      by (cases "sync_and_publish w ce j c sealed h cursor finished columns")
    have h: "h = jr_hash j @ added" "concat apps = added" using apps(2) [OF Inr] by simp_all
    have "es = map AppendRows apps @ es'" "r = r'" using step Inr pub apps(1) by simp_all
    then show ?thesis
      using sync_and_publish_prefix [OF hold pub [unfolded h(1)]] h(2) hold ok
      by (intro exI [of _ apps] exI [of _ es']) (auto simp: m_def)
  qed
qed

section \<open>Crashes\<close>

text \<open>
  A crash keeps the durable bytes of the journal and may leave anything after them; the manifest is the one
  last renamed or, when its directory was not synced, the one before.
\<close>

definition journal_crash :: "'j journal_disk \<Rightarrow> 'j journal_disk \<Rightarrow> bool" where
  "journal_crash d d' \<longleftrightarrow> (\<exists>junk. jd_lines d' = map_option (\<lambda>l. take (jd_synced d) l @ junk) (jd_lines d))
     \<and> (jd_state d' = jd_state d \<or> jd_state d' = jd_kept d)"

text \<open>The journal in memory and the disk it writes to: the file holds what was hashed, and the manifest commits
  only durable bytes.\<close>

definition journal_on :: "'j journal_world \<Rightarrow> line_journal \<Rightarrow> 'j journal_disk \<Rightarrow> bool" where
  "journal_on w j d \<longleftrightarrow> jd_lines d = Some (jr_hash j) \<and> length (jr_hash j) = header_bytes + jr_sealed j * record_bytes
     \<and> jd_synced d \<le> length (jr_hash j) \<and> jd_kept d = jd_state d \<and> commits_within w (jd_state d) (jd_synced d)"

definition json_laws :: "'j journal_world \<Rightarrow> bool" where
  "json_laws w \<longleftrightarrow> (\<forall>m sha. jw_parse w (jw_envelope w m sha) = Some (m, sha))"

lemma appended_effects:
  "jd_lines d = Some l \<Longrightarrow> journal_effects (map AppendRows apps) d = d\<lparr>jd_lines := Some (l @ concat apps)\<rparr>"
proof (induction apps arbitrary: d l)
  case (Cons a apps)
  then show ?case using Cons.IH [of "d\<lparr>jd_lines := Some (l @ a)\<rparr>" "l @ a"] by (simp add: journal_effects_def)
qed (simp add: journal_effects_def)

lemma journal_effects_append: "journal_effects (xs @ ys) d = journal_effects ys (journal_effects xs d)"
  by (simp add: journal_effects_def)

lemma length_added:
  "builder_holds b rows \<Longrightarrow> start \<le> sealed_rows k b finished \<Longrightarrow>
     length (concat (map encode_record (cut start (sealed_rows k b finished) rows)))
       = (sealed_rows k b finished - start) * record_bytes"
  by (auto simp: length_encoded sealed_rows_def dest!: holds_len)

text \<open>The disk after any part of a checkpoint, and after all of it.\<close>

lemma crash_before_manifest:
  assumes "journal_on w j d" "journal_crash d1 d'" "jd_lines d1 = Some (jr_hash j @ extra)" "jd_synced d \<le> jd_synced d1"
    "jd_state d' = jd_state d"
  shows "restore w e stopped k d' = restore w e stopped k d"
proof -
  obtain junk where l: "jd_lines d' = Some (take (jd_synced d1) (jr_hash j @ extra) @ junk)"
    using assms(2,3) by (auto simp: journal_crash_def)
  have "jd_synced d \<le> length (jr_hash j)" "jd_lines d = Some (jr_hash j)" "commits_within w (jd_state d) (jd_synced d)"
    using assms(1) by (auto simp: journal_on_def)
  then show ?thesis
    using assms(4,5) l
    by (intro restore_agree [of d' d "take (jd_synced d1) (jr_hash j @ extra) @ junk" "jr_hash j" "jd_synced d"])
       (auto simp: min_def)
qed

text \<open>
  Whatever is restored after a crash is restored from the disk before the checkpoint, or from a disk with the
  manifest of the checkpoint and all it commits.
\<close>

lemma crash_outcomes:
  fixes w e ce j b cursor finished columns rows
  assumes "json_laws w" "journal_on w j d" "builder_holds b rows"
    "checkpoint_rows w e ce j b cursor finished columns = (es, r)"
    "journal_crash (journal_effects (take n es) d) d'"
  defines "added \<equiv> concat (map encode_record (cut (jr_sealed j) (sealed_rows (jr_key j) b finished) rows))"
  defines "m \<equiv> new_manifest w (jr_key j) (jr_hash j @ added) (sealed_rows (jr_key j) b finished) cursor
      (tail_after rows (sealed_rows (jr_key j) b finished)) finished columns"
  shows "restore w e' stopped k d' = restore w e' stopped k d
    \<or> (\<exists>d1. jd_state d1 = Some (manifest_data w m) \<and> jd_lines d1 = Some (jr_hash j @ added)
       \<and> jw_size w (manifest_data w m) \<le> max_manifest_bytes \<and> \<not> checkpoint_inconsistent j b cursor finished columns
       \<and> restore w e' stopped k d' = restore w e' stopped k d1)"
proof -
  obtain apps tail where es: "es = map AppendRows apps @ tail"
    and tail: "tail \<noteq> [] \<longrightarrow> concat apps = added
      \<and> (\<exists>i. tail = take i (committing w m) \<and> (1 < i \<longrightarrow> jw_size w (manifest_data w m) \<le> max_manifest_bytes))
      \<and> \<not> checkpoint_inconsistent j b cursor finished columns"
    using checkpoint_trace [OF assms(3,4)] unfolding added_def m_def by blast
  have d: "jd_lines d = Some (jr_hash j)" "jd_synced d \<le> length (jr_hash j)" "jd_kept d = jd_state d"
    using assms(2) by (auto simp: journal_on_def)
  define d1 where "d1 = journal_effects (take n es) d"
  show ?thesis
  proof (cases "n \<le> length apps")
    case True
    then have "take n es = map AppendRows (take n apps)" by (simp add: es take_map)
    then have "d1 = d\<lparr>jd_lines := Some (jr_hash j @ concat (take n apps))\<rparr>"
      using appended_effects [OF d(1)] by (simp add: d1_def)
    then show ?thesis
      using crash_before_manifest [OF assms(2), of d1 d' "concat (take n apps)"] assms(5) d(3)
      by (auto simp: d1_def [symmetric] journal_crash_def)
  next
    case False
    then have take: "take n es = map AppendRows apps @ take (n - length apps) tail" by (simp add: es)
    obtain i where i: "take (n - length apps) tail = take i (committing w m)"
      "1 < i \<longrightarrow> jw_size w (manifest_data w m) \<le> max_manifest_bytes"
    proof (cases "tail = []")
      case True
      then show ?thesis using that [of 0] by simp
    next
      case False
      then obtain i where "tail = take i (committing w m)" "1 < i \<longrightarrow> jw_size w (manifest_data w m) \<le> max_manifest_bytes"
        using tail by blast
      then show ?thesis using that [of "min (n - length apps) i"] by simp
    qed
    let ?d = "d\<lparr>jd_lines := Some (jr_hash j @ concat apps)\<rparr>"
    have d1: "d1 = journal_effects (take i (committing w m)) ?d"
      using appended_effects [OF d(1), of apps] by (simp add: d1_def take i(1) journal_effects_append)
    have lines: "jd_lines d1 = Some (jr_hash j @ concat apps)" "jd_synced d \<le> jd_synced d1"
      using d(2) by (auto simp: d1 committing_def journal_effects_def take_Cons' split: if_splits)
    show ?thesis
    proof (cases "jd_state d' = jd_state d")
      case True
      then show ?thesis using crash_before_manifest [OF assms(2) _ lines] assms(5) by (simp add: d1_def)
    next
      case False
      then have pub: "jd_state d1 = Some (manifest_data w m)" "jd_state d' = Some (manifest_data w m)"
        "jd_synced d1 = length (jr_hash j @ concat apps)" "1 < i"
        using assms(5) d(3) unfolding d1_def [symmetric]
        by (auto simp: journal_crash_def d1 committing_def journal_effects_def take_Cons' split: if_splits)
      then have ne: "tail \<noteq> []" using i(1) by (cases tail) (auto simp: committing_def)
      then have added: "concat apps = added" "\<not> checkpoint_inconsistent j b cursor finished columns" "jr_sealed j \<le> sealed_rows (jr_key j) b finished"
        using tail by (auto simp: checkpoint_inconsistent_def)
      have "jw_parse w (manifest_data w m) = Some (m, state_digest w m)"
        using assms(1) by (simp add: json_laws_def manifest_data_def)
      moreover have "header_bytes + mf_sealed_rows m * record_bytes = jd_synced d1"
        using assms(2) length_added [OF assms(3) added(3)] added(3) pub(3)
        by (simp add: journal_on_def added(1) added_def [symmetric] m_def new_manifest_def flip: add_mult_distrib)
      ultimately have "commits_within w (jd_state d') (jd_synced d1)" by (simp add: commits_within_def pub(2))
      moreover obtain junk where "jd_lines d' = Some (jr_hash j @ concat apps @ junk)"
        using assms(5) lines(1) pub(3) by (auto simp: journal_crash_def d1_def [symmetric])
      ultimately have "restore w e' stopped k d' = restore w e' stopped k d1"
        using pub lines(1)
        by (intro restore_agree [of d' d1 "jr_hash j @ concat apps @ junk" "jr_hash j @ concat apps" "jd_synced d1"]) simp_all
      then show ?thesis using pub i(2) lines(1) added(1,2) by (intro disjI2 exI [of _ d1]) simp
    qed
  qed
qed

end
