(* ===== verification/Line_Restore.thy ===== *)
theory Line_Restore
  imports Line_Crash
begin

text \<open>
  What \<open>restore\<close> of \<open>metadata_checkpoint.rs\<close> gives back: only rows that are in order, without overlap and inside
  what was read of the source; and for what a checkpoint committed, exactly the rows of that checkpoint.
\<close>

section \<open>Rows in order\<close>

fun valid_rows :: "nat \<Rightarrow> nat option \<Rightarrow> line_row list \<Rightarrow> bool" where
  "valid_rows cursor prev [] = True"
| "valid_rows cursor prev (m # ms) \<longleftrightarrow> valid_record m cursor prev \<and> valid_rows cursor (row_end m) ms"

definition last_end :: "nat option \<Rightarrow> line_row list \<Rightarrow> nat option" where
  "last_end prev rows = (if rows = [] then prev else row_end (last rows))"

lemma valid_rows_append:
  "valid_rows cursor prev (xs @ ys) \<longleftrightarrow> valid_rows cursor prev xs \<and> valid_rows cursor (last_end prev xs) ys"
  by (induction xs arbitrary: prev) (auto simp: last_end_def)

lemma valid_record_bounds:
  assumes "valid_record m cursor prev"
  shows "unat (lr_offset m) + unat (lr_len m) \<le> cursor" "row_end m = Some (unat (lr_offset m) + unat (lr_len m))"
    "prev = Some stop \<Longrightarrow> stop \<le> unat (lr_offset m)" "0 < unat (lr_len m)"
  using assms by (auto simp: valid_record_def row_end_def checked_add_def unat_gt_0 split: option.splits if_splits)

lemma valid_rows_from:
  "valid_rows cursor (Some stop) rows \<Longrightarrow> m \<in> set rows \<Longrightarrow> stop \<le> unat (lr_offset m)"
proof (induction rows arbitrary: stop)
  case (Cons x rows)
  then have "stop \<le> unat (lr_offset x)" "valid_rows cursor (Some (unat (lr_offset x) + unat (lr_len x))) rows"
    using valid_record_bounds [of x cursor "Some stop"] by auto
  then show ?case using Cons.IH [of "unat (lr_offset x) + unat (lr_len x)"] Cons.prems(2) by fastforce
qed simp

lemma valid_rows_in_order: "valid_rows cursor prev rows \<Longrightarrow> in_order rows"
proof (induction rows arbitrary: prev)
  case (Cons m rows)
  then have "valid_rows cursor (Some (unat (lr_offset m) + unat (lr_len m))) rows" "in_order rows"
    using valid_record_bounds(2) [of m cursor prev] by (auto simp: valid_rows_append)
  moreover from this(1) have "\<forall>x \<in> set rows. unat (lr_offset m) \<le> unat (lr_offset x)"
    using valid_rows_from add_leD1 by blast
  ultimately show ?case by (simp add: in_order_def)
qed (simp add: in_order_def)

section \<open>Restored rows\<close>

lemma restore_records_rows:
  assumes "restore_records e cursor raws prev b = Inr (Some (prev', b'))" "builder_holds b rows"
  shows "valid_rows cursor prev (map decode_record raws) \<and> prev' = last_end prev (map decode_record raws)
    \<and> builder_holds b' (rows @ map decode_record raws)"
  using assms
proof (induction raws arbitrary: prev b rows)
  case (Cons raw raws)
  then obtain c where c: "valid_record (decode_record raw) cursor prev" "builder_push e (decode_record raw) b = Inr c"
    "restore_records e cursor raws (row_end (decode_record raw)) c = Inr (Some (prev', b'))"
    by (auto simp: decode_checked_def split: if_splits sum.splits)
  show ?case using Cons.IH [OF c(3) push_holds [OF Cons.prems(2) c(2)]] c(1) by (auto simp: last_end_def)
qed (simp add: last_end_def)

lemma record_chunks_encoded:
  "list_all (\<lambda>r. length r = record_bytes) raws \<Longrightarrow> record_chunks (concat raws @ rest) = raws @ record_chunks rest"
proof (induction raws)
  case (Cons raw raws)
  then show ?case by (subst record_chunks.simps) simp
qed simp

lemma record_chunks_take:
  "k * record_bytes \<le> length xs \<Longrightarrow> record_chunks (take (k * record_bytes) xs) @ record_chunks (drop (k * record_bytes) xs) = record_chunks xs"
proof (induction k arbitrary: xs)
  case (Suc k)
  have xs: "record_bytes \<le> length xs" "0 < record_bytes" using Suc.prems by (auto simp: record_bytes_def)
  have "record_chunks (take (Suc k * record_bytes) xs)
      = take record_bytes xs # record_chunks (take (k * record_bytes) (drop record_bytes xs))"
    using Suc.prems by (subst record_chunks.simps) (simp add: take_drop add.commute min_def)
  moreover have "record_chunks xs = take record_bytes xs # record_chunks (drop record_bytes xs)"
    using xs by (subst record_chunks.simps) simp
  ultimately show ?case using Suc.IH [of "drop record_bytes xs"] Suc.prems by (simp add: add.commute)
qed (simp add: record_chunks.simps record_bytes_def)

lemma length_record_chunks: "length xs = k * record_bytes \<Longrightarrow> length (record_chunks xs) = k"
proof (induction k arbitrary: xs)
  case (Suc k)
  then show ?case by (subst record_chunks.simps) simp
qed (simp add: record_chunks.simps record_bytes_def)

lemma restore_blocks_rows:
  assumes "restore_blocks e stopped cursor n rest hash prev b = Inr (Some (hash', prev', b'))" "builder_holds b rows"
  defines "raws \<equiv> record_chunks (take (n * record_bytes) rest)"
  shows "n * record_bytes \<le> length rest \<and> hash' = hash @ take (n * record_bytes) rest
    \<and> valid_rows cursor prev (map decode_record raws) \<and> prev' = last_end prev (map decode_record raws)
    \<and> builder_holds b' (rows @ map decode_record raws)"
  using assms(1,2) unfolding raws_def
proof (induction e stopped cursor n rest hash prev b arbitrary: rows rule: restore_blocks.induct)
  case (1 e stopped cursor n rest hash prev b)
  show ?case
  proof (cases "n = 0")
    case True
    then show ?thesis using "1.prems" by (simp add: restore_blocks.simps record_chunks.simps record_bytes_def last_end_def)
  next
    case False
    define k where "k = min n block_rows"
    define x where "x = take (k * record_bytes) rest"
    obtain p c where c: "k * record_bytes \<le> length rest" "\<not> stopped n"
      "restore_records e cursor (record_chunks x) prev b = Inr (Some (p, c))"
      "restore_blocks e stopped cursor (n - k) (drop (k * record_bytes) rest) (hash @ x) p c = Inr (Some (hash', prev', b'))"
      using "1.prems"(1) False unfolding restore_blocks.simps [of e stopped cursor n] Let_def k_def [symmetric] x_def [symmetric]
      by (auto split: if_splits sum.splits option.splits)
    note first = restore_records_rows [OF c(3) "1.prems"(2)]
    note others = "1.IH" [OF False c(2) k_def _ x_def c(3) _ _ c(4) first [THEN conjunct2, THEN conjunct2]]
    define y where "y = take ((n - k) * record_bytes) (drop (k * record_bytes) rest)"
    have n: "n * record_bytes = k * record_bytes + (n - k) * record_bytes" by (simp add: k_def flip: add_mult_distrib)
    have xy: "take (n * record_bytes) rest = x @ y" unfolding n x_def y_def by (rule take_add)
    have "length x = k * record_bytes" using c(1) by (simp add: x_def)
    then have chunks: "record_chunks (x @ y) = record_chunks x @ record_chunks y"
      using record_chunks_take [of k "x @ y"] by simp
    have "(n - k) * record_bytes \<le> length (drop (k * record_bytes) rest) \<and> hash' = (hash @ x) @ y
        \<and> valid_rows cursor p (map decode_record (record_chunks y)) \<and> prev' = last_end p (map decode_record (record_chunks y))
        \<and> builder_holds b' ((rows @ map decode_record (record_chunks x)) @ map decode_record (record_chunks y))"
      using others c(1) unfolding y_def by simp
    then show ?thesis unfolding xy chunks using first c(1) n
      by (auto simp: valid_rows_append last_end_def)
  qed
qed

section \<open>A spool with room takes every row\<close>

definition roomy :: "scratch \<Rightarrow> nat \<Rightarrow> bool" where
  "roomy e n \<longleftrightarrow> sc_create e \<and> n * record_bytes \<le> sc_room e \<and> n \<le> u64_max"

lemma spool_flush_succeeds: "length (spool_bytes f) \<le> sc_room e \<Longrightarrow> \<exists>g. spool_flush e f = Inr g"
  by (simp add: spool_flush_def file_write_def spool_bytes_def)

lemma spool_write_succeeds:
  assumes "length (spool_bytes f) + length bytes \<le> sc_room e"
  shows "\<exists>g. spool_write e cap bytes f = Inr g"
proof -
  obtain g where "spool_flush e f = Inr g" "so_file g = spool_bytes f" "so_buf g = []"
    using spool_flush_succeeds [of f e] spool_flush_bytes [of e f] assms by auto
  then show ?thesis using assms by (auto simp: spool_write_def file_write_def spool_bytes_def)
qed

lemma push_succeeds:
  assumes "builder_holds b rows" "roomy e (length rows + 1)"
  shows "\<exists>b'. builder_push e row b = Inr b'"
proof (cases "lb_tail b")
  case (Some tail)
  have b: "lb_sealed b = length (butlast rows)" "rows \<noteq> []" using assms(1) Some by (auto simp: builder_holds_def)
  obtain f where f: "(case lb_file b of Some f \<Rightarrow> Inr f | None \<Rightarrow> scratch_file e) = Inr f"
    "spool_bytes f = concat (map encode_record (butlast rows))"
  proof (cases "lb_file b")
    case None
    then show ?thesis using assms Some
      by (intro that [of "\<lparr>so_file = [], so_buf = []\<rparr>"])
         (auto simp: builder_holds_def roomy_def scratch_file_def spool_bytes_def)
  next
    case (Some f)
    then show ?thesis using assms(1) \<open>lb_tail b = Some tail\<close>
      by (intro that [of f]) (auto simp: builder_holds_def)
  qed
  have "length (spool_bytes f) = length (butlast rows) * record_bytes" by (simp add: f(2) length_encoded)
  then have "length (spool_bytes f) + length (encode_record tail) \<le> sc_room e"
    using assms(2) b(2) by (cases rows rule: rev_cases) (auto simp: roomy_def record_bytes_def)
  then obtain g where "spool_write e spool_capacity (encode_record tail) f = Inr g"
    using spool_write_succeeds by blast
  then show ?thesis using Some f(1) b assms(2)
    by (cases rows rule: rev_cases) (auto simp: builder_push_def write_row_def roomy_def checked_add_def split: option.splits)
qed (simp add: builder_push_def)

lemma flush_succeeds:
  assumes "builder_holds b rows" "roomy e (length rows)"
  shows "\<exists>b'. builder_flush e b = Inr b'"
proof (cases "lb_file b")
  case (Some f)
  then have "length (spool_bytes f) \<le> length rows * record_bytes"
    using assms(1) by (auto simp: builder_holds_def length_encoded builder_empty_def record_bytes_def split: option.splits)
  then have "length (spool_bytes f) \<le> sc_room e" using assms(2) by (simp add: roomy_def)
  then show ?thesis using Some spool_flush_succeeds by (fastforce simp: builder_flush_def)
qed (simp add: builder_flush_def)

lemma roomy_mono: "roomy e n \<Longrightarrow> k \<le> n \<Longrightarrow> roomy e k"
  unfolding roomy_def by (meson le_trans mult_le_mono1)

lemma restore_records_succeeds:
  assumes "valid_rows cursor prev (map decode_record raws)" "list_all (\<lambda>r. length r = record_bytes) raws"
    "builder_holds b rows" "roomy e (length rows + length raws)"
  shows "\<exists>r. restore_records e cursor raws prev b = Inr (Some r)"
  using assms
proof (induction raws arbitrary: prev b rows)
  case (Cons raw raws)
  obtain c where c: "builder_push e (decode_record raw) b = Inr c"
    using push_succeeds [OF Cons.prems(3) roomy_mono [OF Cons.prems(4)]] by auto
  have "\<exists>r. restore_records e cursor raws (row_end (decode_record raw)) c = Inr (Some r)"
    using Cons.prems by (intro Cons.IH [OF _ _ push_holds [OF Cons.prems(3) c]]) auto
  then show ?case using Cons.prems(1,2) c by (auto simp: decode_checked_def)
qed simp

lemma record_chunks_sizes: "list_all (\<lambda>r. length r = record_bytes) (record_chunks xs)"
proof (induction xs rule: record_chunks.induct)
  case (1 xs)
  then show ?case by (subst record_chunks.simps) auto
qed

lemma restore_blocks_succeeds:
  assumes "\<And>i. \<not> stopped i" "n * record_bytes \<le> length rest"
    "valid_rows cursor prev (map decode_record (record_chunks (take (n * record_bytes) rest)))"
    "builder_holds b rows" "roomy e (length rows + n)"
  shows "\<exists>r. restore_blocks e stopped cursor n rest hash prev b = Inr (Some r)"
  using assms(2-)
proof (induction n arbitrary: rest hash prev b rows rule: less_induct)
  case (less n)
  show ?case
  proof (cases "n = 0")
    case False
    define k where "k = min n block_rows"
    define x where "x = take (k * record_bytes) rest"
    define y where "y = take ((n - k) * record_bytes) (drop (k * record_bytes) rest)"
    have k: "k \<le> n" "n - k < n" using False by (auto simp: k_def block_rows_def)
    have n: "n * record_bytes = k * record_bytes + (n - k) * record_bytes" using k(1) by (simp flip: add_mult_distrib)
    have fits: "k * record_bytes \<le> length rest" using less.prems(1) n by simp
    have xy: "take (n * record_bytes) rest = x @ y" unfolding n x_def y_def by (rule take_add)
    have lx: "length x = k * record_bytes" using fits by (simp add: x_def)
    have chunks: "record_chunks (x @ y) = record_chunks x @ record_chunks y"
      using record_chunks_take [of k "x @ y"] lx by simp
    have valid: "valid_rows cursor prev (map decode_record (record_chunks x))"
      "valid_rows cursor (last_end prev (map decode_record (record_chunks x))) (map decode_record (record_chunks y))"
      using less.prems(2) unfolding xy chunks by (simp_all add: valid_rows_append)
    have few: "length (record_chunks x) = k" by (rule length_record_chunks [OF lx])
    obtain p c where c: "restore_records e cursor (record_chunks x) prev b = Inr (Some (p, c))"
      using restore_records_succeeds [OF valid(1) record_chunks_sizes less.prems(3) roomy_mono [OF less.prems(4)]] few k(1)
      by auto
    note rows = restore_records_rows [OF c less.prems(3)]
    have "\<exists>r. restore_blocks e stopped cursor (n - k) (drop (k * record_bytes) rest) (hash @ x) p c = Inr (Some r)"
      by (rule less.IH [OF k(2) _ _ rows [THEN conjunct2, THEN conjunct2]])
         (use less.prems(1,4) n valid(2) rows few k(1) y_def in auto)
    then show ?thesis using False assms(1) fits c
      unfolding restore_blocks.simps [of e stopped cursor n] Let_def k_def [symmetric] x_def [symmetric] by auto
  qed (simp add: restore_blocks.simps)
qed

section \<open>Restoring any disk\<close>

lemma restore_cases:
  assumes "restore w e stopped k d = Inr (Some (r, hash, payload, sealed))"
  shows "\<exists>m l prev b c. read_state w k d = Some (m, l) \<and> header_bytes \<le> length l \<and> take header_bytes l = header k
    \<and> restore_blocks e stopped (mf_cursor m) (mf_sealed_rows m) (drop header_bytes l) (header k) None builder_empty
        = Inr (Some (hash, prev, b))
    \<and> jw_sha w hash = mf_payload_sha m \<and> restore_tail e m prev b = Inr (Some c) \<and> builder_flush e c = Inr (rs_lines r)
    \<and> rs_cursor r = mf_cursor m \<and> rs_scan_complete r = mf_scan_complete m \<and> rs_columns r = mf_columns m
    \<and> rs_resumed_rows r = mf_sealed_rows m \<and> payload = mf_payload_bytes m \<and> sealed = mf_sealed_rows m"
proof -
  obtain m l where m: "read_state w k d = Some (m, l)" "header_bytes \<le> length l" "take header_bytes l = header k"
    using assms by (auto simp: restore_def split: option.splits prod.splits if_splits)
  obtain hash' prev b where b: "restore_blocks e stopped (mf_cursor m) (mf_sealed_rows m) (drop header_bytes l) (header k)
      None builder_empty = Inr (Some (hash', prev, b))"
    using assms m by (auto simp: restore_def bind_res_Inr split: option.splits)
  have sha: "jw_sha w hash' = mf_payload_sha m" using assms m b by (auto simp: restore_def split: if_splits)
  obtain c where c: "restore_tail e m prev b = Inr (Some c)"
    using assms m b sha by (cases "restore_tail e m prev b") (auto simp: restore_def split: option.splits)
  obtain f where f: "builder_flush e c = Inr f"
    using assms m b sha c by (cases "builder_flush e c") (auto simp: restore_def lift_build_def)
  show ?thesis using assms m b sha c f by (auto simp: restore_def lift_build_def split: if_splits)
qed

lemma restore_tail_rows:
  assumes "restore_tail e m prev b = Inr (Some c)" "builder_holds b rows" "valid_rows (mf_cursor m) None rows"
    "prev = last_end None rows"
  shows "builder_holds c (rows @ (case mf_tail m of None \<Rightarrow> [] | Some t \<Rightarrow> [t]))
    \<and> valid_rows (mf_cursor m) None (rows @ (case mf_tail m of None \<Rightarrow> [] | Some t \<Rightarrow> [t]))"
  using assms
  by (auto simp: restore_tail_def bind_res_Inr lift_build_def valid_rows_append intro: push_holds
      split: option.splits if_splits sum.splits)

text \<open>C12. Whatever the disk holds, the rows a restore gives back lie one after the other inside the part of the
source that was read, and a store published from them is well formed.\<close>

theorem restored_rows_valid:
  assumes "restore w e stopped k d = Inr (Some (r, hash, payload, sealed))"
  shows "\<exists>rows. builder_holds (rs_lines r) rows \<and> synced (rs_lines r) \<and> valid_rows (rs_cursor r) None rows
    \<and> in_order rows \<and> sealed \<le> length rows \<and> rs_cursor r \<le> jk_source_bytes k"
proof -
  obtain m l prev b c where m: "read_state w k d = Some (m, l)"
    "restore_blocks e stopped (mf_cursor m) (mf_sealed_rows m) (drop header_bytes l) (header k) None builder_empty
        = Inr (Some (hash, prev, b))"
    "restore_tail e m prev b = Inr (Some c)" "builder_flush e c = Inr (rs_lines r)"
    "rs_cursor r = mf_cursor m" "sealed = mf_sealed_rows m"
    using restore_cases [OF assms] by blast
  define raws where "raws = record_chunks (take (sealed * record_bytes) (drop header_bytes l))"
  have read: "builder_holds b (map decode_record raws)" "valid_rows (mf_cursor m) None (map decode_record raws)"
    "prev = last_end None (map decode_record raws)" "sealed * record_bytes \<le> length (drop header_bytes l)"
    using restore_blocks_rows [OF m(2) builder_empty_holds] m(6) by (simp_all add: raws_def)
  have "length raws = sealed" unfolding raws_def using read(4) by (intro length_record_chunks) simp
  moreover have "mf_cursor m \<le> jk_source_bytes k"
    using m(1) by (auto simp: read_state_Some accepted_def manifest_refused_def)
  moreover note all = restore_tail_rows [OF m(3) read(1,2,3)]
  ultimately show ?thesis
    using flush_holds [OF all [THEN conjunct1] m(4)] valid_rows_in_order [OF all [THEN conjunct2]] all m(5)
    by (intro exI [of _ "map decode_record raws @ (case mf_tail m of None \<Rightarrow> [] | Some t \<Rightarrow> [t])"]) simp
qed

section \<open>Restoring a checkpoint\<close>

definition tail_list :: "line_row option \<Rightarrow> line_row list" where
  "tail_list t = (case t of None \<Rightarrow> [] | Some m \<Rightarrow> [m])"

lemma restore_committed:
  assumes "json_laws w" "jd_state d = Some (manifest_data w m)" "jw_size w (manifest_data w m) \<le> max_manifest_bytes"
    "jd_lines d = Some (header k @ concat (map encode_record rows) @ junk)" "length (header k) = header_bytes"
    "mf_sealed_rows m = length rows" "mf_payload_sha m = jw_sha w (header k @ concat (map encode_record rows))"
    "length rows \<le> 500000000" "\<not> manifest_refused k m (header_bytes + length rows * record_bytes)"
    "valid_rows (mf_cursor m) None (rows @ tail_list (mf_tail m))" "roomy e (length rows + 1)" "\<And>i. \<not> stopped i"
  shows "\<exists>r payload. restore w e stopped k d
      = Inr (Some (r, header k @ concat (map encode_record rows), payload, length rows))
    \<and> builder_holds (rs_lines r) (rows @ tail_list (mf_tail m)) \<and> synced (rs_lines r)
    \<and> rs_cursor r = mf_cursor m \<and> rs_scan_complete r = mf_scan_complete m \<and> rs_columns r = mf_columns m"
proof -
  let ?x = "concat (map encode_record rows)"
  have lx: "length ?x = length rows * record_bytes" by (rule length_encoded)
  have "header_bytes + length rows * record_bytes \<le> u64_max"
    using assms(8) by (simp add: header_bytes_def record_bytes_def u64_max_def)
  then have "accepted w k (manifest_data w m) m"
    using assms(1,3,6,9) by (simp add: accepted_def json_laws_def manifest_data_def)
  then have read: "read_state w k d = Some (m, header k @ ?x @ junk)"
    using assms(2,4,5,6) lx by (simp add: read_state_Some)
  have drop: "drop header_bytes (header k @ ?x @ junk) = ?x @ junk" "take header_bytes (header k @ ?x @ junk) = header k"
    using assms(5) by simp_all
  have chunks: "record_chunks (take (length rows * record_bytes) (?x @ junk)) = map encode_record rows"
    using record_chunks_encoded [OF encoded_raws(1), of rows "[]"] lx by (simp add: record_chunks.simps [of "[]"] record_bytes_def)
  have valid: "valid_rows (mf_cursor m) None rows" "valid_rows (mf_cursor m) (last_end None rows) (tail_list (mf_tail m))"
    using assms(10) by (simp_all add: valid_rows_append)
  obtain hash prev b where b: "restore_blocks e stopped (mf_cursor m) (length rows) (?x @ junk) (header k) None builder_empty
      = Inr (Some (hash, prev, b))"
    using restore_blocks_succeeds [where stopped = stopped and n = "length rows" and rest = "?x @ junk"
        and cursor = "mf_cursor m" and prev = None and b = builder_empty and rows = "[]" and e = e and hash = "header k"]
      assms(12) chunks lx valid(1) builder_empty_holds roomy_mono [OF assms(11)] by (auto simp: comp_def decode_encode)
  have rows: "hash = header k @ ?x" "prev = last_end None rows" "builder_holds b rows"
    using restore_blocks_rows [OF b builder_empty_holds] chunks lx by (simp_all add: comp_def decode_encode)
  have "\<exists>c. restore_tail e m prev b = Inr (Some c)"
  proof (cases "mf_tail m")
    case (Some t)
    then show ?thesis using push_succeeds [OF rows(3) assms(11), of t] valid(2) rows(2)
      by (auto simp: restore_tail_def tail_list_def lift_build_def)
  qed (simp add: restore_tail_def)
  then obtain c where c: "restore_tail e m prev b = Inr (Some c)" by blast
  have held: "builder_holds c (rows @ tail_list (mf_tail m))"
    using restore_tail_rows [OF c rows(3) valid(1) rows(2)] by (simp add: tail_list_def)
  have "length (rows @ tail_list (mf_tail m)) \<le> length rows + 1" by (simp add: tail_list_def split: option.splits)
  then obtain f where f: "builder_flush e c = Inr f"
    using flush_succeeds [OF held roomy_mono [OF assms(11)]] by blast
  show ?thesis
    using read drop assms(5,6,7,12) b rows(1) c f flush_holds [OF held f] lx
    by (simp add: restore_def lift_build_def)
qed

text \<open>The journal of a builder: what it has written are the first rows of the builder.\<close>

definition journal_holds :: "'j journal_world \<Rightarrow> line_journal \<Rightarrow> 'j journal_disk \<Rightarrow> line_row list \<Rightarrow> bool" where
  "journal_holds w j d rows \<longleftrightarrow> journal_on w j d \<and> length (header (jr_key j)) = header_bytes
     \<and> jr_sealed j \<le> length rows
     \<and> jr_hash j = header (jr_key j) @ concat (map encode_record (take (jr_sealed j) rows))"

text \<open>What a parser hands to a checkpoint: valid rows inside what it has read, and all of the source at the end.\<close>

definition checkpointable :: "journal_key \<Rightarrow> nat \<Rightarrow> bool \<Rightarrow> line_row list \<Rightarrow> bool" where
  "checkpointable k cursor finished rows \<longleftrightarrow> valid_rows cursor None rows \<and> jk_initial_cursor k \<le> cursor
     \<and> (finished \<longrightarrow> cursor = jk_source_bytes k) \<and> length rows \<le> 500000000"

lemma valid_rows_length: "valid_rows cursor prev rows \<Longrightarrow> (case prev of None \<Rightarrow> 0 | Some p \<Rightarrow> p) + length rows \<le> max cursor (case prev of None \<Rightarrow> 0 | Some p \<Rightarrow> p)"
proof (induction rows arbitrary: prev)
  case (Cons m rows)
  have m: "valid_record m cursor prev" "valid_rows cursor (row_end m) rows" using Cons.prems by simp_all
  note bounds = valid_record_bounds [OF m(1)]
  have "unat (lr_offset m) + unat (lr_len m) + length rows \<le> cursor"
    using Cons.IH [OF m(2)] bounds(1,2) by (simp add: max_def split: if_splits)
  moreover have "(case prev of None \<Rightarrow> 0 | Some p \<Rightarrow> p) \<le> unat (lr_offset m)" using bounds(3) by (simp split: option.split)
  ultimately show ?case using bounds(4) by simp
qed simp

lemma take_tail:
  fixes k finished
  assumes "builder_holds b rows"
  defines "sealed \<equiv> sealed_rows k b finished"
  shows "sealed \<le> length rows" "rows = take sealed rows @ tail_list (tail_after rows sealed)"
    "tail_after rows sealed \<noteq> None \<Longrightarrow> jk_multiline k \<and> \<not> finished"
proof -
  have len: "sealed = length rows \<or> sealed = length rows - 1 \<and> jk_multiline k \<and> \<not> finished"
    using holds_len [OF assms(1)] by (auto simp: sealed_def sealed_rows_def)
  then show "sealed \<le> length rows" "tail_after rows sealed \<noteq> None \<Longrightarrow> jk_multiline k \<and> \<not> finished"
    by (auto simp: tail_after_def split: if_splits)
  show "rows = take sealed rows @ tail_list (tail_after rows sealed)"
    using len by (cases rows rule: rev_cases) (auto simp: tail_after_def tail_list_def)
qed

text \<open>A disk with the manifest of the checkpoint and the bytes it commits restores the builder.\<close>

lemma published_restores:
  fixes w j d rows b cursor finished columns e stopped d'
  assumes "json_laws w" "journal_holds w j d rows" "builder_holds b rows"
    "\<not> checkpoint_inconsistent j b cursor finished columns" "checkpointable (jr_key j) cursor finished rows"
    "roomy e (length rows + 1)" "\<And>i. \<not> stopped i"
  defines "sealed \<equiv> sealed_rows (jr_key j) b finished"
  defines "written \<equiv> jr_hash j @ concat (map encode_record (cut (jr_sealed j) sealed rows))"
  defines "m \<equiv> new_manifest w (jr_key j) written sealed cursor (tail_after rows sealed) finished columns"
  assumes "jd_state d' = Some (manifest_data w m)" "jd_lines d' = Some written"
    "jw_size w (manifest_data w m) \<le> max_manifest_bytes"
  shows "\<exists>r x. restore w e stopped (jr_key j) d' = Inr (Some (r, x)) \<and> builder_holds (rs_lines r) rows
    \<and> synced (rs_lines r) \<and> rs_cursor r = cursor \<and> rs_scan_complete r = finished \<and> rs_columns r = columns"
    "written = header (jr_key j) @ concat (map encode_record (take sealed rows))"
proof -
  let ?k = "jr_key j"
  have order: "jr_sealed j \<le> sealed" "cursor \<le> jk_source_bytes ?k" "columns \<noteq> None \<longrightarrow> finished"
    using assms(4) by (auto simp: checkpoint_inconsistent_def sealed_def)
  note tail = take_tail [OF assms(3), of ?k finished, folded sealed_def]
  have "take (jr_sealed j) rows @ cut (jr_sealed j) sealed rows = take sealed rows"
    using cut_split [of 0 "jr_sealed j" sealed rows] order(1) by (simp add: cut_def)
  then show written: "written = header ?k @ concat (map encode_record (take sealed rows))"
    using assms(2) by (simp add: written_def journal_holds_def flip: concat_append map_append)
  have valid: "valid_rows cursor None rows" and rest: "jk_initial_cursor ?k \<le> cursor" "finished \<longrightarrow> cursor = jk_source_bytes ?k"
    "length rows \<le> 500000000" using assms(5) by (simp_all add: checkpointable_def)
  have "length rows \<le> jk_source_bytes ?k" using valid_rows_length [OF valid] order(2) by simp
  then have "\<not> manifest_refused ?k m (header_bytes + sealed * record_bytes)"
    using rest order tail(1,3) by (auto simp: manifest_refused_def m_def new_manifest_def)
  then have refused: "\<not> manifest_refused ?k m (header_bytes + length (take sealed rows) * record_bytes)"
    using tail(1) by (simp add: min_def)
  have sel: "mf_sealed_rows m = length (take sealed rows)" "mf_payload_sha m = jw_sha w (header ?k @ concat (map encode_record (take sealed rows)))"
    "mf_cursor m = cursor" "mf_tail m = tail_after rows sealed" "mf_scan_complete m = finished" "mf_columns m = columns"
    using tail(1) written by (simp_all add: m_def new_manifest_def min_def)
  have lines: "jd_lines d' = Some (header ?k @ concat (map encode_record (take sealed rows)) @ [])"
    using assms(12) written by simp
  have "length (header ?k) = header_bytes" using assms(2) by (simp add: journal_holds_def)
  moreover have "length (take sealed rows) \<le> 500000000" using rest(3) by simp
  moreover have "valid_rows (mf_cursor m) None (take sealed rows @ tail_list (mf_tail m))" using valid tail(2) sel by simp
  moreover have "roomy e (length (take sealed rows) + 1)" using roomy_mono [OF assms(6)] by simp
  ultimately obtain r payload where r: "restore w e stopped ?k d'
      = Inr (Some (r, header ?k @ concat (map encode_record (take sealed rows)), payload, length (take sealed rows)))"
    "builder_holds (rs_lines r) (take sealed rows @ tail_list (mf_tail m))" "synced (rs_lines r)"
    "rs_cursor r = cursor" "rs_scan_complete r = finished" "rs_columns r = columns"
    using restore_committed [where stopped = stopped and e = e, OF assms(1,11,13) lines _ sel(1,2) _ refused] assms(7) sel(3,5,6)
    by auto
  then show "\<exists>r x. restore w e stopped ?k d' = Inr (Some (r, x)) \<and> builder_holds (rs_lines r) rows
      \<and> synced (rs_lines r) \<and> rs_cursor r = cursor \<and> rs_scan_complete r = finished \<and> rs_columns r = columns"
    using tail(2) sel(4) by auto
qed


lemma committing_effects:
  assumes "jd_lines d = Some l"
  shows "journal_effects (map AppendRows apps @ committing w m) d
    = d\<lparr>jd_lines := Some (l @ concat apps), jd_synced := length (l @ concat apps), jd_state := Some (manifest_data w m),
        jd_kept := Some (manifest_data w m)\<rparr>"
  using appended_effects [OF assms] by (simp add: journal_effects_append) (simp add: journal_effects_def committing_def)

lemma checkpoint_committed:
  assumes "json_laws w" "journal_holds w j d rows" "builder_holds b rows"
    "checkpoint_rows w e ce j b cursor finished columns = (es, Inr (j', b'))"
    "checkpointable (jr_key j) cursor finished rows" "roomy e' (length rows + 1)" "\<And>i. \<not> stopped i"
  shows "(\<exists>r x. restore w e' stopped (jr_key j) (journal_effects es d) = Inr (Some (r, x)) \<and> builder_holds (rs_lines r) rows
       \<and> synced (rs_lines r) \<and> rs_cursor r = cursor \<and> rs_scan_complete r = finished \<and> rs_columns r = columns)
    \<and> journal_holds w j' (journal_effects es d) rows \<and> builder_holds b' rows"
proof -
  define sealed where "sealed = sealed_rows (jr_key j) b finished"
  define added where "added = concat (map encode_record (cut (jr_sealed j) sealed rows))"
  define m where "m = new_manifest w (jr_key j) (jr_hash j @ added) sealed cursor (tail_after rows sealed) finished columns"
  have on: "journal_on w j d" using assms(2) by (simp add: journal_holds_def)
  obtain apps where es: "es = map AppendRows apps @ committing w m" "concat apps = added"
    and ok: "jw_size w (manifest_data w m) \<le> max_manifest_bytes" "\<not> checkpoint_inconsistent j b cursor finished columns"
    and j': "j' = j\<lparr>jr_hash := jr_hash j @ added, jr_sealed := sealed, jr_cursor := cursor\<rparr>" and b': "builder_holds b' rows"
    using checkpoint_trace [OF assms(3,4)] unfolding added_def m_def sealed_def by blast
  have l: "jd_lines d = Some (jr_hash j)" using on by (simp add: journal_on_def)
  have d': "journal_effects es d = d\<lparr>jd_lines := Some (jr_hash j @ added), jd_synced := length (jr_hash j @ added),
      jd_state := Some (manifest_data w m), jd_kept := Some (manifest_data w m)\<rparr>"
    using committing_effects [OF l, of apps] es by simp
  have disk: "jd_state (journal_effects es d) = Some (manifest_data w m)" "jd_lines (journal_effects es d) = Some (jr_hash j @ added)"
    by (simp_all add: d')
  note restores = published_restores [where stopped = stopped and e = e', OF assms(1-3) ok(2) assms(5-7) disk [unfolded m_def added_def sealed_def]
      ok(1) [unfolded m_def added_def sealed_def]]
  have hash: "jr_hash j @ added = header (jr_key j) @ concat (map encode_record (take sealed rows))"
    using restores(2) by (simp add: added_def sealed_def)
  have few: "sealed \<le> length rows" using take_tail(1) [OF assms(3)] by (simp add: sealed_def)
  have "length (jr_hash j @ added) = header_bytes + sealed * record_bytes"
    using assms(2) few hash by (simp add: journal_holds_def length_encoded min_def)
  moreover have "jw_parse w (manifest_data w m) = Some (m, state_digest w m)"
    using assms(1) by (simp add: json_laws_def manifest_data_def)
  ultimately have "journal_on w j' (journal_effects es d)"
    by (simp add: journal_on_def d' j' commits_within_def m_def new_manifest_def)
  then have "journal_holds w j' (journal_effects es d) rows"
    using assms(2) few hash by (simp add: journal_holds_def j')
  then show ?thesis using restores(1) b' by blast
qed


section \<open>Opening\<close>

text \<open>Opening a journal whose manifest commits durable bytes, or a new one, gives a builder with the rows the
journal holds, so that the next checkpoint goes on from there.\<close>

lemma opened_journal_holds:
  assumes "journal_open w e stopped oe k d = (es, Inr (j, r))" "length (header k) = header_bytes"
    "jd_kept d = jd_state d" "commits_within w (jd_state d) (jd_synced d)"
    "\<And>l. jd_lines d = Some l \<Longrightarrow> jd_synced d \<le> length l"
    "restore w e stopped k d = Inr None \<Longrightarrow> jd_state d = None"
  shows "\<exists>rows. builder_holds (rs_lines r) rows \<and> journal_holds w j (journal_effects es d) rows
    \<and> jr_cursor j = rs_cursor r"
proof -
  obtain x where x: "restore w e stopped k d = Inr x" "\<not> oe_stop oe"
    using assms(1) by (auto simp: journal_open_def split: if_splits sum.splits)
  show ?thesis
  proof (cases x)
    case None
    then have st: "jd_state d = None" using assms(6) x by simp
    have "j = \<lparr>jr_key = k, jr_hash = header k, jr_sealed = 0, jr_resumed = 0, jr_cursor = jk_initial_cursor k\<rparr>"
      "rs_lines r = builder_empty" "rs_cursor r = jk_initial_cursor k" "es = [CreateJournal, AppendRows (header k), RemoveState]"
      using assms(1,2) x None
      by (auto simp: journal_open_def journal_effects_def journal_reset_def cut_uncommitted_def fresh_resume_def bind_res_Inr
          split: if_splits)
    then show ?thesis using assms(2,3) st builder_empty_holds
      by (intro exI [of _ "[]"])
         (simp add: journal_holds_def journal_on_def journal_effects_def commits_within_def)
  next
    case (Some y)
    then obtain s hash payload sealed where y: "restore w e stopped k d = Inr (Some (s, hash, payload, sealed))"
      using x by (cases y) auto
    obtain m l prev b c where m: "read_state w k d = Some (m, l)" "take header_bytes l = header k"
      "restore_blocks e stopped (mf_cursor m) (mf_sealed_rows m) (drop header_bytes l) (header k) None builder_empty
          = Inr (Some (hash, prev, b))"
      "restore_tail e m prev b = Inr (Some c)" "builder_flush e c = Inr (rs_lines s)"
      "payload = mf_payload_bytes m" "sealed = mf_sealed_rows m"
      using restore_cases [OF y] by blast
    define raw where "raw = take (sealed * record_bytes) (drop header_bytes l)"
    define raws where "raws = record_chunks raw"
    have blocks: "sealed * record_bytes \<le> length (drop header_bytes l)" "hash = header k @ raw"
      "valid_rows (mf_cursor m) None (map decode_record raws)" "prev = last_end None (map decode_record raws)"
      "builder_holds b (map decode_record raws)"
      using restore_blocks_rows [OF m(3) builder_empty_holds] m(7) by (simp_all add: raw_def raws_def)
    have raw: "length raw = sealed * record_bytes" using blocks(1) by (simp add: raw_def)
    then have few: "length raws = sealed" unfolding raws_def by (rule length_record_chunks)
    have again: "map (encode_record \<circ> decode_record) raws = raws"
      using record_chunks_sizes [of raw] by (auto simp: raws_def list_all_iff record_bytes_def encode_decode intro: map_idI)
    have whole: "concat raws = raw"
      using raw unfolding raws_def
    proof (induction sealed arbitrary: raw)
      case (Suc n)
      then show ?case using Suc.IH [of "drop record_bytes raw"] by (subst record_chunks.simps) simp
    qed (simp add: record_chunks.simps record_bytes_def)
    define rows where "rows = map decode_record raws @ tail_list (mf_tail m)"
    have held: "builder_holds (rs_lines s) rows"
      using flush_holds [OF conjunct1 [OF restore_tail_rows [OF m(4) blocks(5,3,4)]] m(5)]
      by (simp add: rows_def tail_list_def)
    have data: "jd_lines d = Some l" "header_bytes + sealed * record_bytes \<le> length l" "payload = header_bytes + sealed * record_bytes"
      "header_bytes + sealed * record_bytes \<le> jd_synced d"
      using m(1,6,7) assms(4) by (auto simp: read_state_Some accepted_def manifest_refused_def dest: commits_withinD)
    have within: "commits_within w (jd_state d) (header_bytes + sealed * record_bytes)"
      using m(1,7) by (auto simp: read_state_Some accepted_def commits_within_def)
    have j: "j = \<lparr>jr_key = k, jr_hash = hash, jr_sealed = sealed, jr_resumed = rs_resumed_rows s, jr_cursor = rs_cursor s\<rparr>" "r = s"
      "es = (if length l \<noteq> payload then [TruncateJournal payload] else [])"
      using assms(1) y data(1) x(2)
      by (auto simp: journal_open_def journal_effects_def cut_uncommitted_def bind_res_Inr Let_def split: if_splits)
    have "take payload l = hash" "length hash = payload"
      using data(2,3) m(2) raw assms(2) unfolding blocks(2) raw_def data(3) by (metis take_add, simp)
    then have "journal_on w j (journal_effects es d)"
      using assms(3-5) data within by (auto simp: journal_on_def j journal_effects_def min_def)
    moreover have "hash = header k @ concat (map encode_record (take sealed rows))"
      using few again whole by (simp add: rows_def blocks(2))
    ultimately have "journal_holds w j (journal_effects es d) rows"
      using few assms(2) by (simp add: journal_holds_def j rows_def)
    then show ?thesis using held j by auto
  qed
qed

section \<open>A checkpoint that nothing interrupts\<close>

definition undisturbed :: "checkpoint_env \<Rightarrow> bool" where
  "undisturbed ce \<longleftrightarrow> (\<forall>p. \<not> ce_stop ce p \<and> ce_valid ce p \<and> ce_io ce p)"

lemma append_blocks_succeeds:
  assumes "undisturbed ce" "builder_holds b rows" "synced b" "sealed \<le> length rows"
  shows "\<exists>(es :: 'j journal_effect list) h. append_blocks ce b start sealed hash = (es, Inr h)"
  using assms
proof (induction ce b start sealed hash rule: append_blocks.induct)
  case (1 ce b start sealed hash)
  show ?case
  proof (cases "sealed \<le> start")
    case False
    define stop where "stop = min (start + block_rows) sealed"
    have "start \<le> stop" "stop \<le> length rows" "stop - start \<le> 8192" "start \<noteq> length rows"
      using False "1.prems"(4) by (auto simp: stop_def block_rows_def)
    then have chunk: "read_chunk b start stop = Inr (cut start stop rows)"
      using read_chunk_at [OF "1.prems"(2,3)] by simp
    obtain es :: "'j journal_effect list" and h where "append_blocks ce b (start + block_rows) sealed (hash @ concat (map encode_record (cut start stop rows)))
        = (es, Inr h)"
      using "1.IH" [OF False _ chunk [unfolded stop_def] refl] "1.prems" by (auto simp: undisturbed_def stop_def)
    then show ?thesis using False "1.prems"(1) chunk
      by (simp add: append_blocks.simps [of ce b start] Let_def stop_def undisturbed_def)
  qed (simp add: append_blocks.simps)
qed

text \<open>With room, a small manifest and nothing in the way a consistent checkpoint ends well.\<close>

lemma checkpoint_succeeds:
  fixes w :: "'j journal_world"
  assumes "undisturbed ce" "builder_holds b rows" "roomy e (length rows)" "\<And>data. jw_size w data \<le> max_manifest_bytes"
    "\<not> checkpoint_inconsistent j b cursor finished columns"
  shows "\<exists>es j' b'. checkpoint_rows w e ce j b cursor finished columns = (es, Inr (j', b'))"
proof -
  obtain c where c: "builder_flush e b = Inr c" using flush_succeeds [OF assms(2,3)] by blast
  have held: "builder_holds c rows" "synced c" using flush_holds [OF assms(2) c] by simp_all
  have len: "builder_len c = builder_len b" using holds_len held(1) assms(2) by metis
  then have same: "sealed_rows k c finished = sealed_rows k b finished"
    "checkpoint_inconsistent j c cursor finished columns = checkpoint_inconsistent j b cursor finished columns" for k
    by (simp_all add: sealed_rows_def checkpoint_inconsistent_def)
  let ?sealed = "sealed_rows (jr_key j) b finished"
  have few: "?sealed \<le> length rows" using holds_len [OF assms(2)] by (simp add: sealed_rows_def)
  obtain as :: "'j journal_effect list" and h where app: "append_blocks ce c (jr_sealed j) ?sealed (jr_hash j) = (as, Inr h)"
    using append_blocks_succeeds [OF assms(1) held few] by blast
  have tail: "(if ?sealed < builder_len c then map_sum JBuild Some (builder_at c ?sealed) else Inr None)
      = Inr (tail_after rows ?sealed)"
    using builder_at_rows [OF held] holds_len [OF held(1)] by (simp add: tail_after_def)
  have "\<exists>es' j' b'. sync_and_publish w ce j c ?sealed h cursor finished columns = (es', Inr (j', b'))"
    using assms(1,4) unfolding sync_and_publish_def tail
    by (simp add: undisturbed_def publish_manifest_def Let_def not_less)
  then show ?thesis
    using assms(1,5) c app by (auto simp: checkpoint_rows_def undisturbed_def same Let_def)
qed

section \<open>A concrete journal\<close>

definition sample_journal_world :: "(manifest \<times> rstr) journal_world" where
  "sample_journal_world =
     \<lparr>jw_sha = map unat, jw_state = (\<lambda>m. []), jw_envelope = Pair, jw_parse = Some, jw_size = (\<lambda>_. 500)\<rparr>"

definition sample_journal_key :: journal_key where
  "sample_journal_key = \<lparr>jk_key = replicate 64 97, jk_source_bytes = 50, jk_initial_cursor = 0, jk_multiline = False\<rparr>"

definition sample_journal :: line_journal where
  "sample_journal = \<lparr>jr_key = sample_journal_key, jr_hash = header sample_journal_key, jr_sealed = 0, jr_resumed = 0, jr_cursor = 0\<rparr>"

definition sample_journal_disk :: "(manifest \<times> rstr) journal_disk" where
  "sample_journal_disk = \<lparr>jd_lines = Some (header sample_journal_key), jd_synced = 0, jd_state = None, jd_kept = None\<rparr>"

definition undisturbed_env :: checkpoint_env where
  "undisturbed_env = \<lparr>ce_stop = (\<lambda>_. False), ce_valid = (\<lambda>_. True), ce_io = (\<lambda>_. True)\<rparr>"

definition sample_effects :: "(manifest \<times> rstr) journal_effect list" where
  "sample_effects = fst (checkpoint_rows sample_journal_world sample_scratch undisturbed_env sample_journal sample_builder 50 True (Some []))"

definition sample_committed_disk :: "(manifest \<times> rstr) journal_disk" where
  "sample_committed_disk = journal_effects sample_effects sample_journal_disk"


lemma sample_header: "length (header sample_journal_key) = header_bytes"
  by (simp add: header_def magic_def lit_def sample_journal_key_def header_bytes_def)

lemma sample_journal_holds: "json_laws sample_journal_world"
  "journal_holds sample_journal_world sample_journal sample_journal_disk sample_rows"
  by (simp_all add: json_laws_def sample_journal_world_def journal_holds_def journal_on_def sample_journal_def
      sample_journal_disk_def sample_header commits_within_def)

lemma sample_checkpointable: "checkpointable (jr_key sample_journal) 50 True sample_rows"
  by (simp add: checkpointable_def sample_journal_def sample_journal_key_def sample_rows_def sample_row_def
      valid_record_def row_end_def checked_add_def u64_max_def)

lemma sample_roomy: "roomy sample_scratch (length sample_rows + 1)" "roomy sample_scratch (length sample_rows)"
  by (simp_all add: roomy_def sample_scratch_def sample_rows_def record_bytes_def u64_max_def)

lemma sample_checkpoint:
  "\<exists>j' b'. checkpoint_rows sample_journal_world sample_scratch undisturbed_env sample_journal sample_builder 50 True (Some [])
     = (sample_effects, Inr (j', b'))"
proof -
  have "undisturbed undisturbed_env" by (simp add: undisturbed_def undisturbed_env_def)
  moreover have "\<And>data. jw_size sample_journal_world data \<le> max_manifest_bytes"
    by (simp add: sample_journal_world_def max_manifest_bytes_def)
  moreover have "\<not> checkpoint_inconsistent sample_journal sample_builder 50 True (Some [])"
    by (simp add: checkpoint_inconsistent_def sample_journal_def sample_journal_key_def)
  ultimately show ?thesis
    using checkpoint_succeeds [OF _ sample_builder_holds(1) sample_roomy(2)] unfolding sample_effects_def by (metis fst_conv)
qed



lemma sample_restored:
  "\<exists>r hash payload sealed. restore sample_journal_world sample_scratch (\<lambda>_. False) (jr_key sample_journal) sample_committed_disk
      = Inr (Some (r, hash, payload, sealed))"
proof -
  obtain j' b' where run: "checkpoint_rows sample_journal_world sample_scratch undisturbed_env sample_journal sample_builder 50 True (Some [])
      = (sample_effects, Inr (j', b'))"
    using sample_checkpoint by blast
  from checkpoint_committed [OF sample_journal_holds sample_builder_holds(1) run sample_checkpointable sample_roomy(1),
      of "\<lambda>_. False"]
  show ?thesis unfolding sample_committed_disk_def by fastforce
qed

theorem restored_rows_valid_witness:
  "\<exists>r x rows. restore sample_journal_world sample_scratch (\<lambda>_. False) (jr_key sample_journal) sample_committed_disk
      = Inr (Some (r, x)) \<and> builder_holds (rs_lines r) rows \<and> synced (rs_lines r)
    \<and> valid_rows (rs_cursor r) None rows \<and> in_order rows \<and> rs_cursor r \<le> 50"
proof -
  obtain r hash payload sealed where r: "restore sample_journal_world sample_scratch (\<lambda>_. False) (jr_key sample_journal)
      sample_committed_disk = Inr (Some (r, hash, payload, sealed))"
    using sample_restored by blast
  have "jk_source_bytes (jr_key sample_journal) = 50" by (simp add: sample_journal_def sample_journal_key_def)
  with restored_rows_valid [OF r] r show ?thesis by metis
qed

end
