(* ===== verification/Line_Mapped.thy ===== *)
theory Line_Mapped
  imports Line_Restore
begin

text \<open>
  \<open>open_complete\<close> of \<open>metadata_checkpoint.rs\<close>: a journal whose scan is complete is verified and mapped as a
  \<open>LineStore\<close> without decoding it into a builder. It answers with the rows a restore would give, and declines
  every journal a restore would refuse.

  A map is the bytes of the committed prefix. The shared lock, the receipt that the same generation of the files
  was verified before and the comparison of generations are answers of the environment.
\<close>

section \<open>Opening a complete journal\<close>

datatype map_point = OnEntry | OnLock | OnMetadata | OnMap | OnBlock nat | OnVerified | OnCurrent | OnRemap | OnMapped

record map_env =
  me_stop :: "map_point \<Rightarrow> bool"
  me_io :: "map_point \<Rightarrow> bool"
  me_receipt :: bool

fun map_records :: "nat \<Rightarrow> byte list list \<Rightarrow> nat option \<Rightarrow> nat option option" where
  "map_records cursor [] prev = Some prev"
| "map_records cursor (raw # raws) prev =
     (case decode_checked raw of
        None \<Rightarrow> None
      | Some m \<Rightarrow> if \<not> valid_record m cursor prev then None else map_records cursor raws (row_end m))"

text \<open>The loop over chunks of the body, with the bytes hashed and the rows counted so far.\<close>

function verify_blocks ::
  "map_env \<Rightarrow> nat \<Rightarrow> byte list \<Rightarrow> byte list \<Rightarrow> nat option \<Rightarrow> nat \<Rightarrow> journal_error + (byte list \<times> nat) option" where
  "verify_blocks me cursor body hash prev completed =
     (if body = [] then Inr (Some (hash, completed))
      else if me_stop me (OnBlock (length body)) then Inl JCancelled
      else
        let chunk = take (block_rows * record_bytes) body; raws = record_chunks chunk
        in case map_records cursor raws prev of
             None \<Rightarrow> Inr None
           | Some prev \<Rightarrow>
               verify_blocks me cursor (drop (block_rows * record_bytes) body) (hash @ chunk) prev
                 (completed + length raws))"
  by pat_completeness auto
termination by (relation "measure (\<lambda>(_, _, body, _). length body)") (auto simp: block_rows_def record_bytes_def)

declare verify_blocks.simps [simp del]

definition verify_mapped :: "'j journal_world \<Rightarrow> map_env \<Rightarrow> manifest \<Rightarrow> byte list \<Rightarrow> journal_error + bool" where
  "verify_mapped w me m mapped =
     bind_res (verify_blocks me (mf_cursor m) (drop header_bytes mapped) (take header_bytes mapped) None 0) (\<lambda>read.
       case read of
         None \<Rightarrow> Inr False
       | Some (hash, completed) \<Rightarrow> Inr (completed = mf_sealed_rows m \<and> jw_sha w hash = mf_payload_sha m))"

definition publish_mapped ::
  "map_env \<Rightarrow> manifest \<Rightarrow> byte list \<Rightarrow> journal_error + line_store" where
  "publish_mapped me m mapped =
     (if me_stop me OnVerified then Inl JCancelled
      else if \<not> me_io me OnCurrent then Inl JSourceChanged
      else if \<not> me_io me OnRemap then Inl JUnavailable
      else if me_stop me OnMapped then Inl JCancelled
      else case store_of_journal mapped header_bytes (mf_sealed_rows m) of
        Inl err \<Rightarrow> Inl (JStore err)
      | Inr s \<Rightarrow> Inr s)"

definition open_complete ::
  "'j journal_world \<Rightarrow> map_env \<Rightarrow> journal_key \<Rightarrow> 'j journal_disk
     \<Rightarrow> journal_error + (line_store \<times> rstr list) option" where
  "open_complete w me k d =
     (if me_stop me OnEntry then Inl JCancelled
      else if \<not> me_io me OnLock then Inr None
      else case read_state w k d of
        None \<Rightarrow> Inr None
      | Some (m, file) \<Rightarrow>
          case mf_columns m of
            None \<Rightarrow> Inr None
          | Some columns \<Rightarrow>
              if \<not> mf_scan_complete m then Inr None
              else if \<not> me_io me OnMetadata then Inl JUnavailable
              else if \<not> me_io me OnMap then Inr None
              else
                let mapped = take (mf_payload_bytes m) file
                in if take 8 mapped \<noteq> magic \<or> cut 8 header_bytes mapped \<noteq> jk_key k then Inr None
                   else bind_res (if me_receipt me then Inr True else verify_mapped w me m mapped) (\<lambda>verified.
                     if \<not> verified then Inr None
                     else bind_res (publish_mapped me m mapped) (\<lambda>s. Inr (Some (s, columns)))))"

section \<open>Verification is the one of a restore\<close>

lemma map_records_valid:
  "list_all (\<lambda>r. length r = record_bytes) raws \<Longrightarrow>
     map_records cursor raws prev =
       (if valid_rows cursor prev (map decode_record raws) then Some (last_end prev (map decode_record raws)) else None)"
  by (induction raws arbitrary: prev) (auto simp: decode_checked_def last_end_def)

lemma record_chunks_split:
  assumes "length body = n * record_bytes"
  shows "record_chunks body
    = record_chunks (take (k * record_bytes) body) @ record_chunks (drop (k * record_bytes) body)"
proof (cases "k * record_bytes \<le> length body")
  case False
  then show ?thesis by (simp add: record_chunks.simps [of "[]"] record_bytes_def)
qed (simp add: record_chunks_take)

lemma verify_blocks_valid:
  assumes "\<And>p. \<not> me_stop me p" "length body = n * record_bytes"
  shows "verify_blocks me cursor body hash prev completed =
    Inr (if valid_rows cursor prev (map decode_record (record_chunks body)) then Some (hash @ body, completed + n) else None)"
  using assms
proof (induction me cursor body hash prev completed arbitrary: n rule: verify_blocks.induct)
  case (1 me cursor body hash prev completed)
  show ?case
  proof (cases "body = []")
    case True
    then show ?thesis using "1.prems"(2)
      by (simp add: verify_blocks.simps record_chunks.simps [of "[]"] record_bytes_def)
  next
    case False
    define chunk where "chunk = take (block_rows * record_bytes) body"
    define raws where "raws = record_chunks chunk"
    define rest where "rest = drop (block_rows * record_bytes) body"
    define prev' where "prev' = last_end prev (map decode_record raws)"
    have len: "length chunk = min n block_rows * record_bytes" "length rest = (n - block_rows) * record_bytes"
      using "1.prems"(2) by (simp_all add: chunk_def rest_def diff_mult_distrib min_def record_bytes_def)
    have split: "record_chunks body = raws @ record_chunks rest" "chunk @ rest = body"
      using record_chunks_split [OF "1.prems"(2), of block_rows] by (simp_all add: raws_def chunk_def rest_def)
    have few: "length raws = min n block_rows" unfolding raws_def by (rule length_record_chunks [OF len(1)])
    have step: "map_records cursor raws prev = (if valid_rows cursor prev (map decode_record raws) then Some prev' else None)"
      unfolding prev'_def by (rule map_records_valid) (simp add: raws_def record_chunks_sizes)
    have unfold: "verify_blocks me cursor body hash prev completed =
        (case map_records cursor raws prev of None \<Rightarrow> Inr None
         | Some p \<Rightarrow> verify_blocks me cursor rest (hash @ chunk) p (completed + length raws))"
      using False "1.prems"(1) unfolding verify_blocks.simps [of me cursor body] Let_def chunk_def raws_def rest_def
      by (simp split: option.split)
    show ?thesis
    proof (cases "valid_rows cursor prev (map decode_record raws)")
      case True
      have "verify_blocks me cursor rest (hash @ chunk) prev' (completed + length raws) =
          Inr (if valid_rows cursor prev' (map decode_record (record_chunks rest))
               then Some ((hash @ chunk) @ rest, (completed + length raws) + (n - block_rows)) else None)"
        using "1.IH" [OF False _ chunk_def raws_def, of prev' "n - block_rows"] step True "1.prems"(1) len(2)
        by (simp add: rest_def)
      then show ?thesis unfolding unfold step using True few split
        by (auto simp: valid_rows_append prev'_def)
    qed (simp add: unfold step split(1) valid_rows_append)
  qed
qed

section \<open>A restore with room answers\<close>

lemma restore_records_answers:
  assumes "list_all (\<lambda>r. length r = record_bytes) raws" "builder_holds b rows" "roomy e (length rows + length raws)"
  shows "\<exists>r. restore_records e cursor raws prev b = Inr r"
  using assms
proof (induction raws arbitrary: prev b rows)
  case (Cons raw raws)
  obtain c where c: "builder_push e (decode_record raw) b = Inr c"
    using push_succeeds [OF Cons.prems(2) roomy_mono [OF Cons.prems(3)]] by auto
  have "\<exists>r. restore_records e cursor raws (row_end (decode_record raw)) c = Inr r"
    using Cons.prems by (intro Cons.IH [OF _ push_holds [OF Cons.prems(2) c]]) auto
  then show ?case using Cons.prems(1) c by (auto simp: decode_checked_def)
qed simp

lemma restore_blocks_answers:
  assumes "\<And>i. \<not> stopped i" "builder_holds b rows" "roomy e (length rows + n)"
  shows "\<exists>r. restore_blocks e stopped cursor n rest hash prev b = Inr r"
  using assms(2-)
proof (induction n arbitrary: rest hash prev b rows rule: less_induct)
  case (less n)
  define k where "k = min n block_rows"
  define x where "x = take (k * record_bytes) rest"
  have unfold: "restore_blocks e stopped cursor n rest hash prev b =
      (if n = 0 then Inr (Some (hash, prev, b)) else if length rest < k * record_bytes then Inr None
       else case restore_records e cursor (record_chunks x) prev b of
           Inl err \<Rightarrow> Inl err
         | Inr None \<Rightarrow> Inr None
         | Inr (Some (p, c)) \<Rightarrow> restore_blocks e stopped cursor (n - k) (drop (k * record_bytes) rest) (hash @ x) p c)"
    using assms(1) unfolding restore_blocks.simps [of e stopped cursor n] Let_def k_def x_def by simp
  show ?case
  proof (cases "n = 0 \<or> length rest < k * record_bytes")
    case False
    have k: "k \<le> n" "n - k < n" using False by (auto simp: k_def block_rows_def)
    have few: "length (record_chunks x) = k" using False by (intro length_record_chunks) (simp add: x_def)
    obtain a where a: "restore_records e cursor (record_chunks x) prev b = Inr a"
      using restore_records_answers [OF record_chunks_sizes less.prems(1) roomy_mono [OF less.prems(2)]] few k(1) by fastforce
    show ?thesis
    proof (cases a)
      case (Some pc)
      then obtain p c where c: "restore_records e cursor (record_chunks x) prev b = Inr (Some (p, c))" using a by (cases pc) auto
      note rows = restore_records_rows [OF c less.prems(1)]
      have "\<exists>r. restore_blocks e stopped cursor (n - k) (drop (k * record_bytes) rest) (hash @ x) p c = Inr r"
        by (rule less.IH [OF k(2) rows [THEN conjunct2, THEN conjunct2]]) (use less.prems(2) few k(1) in simp)
      then show ?thesis unfolding unfold using False c by simp
    qed (use False a in \<open>simp add: unfold\<close>)
  qed (auto simp: unfold)
qed

lemma restore_tail_answers:
  assumes "builder_holds b rows" "roomy e (length rows + 1)"
  shows "\<exists>t. restore_tail e m prev b = Inr t"
proof (cases "mf_tail m")
  case (Some row)
  obtain c where "builder_push e row b = Inr c" using push_succeeds [OF assms] by blast
  then show ?thesis using Some by (simp add: restore_tail_def lift_build_def)
qed (simp add: restore_tail_def)

lemma restore_answers:
  assumes "\<And>i. \<not> stopped i" "roomy e (jk_source_bytes k + 1)"
  shows "\<exists>x. restore w e stopped k d = Inr x"
proof (cases "read_state w k d")
  case (Some ml)
  then obtain m l where m: "read_state w k d = Some (m, l)" by (cases ml) auto
  then have few: "mf_sealed_rows m + 1 \<le> jk_source_bytes k + 1"
    by (auto simp: read_state_Some accepted_def manifest_refused_def)
  then have "roomy e (length [] + mf_sealed_rows m)" using roomy_mono [OF assms(2)] by simp
  from restore_blocks_answers [where stopped = stopped, OF assms(1) builder_empty_holds this]
  obtain a where a: "restore_blocks e stopped (mf_cursor m) (mf_sealed_rows m) (drop header_bytes l)
      (take header_bytes l) None builder_empty = Inr a" by blast
  show ?thesis
  proof (cases a)
    case (Some x)
    then obtain hash prev b where b: "restore_blocks e stopped (mf_cursor m) (mf_sealed_rows m) (drop header_bytes l)
        (take header_bytes l) None builder_empty = Inr (Some (hash, prev, b))" using a by (cases x) auto
    define raws where "raws = record_chunks (take (mf_sealed_rows m * record_bytes) (drop header_bytes l))"
    have rows: "builder_holds b (map decode_record raws)" "mf_sealed_rows m * record_bytes \<le> length (drop header_bytes l)"
      using restore_blocks_rows [OF b builder_empty_holds] by (simp_all add: raws_def)
    have "length raws = mf_sealed_rows m" unfolding raws_def using rows(2) by (intro length_record_chunks) simp
    then have room: "roomy e (length (map decode_record raws) + 1)" using roomy_mono [OF assms(2) few] by simp
    obtain t where t: "restore_tail e m prev b = Inr t"
      using restore_tail_answers [OF rows(1) room] by blast
    have "\<exists>f. builder_flush e c = Inr f" if "t = Some c" for c
    proof -
      have "builder_holds c (map decode_record raws @ (case mf_tail m of None \<Rightarrow> [] | Some x \<Rightarrow> [x]))"
        using t that rows(1)
        by (auto simp: restore_tail_def lift_build_def bind_res_Inr intro: push_holds split: option.splits if_splits sum.splits)
      then show ?thesis by (rule flush_succeeds) (auto intro: roomy_mono [OF room] split: option.splits)
    qed
    then show ?thesis using m b t assms(1)
      by (cases t) (auto simp: restore_def lift_build_def)
  qed (use m a in \<open>cases "take header_bytes l = header k"; simp add: restore_def\<close>)
qed (simp add: restore_def)

section \<open>Mapping is restoring\<close>

lemma concat_record_chunks: "length bytes = n * record_bytes \<Longrightarrow> concat (record_chunks bytes) = bytes"
proof (induction n arbitrary: bytes)
  case (Suc n)
  then show ?case using Suc.IH [of "drop record_bytes bytes"] by (subst record_chunks.simps) simp
qed (simp add: record_chunks.simps record_bytes_def)

lemma mapped_store:
  fixes body n
  assumes "length body = n * record_bytes" "header_bytes + n * record_bytes \<le> u64_max" "length h = header_bytes"
  defines "rows \<equiv> map decode_record (record_chunks body)"
  assumes "in_order rows"
  shows "\<exists>s. store_of_journal (h @ body) header_bytes n = Inr s \<and> store_ok s \<and> store_rows s = rows"
proof (cases "n = 0")
  case True
  then show ?thesis using assms(1-3)
    by (auto simp: store_of_journal_def checked_mul_def checked_add_def rows_def record_chunks.simps record_bytes_def
        store_empty_def store_ok_def store_wf_def store_rows_def u64_max_def)
next
  case False
  have few: "length (record_chunks body) = n" by (rule length_record_chunks [OF assms(1)])
  then have some: "record_chunks body \<noteq> []" using False by auto
  have "n \<le> u64_max" using assms(2) by (simp add: record_bytes_def)
  moreover have "store_of_journal (h @ body) header_bytes n = Inr (one_span (Packed (h @ body) header_bytes) n)"
    using False assms(1-3) by (simp add: store_of_journal_def checked_mul_def checked_add_def add.commute)
  ultimately show ?thesis
    using packed_store [OF record_chunks_sizes some, of h "[]"] few assms(3,5)
    by (simp add: concat_record_chunks [OF assms(1)] rows_def)
qed

text \<open>Nothing stops the mapping, and a receipt is only there for a journal that verifies.\<close>

definition map_undisturbed :: "map_env \<Rightarrow> bool" where
  "map_undisturbed me \<longleftrightarrow> (\<forall>p. \<not> me_stop me p \<and> me_io me p)"

definition verifies :: "'j journal_world \<Rightarrow> manifest \<Rightarrow> byte list \<Rightarrow> bool" where
  "verifies w m mapped \<longleftrightarrow>
     valid_rows (mf_cursor m) None (map decode_record (record_chunks (drop header_bytes mapped)))
     \<and> jw_sha w mapped = mf_payload_sha m"

lemma verify_mapped_verifies:
  assumes "map_undisturbed me" "length mapped = header_bytes + mf_sealed_rows m * record_bytes"
  shows "verify_mapped w me m mapped = Inr (verifies w m mapped)"
proof -
  have stop: "\<And>p. \<not> me_stop me p" using assms(1) by (simp add: map_undisturbed_def)
  have len: "length (drop header_bytes mapped) = mf_sealed_rows m * record_bytes" using assms(2) by simp
  show ?thesis using verify_blocks_valid [OF stop len] by (simp add: verify_mapped_def verifies_def)
qed

lemma header_split:
  assumes "header_bytes \<le> length mapped"
  shows "take 8 mapped = magic \<and> cut 8 header_bytes mapped = jk_key k \<longleftrightarrow> take header_bytes mapped = header k"
proof -
  have "take header_bytes mapped = take 8 mapped @ cut 8 header_bytes mapped"
    using take_add [of 8 64 mapped] by (simp add: cut_def header_bytes_def)
  moreover have "length (take 8 mapped) = length magic"
    using assms by (simp add: magic_def lit_def header_bytes_def)
  ultimately show ?thesis by (simp add: header_def)
qed

lemma committed_prefix:
  assumes "read_state w k d = Some (m, l)"
  shows "mf_payload_bytes m = header_bytes + mf_sealed_rows m * record_bytes" "mf_payload_bytes m \<le> length l"
    "mf_payload_bytes m \<le> u64_max" "mf_columns m \<noteq> None \<Longrightarrow> mf_scan_complete m \<and> mf_tail m = None"
    "mf_sealed_rows m \<le> jk_source_bytes k"
  using assms by (auto simp: read_state_Some accepted_def manifest_refused_def)

text \<open>The body of a committed prefix.\<close>

lemma prefix_body:
  assumes "mf_payload_bytes m = header_bytes + mf_sealed_rows m * record_bytes" "mf_payload_bytes m \<le> length l"
  shows "drop header_bytes (take (mf_payload_bytes m) l) = take (mf_sealed_rows m * record_bytes) (drop header_bytes l)"
    "take header_bytes (take (mf_payload_bytes m) l) = take header_bytes l"
    "take (mf_payload_bytes m) l
      = take header_bytes l @ take (mf_sealed_rows m * record_bytes) (drop header_bytes l)"
  using assms by (simp_all add: drop_take min_def take_add)

lemma restore_verifies:
  assumes "restore w e stopped k d = Inr (Some (r, x))" "read_state w k d = Some (m, l)"
  shows "take header_bytes l = header k \<and> verifies w m (take (mf_payload_bytes m) l) \<and> rs_columns r = mf_columns m
    \<and> (mf_tail m = None \<longrightarrow>
        builder_holds (rs_lines r) (map decode_record (record_chunks (drop header_bytes (take (mf_payload_bytes m) l)))))"
proof -
  obtain hash payload sealed where x: "x = (hash, payload, sealed)" by (cases x) auto
  obtain prev b c where b: "take header_bytes l = header k"
    "restore_blocks e stopped (mf_cursor m) (mf_sealed_rows m) (drop header_bytes l) (header k) None builder_empty
        = Inr (Some (hash, prev, b))"
    "jw_sha w hash = mf_payload_sha m" "restore_tail e m prev b = Inr (Some c)" "builder_flush e c = Inr (rs_lines r)"
    "rs_columns r = mf_columns m"
    using restore_cases [OF assms(1) [unfolded x]] assms(2) by auto
  note rows = restore_blocks_rows [OF b(2) builder_empty_holds]
  note body = prefix_body [OF committed_prefix(1,2) [OF assms(2)]]
  have "verifies w m (take (mf_payload_bytes m) l)"
    using rows b(1,3) unfolding verifies_def body(1) unfolding body(3) by simp
  moreover have "builder_holds (rs_lines r) (map decode_record (record_chunks (take (mf_sealed_rows m * record_bytes) (drop header_bytes l))))"
    if "mf_tail m = None"
    using b(4,5) rows that flush_holds [of b _ e "rs_lines r"] by (auto simp: restore_tail_def)
  ultimately show ?thesis using b(1,6) unfolding body(1) by simp
qed

lemma restore_refuses:
  assumes "restore w e stopped k d = Inr None" "read_state w k d = Some (m, l)" "mf_tail m = None"
    "\<And>i. \<not> stopped i" "roomy e (jk_source_bytes k + 1)" "length (header k) = header_bytes"
  shows "take header_bytes l \<noteq> header k \<or> \<not> verifies w m (take (mf_payload_bytes m) l)"
proof (rule ccontr)
  assume "\<not> ?thesis"
  then have head: "take header_bytes l = header k" and valid: "verifies w m (take (mf_payload_bytes m) l)" by simp_all
  note prefix = committed_prefix [OF assms(2)]
  note body = prefix_body [OF prefix(1,2)]
  have room: "roomy e (mf_sealed_rows m)" using roomy_mono [OF assms(5)] prefix(5) by simp
  have fits: "mf_sealed_rows m * record_bytes \<le> length (drop header_bytes l)" "header_bytes \<le> length l"
    using prefix(1,2) by simp_all
  obtain y where y: "restore_blocks e stopped (mf_cursor m) (mf_sealed_rows m) (drop header_bytes l) (header k) None
      builder_empty = Inr (Some y)"
    using restore_blocks_succeeds [where stopped = stopped and n = "mf_sealed_rows m" and rest = "drop header_bytes l"
        and cursor = "mf_cursor m" and prev = None and b = builder_empty and rows = "[]" and e = e and hash = "header k"]
      assms(4) fits(1) valid builder_empty_holds room unfolding verifies_def body(1) by auto
  obtain hash prev b where b: "y = (hash, prev, b)" by (cases y) auto
  note rows = restore_blocks_rows [OF y [unfolded b] builder_empty_holds]
  have sha: "jw_sha w hash = mf_payload_sha m" using valid rows head unfolding verifies_def body(3) by simp
  define raws where "raws = record_chunks (take (mf_sealed_rows m * record_bytes) (drop header_bytes l))"
  have "length raws = mf_sealed_rows m" unfolding raws_def using fits(1) by (intro length_record_chunks) simp
  moreover have held: "builder_holds b (map decode_record raws)" using rows by (simp add: raws_def)
  ultimately obtain f where "builder_flush e b = Inr f" using flush_succeeds [OF held] room by auto
  then show False using assms(1-4) head fits(2) y b sha by (auto simp: restore_def restore_tail_def lift_build_def)
qed

text \<open>What opening answers for an accepted manifest with columns.\<close>

lemma open_complete_answer:
  assumes "map_undisturbed me" "read_state w k d = Some (m, l)" "mf_columns m = Some columns"
    "me_receipt me \<longrightarrow> verifies w m (take (mf_payload_bytes m) l)" "length (header k) = header_bytes"
  shows "if take header_bytes l = header k \<and> verifies w m (take (mf_payload_bytes m) l)
    then \<exists>s. open_complete w me k d = Inr (Some (s, columns)) \<and> store_ok s
      \<and> store_rows s = map decode_record (record_chunks (drop header_bytes (take (mf_payload_bytes m) l)))
    else open_complete w me k d = Inr None"
proof -
  note prefix = committed_prefix [OF assms(2)]
  note body = prefix_body [OF prefix(1,2)]
  define mapped where "mapped = take (mf_payload_bytes m) l"
  have len: "length mapped = header_bytes + mf_sealed_rows m * record_bytes" "header_bytes \<le> length mapped"
    using prefix(1,2) by (simp_all add: mapped_def)
  have head: "take 8 mapped = magic \<and> cut 8 header_bytes mapped = jk_key k \<longleftrightarrow> take header_bytes l = header k"
    using header_split [OF len(2)] body(2) by (simp add: mapped_def)
  have verified: "(if me_receipt me then Inr True else verify_mapped w me m mapped) = Inr (verifies w m mapped)"
    using verify_mapped_verifies [OF assms(1) len(1), of w] assms(4) by (simp add: mapped_def)
  have opened: "open_complete w me k d =
      (if take 8 mapped \<noteq> magic \<or> cut 8 header_bytes mapped \<noteq> jk_key k then Inr None
       else bind_res (if me_receipt me then Inr True else verify_mapped w me m mapped) (\<lambda>verified.
         if \<not> verified then Inr None
         else bind_res (publish_mapped me m mapped) (\<lambda>s. Inr (Some (s, columns)))))"
    using assms(1-3) prefix(4) unfolding open_complete_def mapped_def Let_def map_undisturbed_def by simp
  have answer: "open_complete w me k d =
      (if take header_bytes l = header k \<and> verifies w m mapped
       then bind_res (publish_mapped me m mapped) (\<lambda>s. Inr (Some (s, columns))) else Inr None)"
    unfolding opened verified using head by auto
  show ?thesis
  proof (cases "take header_bytes l = header k \<and> verifies w m mapped")
    case True
    define rest where "rest = drop header_bytes mapped"
    have whole: "mapped = header k @ rest" using True body unfolding rest_def mapped_def by metis
    have rest: "length rest = mf_sealed_rows m * record_bytes" using len(1) by (simp add: rest_def)
    have "in_order (map decode_record (record_chunks rest))"
      using True valid_rows_in_order by (auto simp: verifies_def rest_def)
    then obtain s where "store_of_journal mapped header_bytes (mf_sealed_rows m) = Inr s" "store_ok s"
      "store_rows s = map decode_record (record_chunks rest)"
      using mapped_store [OF rest _ assms(5)] prefix(1,3) whole by auto
    then show ?thesis using True answer assms(1)
      by (auto simp: publish_mapped_def map_undisturbed_def rest_def simp flip: mapped_def)
  qed (use answer in \<open>auto simp flip: mapped_def\<close>)
qed

text \<open>C11. Mapping a journal answers what restoring it does: the same rows, in a well formed store, for a journal
whose columns are known, and nothing for one that is refused or not finished.\<close>

theorem mapped_as_restored:
  assumes "map_undisturbed me" "\<And>i. \<not> stopped i" "roomy e (jk_source_bytes k + 1)" "length (header k) = header_bytes"
    "\<And>m l. me_receipt me \<Longrightarrow> read_state w k d = Some (m, l) \<Longrightarrow> verifies w m (take (mf_payload_bytes m) l)"
  shows "case restore w e stopped k d of
      Inl err \<Rightarrow> False
    | Inr None \<Rightarrow> open_complete w me k d = Inr None
    | Inr (Some (r, x)) \<Rightarrow>
        (case rs_columns r of
           None \<Rightarrow> open_complete w me k d = Inr None
         | Some columns \<Rightarrow> \<exists>s. open_complete w me k d = Inr (Some (s, columns)) \<and> store_ok s
             \<and> builder_holds (rs_lines r) (store_rows s))"
proof -
  obtain a where a: "restore w e stopped k d = Inr a" using restore_answers [where stopped = stopped, OF assms(2,3)] by blast
  have entry: "\<not> me_stop me p" "me_io me p" for p using assms(1) by (simp_all add: map_undisturbed_def)
  show ?thesis
  proof (cases "read_state w k d")
    case None
    then show ?thesis using a entry by (auto simp: restore_def open_complete_def)
  next
    case (Some ml)
    then obtain m l where m: "read_state w k d = Some (m, l)" by (cases ml) auto
    show ?thesis
    proof (cases "mf_columns m")
      case None
      have "open_complete w me k d = Inr None" using None m entry by (simp add: open_complete_def)
      then show ?thesis using a None restore_verifies [OF _ m] by (auto split: option.splits)
    next
      case (Some columns)
      have tail: "mf_tail m = None" using committed_prefix(4) [OF m] Some by simp
      note answer = open_complete_answer [OF assms(1) m Some _ assms(4)]
      show ?thesis
      proof (cases a)
        case None
        then show ?thesis using a answer assms(5) [OF _ m] restore_refuses [where stopped = stopped, OF _ m tail assms(2-4)] by auto
      next
        case (Some y)
        then obtain r x where y: "restore w e stopped k d = Inr (Some (r, x))" using a by (cases y) auto
        then show ?thesis using answer assms(5) [OF _ m] restore_verifies [OF y m] tail \<open>mf_columns m = Some columns\<close> by auto
      qed
    qed
  qed
qed

section \<open>A concrete complete journal\<close>

definition mapping_env :: map_env where
  "mapping_env = \<lparr>me_stop = (\<lambda>_. False), me_io = (\<lambda>_. True), me_receipt = False\<rparr>"

theorem mapped_as_restored_witness:
  "\<exists>r x s. restore sample_journal_world sample_scratch (\<lambda>_. False) sample_journal_key sample_committed_disk = Inr (Some (r, x))
    \<and> open_complete sample_journal_world mapping_env sample_journal_key sample_committed_disk = Inr (Some (s, []))
    \<and> store_ok s \<and> builder_holds (rs_lines r) (store_rows s) \<and> ls_len s = 2"
proof -
  obtain j' b' where run: "checkpoint_rows sample_journal_world sample_scratch undisturbed_env sample_journal sample_builder 50 True (Some [])
      = (sample_effects, Inr (j', b'))"
    using sample_checkpoint by blast
  obtain r x where r: "restore sample_journal_world sample_scratch (\<lambda>_. False) sample_journal_key sample_committed_disk = Inr (Some (r, x))"
    "builder_holds (rs_lines r) sample_rows" "rs_columns r = Some []"
    using checkpoint_committed [OF sample_journal_holds sample_builder_holds(1) run sample_checkpointable sample_roomy(1),
        of "\<lambda>_. False"]
    by (auto simp: sample_committed_disk_def sample_journal_def)
  have "map_undisturbed mapping_env" "\<not> me_receipt mapping_env" by (simp_all add: map_undisturbed_def mapping_env_def)
  moreover have "roomy sample_scratch (jk_source_bytes sample_journal_key + 1)"
    by (simp add: roomy_def sample_scratch_def sample_journal_key_def record_bytes_def u64_max_def)
  ultimately obtain s where s: "open_complete sample_journal_world mapping_env sample_journal_key sample_committed_disk
      = Inr (Some (s, []))" "store_ok s" "builder_holds (rs_lines r) (store_rows s)"
    using mapped_as_restored [OF _ _ _ sample_header, of mapping_env "\<lambda>_. False" sample_scratch
        sample_journal_world sample_committed_disk] r(1,3)
    by auto
  have "length (store_rows s) = length sample_rows" using holds_len [OF s(3)] holds_len [OF r(2)] by simp
  then have "ls_len s = 2" using length_store_rows [of s] s(2) by (simp add: sample_rows_def store_ok_def)
  then show ?thesis using r(1) s by blast
qed

end
