(* ===== verification/Spec2Isabelle.thy ===== *)
theory Spec2Isabelle
  imports Learn_Seen Learn_Train Learn_Observe Learn_Merge Split_Recover Split_Scan
    Scheduler Stamp_Laws Work_Ledger Query_Line
    Line_Mapped
begin

text \<open>
  Verification library of the Log Insight backend (Rust; \<open>src-tauri/src\<close> and \<open>crates/log-learning\<close>).

  \<^bold>\<open>The program.\<close> Log Insight opens log files, parses them into events, lets an analyst query them and
  separates a file in two by a rule. This library models six parts of it that decide on their own
  code, without the database engine: the learning crate, the separation of a file, the recognizer of dates, the
  admission of work, the query language and the metadata of lines with its checkpoints.

  \<^bold>\<open>Conventions\<close> (\<^theory_text>\<open>Prelude\<close>, \<^theory_text>\<open>Rust_Text\<close>, \<^theory_text>\<open>Ordered_Map\<close>, \<^theory_text>\<open>Le_Bytes\<close>). A result is a sum with the error on the left,
  an \<open>Option\<close> an option. Integers of 64 and 32 bits are naturals with the checked and saturating operations
  written out, or words where the code works bitwise or stores them in bytes (the receipt filter, the networks, the
  records of lines); \<^theory_text>\<open>Le_Bytes\<close> has their little-endian bytes and both round trips. A string is the list of its
  scalar values, a byte buffer a list of 8-bit words; the date recognizer, which works on bytes, has them as
  numbers below 256. A \<open>BTreeMap\<close> is an association list in key order. What the code takes from crates is an
  argument: the record \<open>std_env\<close> (lower-casing, float arithmetic) in the learning crate, the record \<open>world\<close>
  (regular expressions, Aho-Corasick, \<open>chrono\<close>'s format parsers, \<open>serde_json\<close>) in the separation and the
  record \<open>chrono\<close> (calendar, clock and the zone of the machine) in the dates. The query language takes
  \<open>query_world\<close> (Unicode tables, the \<open>regex\<close> crate, the catalogs of threats and detections, and in it the records
  \<open>floats\<close> and \<open>instants\<close> for \<open>f64\<close> and the parsers of instants), \<open>match_world\<close> (JSON and instants as text) and
  \<open>query_ctx\<close>, the event with the roles \<open>entities.rs\<close> extracts from it. The checkpoints take \<open>journal_world\<close>
  (SHA-256, the JSON of a manifest, of which only that it is read back as written is assumed), the files \<open>scratch\<close> (whether a file can be
  created and how much it takes), and the records of answers \<open>checkpoint_env\<close>, \<open>open_env\<close> and \<open>map_env\<close>: which
  cancellation, validation of the source or write stops an operation.

  \<^bold>\<open>Learning crate\<close> (\<open>crates/log-learning/src\<close>).
  \<^item> \<^theory_text>\<open>Learn_Seen\<close>: \<open>seen.rs\<close>, the Bloom filter of receipts. An inserted key is always found again.
  \<^item> \<^theory_text>\<open>Learn_Model\<close>, \<^theory_text>\<open>Learn_Train\<close>: \<open>model.rs\<close>, the online model: contexts, clusters, histograms and
    transitions, \<open>train_counts\<close> with its halving. Every model training reaches passes \<open>validate\<close>; what was
    trained is recognised; anchors are kept. The counters of a context are the locale \<open>counter_table\<close>
    (\<^theory_text>\<open>Counter_Table\<close>), interpreted on the code's maps.
  \<^item> \<^theory_text>\<open>Learn_Shared\<close>, \<^theory_text>\<open>Learn_Share_Laws\<close>, \<^theory_text>\<open>Learn_Observe\<close>, \<^theory_text>\<open>Learn_Merge\<close>: \<open>shared.rs\<close>, the public
    protocol. Contributions built by \<open>observe\<close> and sealed validate; merging counts everything, commutes, is
    idempotent for the same contribution and fails only for capacity.

  \<^bold>\<open>Separation of a file\<close> (\<open>src-tauri/src/log_split\<close>).
  \<^item> \<^theory_text>\<open>Split_Codec\<close>: \<open>codec.rs\<close>, line breaks in encodings of one and two bytes.
  \<^item> \<^theory_text>\<open>Split_Rule\<close>, \<^theory_text>\<open>Split_Rule_Laws\<close>: \<open>spec.rs\<close> and \<open>rule.rs\<close>, conditions and the reader of dates;
    \<open>fate\<close> answers for the rest of the file only what \<open>decide\<close> would.
  \<^item> \<^theory_text>\<open>Split_Framing\<close>, \<^theory_text>\<open>Split_Reader\<close>: \<open>framing.rs\<close>, the bounded buffer that cuts the file in items; the
    spans it gives tile the file. A separator longer than the 16 MiB of a piece, which is accepted, makes
    it loop, which is proved as a defect; the statements about the pass ask for a shorter one.
  \<^item> \<^theory_text>\<open>Split_Stream\<close>, \<^theory_text>\<open>Split_Pass\<close>, \<^theory_text>\<open>Split_Outputs\<close>, \<^theory_text>\<open>Split_Scan\<close>: \<open>stream.rs\<close> and \<open>outputs.rs\<close>, the pass
    with its binary search over sorted dates. The sink is the locale \<open>byte_sink\<close>, interpreted on the two output
    files and on the decision map: the two strategies agree, the outputs are the items in order, and the pass
    decides as the scan of every item does. \<open>plan_pass\<close> is what a pass says of every byte, for any sink. The
    encoding of a typed separator (\<open>encode\<close> of \<open>codec.rs\<close>) is in \<^theory_text>\<open>Split_Stream\<close>; what \<open>compile_framing\<close>
    accepts is never an empty separator.
  \<^item> \<^theory_text>\<open>Split_Map\<close>, \<^theory_text>\<open>Split_Journal\<close>, \<^theory_text>\<open>Split_Crash\<close>, \<^theory_text>\<open>Split_Carve\<close>, \<^theory_text>\<open>Split_Undo\<close>, \<^theory_text>\<open>Split_Assemble\<close>,
    \<^theory_text>\<open>Split_Recover\<close>: \<open>lowspace.rs\<close>, the separation of a file the disk cannot hold twice, as a sequence of
    effects on a disk of which a crash leaves a prefix, the last one possibly torn; a save of the journal
    (a temporary file, a flush, a rename) is taken to be one atomic, durable step. From every disk carving and
    assembling can leave, the complete outputs can be produced, and until assembling the original; a disk torn
    inside the write of an undo is stuck, which is proved as a defect.

  \<^bold>\<open>Dates\<close> (\<open>src-tauri/src/sources/stamp.rs\<close>).
  \<^item> \<^theory_text>\<open>Stamp_Cursor\<close>, \<^theory_text>\<open>Stamp_Formats\<close>, \<^theory_text>\<open>Stamp_Dates\<close>, \<^theory_text>\<open>Stamp_Find\<close>: the cursor, the readers of
    times and zones, the recognizers in the order the code tries them, and the searches. The separation's
    reader of dates calls these definitions.
  \<^item> \<^theory_text>\<open>Stamp_Moves\<close>: every reader leaves the cursor inside the bytes, so what is found can be cut out.
  \<^item> \<^theory_text>\<open>Stamp_Ranges\<close>: every field read is in range.
  \<^item> \<^theory_text>\<open>Stamp_Laws\<close>: the search answers the leftmost complete date; a moment written in ISO form is read back;
    the order of day and month is learned only from evidence.

  \<^bold>\<open>Admission of work\<close>.
  \<^item> \<^theory_text>\<open>Scheduler\<close>: \<open>global_scheduler.rs\<close>, each critical section a function and their interleaving a step
    relation: no overcommitment, no starvation, and a race between the two sections of \<open>lend_idle\<close>.
  \<^item> \<^theory_text>\<open>Work_Budget\<close>, \<^theory_text>\<open>Work_Ledger\<close>: \<open>case_work_budget.rs\<close>, pools that charge an owner, a parent and
    themselves: a reservation is all or nothing, the reported pressure is exact (and names the application also for requests nothing can relieve), and with every atomic
    update a step of its own the ledger is conserved under every interleaving.

  \<^bold>\<open>Query language\<close> (\<open>src-tauri/src/querylang.rs\<close>, with \<open>ci_contains_bytes\<close> of \<open>query.rs\<close>, \<open>field_value\<close> of
  \<open>security_normalize.rs\<close>, the instants and levels of \<open>sources.rs\<close>, the numbers of \<open>analysis.rs\<close> and \<open>model.rs\<close> and the
  tables of roles of \<open>entities.rs\<close>).
  \<^item> \<^theory_text>\<open>Query_Net\<close>, \<^theory_text>\<open>Query_Time\<close>: what typed values become: networks on words of the address width,
    instants, levels and numbers with a unit. A network holds exactly the addresses of its block.
  \<^item> \<^theory_text>\<open>Query_Expr\<close>, \<^theory_text>\<open>Query_Parser\<close>: expressions and the recursive descent that builds them, its methods
    programs over the position, the depth and the nodes charged; \<open>compile\<close> under its policies.
  \<^item> \<^theory_text>\<open>Query_Laws\<close>: compiling returns for every query and panics only at an unclosed bracket; what it
    accepts is within the budgets of depth and nodes, and within the credit of a preserved query.
  \<^item> \<^theory_text>\<open>Query_Match\<close>, \<^theory_text>\<open>Query_Check\<close>, \<^theory_text>\<open>Query_Line\<close>: testing an event, and deciding it from the raw line and
    the index instead. The byte search is exact, simplification changes no answer, and a decision taken from
    the line is the one the parsed event would give when the line holds the values as they are tested; a list
    or object is tested as compact JSON, and the condition is proved to be needed.

  \<^bold>\<open>Line metadata\<close> (\<open>src-tauri/src/metadata_store.rs\<close> and \<open>metadata_checkpoint.rs\<close>).
  \<^item> \<^theory_text>\<open>Line_Store\<close>, \<^theory_text>\<open>Line_Laws\<close>: \<open>LineStore\<close>, spans over shared records of 27 bytes. A store stands for
    the list of its rows: reading, slicing, joining with relocation and overlaying timestamps are the operations of
    lists, and joining is refused exactly when a position or the count would overflow. Offsets are words that
    wrap as in a release build; that no row of a well formed store wraps is part of what is proved.
  \<^item> \<^theory_text>\<open>Line_Views\<close>: \<open>LineRange\<close>, \<open>LineIter\<close>, \<open>LineChunks\<close>. Stores and ranges are the two providers of the
    locale \<open>row_source\<close>, where the search by halves is proved once; an iterator is a queue with two ends.
  \<^item> \<^theory_text>\<open>Line_Build\<close>, \<^theory_text>\<open>Line_Build_Laws\<close>: \<open>LineBuilder\<close> and \<open>TimestampWriter\<close> over buffered files. What is
    published holds the rows pushed; a chunk read back is the rows of its range.
  \<^item> \<^theory_text>\<open>Line_Journal\<close>, \<^theory_text>\<open>Line_Crash\<close>, \<^theory_text>\<open>Line_Restore\<close>: the journal of records and its manifest. Opening and
    a checkpoint are sequences of effects with every place they can stop at. A crash keeps what was synced, puts
    anything after it and may bring back the manifest from before the rename. Restoring then gives what it gave before the checkpoint or
    exactly what the checkpoint was given; whatever the disk holds, the rows accepted are in order inside the
    source. The invariant \<open>journal_on\<close> holds after opening a valid journal or a new one and after every
    checkpoint that ends well. A reset does not make the removal of an old manifest durable: until the next
    checkpoint the invariant is not claimed, and the code relies on the hash of the rows to refuse that manifest.
  \<^item> \<^theory_text>\<open>Line_Mapped\<close>: \<open>open_complete\<close>, which verifies a complete journal and maps it as a store without
    decoding it. It answers with the rows a restore gives back, and nothing where a restore refuses.

  \<^bold>\<open>How they meet.\<close> The pass of the separation reads dates with the recognizer, cuts items with the codec
  and writes to a sink; the low-space strategy is the same pass with the decision map as sink, and carving
  reads that map back. Instants
  typed in a query are read by the same recognizer as those of the lines.

  \<^bold>\<open>Recursion and fuel.\<close> Loops that consume bytes recurse on what is left, with a measure. The pass over
  the file is a partial function; \<open>run_pass_ends\<close> proves that it returns on every file, for every framing accepted with a separator
  under 16 MiB. \<open>reserve\<close> recurses
  on the pool the policy selects, which may be the same; \<open>reserve_returns\<close> proves that it ends. In the
  parser of queries the nesting carries \<open>MAX_QUERY_DEPTH + 1\<close> of fuel, since every nested call passes the check of
  the depth, and each loop one more than the characters of the query, since every turn reads one;
  \<open>compile_returns\<close> proves that the error of running out is never answered.

  \<^bold>\<open>Not modelled.\<close> The query engine and everything that is SQL over DuckDB, SQLite or the Tantivy index
  (events, projections, exclusions, case evidence, detections), whose behaviour is the engines'; the parsers of
  \<open>sources.rs\<close> built on regular expressions, apart from the functions the separation and the queries use; the
  extraction of entities (\<open>entities.rs\<close>), the excerpts of evidence and the projections of a query to the engine;
  network and window commands; and, in the parts modelled, the receipts of verified checkpoints
  and the generations of files (\<open>cache_validation.rs\<close>), pruning, locks and leases of files, the accounting of memory, text
  decoding by \<open>encoding_rs\<close>, progress reports, file handles and the thread-local context of the scheduler.

  \<^bold>\<open>Plan.\<close> Next: the cancellations that arrive before their operation (\<open>operations.rs\<close>) and the budgets of
  the machine (\<open>resources.rs\<close>, \<open>case_resources.rs\<close>).
\<close>

end
